(* ===== verification/Prelude.thy ===== *)
theory Prelude
  imports Main "HOL-Library.Word"
begin

text \<open>
  Shared vocabulary of the development: the machine integers of the Rust sources, the slice and
  array operations of the Rust standard library that the modelled code calls, and generic facts
  about lists, options and words.

  Conventions. A \<open>u8\<close>, \<open>u16\<close>, \<open>u32\<close> or \<open>u64\<close> is a word of that width. A slice, a \<open>Vec\<close> or a
  fixed-size array is a list; the length a Rust array type fixes is stated as a well-formedness
  predicate. A \<open>usize\<close> that counts or indexes is a \<open>nat\<close>. A \<open>Result\<close> is a sum with the error on
  the left, and a \<open>\<^verbatim>\<open>&mut\<close>\<close> argument is an extra result.
\<close>

unbundle bit_operations_syntax

named_theorems table_simps \<open>column and row facts of the struct-of-arrays tables\<close>

section \<open>Machine integers\<close>

type_synonym u8 = "8 word"
type_synonym u16 = "16 word"
type_synonym u32 = "32 word"
type_synonym u64 = "64 word"

text \<open>The largest \<open>usize\<close> of a 64-bit target.\<close>

definition USIZE_MAX :: nat where
  "USIZE_MAX = 2 ^ 64 - 1"

text \<open>Rust's \<open>saturating_add\<close>, \<open>saturating_sub\<close> and \<open>saturating_mul\<close> on unsigned integers.\<close>

definition saturating_add :: "'a::len word \<Rightarrow> 'a word \<Rightarrow> 'a word" where
  "saturating_add a b = (if unat a + unat b < 2 ^ LENGTH('a) then a + b else - 1)"

definition saturating_sub :: "'a::len word \<Rightarrow> 'a word \<Rightarrow> 'a word" where
  "saturating_sub a b = (if a < b then 0 else a - b)"

definition saturating_mul :: "'a::len word \<Rightarrow> 'a word \<Rightarrow> 'a word" where
  "saturating_mul a b = (if unat a * unat b < 2 ^ LENGTH('a) then a * b else - 1)"

lemma unat_minus_one_word_max: "unat (- 1 :: 'a::len word) = 2 ^ LENGTH('a) - 1"
  by (simp add: unsigned_minus_1_eq_mask mask_eq_exp_minus_1)

lemma le_pow_minus_one_iff: "(x \<le> 2 ^ n - Suc 0) = (x < (2 :: nat) ^ n)"
proof -
  have "(0 :: nat) < 2 ^ n" by simp
  then show ?thesis by linarith
qed

lemma unat_less_pow: "unat (a :: 'a::len word) < 2 ^ LENGTH('a)"
  by (rule unsigned_less)

lemma unat_saturating_add:
  fixes a b :: "'a::len word"
  shows "unat (saturating_add a b) = min (unat a + unat b) (2 ^ LENGTH('a) - 1)"
  by (auto simp: saturating_add_def unat_word_ariths unat_minus_one_word_max min_def)

lemma unat_saturating_sub:
  fixes a b :: "'a::len word"
  shows "unat (saturating_sub a b) = unat a - unat b"
proof (cases "a < b")
  case True
  then have "unat a < unat b" by (simp add: word_less_nat_alt)
  with True show ?thesis by (simp add: saturating_sub_def)
next
  case False
  then show ?thesis by (simp add: saturating_sub_def unat_sub)
qed

lemma unat_saturating_mul:
  fixes a b :: "'a::len word"
  shows "unat (saturating_mul a b) = min (unat a * unat b) (2 ^ LENGTH('a) - 1)"
  by (simp add: saturating_mul_def unat_word_ariths unat_minus_one_word_max min_def le_pow_minus_one_iff)

lemma saturating_add_mono:
  fixes a a' b b' :: "'a::len word"
  assumes "a \<le> a'" and "b \<le> b'"
  shows "saturating_add a b \<le> saturating_add a' b'"
  using assms by (auto simp: word_le_nat_alt unat_saturating_add)

lemma saturating_add_ge_left: "a \<le> saturating_add a (b :: 'a::len word)"
  by (simp add: word_le_nat_alt unat_saturating_add le_pow_minus_one_iff)

text \<open>A statement about every byte follows from its 256 instances, which evaluate.\<close>

lemma u8_exhaust:
  assumes "\<forall>m\<in>set (map word_of_nat [0..<256]). P m"
  shows "P (x :: u8)"
proof -
  have "x = word_of_nat (unat x)" by simp
  moreover have "unat x < 256" using unat_less_pow [of x] by simp
  ultimately have "x \<in> set (map word_of_nat [0..<256])" by (metis atLeast0LessThan imageI lessThan_iff set_map set_upt)
  with assms show ?thesis by blast
qed

section \<open>Slices and arrays\<close>

text \<open>
  \<open>slice::split_first\<close> and \<open>slice::split_first_chunk\<close>: the first element, or the first \<open>n\<close>
  elements, and the rest, when there are enough of them.
\<close>

fun split_first :: "'a list \<Rightarrow> ('a \<times> 'a list) option" where
  "split_first [] = None"
| "split_first (x # xs) = Some (x, xs)"

definition split_first_chunk :: "nat \<Rightarrow> 'a list \<Rightarrow> ('a list \<times> 'a list) option" where
  "split_first_chunk n xs = (if n \<le> length xs then Some (take n xs, drop n xs) else None)"

text \<open>
  \<open>buf[off..off + src.len()].copy_from_slice(src)\<close>, for a range inside the buffer.
\<close>

definition copy_into :: "'a list \<Rightarrow> nat \<Rightarrow> 'a list \<Rightarrow> 'a list" where
  "copy_into buf off src = take off buf @ src @ drop (off + length src) buf"

lemma length_copy_into [simp]:
  "off + length src \<le> length buf \<Longrightarrow> length (copy_into buf off src) = length buf"
  by (simp add: copy_into_def)

lemma take_copy_into [simp]:
  "off + length src \<le> length buf \<Longrightarrow> n \<le> off \<Longrightarrow> take n (copy_into buf off src) = take n buf"
  by (simp add: copy_into_def)

lemma take_copy_into_end:
  assumes "off + length src \<le> length buf"
  shows "take (off + length src) (copy_into buf off src) = take off buf @ src"
  using assms by (simp add: copy_into_def)

lemma drop_copy_into [simp]:
  assumes "off + length src \<le> length buf" and "off + length src \<le> n"
  shows "drop n (copy_into buf off src) = drop n buf"
  using assms by (simp add: copy_into_def)

lemma split_first_Some_iff [simp]: "split_first xs = Some (x, r) \<longleftrightarrow> xs = x # r"
  by (cases xs) auto

lemma split_first_None_iff [simp]: "split_first xs = None \<longleftrightarrow> xs = []"
  by (cases xs) auto

lemma split_first_chunk_Some_iff:
  "split_first_chunk n xs = Some (c, r) \<longleftrightarrow> xs = c @ r \<and> length c = n"
  by (auto simp: split_first_chunk_def)

lemma copy_into_append:
  assumes "off + length xs \<le> length buf"
  shows "copy_into (copy_into buf off xs) (off + length xs) ys = copy_into buf off (xs @ ys)"
  using assms by (simp add: copy_into_def ac_simps)

lemma drop_update_head: "n < length xs \<Longrightarrow> (drop n xs)[0 := v] = v # drop (Suc n) xs"
  by (simp add: Cons_nth_drop_Suc [symmetric])

lemma update_copy_into:
  assumes "off + length xs < length buf"
  shows "(copy_into buf off xs)[off + length xs := v] = copy_into buf off (xs @ [v])"
  using assms by (simp add: copy_into_def list_update_append drop_update_head add.assoc)

lemma update_pair_copy_into:
  assumes "off + 2 \<le> length buf"
  shows "buf[off := a, off + 1 := b] = copy_into buf off [a, b]"
proof -
  have "buf = take off buf @ buf ! off # buf ! Suc off # drop (off + 2) buf"
    using assms by (simp add: Cons_nth_drop_Suc)
  then have "buf[off := a, off + 1 := b] =
    (take off buf @ buf ! off # buf ! Suc off # drop (off + 2) buf)[off := a, off + 1 := b]"
    by simp
  also have "\<dots> = copy_into buf off [a, b]"
    using assms by (simp add: copy_into_def list_update_append)
  finally show ?thesis .
qed

text \<open>
  \<open>iter().position(p)\<close>: the index of the first element that satisfies the predicate.
\<close>

fun position :: "('a \<Rightarrow> bool) \<Rightarrow> 'a list \<Rightarrow> nat option" where
  "position p [] = None"
| "position p (x # xs) = (if p x then Some 0 else map_option Suc (position p xs))"

lemma position_None_iff: "position p xs = None \<longleftrightarrow> (\<forall>x\<in>set xs. \<not> p x)"
  by (induction xs) auto

lemma position_map: "position P (map f xs) = position (\<lambda>x. P (f x)) xs"
  by (induction xs) auto

lemma position_Some_iff:
  "position p xs = Some i \<longleftrightarrow> i < length xs \<and> p (xs ! i) \<and> (\<forall>j<i. \<not> p (xs ! j))"
proof (induction xs arbitrary: i)
  case Nil
  then show ?case by simp
next
  case (Cons x xs)
  show ?case
  proof (cases i)
    case 0
    then show ?thesis by auto
  next
    case (Suc k)
    with Cons.IH [of k] show ?thesis by (auto simp: less_Suc_eq_0_disj)
  qed
qed

lemma position_lessD: "position p xs = Some i \<Longrightarrow> i < length xs"
  by (simp add: position_Some_iff)

lemma position_holdsD: "position p xs = Some i \<Longrightarrow> p (xs ! i)"
  by (simp add: position_Some_iff)

lemma position_append:
  "position p (xs @ ys) =
     (case position p xs of
        Some i \<Rightarrow> Some i
      | None \<Rightarrow> map_option (\<lambda>j. length xs + j) (position p ys))"
proof (induction xs)
  case Nil
  show ?case by (cases "position p ys") simp_all
next
  case (Cons x xs)
  then show ?case
    by (cases "position p ys") (auto split: option.splits)
qed

lemma position_split:
  assumes "position p xs = Some i"
  shows "xs = take i xs @ xs ! i # drop (Suc i) xs"
  using assms by (simp add: position_Some_iff id_take_nth_drop)

text \<open>
  The row operations of the struct-of-arrays tables: \<open>swap_remove\<close> moves the last row into the
  hole and drops the last row.
\<close>

definition swap_remove_list :: "nat \<Rightarrow> 'a list \<Rightarrow> 'a list" where
  "swap_remove_list i xs = butlast (xs[i := last xs])"

lemma length_swap_remove_list [simp]: "length (swap_remove_list i xs) = length xs - 1"
  by (simp add: swap_remove_list_def)

lemma nth_swap_remove_list:
  assumes "i < length xs" and "j < length xs - 1"
  shows "swap_remove_list i xs ! j = (if j = i then last xs else xs ! j)"
  using assms by (auto simp: swap_remove_list_def nth_butlast nth_list_update)

text \<open>\<open>xs[off..off + n]\<close>, and \<open>copy_within(from..from + n, to)\<close>.\<close>

definition slice :: "'a list \<Rightarrow> nat \<Rightarrow> nat \<Rightarrow> 'a list" where
  "slice xs off n = take n (drop off xs)"

definition copy_within :: "'a list \<Rightarrow> nat \<Rightarrow> nat \<Rightarrow> nat \<Rightarrow> 'a list" where
  "copy_within xs from n to = copy_into xs to (slice xs from n)"

lemma nth_copy_into:
  assumes "off + length src \<le> length buf" "p < length buf"
  shows "copy_into buf off src ! p =
    (if off \<le> p \<and> p < off + length src then src ! (p - off) else buf ! p)"
  using assms by (auto simp: copy_into_def nth_append)

lemma length_slice [simp]: "off + n \<le> length xs \<Longrightarrow> length (slice xs off n) = n"
  by (simp add: slice_def)

lemma nth_slice [simp]: "off + n \<le> length xs \<Longrightarrow> k < n \<Longrightarrow> slice xs off n ! k = xs ! (off + k)"
  by (simp add: slice_def)

lemma slice_cong:
  assumes "i + n \<le> length xs" "j + n \<le> length ys" "\<And>k. k < n \<Longrightarrow> xs ! (i + k) = ys ! (j + k)"
  shows "slice xs i n = slice ys j n"
  using assms by (intro nth_equalityI) simp_all

lemma length_copy_within [simp]:
  "from + n \<le> length xs \<Longrightarrow> to + n \<le> length xs \<Longrightarrow> length (copy_within xs from n to) = length xs"
  by (simp add: copy_within_def)

lemma nth_copy_within:
  assumes "from + n \<le> length xs" "to + n \<le> length xs" "p < length xs"
  shows "copy_within xs from n to ! p = (if to \<le> p \<and> p < to + n then xs ! (from + (p - to)) else xs ! p)"
proof -
  have "p - to < n" if "to \<le> p" "p < to + n" using that by linarith
  then show ?thesis
    using assms by (auto simp: copy_within_def nth_copy_into)
qed

section \<open>Big-endian bytes\<close>

text \<open>\<open>u64::from_be_bytes\<close> and \<open>u64::to_be_bytes\<close>, and the number a byte string stands for.\<close>

definition from_be_bytes :: "u8 list \<Rightarrow> u64" where
  "from_be_bytes bs = foldl (\<lambda>acc b. push_bit 8 acc OR ucast b) 0 bs"

definition to_be_bytes :: "u64 \<Rightarrow> u8 list" where
  "to_be_bytes w = map (\<lambda>i. ucast (drop_bit (8 * i) w)) (rev [0..<8])"

fun be_nat :: "u8 list \<Rightarrow> nat" where
  "be_nat [] = 0"
| "be_nat (b # bs) = unat b * 256 ^ length bs + be_nat bs"

lemma be_nat_bound: "be_nat bs < 256 ^ length bs"
proof (induction bs)
  case Nil
  then show ?case by simp
next
  case (Cons b bs)
  have "unat b + 1 \<le> 256" using unat_less_pow [of b] by simp
  then have "(unat b + 1) * 256 ^ length bs \<le> 256 * 256 ^ length bs" by (rule mult_le_mono1)
  then have "unat b * 256 ^ length bs + 256 ^ length bs \<le> 256 * 256 ^ length bs" by (simp only: distrib_right mult_1)
  with Cons show ?case by (simp only: be_nat.simps list.size power_Suc add_0_right add_Suc_right)
qed

lemma be_nat_append: "be_nat (xs @ ys) = be_nat xs * 256 ^ length ys + be_nat ys"
  by (induction xs) (auto simp: algebra_simps power_add)

lemma be_nat_zeros [simp]: "be_nat (replicate n 0 @ xs) = be_nat xs"
  by (induction n) auto

lemma from_be_bytes_snoc: "from_be_bytes (bs @ [b]) = push_bit 8 (from_be_bytes bs) OR ucast b"
  by (simp add: from_be_bytes_def)

lemma push_byte_or:
  fixes x :: u64 and b :: u8
  assumes "unat x < 2 ^ 56"
  shows "unat (push_bit 8 x OR ucast b) = unat x * 256 + unat b"
proof -
  have "push_bit 8 x OR ucast b = push_bit 8 x + ucast b"
    by (rule disjunctive_add [symmetric]) (auto simp: bit_simps dest: bit_imp_le_length)
  moreover have "unat (push_bit 8 x) = unat x * 256"
    using assms by (simp add: push_bit_eq_mult unat_word_ariths)
  moreover have "unat (ucast b :: u64) = unat b"
    by (simp add: unsigned_ucast_eq take_bit_nat_eq_self_iff less_trans [OF unat_less_pow [of b]])
  ultimately show ?thesis
    using assms unat_less_pow [of b] by (simp add: unat_word_ariths)
qed

lemma unat_from_be_bytes: "length bs \<le> 8 \<Longrightarrow> unat (from_be_bytes bs) = be_nat bs"
proof (induction bs rule: rev_induct)
  case Nil
  then show ?case by (simp add: from_be_bytes_def)
next
  case (snoc b bs)
  have "be_nat bs < 256 ^ length bs" by (rule be_nat_bound)
  also have "(256 :: nat) ^ length bs \<le> 256 ^ 7"
    using snoc.prems by (intro power_increasing) auto
  finally have "unat (from_be_bytes bs) < 2 ^ 56" using snoc by simp
  from push_byte_or [OF this, of b] show ?case
    using snoc by (simp add: from_be_bytes_snoc be_nat_append)
qed

lemma be_nat_digits:
  "be_nat (map (\<lambda>i. ucast (drop_bit (8 * i) w)) (rev [0..<n])) = unat (w :: u64) mod 256 ^ n"
proof (induction n)
  case 0
  then show ?case by simp
next
  case (Suc n)
  have "unat (ucast (drop_bit (8 * n) w) :: u8) = unat w div 256 ^ n mod 256"
    by (simp only: unsigned_ucast_eq unsigned_drop_bit_eq) 
      (use unat_less_pow [of w] in \<open>simp add: drop_bit_eq_div take_bit_eq_mod power_mult\<close>)
  with Suc show ?case
    by (simp add: mod_mult2_eq [of "unat w" "256 ^ n" 256, simplified mult.commute [of "256 ^ n" 256]] mult.commute)
qed

lemma length_to_be_bytes [simp]: "length (to_be_bytes w) = 8"
  by (simp add: to_be_bytes_def)

lemma be_nat_drop_to_be_bytes:
  assumes "k \<le> 8"
  shows "be_nat (drop k (to_be_bytes w)) = unat w mod 256 ^ (8 - k)"
proof -
  have "drop k (rev [0..<8]) = rev [0..<8 - k]"
    using assms by (simp add: drop_rev)
  then show ?thesis
    using be_nat_digits [of w "8 - k"] by (simp add: to_be_bytes_def drop_map)
qed

end
