(* ===== verification/Wire.thy ===== *)
theory Wire
  imports Prelude
begin

text \<open>
  The packet header of the wire protocol: \<^verbatim>\<open>prns-core/src/wire\<close>. The flag enums with their
  \<open>from_bits\<close> functions, the context byte, the addresses, the size limits, and
  \<open>WirePacketHeader::parse\<close> and \<open>WirePacketHeader::write\<close>.
\<close>

section \<open>Limits\<close>

definition TRUNCATED_HASH_BYTE_LEN :: nat where
  "TRUNCATED_HASH_BYTE_LEN = 16"

definition BROADCAST_MTU :: nat where
  "BROADCAST_MTU = 500"

definition MAX_HOP_COUNT :: u8 where
  "MAX_HOP_COUNT = 128"

definition wire_hop_count_is_valid :: "u8 \<Rightarrow> bool" where
  "wire_hop_count_is_valid hops \<longleftrightarrow> hops < MAX_HOP_COUNT"

definition HEADER_MIN_LEN :: nat where
  "HEADER_MIN_LEN = 2 + TRUNCATED_HASH_BYTE_LEN + 1"

definition HEADER_MAX_LEN :: nat where
  "HEADER_MAX_LEN = 2 + TRUNCATED_HASH_BYTE_LEN * 2 + 1"

definition IFAC_MIN_LEN :: nat where
  "IFAC_MIN_LEN = 1"

definition BROADCAST_MDU :: nat where
  "BROADCAST_MDU = BROADCAST_MTU - HEADER_MAX_LEN - IFAC_MIN_LEN"

lemmas wire_limits = TRUNCATED_HASH_BYTE_LEN_def HEADER_MIN_LEN_def HEADER_MAX_LEN_def

section \<open>Flags\<close>

datatype context_flag = Unset | Set

definition context_flag_from_bits :: "u8 \<Rightarrow> context_flag" where
  "context_flag_from_bits bits = (if bits AND 1 = 0 then Unset else Set)"

fun context_flag_as_u8 :: "context_flag \<Rightarrow> u8" where
  "context_flag_as_u8 Unset = 0"
| "context_flag_as_u8 Set = 1"

datatype propagation_type = Broadcast | Transport

definition propagation_type_from_bits :: "u8 \<Rightarrow> propagation_type" where
  "propagation_type_from_bits bits = (if bits AND 1 = 0 then Broadcast else Transport)"

fun propagation_type_as_u8 :: "propagation_type \<Rightarrow> u8" where
  "propagation_type_as_u8 Broadcast = 0"
| "propagation_type_as_u8 Transport = 1"

datatype destination_type = Single | Group | Plain | Link

definition destination_type_from_bits :: "u8 \<Rightarrow> destination_type" where
  "destination_type_from_bits bits =
     (if bits AND 3 = 0 then Single
      else if bits AND 3 = 1 then Group
      else if bits AND 3 = 2 then Plain
      else Link)"

fun destination_type_as_u8 :: "destination_type \<Rightarrow> u8" where
  "destination_type_as_u8 Single = 0"
| "destination_type_as_u8 Group = 1"
| "destination_type_as_u8 Plain = 2"
| "destination_type_as_u8 Link = 3"

datatype packet_type = Data | Announce | LinkRequest | Proof

definition packet_type_from_bits :: "u8 \<Rightarrow> packet_type" where
  "packet_type_from_bits bits =
     (if bits AND 3 = 0 then Data
      else if bits AND 3 = 1 then Announce
      else if bits AND 3 = 2 then LinkRequest
      else Proof)"

fun packet_type_as_u8 :: "packet_type \<Rightarrow> u8" where
  "packet_type_as_u8 Data = 0"
| "packet_type_as_u8 Announce = 1"
| "packet_type_as_u8 LinkRequest = 2"
| "packet_type_as_u8 Proof = 3"

datatype ifac_flag = Open | Authenticated

definition ifac_flag_from_bits :: "u8 \<Rightarrow> ifac_flag" where
  "ifac_flag_from_bits bits = (if bits AND 1 = 0 then Open else Authenticated)"

fun ifac_flag_as_u8 :: "ifac_flag \<Rightarrow> u8" where
  "ifac_flag_as_u8 Open = 0"
| "ifac_flag_as_u8 Authenticated = 1"

section \<open>The context byte\<close>

datatype wire_context =
    ContextNone
  | Resource
  | ResourceAdvertisement
  | ResourceRequest
  | ResourceHashUpdate
  | ResourceProof
  | ResourceInitiatorCancel
  | ResourceReceiverCancel
  | CacheRequest
  | Request
  | Response
  | PathResponse
  | Command
  | CommandStatus
  | Channel
  | KeepAlive
  | LinkIdentify
  | LinkClose
  | LinkProof
  | LinkRtt
  | LinkRequestProof
  | Unknown u8

definition wire_context_from_byte :: "u8 \<Rightarrow> wire_context" where
  "wire_context_from_byte byte =
     (if byte = 0x00 then ContextNone
      else if byte = 0x01 then Resource
      else if byte = 0x02 then ResourceAdvertisement
      else if byte = 0x03 then ResourceRequest
      else if byte = 0x04 then ResourceHashUpdate
      else if byte = 0x05 then ResourceProof
      else if byte = 0x06 then ResourceInitiatorCancel
      else if byte = 0x07 then ResourceReceiverCancel
      else if byte = 0x08 then CacheRequest
      else if byte = 0x09 then Request
      else if byte = 0x0A then Response
      else if byte = 0x0B then PathResponse
      else if byte = 0x0C then Command
      else if byte = 0x0D then CommandStatus
      else if byte = 0x0E then Channel
      else if byte = 0xFA then KeepAlive
      else if byte = 0xFB then LinkIdentify
      else if byte = 0xFC then LinkClose
      else if byte = 0xFD then LinkProof
      else if byte = 0xFE then LinkRtt
      else if byte = 0xFF then LinkRequestProof
      else Unknown byte)"

fun wire_context_to_byte :: "wire_context \<Rightarrow> u8" where
  "wire_context_to_byte ContextNone = 0x00"
| "wire_context_to_byte Resource = 0x01"
| "wire_context_to_byte ResourceAdvertisement = 0x02"
| "wire_context_to_byte ResourceRequest = 0x03"
| "wire_context_to_byte ResourceHashUpdate = 0x04"
| "wire_context_to_byte ResourceProof = 0x05"
| "wire_context_to_byte ResourceInitiatorCancel = 0x06"
| "wire_context_to_byte ResourceReceiverCancel = 0x07"
| "wire_context_to_byte CacheRequest = 0x08"
| "wire_context_to_byte Request = 0x09"
| "wire_context_to_byte Response = 0x0A"
| "wire_context_to_byte PathResponse = 0x0B"
| "wire_context_to_byte Command = 0x0C"
| "wire_context_to_byte CommandStatus = 0x0D"
| "wire_context_to_byte Channel = 0x0E"
| "wire_context_to_byte KeepAlive = 0xFA"
| "wire_context_to_byte LinkIdentify = 0xFB"
| "wire_context_to_byte LinkClose = 0xFC"
| "wire_context_to_byte LinkProof = 0xFD"
| "wire_context_to_byte LinkRtt = 0xFE"
| "wire_context_to_byte LinkRequestProof = 0xFF"
| "wire_context_to_byte (Unknown byte) = byte"

lemma wire_context_to_from_byte [simp]: "wire_context_to_byte (wire_context_from_byte b) = b"
  by (simp add: wire_context_from_byte_def)

text \<open>
  A context value is canonical when it is one that decoding can produce, which excludes
  \<open>Unknown\<close> of a byte that has a name.
\<close>

definition canonical_context :: "wire_context \<Rightarrow> bool" where
  "canonical_context c \<longleftrightarrow> wire_context_from_byte (wire_context_to_byte c) = c"

lemma canonical_context_from_byte [simp]: "canonical_context (wire_context_from_byte b)"
  by (simp add: canonical_context_def)

lemma canonical_context_named: "\<not> (\<exists>b. c = Unknown b) \<Longrightarrow> canonical_context c"
  by (cases c) (simp_all add: canonical_context_def wire_context_from_byte_def)

section \<open>Addresses and the header\<close>

datatype wire_address = WireAddress (address_bytes: "u8 list")
datatype destination_hash = DestinationHash (destination_bytes: "u8 list")
datatype transport_id = TransportId (transport_id_bytes: "u8 list")

definition destination_hash_from_slice :: "u8 list \<Rightarrow> destination_hash option" where
  "destination_hash_from_slice bytes =
     (if length bytes = TRUNCATED_HASH_BYTE_LEN then Some (DestinationHash bytes) else None)"

definition destination_hash_from_address :: "wire_address \<Rightarrow> destination_hash" where
  "destination_hash_from_address address = DestinationHash (address_bytes address)"

definition destination_hash_to_address :: "destination_hash \<Rightarrow> wire_address" where
  "destination_hash_to_address destination = WireAddress (destination_bytes destination)"

definition transport_id_from_slice :: "u8 list \<Rightarrow> transport_id option" where
  "transport_id_from_slice bytes =
     (if length bytes = TRUNCATED_HASH_BYTE_LEN then Some (TransportId bytes) else None)"

datatype wire_error = BufferTooShort

record wire_packet_header =
  h_ifac_flag :: ifac_flag
  h_context_flag :: context_flag
  h_propagation :: propagation_type
  h_destination_type :: destination_type
  h_packet_type :: packet_type
  h_hops :: u8
  h_transport_id :: "transport_id option"
  h_address :: wire_address
  h_context :: wire_context


definition wire_len :: "wire_packet_header \<Rightarrow> nat" where
  "wire_len h =
     HEADER_MIN_LEN + (if h_transport_id h \<noteq> None then TRUNCATED_HASH_BYTE_LEN else 0)"

definition header_parse :: "u8 list \<Rightarrow> wire_error + (wire_packet_header \<times> u8 list)" where
  "header_parse bytes =
     (case split_first bytes of None \<Rightarrow> Inl BufferTooShort | Some (meta, rest) \<Rightarrow>
     (case split_first rest of None \<Rightarrow> Inl BufferTooShort | Some (hops, rest) \<Rightarrow>
      let is_type_2 = (drop_bit 6 meta AND 1 = 1);
          ifac = ifac_flag_from_bits (drop_bit 7 meta);
          ctx_flag = context_flag_from_bits (drop_bit 5 meta);
          prop = propagation_type_from_bits (drop_bit 4 meta);
          dest = destination_type_from_bits (drop_bit 2 meta);
          ptype = packet_type_from_bits meta
      in
      (case (if is_type_2
             then (case split_first_chunk TRUNCATED_HASH_BYTE_LEN rest of
                     None \<Rightarrow> Inl BufferTooShort
                   | Some (tid, rest) \<Rightarrow> Inr (Some (TransportId tid), rest))
             else Inr (None, rest)) of
         Inl e \<Rightarrow> Inl e
       | Inr (tid, rest) \<Rightarrow>
      (case split_first_chunk TRUNCATED_HASH_BYTE_LEN rest of
         None \<Rightarrow> Inl BufferTooShort
       | Some (addr, rest) \<Rightarrow>
      (case split_first rest of None \<Rightarrow> Inl BufferTooShort | Some (ctx, rest) \<Rightarrow>
         Inr (\<lparr>h_ifac_flag = ifac, h_context_flag = ctx_flag, h_propagation = prop,
               h_destination_type = dest, h_packet_type = ptype, h_hops = hops,
               h_transport_id = tid, h_address = WireAddress addr,
               h_context = wire_context_from_byte ctx\<rparr>, rest))))))"

definition header_meta_byte :: "wire_packet_header \<Rightarrow> u8" where
  "header_meta_byte h =
     push_bit 7 (ifac_flag_as_u8 (h_ifac_flag h))
     OR push_bit 6 (if h_transport_id h \<noteq> None then 1 else 0)
     OR push_bit 5 (context_flag_as_u8 (h_context_flag h))
     OR push_bit 4 (propagation_type_as_u8 (h_propagation h))
     OR push_bit 2 (destination_type_as_u8 (h_destination_type h))
     OR packet_type_as_u8 (h_packet_type h)"

definition header_write :: "wire_packet_header \<Rightarrow> u8 list \<Rightarrow> wire_error + (u8 list \<times> nat)" where
  "header_write h buf =
     (if length buf < wire_len h then Inl BufferTooShort
      else
        let buf = buf[0 := header_meta_byte h];
            buf = buf[1 := h_hops h];
            offset = 2;
            (buf, offset) =
              (case h_transport_id h of
                 None \<Rightarrow> (buf, offset)
               | Some tid \<Rightarrow>
                   (copy_into buf offset (transport_id_bytes tid), offset + TRUNCATED_HASH_BYTE_LEN));
            buf = copy_into buf offset (address_bytes (h_address h));
            offset = offset + TRUNCATED_HASH_BYTE_LEN;
            buf = buf[offset := wire_context_to_byte (h_context h)];
            offset = offset + 1
        in Inr (buf, offset))"

text \<open>
  What the Rust types guarantee of a header value: the addresses are 16 bytes long. The context is
  in addition canonical when it was decoded.
\<close>

definition header_wf :: "wire_packet_header \<Rightarrow> bool" where
  "header_wf h \<longleftrightarrow>
     length (address_bytes (h_address h)) = TRUNCATED_HASH_BYTE_LEN
     \<and> (\<forall>tid. h_transport_id h = Some tid \<longrightarrow>
          length (transport_id_bytes tid) = TRUNCATED_HASH_BYTE_LEN)"

section \<open>The bytes of a header\<close>

text \<open>
  The layout the source comment draws: flags, hops, optional transport id, destination, context.
\<close>

definition header_bytes :: "wire_packet_header \<Rightarrow> u8 list" where
  "header_bytes h =
     [header_meta_byte h, h_hops h]
     @ (case h_transport_id h of None \<Rightarrow> [] | Some tid \<Rightarrow> transport_id_bytes tid)
     @ address_bytes (h_address h) @ [wire_context_to_byte (h_context h)]"

lemma length_header_bytes: "header_wf h \<Longrightarrow> length (header_bytes h) = wire_len h"
  by (auto simp: header_bytes_def header_wf_def wire_len_def wire_limits split: option.splits)

text \<open>The eight flag bits: packing then unpacking, and unpacking then packing.\<close>

lemma meta_unpack:
  "ifac_flag_from_bits (drop_bit 7 (header_meta_byte h)) = h_ifac_flag h"
  "(drop_bit 6 (header_meta_byte h) AND 1 = 1) = (h_transport_id h \<noteq> None)"
  "context_flag_from_bits (drop_bit 5 (header_meta_byte h)) = h_context_flag h"
  "propagation_type_from_bits (drop_bit 4 (header_meta_byte h)) = h_propagation h"
  "destination_type_from_bits (drop_bit 2 (header_meta_byte h)) = h_destination_type h"
  "packet_type_from_bits (header_meta_byte h) = h_packet_type h"
  by (cases "h_ifac_flag h"; cases "h_context_flag h"; cases "h_propagation h";
      cases "h_destination_type h"; cases "h_packet_type h"; cases "h_transport_id h";
      simp add: header_meta_byte_def ifac_flag_from_bits_def context_flag_from_bits_def
        propagation_type_from_bits_def destination_type_from_bits_def packet_type_from_bits_def)+

lemma meta_pack:
  "push_bit 7 (ifac_flag_as_u8 (ifac_flag_from_bits (drop_bit 7 m)))
     OR push_bit 6 (if drop_bit 6 m AND 1 = 1 then 1 else 0)
     OR push_bit 5 (context_flag_as_u8 (context_flag_from_bits (drop_bit 5 m)))
     OR push_bit 4 (propagation_type_as_u8 (propagation_type_from_bits (drop_bit 4 m)))
     OR push_bit 2 (destination_type_as_u8 (destination_type_from_bits (drop_bit 2 m)))
     OR packet_type_as_u8 (packet_type_from_bits m) = m"
  by (rule u8_exhaust) code_simp

lemma header_meta_byte_unpacked:
  assumes "h_ifac_flag h = ifac_flag_from_bits (drop_bit 7 m)"
    and "(h_transport_id h \<noteq> None) = (drop_bit 6 m AND 1 = 1)"
    and "h_context_flag h = context_flag_from_bits (drop_bit 5 m)"
    and "h_propagation h = propagation_type_from_bits (drop_bit 4 m)"
    and "h_destination_type h = destination_type_from_bits (drop_bit 2 m)"
    and "h_packet_type h = packet_type_from_bits m"
  shows "header_meta_byte h = m"
  unfolding header_meta_byte_def assms by (rule meta_pack)

lemma header_write_bytes:
  assumes "header_wf h" and "wire_len h \<le> length buf"
  shows "header_write h buf = Inr (header_bytes h @ drop (wire_len h) buf, wire_len h)"
proof -
  from assms(2) obtain a b rest where buf: "buf = a # b # rest"
    by (cases buf; cases "tl buf") (auto simp: wire_len_def wire_limits split: if_splits)
  show ?thesis
    using assms unfolding buf
    by (auto simp: header_write_def header_bytes_def header_wf_def wire_len_def wire_limits
        copy_into_def Let_def numeral_2_eq_2 list_update_append drop_update_head split: option.splits)
qed

lemma header_parse_bytes:
  assumes "header_wf h" and "canonical_context (h_context h)"
  shows "header_parse (header_bytes h @ rest) = Inr (h, rest)"
  using assms
  by (cases "h_transport_id h")
    (auto simp: header_parse_def header_bytes_def header_wf_def wire_limits split_first_chunk_def
      meta_unpack canonical_context_def Let_def)

lemma header_parse_Inr:
  assumes "header_parse bs = Inr (h, rest)"
  shows "header_wf h \<and> canonical_context (h_context h) \<and> bs = header_bytes h @ rest"
proof -
  from assms obtain m hops tail where bs: "bs = m # hops # tail"
    by (auto simp: header_parse_def split: option.splits)
  have meta: "header_meta_byte h = m"
    by (rule header_meta_byte_unpacked)
      (use assms bs in \<open>auto simp: header_parse_def Let_def split: option.splits if_splits\<close>)
  show ?thesis
  proof (cases "drop_bit 6 m AND 1 = 1")
    case True
    with assms obtain tid addr c where "tail = tid @ addr @ c # rest" "length tid = 16" "length addr = 16"
      "h_transport_id h = Some (TransportId tid)" "h_address h = WireAddress addr" "h_hops h = hops"
      "h_context h = wire_context_from_byte c"
      unfolding bs by (auto simp: header_parse_def wire_limits split_first_chunk_Some_iff Let_def
          split: option.splits)
    with meta show ?thesis
      unfolding bs by (simp add: header_bytes_def header_wf_def wire_limits)
  next
    case False
    with assms obtain addr c where "tail = addr @ c # rest" "length addr = 16"
      "h_transport_id h = None" "h_address h = WireAddress addr" "h_hops h = hops"
      "h_context h = wire_context_from_byte c"
      unfolding bs by (auto simp: header_parse_def wire_limits split_first_chunk_Some_iff Let_def
          split: option.splits)
    with meta show ?thesis
      unfolding bs by (simp add: header_bytes_def header_wf_def wire_limits)
  qed
qed

section \<open>Round trips and errors\<close>

definition type_2_bit :: "u8 list \<Rightarrow> bool" where
  "type_2_bit bytes \<longleftrightarrow> bytes \<noteq> [] \<and> drop_bit 6 (hd bytes) AND 1 = 1"

text \<open>
  C5. Writing any header into any buffer that is long enough succeeds, reports exactly
  \<open>wire_len\<close> bytes, leaves the rest of the buffer alone, and parsing the buffer gives back the same
  header with the untouched tail as payload.
\<close>

theorem header_write_then_parse:
  assumes "header_wf h" and "canonical_context (h_context h)" and "wire_len h \<le> length buf"
  shows "\<exists>buf'. header_write h buf = Inr (buf', wire_len h)
           \<and> length buf' = length buf
           \<and> header_parse buf' = Inr (h, drop (wire_len h) buf)"
  using assms length_header_bytes [OF assms(1)]
  by (auto simp: header_write_bytes header_parse_bytes)

definition example_header :: wire_packet_header where
  "example_header =
     \<lparr>h_ifac_flag = Authenticated, h_context_flag = Set, h_propagation = Transport,
      h_destination_type = Link, h_packet_type = Proof, h_hops = 7,
      h_transport_id = Some (TransportId (replicate 16 0x11)),
      h_address = WireAddress (replicate 16 0x22), h_context = PathResponse\<rparr>"

theorem header_write_then_parse_witness:
  "\<exists>buf'. header_write example_header (replicate 40 0) = Inr (buf', 35) \<and> length buf' = 40
      \<and> header_parse buf' = Inr (example_header, replicate 5 0)"
  using header_write_then_parse [of example_header "replicate 40 0"]
  by (simp add: example_header_def header_wf_def wire_limits canonical_context_named wire_len_def)

text \<open>
  Parsing is canonical: a buffer that parses is the serialisation of the parsed header followed
  by the payload, so re-writing the header reproduces the consumed bytes exactly, unknown context
  bytes and every flag combination included.
\<close>

theorem header_parse_then_write:
  assumes "header_parse bytes = Inr (h, payload)" and "wire_len h \<le> length buf"
  shows "\<exists>buf'. header_write h buf = Inr (buf', wire_len h)
           \<and> bytes = take (wire_len h) buf' @ payload"
  using assms header_parse_Inr [OF assms(1)] length_header_bytes [of h]
  by (auto simp: header_write_bytes)

theorem header_parse_then_write_witness:
  "\<exists>h. header_parse (0x01 # 3 # replicate 17 0xA5 @ [1, 2]) = Inr (h, [1, 2])
     \<and> (\<exists>buf'. header_write h (replicate 19 0) = Inr (buf', wire_len h)
          \<and> 0x01 # 3 # replicate 17 0xA5 @ [1, 2] = take (wire_len h) buf' @ [1, 2])"
proof -
  obtain h where h: "header_parse (0x01 # 3 # replicate 17 0xA5 @ [1, 2]) = Inr (h, [1, 2])"
    and "h_transport_id h = None"
    by (simp add: header_parse_def split_first_chunk_def wire_limits eval_nat_numeral)
  then show ?thesis
    using header_parse_then_write [OF h, of "replicate 19 0"] by (simp add: wire_len_def wire_limits)
qed

text \<open>
  C24. Parsing fails exactly on truncation: 19 bytes are needed for a type-1 header and 35 when the
  type-2 bit announces a transport id. No content of the bytes is ever rejected.
\<close>

theorem header_parse_error_iff:
  "header_parse bytes = Inl e \<longleftrightarrow>
     length bytes < (if type_2_bit bytes then HEADER_MAX_LEN else HEADER_MIN_LEN)"
  by (cases e; cases bytes; cases "tl bytes")
    (auto simp: header_parse_def type_2_bit_def wire_limits split_first_chunk_def Let_def
      split: option.splits)

text \<open>
  C40. Whatever the parser returns is well typed: addresses and transport ids of 16 bytes, a context byte in
  its canonical constructor, and a header and payload that together are as long as the packet.
\<close>

theorem parsed_header_well_formed:
  assumes "header_parse bytes = Inr (h, payload)"
  shows "header_wf h \<and> canonical_context (h_context h) \<and> length bytes = wire_len h + length payload
    \<and> wire_len h = (if type_2_bit bytes then HEADER_MAX_LEN else HEADER_MIN_LEN)"
proof -
  have P: "header_wf h" "canonical_context (h_context h)" "bytes = header_bytes h @ payload"
    using header_parse_Inr [OF assms] by simp_all
  have "type_2_bit bytes \<longleftrightarrow> h_transport_id h \<noteq> None"
    using assms by (auto simp: header_parse_def type_2_bit_def Let_def split: option.splits if_splits)
  then show ?thesis
    using P length_header_bytes [OF P(1)] by (simp add: wire_len_def wire_limits)
qed

theorem parsed_header_well_formed_witness:
  "\<exists>h. header_parse (0x40 # 3 # replicate 33 0xA5) = Inr (h, []) \<and> header_wf h \<and> wire_len h = 35"
proof -
  define bytes :: "u8 list" where "bytes = 0x40 # 3 # replicate 33 0xA5"
  have "case header_parse bytes of Inl e \<Rightarrow> False | Inr (h, payload) \<Rightarrow> payload = []"
    unfolding bytes_def by code_simp
  then obtain h where h: "header_parse bytes = Inr (h, [])" by (auto split: sum.splits)
  have "type_2_bit bytes" unfolding bytes_def by code_simp
  with parsed_header_well_formed [OF h] h show ?thesis unfolding bytes_def [symmetric] by (simp add: wire_limits)
qed

end
