(* ===== verification/Byte_Scanner.thy ===== *)
theory Byte_Scanner
  imports Prelude
begin

text \<open>
  What the frame decoders share. Each has a \<open>feed\<close> of one byte, a \<open>feed_slice_next\<close> that reads a
  slice up to the next frame or error, and a \<open>feed_slice\<close> that repeats it over the whole slice. The
  contract between the three is a locale: reading a slice is reading its bytes one at a time.
\<close>

datatype 'f scan_event = Quiet | Yield 'f | Oversize

definition event_of :: "'e + 'f option \<Rightarrow> 'f scan_event" where
  "event_of r = (case r of Inl _ \<Rightarrow> Oversize | Inr None \<Rightarrow> Quiet | Inr (Some f) \<Rightarrow> Yield f)"

lemma event_of_simps [simp]:
  "event_of (Inl e) = Oversize" "event_of (Inr None) = Quiet" "event_of (Inr (Some f)) = Yield f"
  by (simp_all add: event_of_def)

definition feed_step :: "(u8 \<Rightarrow> 'd \<Rightarrow> ('e + 'f option) \<times> 'd) \<Rightarrow> u8 \<Rightarrow> 'd \<Rightarrow> 'f scan_event \<times> 'd" where
  "feed_step feed b d = (case feed b d of (r, d) \<Rightarrow> (event_of r, d))"

text \<open>Reading up to the first event, with the number of bytes read, and reading everything.\<close>

fun scan_next :: "(u8 \<Rightarrow> 'd \<Rightarrow> 'f scan_event \<times> 'd) \<Rightarrow> u8 list \<Rightarrow> 'd \<Rightarrow> 'f scan_event \<times> nat \<times> 'd" where
  "scan_next step [] d = (Quiet, 0, d)"
| "scan_next step (b # bs) d =
     (case step b d of
        (Quiet, d) \<Rightarrow> (case scan_next step bs d of (e, n, d) \<Rightarrow> (e, n + 1, d))
      | (e, d) \<Rightarrow> (e, 1, d))"

fun scan_frames :: "(u8 \<Rightarrow> 'd \<Rightarrow> 'f scan_event \<times> 'd) \<Rightarrow> u8 list \<Rightarrow> 'd \<Rightarrow> 'f list \<times> 'd" where
  "scan_frames step [] d = ([], d)"
| "scan_frames step (b # bs) d =
     (case step b d of
        (Yield frame, d) \<Rightarrow> apfst (Cons frame) (scan_frames step bs d)
      | (_, d) \<Rightarrow> scan_frames step bs d)"

text \<open>\<open>feed\<close> over a whole input, ignoring the oversized frames.\<close>

definition feed_bytes :: "(u8 \<Rightarrow> 'd \<Rightarrow> ('e + 'f option) \<times> 'd) \<Rightarrow> u8 list \<Rightarrow> 'd \<Rightarrow> 'f list \<times> 'd" where
  "feed_bytes feed = scan_frames (feed_step feed)"

lemma apfst_append [simp]:
  "apfst (append []) p = p" "apfst (append xs) (apfst (append ys) p) = apfst (append (xs @ ys)) p"
  "apfst (Cons x) p = apfst (append [x]) p"
  by (cases p; simp)+

lemma scan_next_progress:
  "scan_next step bs d = (e, n, d') \<Longrightarrow> n \<le> length bs \<and> (bs \<noteq> [] \<longrightarrow> 0 < n)"
  by (induction step bs d arbitrary: e n d' rule: scan_next.induct)
    (auto split: prod.splits scan_event.splits)

lemma scan_frames_next:
  "scan_next step bs d = (e, n, d') \<Longrightarrow>
     scan_frames step bs d =
       (case e of Quiet \<Rightarrow> ([], d')
        | Yield f \<Rightarrow> apfst (Cons f) (scan_frames step (drop n bs) d')
        | Oversize \<Rightarrow> scan_frames step (drop n bs) d')"
  by (induction step bs d arbitrary: n rule: scan_next.induct)
    (auto split: prod.splits scan_event.splits)

lemma scan_frames_append:
  "scan_frames step (xs @ ys) d =
     (case scan_frames step xs d of
        (fs, d) \<Rightarrow> (case scan_frames step ys d of (gs, d) \<Rightarrow> (fs @ gs, d)))"
  by (induction xs arbitrary: d) (auto simp: apfst_def map_prod_def split: prod.splits scan_event.splits)

text \<open>Scanning respects a simulation between two byte machines, under an invariant of the first.\<close>

lemma scan_next_sim:
  assumes step: "\<And>b d. I d \<Longrightarrow> step' b (\<alpha> d) = map_prod id \<alpha> (step b d) \<and> I (snd (step b d))"
    and "scan_next step bs d = (e, n, d')" and "I d"
  shows "scan_next step' bs (\<alpha> d) = (e, n, \<alpha> d') \<and> I d'"
  using assms(2,3)
proof (induction bs arbitrary: d e n d')
  case (Cons b bs)
  obtain e1 d1 where "step b d = (e1, d1)" by fastforce
  with Cons step [OF Cons.prems(2), of b] show ?case
    by (cases e1; fastforce split: prod.splits)
qed simp

lemma scan_frames_sim:
  assumes step: "\<And>b d. I d \<Longrightarrow> step' b (\<alpha> d) = map_prod id \<alpha> (step b d) \<and> I (snd (step b d))"
    and "scan_frames step bs d = (fs, d')" and "I d"
  shows "scan_frames step' bs (\<alpha> d) = (fs, \<alpha> d') \<and> I d'"
  using assms(2,3)
proof (induction bs arbitrary: d fs d')
  case (Cons b bs)
  obtain e1 d1 where "step b d = (e1, d1)" by fastforce
  with Cons step [OF Cons.prems(2), of b] show ?case
    by (cases e1; fastforce simp: apfst_def map_prod_def split: prod.splits)
qed simp

locale slice_decoder =
  fixes feed :: "u8 \<Rightarrow> 'd \<Rightarrow> ('e + 'f option) \<times> 'd"
    and feed_slice_next :: "'d \<Rightarrow> u8 list \<Rightarrow> nat \<Rightarrow> ('e + 'f option) \<times> nat \<times> 'd"
    and feed_slice_from :: "u8 list \<Rightarrow> nat \<Rightarrow> 'd \<Rightarrow> 'f list \<times> 'd"
  assumes slice_next: "feed_slice_next d input offset = (r, offset', d') \<Longrightarrow> offset \<le> length input \<Longrightarrow>
      offset \<le> offset' \<and>
      scan_next (feed_step feed) (drop offset input) d = (event_of r, offset' - offset, d')"
    and slice_loop: "feed_slice_from input offset d =
      (if offset < length input then
         case feed_slice_next d input offset of
           (Inr (Some f), offset', d') \<Rightarrow> apfst (Cons f) (feed_slice_from input offset' d')
         | (Inr None, _, d') \<Rightarrow> ([], d')
         | (Inl _, offset', d') \<Rightarrow> feed_slice_from input offset' d'
       else ([], d))"
begin

lemma slice_from: "offset \<le> length input \<Longrightarrow> feed_slice_from input offset d = feed_bytes feed (drop offset input) d"
proof (induction "length input - offset" arbitrary: offset d rule: less_induct)
  case less
  show ?case
  proof (cases "offset < length input")
    case True
    obtain r offset' d' where nxt: "feed_slice_next d input offset = (r, offset', d')"
      by (metis prod_cases3)
    from slice_next [OF nxt less.prems] have "offset \<le> offset'"
      and scan: "scan_next (feed_step feed) (drop offset input) d = (event_of r, offset' - offset, d')"
      by simp_all
    with scan_next_progress [OF scan] True have *: "offset < offset'" "offset' \<le> length input" by auto
    then have dr: "drop (offset' - offset) (drop offset input) = drop offset' input" by simp
    have "length input - offset' < length input - offset" using * True by simp
    then show ?thesis
      using True nxt scan_frames_next [OF scan] dr less.hyps [OF _ *(2), of d']
      unfolding feed_bytes_def
      by (subst slice_loop) (auto simp: event_of_def split: sum.splits option.splits)
  next
    case False
    with less.prems show ?thesis by (subst slice_loop) (simp add: feed_bytes_def)
  qed
qed

lemma slice_bytewise: "feed_slice_from input 0 d = feed_bytes feed input d"
  by (simp add: slice_from)

lemma slice_chunks:
  "feed_slice_from (xs @ ys) 0 d =
     (case feed_slice_from xs 0 d of
        (fs, d) \<Rightarrow> (case feed_slice_from ys 0 d of (gs, d) \<Rightarrow> (fs @ gs, d)))"
  by (simp add: slice_from feed_bytes_def scan_frames_append)

end

end
