(* ===== verification/Frame_Sink.thy ===== *)
theory Frame_Sink
  imports Prelude
begin

text \<open>
  The frame sink of \<^verbatim>\<open>prns-core/src/interfaces/framing/mod.rs\<close>: where a scanner collects the payload
  of the frame it is reading. The scanners take a \<^verbatim>\<open>&mut dyn FrameSink\<close>, so the operations of the
  trait are a record of functions here (the table a trait object carries), the contract of the
  trait is a locale, and \<open>FrameBuffer\<close> is the implementation.
\<close>

datatype frame_sink_error = Full

record 's frame_sink_ops =
  sink_clear :: "'s \<Rightarrow> 's"
  sink_frame_len :: "'s \<Rightarrow> nat"
  sink_free_capacity :: "'s \<Rightarrow> nat"
  sink_push :: "u8 \<Rightarrow> 's \<Rightarrow> frame_sink_error + 's"
  sink_extend_from_slice :: "u8 list \<Rightarrow> 's \<Rightarrow> frame_sink_error + 's"

text \<open>
  The contract in the trait's documentation: writes are all-or-nothing, and a write that would pass
  the capacity appends nothing and reports \<open>Full\<close>.
\<close>

locale frame_sink =
  fixes ops :: "'s frame_sink_ops"
    and contents :: "'s \<Rightarrow> u8 list"
    and cap :: "'s \<Rightarrow> nat"
  assumes clear_contents: "contents (sink_clear ops s) = []"
    and clear_cap: "cap (sink_clear ops s) = cap s"
    and frame_len: "sink_frame_len ops s = length (contents s)"
    and free_capacity: "sink_free_capacity ops s = cap s - length (contents s)"
    and push_full: "cap s \<le> length (contents s) \<Longrightarrow> sink_push ops b s = Inl Full"
    and push_fits: "length (contents s) < cap s \<Longrightarrow>
      \<exists>s'. sink_push ops b s = Inr s' \<and> contents s' = contents s @ [b] \<and> cap s' = cap s"
    and extend_full: "cap s - length (contents s) < length run \<Longrightarrow>
      sink_extend_from_slice ops run s = Inl Full"
    and extend_fits: "length run \<le> cap s - length (contents s) \<Longrightarrow>
      \<exists>s'. sink_extend_from_slice ops run s = Inr s' \<and> contents s' = contents s @ run
        \<and> cap s' = cap s"
begin

text \<open>
  The contract as equations: what a write returns, decided by the free capacity alone, and what it
  leaves in the sink.
\<close>

definition pushed :: "u8 \<Rightarrow> 's \<Rightarrow> 's" where
  "pushed b s = (case sink_push ops b s of Inr s' \<Rightarrow> s' | Inl _ \<Rightarrow> s)"

definition extended :: "u8 list \<Rightarrow> 's \<Rightarrow> 's" where
  "extended run s = (case sink_extend_from_slice ops run s of Inr s' \<Rightarrow> s' | Inl _ \<Rightarrow> s)"

lemma push_eq:
  "sink_push ops b s = (if length (contents s) < cap s then Inr (pushed b s) else Inl Full)"
  using push_full [of s b] push_fits [of s b] by (auto simp: pushed_def not_less)

lemma extend_eq:
  "sink_extend_from_slice ops run s =
     (if length run \<le> cap s - length (contents s) then Inr (extended run s) else Inl Full)"
  using extend_full [of s run] extend_fits [of run s] by (auto simp: extended_def not_le)

lemma pushed_contents: "length (contents s) < cap s \<Longrightarrow> contents (pushed b s) = contents s @ [b]"
  using push_fits [of s b] by (auto simp: pushed_def)

lemma pushed_cap: "cap (pushed b s) = cap s"
  using push_full [of s b] push_fits [of s b] by (fastforce simp: pushed_def not_less)

lemma extended_contents:
  "length run \<le> cap s - length (contents s) \<Longrightarrow> contents (extended run s) = contents s @ run"
  using extend_fits [of run s] by (auto simp: extended_def)

lemma extended_cap: "cap (extended run s) = cap s"
  using extend_full [of s run] extend_fits [of run s] by (fastforce simp: extended_def not_le)

lemmas sink_simps =
  clear_contents clear_cap frame_len free_capacity push_eq extend_eq
  pushed_contents pushed_cap extended_contents extended_cap

end

section \<open>FrameBuffer\<close>

record frame_buffer =
  frame_cap :: nat
  frame_bytes :: "u8 list"

definition frame_buffer_new :: "nat \<Rightarrow> frame_buffer" where
  "frame_buffer_new c = \<lparr>frame_cap = c, frame_bytes = []\<rparr>"

definition frame_buffer_ops :: "frame_buffer frame_sink_ops" where
  "frame_buffer_ops =
     \<lparr>sink_clear = (\<lambda>b. b\<lparr>frame_bytes := []\<rparr>),
      sink_frame_len = (\<lambda>b. length (frame_bytes b)),
      sink_free_capacity = (\<lambda>b. frame_cap b - length (frame_bytes b)),
      sink_push = (\<lambda>byte b.
        if length (frame_bytes b) \<ge> frame_cap b then Inl Full
        else Inr (b\<lparr>frame_bytes := frame_bytes b @ [byte]\<rparr>)),
      sink_extend_from_slice = (\<lambda>run b.
        if length run > frame_cap b - length (frame_bytes b) then Inl Full
        else Inr (b\<lparr>frame_bytes := frame_bytes b @ run\<rparr>))\<rparr>"

interpretation fb: frame_sink frame_buffer_ops frame_bytes frame_cap
  by unfold_locales (auto simp: frame_buffer_ops_def)

end
