(* ===== verification/Le_Bytes.thy ===== *)
theory Le_Bytes
  imports Prelude
begin

text \<open>
  Little-endian bytes: \<open>uN::from_le_bytes\<close> and \<open>uN::to_le_bytes\<close> for every width, each the inverse of the
  other.
\<close>

fun from_le_bytes :: "u8 list \<Rightarrow> 'a::len word" where
  "from_le_bytes [] = 0"
| "from_le_bytes (b # bs) = ucast b OR push_bit 8 (from_le_bytes bs)"

definition to_le_bytes :: "'a::len word \<Rightarrow> u8 list" where
  "to_le_bytes w = map (\<lambda>i. ucast (drop_bit (8 * i) w)) [0..<LENGTH('a) div 8]"

lemma bit_from_le_bytes:
  "bit (from_le_bytes bs :: 'a::len word) n \<longleftrightarrow>
     n < LENGTH('a) \<and> n div 8 < length bs \<and> bit (bs ! (n div 8)) (n mod 8)"
proof (induction bs arbitrary: n)
  case Nil
  then show ?case by simp
next
  case (Cons b bs)
  show ?case
  proof (cases "n < 8")
    case True
    then show ?thesis by (auto simp: bit_simps)
  next
    case False
    then obtain m where m: "n = m + 8" by (metis add.commute le_Suc_ex linorder_not_less)
    have "\<not> bit b n" using False bit_imp_le_length [of b n] by auto
    moreover have "(m + 8) div 8 = Suc (m div 8)" by simp
    ultimately show ?thesis unfolding m by (auto simp: bit_simps Cons.IH)
  qed
qed

lemma length_to_le_bytes [simp]: "length (to_le_bytes (w :: 'a::len word)) = LENGTH('a) div 8"
  by (simp add: to_le_bytes_def)

lemma nth_to_le_bytes:
  "i < LENGTH('a) div 8 \<Longrightarrow> to_le_bytes (w :: 'a::len word) ! i = ucast (drop_bit (8 * i) w)"
  by (simp add: to_le_bytes_def)

lemma from_to_le_bytes:
  assumes "LENGTH('a) mod 8 = 0"
  shows "from_le_bytes (to_le_bytes (w :: 'a::len word)) = w"
proof (rule bit_word_eqI)
  fix n assume n: "n < LENGTH('a)"
  have k: "n div 8 < LENGTH('a) div 8" using n assms by auto
  have "8 * (n div 8) + n mod 8 = n" by simp
  with n k show "bit (from_le_bytes (to_le_bytes w) :: 'a word) n = bit w n"
    by (simp add: bit_from_le_bytes nth_to_le_bytes bit_simps)
qed

lemma from_le_bytes_inject:
  assumes "length xs = length ys" "8 * length xs \<le> LENGTH('a)"
    and eq: "(from_le_bytes xs :: 'a::len word) = from_le_bytes ys"
  shows "xs = ys"
proof (rule nth_equalityI [OF assms(1)])
  fix i assume i: "i < length xs"
  show "xs ! i = ys ! i"
  proof (rule bit_word_eqI)
    fix n assume "n < LENGTH(8)"
    then have n: "n < 8" by simp
    then have "bit (from_le_bytes xs :: 'a word) (8 * i + n) = bit (from_le_bytes ys :: 'a word) (8 * i + n)"
      by (simp add: eq)
    moreover have "8 * i + n < LENGTH('a)" using i n assms(2) by linarith
    ultimately show "bit (xs ! i) n = bit (ys ! i) n"
      using i n assms(1) by (simp add: bit_from_le_bytes)
  qed
qed

lemma to_from_le_bytes:
  assumes "8 * length bs = LENGTH('a)"
  shows "to_le_bytes (from_le_bytes bs :: 'a::len word) = bs"
proof -
  have m: "LENGTH('a) mod 8 = 0" by (metis assms mod_mult_self1_is_0)
  have d: "LENGTH('a) div 8 = length bs" by (metis assms nonzero_mult_div_cancel_left zero_neq_numeral)
  show ?thesis
    by (rule from_le_bytes_inject [where 'a = 'a])
      (simp_all add: d assms from_to_le_bytes [OF m])
qed

end
