(* ===== verification/Special_Finder.thy ===== *)
theory Special_Finder
  imports Le_Bytes
begin

text \<open>
  \<open>find_special\<close> of \<^verbatim>\<open>prns-core/src/interfaces/framing/rns_serial_framing.rs\<close>: the search for the
  next byte that needs escaping. The two builds without the standard library search a machine
  word at a time with the subtract-and-mask trick; they are shown equal to the plain search.
\<close>

definition FLAG :: u8 where "FLAG = 0x7E"
definition ESC :: u8 where "ESC = 0x7D"
definition ESC_MASK :: u8 where "ESC_MASK = 0x20"

definition is_special :: "u8 \<Rightarrow> bool" where
  "is_special byte \<longleftrightarrow> byte = FLAG \<or> byte = ESC"

text \<open>\<open>trailing_zeros\<close>.\<close>

definition trailing_zeros :: "'a::len word \<Rightarrow> nat" where
  "trailing_zeros w = (case position (bit w) [0..<LENGTH('a)] of Some i \<Rightarrow> i | None \<Rightarrow> LENGTH('a))"

definition ONES :: u64 where "ONES = 0x0101010101010101"
definition HIGHS :: u64 where "HIGHS = 0x8080808080808080"
definition FLAG_REP :: u64 where "FLAG_REP = ucast FLAG * ONES"
definition ESC_REP :: u64 where "ESC_REP = ucast ESC * ONES"

definition special_marks :: "u64 \<Rightarrow> u64" where
  "special_marks word =
     (let f = word XOR FLAG_REP; e = word XOR ESC_REP
      in (((f - ONES) AND NOT f) OR ((e - ONES) AND NOT e)) AND HIGHS)"

text \<open>\<open>as_chunks\<close>: the complete chunks of a slice; what is left over is searched separately.\<close>

fun chunks :: "nat \<Rightarrow> nat \<Rightarrow> 'a list \<Rightarrow> 'a list list" where
  "chunks n 0 xs = []"
| "chunks n (Suc k) xs = take n xs # chunks n k (drop n xs)"

definition as_chunks :: "nat \<Rightarrow> 'a list \<Rightarrow> 'a list list" where
  "as_chunks n xs = chunks n (length xs div n) xs"

text \<open>The loop over 16-byte chunks (64-bit targets): low half first, then the high half.\<close>

fun scan_chunks_16 :: "nat \<Rightarrow> u8 list list \<Rightarrow> nat option" where
  "scan_chunks_16 chunk_index [] = None"
| "scan_chunks_16 chunk_index (chunk # cs) =
     (let word = (from_le_bytes chunk :: 128 word);
          low_marks = special_marks (ucast word)
      in if low_marks \<noteq> 0 then Some (chunk_index * 16 + trailing_zeros low_marks div 8)
         else
           let high_marks = special_marks (ucast (drop_bit 64 word))
           in if high_marks \<noteq> 0 then Some (chunk_index * 16 + 8 + trailing_zeros high_marks div 8)
              else scan_chunks_16 (chunk_index + 1) cs)"

definition find_special :: "u8 list \<Rightarrow> nat option" where
  "find_special haystack =
     (let cs = as_chunks 16 haystack
      in case scan_chunks_16 0 cs of
           Some i \<Rightarrow> Some i
         | None \<Rightarrow>
             let scanned = length cs * 16
             in map_option (\<lambda>offset. scanned + offset)
                  (position (\<lambda>byte. byte = FLAG \<or> byte = ESC) (drop scanned haystack)))"

text \<open>The loop over 8-byte chunks (targets with narrower pointers).\<close>

fun scan_chunks_8 :: "nat \<Rightarrow> u8 list list \<Rightarrow> nat option" where
  "scan_chunks_8 chunk_index [] = None"
| "scan_chunks_8 chunk_index (chunk # cs) =
     (let marks = special_marks (from_le_bytes chunk)
      in if marks \<noteq> 0 then Some (chunk_index * 8 + trailing_zeros marks div 8)
         else scan_chunks_8 (chunk_index + 1) cs)"

definition find_special_narrow :: "u8 list \<Rightarrow> nat option" where
  "find_special_narrow haystack =
     (let cs = as_chunks 8 haystack
      in case scan_chunks_8 0 cs of
           Some i \<Rightarrow> Some i
         | None \<Rightarrow>
             let scanned = length cs * 8
             in map_option (\<lambda>offset. scanned + offset)
                  (position (\<lambda>byte. byte = FLAG \<or> byte = ESC) (drop scanned haystack)))"

section \<open>Correctness of the word-at-a-time search\<close>

text \<open>
  A word assembled from bytes, seen bit by bit and as a sum. Subtracting \<open>ONES\<close> byte by byte makes
  the borrow explicit; below the first special byte no borrow occurs, so the lowest mark is exact.
\<close>

lemma from_le_bytes_Cons_add:
  "(from_le_bytes (b # bs) :: 'a::len word) = ucast b + 256 * from_le_bytes bs"
proof -
  have "push_bit 8 (from_le_bytes bs :: 'a word) = 256 * from_le_bytes bs"
    by (simp add: push_bit_eq_mult mult.commute)
  moreover have "ucast b OR push_bit 8 (from_le_bytes bs :: 'a word) = ucast b + push_bit 8 (from_le_bytes bs)"
    by (rule disjunctive_add_eq_or [symmetric], rule bit_word_eqI)
      (auto simp: bit_simps not_le dest!: bit_imp_le_length [of b])
  ultimately show ?thesis by simp
qed

fun sub_ones :: "bool \<Rightarrow> u8 list \<Rightarrow> u8 list" where
  "sub_ones c [] = []"
| "sub_ones c (b # bs) = (b - 1 - of_bool c) # sub_ones (b = 0 \<or> (c \<and> b = 1)) bs"

lemma sub_byte:
  "(ucast (b - 1 - of_bool c :: u8) :: u64) = ucast b - 1 - of_bool c + 256 * of_bool (b = 0 \<or> (c \<and> b = 1))"
proof -
  have "\<forall>c. (ucast (b - 1 - of_bool c :: u8) :: u64) = ucast b - 1 - of_bool c + 256 * of_bool (b = 0 \<or> (c \<and> b = 1))"
    by (rule u8_exhaust) code_simp
  then show ?thesis by blast
qed

fun borrow_out :: "bool \<Rightarrow> u8 list \<Rightarrow> bool" where
  "borrow_out c [] = c"
| "borrow_out c (b # bs) = borrow_out (b = 0 \<or> (c \<and> b = 1)) bs"

lemma from_le_bytes_sub_ones:
  "(from_le_bytes (sub_ones c bs) :: u64) =
     from_le_bytes bs - from_le_bytes (replicate (length bs) 1) - of_bool c
     + 256 ^ length bs * of_bool (borrow_out c bs)"
proof (induction bs arbitrary: c)
  case Nil
  then show ?case by simp
next
  case (Cons b bs)
  show ?case
    by (simp only: sub_ones.simps from_le_bytes_Cons_add Cons.IH sub_byte length_Cons replicate_Suc borrow_out.simps)
      (simp add: algebra_simps)
qed

lemma from_le_bytes_bitwise:
  assumes "length as = length bs"
  shows "from_le_bytes as XOR from_le_bytes bs = (from_le_bytes (map2 (XOR) as bs) :: 'a::len word)"
    and "from_le_bytes as AND from_le_bytes bs = (from_le_bytes (map2 (AND) as bs) :: 'a::len word)"
    and "from_le_bytes as OR from_le_bytes bs = (from_le_bytes (map2 (OR) as bs) :: 'a::len word)"
  using assms by (auto intro!: bit_word_eqI simp: bit_simps bit_from_le_bytes)

lemma from_le_bytes_not:
  assumes "LENGTH('a) = 8 * length as"
  shows "NOT (from_le_bytes as) = (from_le_bytes (map NOT as) :: 'a::len word)"
  using assms by (auto intro!: bit_word_eqI simp: bit_simps bit_from_le_bytes)

lemma constants_le_bytes:
  "ONES = from_le_bytes (replicate 8 1)" "HIGHS = from_le_bytes (replicate 8 0x80)"
  "FLAG_REP = from_le_bytes (replicate 8 FLAG)" "ESC_REP = from_le_bytes (replicate 8 ESC)"
  by code_simp+

fun mark_list :: "bool \<Rightarrow> bool \<Rightarrow> u8 list \<Rightarrow> u8 list" where
  "mark_list c d [] = []"
| "mark_list c d (b # bs) =
     (((((b XOR FLAG) - 1 - of_bool c) AND NOT (b XOR FLAG))
       OR (((b XOR ESC) - 1 - of_bool d) AND NOT (b XOR ESC))) AND 0x80)
     # mark_list (b XOR FLAG = 0 \<or> (c \<and> b XOR FLAG = 1)) (b XOR ESC = 0 \<or> (d \<and> b XOR ESC = 1)) bs"

lemma length_sub_ones [simp]: "length (sub_ones c bs) = length bs"
  by (induction bs arbitrary: c) auto

lemma length_mark_list [simp]: "length (mark_list c d bs) = length bs"
  by (induction bs arbitrary: c d) auto

lemma mark_list_alt:
  "mark_list c d bs =
     map2 (AND)
       (map2 (OR)
         (map2 (AND) (sub_ones c (map2 (XOR) bs (replicate (length bs) FLAG)))
            (map NOT (map2 (XOR) bs (replicate (length bs) FLAG))))
         (map2 (AND) (sub_ones d (map2 (XOR) bs (replicate (length bs) ESC)))
            (map NOT (map2 (XOR) bs (replicate (length bs) ESC)))))
       (replicate (length bs) 0x80)"
  by (induction bs arbitrary: c d) auto

lemma from_le_bytes_minus_ONES:
  "length bs = 8 \<Longrightarrow> from_le_bytes bs - ONES = from_le_bytes (sub_ones False bs)"
  by (simp add: from_le_bytes_sub_ones constants_le_bytes)

lemma special_marks_bytes:
  assumes "length bs = 8"
  shows "special_marks (from_le_bytes bs) = from_le_bytes (mark_list False False bs)"
proof -
  have F: "from_le_bytes bs XOR FLAG_REP = from_le_bytes (map2 (XOR) bs (replicate 8 FLAG))"
    and E: "from_le_bytes bs XOR ESC_REP = from_le_bytes (map2 (XOR) bs (replicate 8 ESC))"
    using assms by (simp_all add: constants_le_bytes from_le_bytes_bitwise)
  show ?thesis
    unfolding special_marks_def Let_def F E
    using assms
    by (simp add: from_le_bytes_minus_ONES from_le_bytes_not from_le_bytes_bitwise constants_le_bytes(2) mark_list_alt)
qed

lemma special_byte_mark:
  "((((b XOR FLAG) - 1) AND NOT (b XOR FLAG)) OR (((b XOR ESC) - 1) AND NOT (b XOR ESC))) AND 0x80
     = (if is_special b then 0x80 else 0)"
  by (rule u8_exhaust) code_simp

lemma not_special_no_borrow: "\<not> is_special b \<Longrightarrow> b XOR FLAG \<noteq> 0 \<and> b XOR ESC \<noteq> 0"
proof -
  have "\<not> is_special b \<longrightarrow> b XOR FLAG \<noteq> 0 \<and> b XOR ESC \<noteq> 0"
    by (rule u8_exhaust) code_simp
  then show "\<not> is_special b \<Longrightarrow> b XOR FLAG \<noteq> 0 \<and> b XOR ESC \<noteq> 0" by blast
qed

lemma position_mark_list: "position (\<lambda>m. m \<noteq> 0) (mark_list False False bs) = position is_special bs"
  by (induction bs) (auto simp: special_byte_mark not_special_no_borrow)

lemma mark_list_elems: "m \<in> set (mark_list c d bs) \<Longrightarrow> m = 0 \<or> m = 0x80"
proof (induction bs arbitrary: c d)
  case (Cons b bs)
  have *: "(x::u8) AND 0x80 = 0 \<or> x AND 0x80 = 0x80" for x
    by (rule u8_exhaust) code_simp
  from Cons show ?case using * by (auto simp del: One_nat_def)
qed simp


lemma bit_0x80: "bit (0x80 :: u8) n \<longleftrightarrow> n = 7"
proof -
  have "(0x80 :: u8) = push_bit 7 1" by simp
  then show ?thesis by (auto simp only: bit_push_bit_iff bit_1_iff) auto
qed

lemma bit_marks:
  assumes "length ms = 8" and "\<forall>m\<in>set ms. m = 0 \<or> m = (0x80 :: u8)"
  shows "bit (from_le_bytes ms :: u64) n \<longleftrightarrow> n mod 8 = 7 \<and> n div 8 < 8 \<and> ms ! (n div 8) \<noteq> 0"
proof (cases "n div 8 < 8")
  case True
  then have "ms ! (n div 8) = 0 \<or> ms ! (n div 8) = 0x80" using assms by auto
  then have "bit (ms ! (n div 8)) (n mod 8) \<longleftrightarrow> n mod 8 = 7 \<and> ms ! (n div 8) \<noteq> 0"
    using bit_0x80 [of "n mod 8"] by auto
  with True assms(1) show ?thesis by (auto simp: bit_from_le_bytes)
qed (use assms in \<open>simp add: bit_from_le_bytes\<close>)

lemma position_bit_marks:
  assumes "length ms = 8" and "\<forall>m\<in>set ms. m = 0 \<or> m = (0x80 :: u8)"
  shows "position (bit (from_le_bytes ms :: u64)) [0..<64] =
           map_option (\<lambda>i. 8 * i + 7) (position (\<lambda>m. m \<noteq> 0) ms)"
proof (cases "position (\<lambda>m. m \<noteq> 0) ms")
  case None
  then have "\<forall>m\<in>set ms. m = 0" by (simp add: position_None_iff)
  then have "\<not> bit (from_le_bytes ms :: u64) n" for n
    using assms by (auto simp: bit_marks)
  then have "position (bit (from_le_bytes ms :: u64)) [0..<64] = None"
    by (simp add: position_None_iff)
  with None show ?thesis by simp
next
  case (Some i)
  then have i: "i < 8" "ms ! i \<noteq> 0" "\<forall>j<i. ms ! j = 0"
    using assms(1) by (auto simp: position_Some_iff)
  have "\<not> bit (from_le_bytes ms :: u64) n" if "n < 8 * i + 7" for n
  proof
    assume b: "bit (from_le_bytes ms :: u64) n"
    then have n: "n mod 8 = 7" "ms ! (n div 8) \<noteq> 0" using assms by (auto simp: bit_marks)
    with i(3) have "i \<le> n div 8" by (metis not_le_imp_less)
    moreover have "n = 8 * (n div 8) + 7" using n(1) mult_div_mod_eq [of 8 n] by simp
    ultimately show False using that by linarith
  qed
  moreover have "bit (from_le_bytes ms :: u64) (8 * i + 7)"
    using assms i by (simp add: bit_marks)
  ultimately have "position (bit (from_le_bytes ms :: u64)) [0..<64] = Some (8 * i + 7)"
    using i(1) by (simp add: position_Some_iff)
  with Some show ?thesis by simp
qed

lemma special_marks_spec:
  assumes "length bs = 8"
  shows "(special_marks (from_le_bytes bs) = 0) = (position is_special bs = None)"
    and "position is_special bs = Some i \<Longrightarrow> trailing_zeros (special_marks (from_le_bytes bs)) div 8 = i"
proof -
  let ?w = "from_le_bytes (mark_list False False bs) :: u64"
  have pos: "position (bit ?w) [0..<64] = map_option (\<lambda>i. 8 * i + 7) (position is_special bs)"
    using position_bit_marks [of "mark_list False False bs"] assms mark_list_elems
    by (simp add: position_mark_list)
  have "?w = 0 \<longleftrightarrow> position (bit ?w) [0..<64] = None"
    using bit_imp_le_length [of ?w] by (auto simp: position_None_iff bit_eq_iff [of ?w 0])
  with pos show "(special_marks (from_le_bytes bs) = 0) = (position is_special bs = None)"
    using assms by (simp add: special_marks_bytes)
  show "trailing_zeros (special_marks (from_le_bytes bs)) div 8 = i" if "position is_special bs = Some i"
    using that pos assms by (simp add: special_marks_bytes trailing_zeros_def)
qed

lemma from_le_bytes_halves:
  assumes "length bs = 16"
  shows "ucast (from_le_bytes bs :: 128 word) = (from_le_bytes (take 8 bs) :: u64)"
    and "ucast (drop_bit 64 (from_le_bytes bs :: 128 word)) = (from_le_bytes (drop 8 bs) :: u64)"
proof -
  show "ucast (from_le_bytes bs :: 128 word) = (from_le_bytes (take 8 bs) :: u64)"
    using assms by (intro bit_word_eqI) (auto simp: bit_simps bit_from_le_bytes)
  have "(64 + n) div 8 = 8 + n div 8" "(64 + n) mod 8 = n mod 8" for n :: nat by presburger+
  then show "ucast (drop_bit 64 (from_le_bytes bs :: 128 word)) = (from_le_bytes (drop 8 bs) :: u64)"
    using assms by (intro bit_word_eqI) (simp add: bit_simps bit_from_le_bytes)
qed

lemma scan_chunks_8_spec:
  assumes "\<forall>c\<in>set cs. length c = 8"
  shows "scan_chunks_8 k cs = map_option (\<lambda>i. k * 8 + i) (position is_special (concat cs))"
  using assms
proof (induction cs arbitrary: k)
  case (Cons c cs)
  then have c: "length c = 8" by simp
  show ?case
  proof (cases "position is_special c")
    case None
    with Cons c show ?thesis
      by (cases "position is_special (concat cs)")
        (simp_all add: special_marks_spec position_append)
  next
    case (Some i)
    with c show ?thesis by (simp add: special_marks_spec position_append Let_def)
  qed
qed simp

lemma scan_chunks_16_spec:
  assumes "\<forall>c\<in>set cs. length c = 16"
  shows "scan_chunks_16 k cs = map_option (\<lambda>i. k * 16 + i) (position is_special (concat cs))"
  using assms
proof (induction cs arbitrary: k)
  case (Cons c cs)
  then have c: "length c = 16" "length (take 8 c) = 8" "length (drop 8 c) = 8" by simp_all
  have split: "position is_special c =
     (case position is_special (take 8 c) of Some i \<Rightarrow> Some i
      | None \<Rightarrow> map_option (\<lambda>j. 8 + j) (position is_special (drop 8 c)))"
    using position_append [of is_special "take 8 c" "drop 8 c"] c(2) by (simp only: append_take_drop_id)
  show ?case
  proof (cases "position is_special (take 8 c)")
    case None
    note low = None
    show ?thesis
    proof (cases "position is_special (drop 8 c)")
      case None
      with low Cons c split show ?thesis
        by (cases "position is_special (concat cs)")
          (simp_all add: from_le_bytes_halves special_marks_spec position_append)
    next
      case (Some i)
      with low c split show ?thesis
        by (simp add: from_le_bytes_halves special_marks_spec position_append)
    qed
  next
    case (Some i)
    with c split show ?thesis
      by (simp add: from_le_bytes_halves special_marks_spec position_append Let_def)
  qed
qed simp

lemma chunks_spec:
  assumes "k * n \<le> length xs"
  shows "concat (chunks n k xs) = take (k * n) xs \<and> length (chunks n k xs) = k
    \<and> (\<forall>c\<in>set (chunks n k xs). length c = n)"
  using assms
proof (induction k arbitrary: xs)
  case (Suc k)
  then have "k * n \<le> length (drop n xs)" by simp
  from Suc.IH [OF this] Suc.prems show ?case by (simp add: take_add)
qed simp

lemma as_chunks_spec:
  "concat (as_chunks n xs) = take (length (as_chunks n xs) * n) xs"
  "\<forall>c\<in>set (as_chunks n xs). length c = n"
  "length (as_chunks n xs) * n \<le> length xs"
proof -
  let ?k = "length xs div n"
  have bound: "?k * n \<le> length xs" by (rule div_times_less_eq_dividend)
  have len: "length (as_chunks n xs) = ?k"
    using chunks_spec [OF bound] unfolding as_chunks_def by (elim conjE)
  show "concat (as_chunks n xs) = take (length (as_chunks n xs) * n) xs"
    unfolding len using chunks_spec [OF bound] unfolding as_chunks_def by (elim conjE)
  show "\<forall>c\<in>set (as_chunks n xs). length c = n"
    using chunks_spec [OF bound] unfolding as_chunks_def by (elim conjE)
  show "length (as_chunks n xs) * n \<le> length xs"
    unfolding len by (rule bound)
qed

lemma position_take_drop:
  "position p xs = (case position p (take k xs) of Some i \<Rightarrow> Some i
     | None \<Rightarrow> map_option (\<lambda>j. min k (length xs) + j) (position p (drop k xs)))"
  using position_append [of p "take k xs" "drop k xs"]
  by (simp only: append_take_drop_id length_take min.commute)

lemma chunked_search:
  defines "scanned xs n \<equiv> length (as_chunks n xs) * n"
  shows "position p xs = (case position p (concat (as_chunks n xs)) of Some i \<Rightarrow> Some i
     | None \<Rightarrow> map_option (\<lambda>j. scanned xs n + j) (position p (drop (scanned xs n) xs)))"
proof -
  have "min (scanned xs n) (length xs) = scanned xs n"
    unfolding scanned_def by (rule min_absorb1) (rule as_chunks_spec(3))
  then show ?thesis
    using position_take_drop [of p xs "scanned xs n"] unfolding as_chunks_spec(1) scanned_def
    by (simp cong: option.case_cong)
qed

lemma find_special_position: "find_special = position is_special"
proof
  fix xs
  show "find_special xs = position is_special xs"
    unfolding find_special_def Let_def is_special_def [symmetric]
    by (subst chunked_search [of is_special xs 16])
      (simp add: scan_chunks_16_spec as_chunks_spec option.map_ident)
qed

lemma find_special_narrow_position: "find_special_narrow = position is_special"
proof
  fix xs
  show "find_special_narrow xs = position is_special xs"
    unfolding find_special_narrow_def Let_def is_special_def [symmetric]
    by (subst chunked_search [of is_special xs 8])
      (simp add: scan_chunks_8_spec as_chunks_spec option.map_ident)
qed

text \<open>
  C25. The chunked word searches of the builds without the standard library return the first
  position that holds a byte to be escaped, for every haystack: both equal the plain byte search.
\<close>

theorem find_special_is_first_special:
  "find_special haystack = position is_special haystack
   \<and> find_special_narrow haystack = position is_special haystack"
  by (simp add: find_special_position find_special_narrow_position)

end
