(* ===== verification/Serial_Framing.thy ===== *)
theory Serial_Framing
  imports Byte_Scanner Frame_Sink Special_Finder
begin

text \<open>
  The serial (HDLC-like) framing of \<^verbatim>\<open>prns-core/src/interfaces/framing/rns_serial_framing.rs\<close>:
  the encoder, the incremental scanner with its bulk-copy fast path, and the decoder over a
  \<open>FrameBuffer\<close>.
\<close>

section \<open>Encoder\<close>

datatype serial_encode_error = OutputTooSmall

definition serial_max_encoded_len :: "nat \<Rightarrow> nat" where
  "serial_max_encoded_len payload_len = 2 + 2 * payload_len"

lemma find_special_less: "find_special xs = Some pos \<Longrightarrow> pos < length xs"
  by (simp add: find_special_position position_lessD)

text \<open>
  The loop of \<open>encode\<close>. The output buffer is returned in every case: an encoding that fails leaves
  the bytes written so far behind.
\<close>

function serial_encode_loop ::
  "u8 list \<Rightarrow> u8 list \<Rightarrow> nat \<Rightarrow> (serial_encode_error + nat) \<times> u8 list" where
  "serial_encode_loop rest out written =
     (let split = find_special rest;
          run = take (case split of Some pos \<Rightarrow> pos | None \<Rightarrow> length rest) rest
      in if written + length run > length out then (Inl OutputTooSmall, out)
         else
           let out = copy_into out written run; written = written + length run
           in case split of
                None \<Rightarrow> (Inr written, out)
              | Some pos \<Rightarrow>
                  if written + 2 > length out then (Inl OutputTooSmall, out)
                  else serial_encode_loop (drop (pos + 1) rest)
                         (out[written := ESC, written + 1 := rest ! pos XOR ESC_MASK])
                         (written + 2))"
  by pat_completeness auto
termination
  by (relation "measure (\<lambda>(rest, _, _). length rest)") (auto dest: find_special_less [OF sym])

declare serial_encode_loop.simps [simp del]

definition serial_encode :: "u8 list \<Rightarrow> u8 list \<Rightarrow> (serial_encode_error + nat) \<times> u8 list" where
  "serial_encode input out =
     (if out = [] then (Inl OutputTooSmall, out)
      else
        case serial_encode_loop input (out[0 := FLAG]) 1 of
          (Inl e, out) \<Rightarrow> (Inl e, out)
        | (Inr written, out) \<Rightarrow>
            if written \<ge> length out then (Inl OutputTooSmall, out)
            else (Inr (written + 1), out[written := FLAG]))"

section \<open>Scanner\<close>

datatype serial_decode_error = FrameTooBig

record rns_serial_scanner =
  ser_in_frame :: bool
  ser_saw_escape :: bool


definition serial_scanner_reset :: "rns_serial_scanner \<Rightarrow> rns_serial_scanner" where
  "serial_scanner_reset sc = sc\<lparr>ser_in_frame := False, ser_saw_escape := False\<rparr>"

definition serial_feed_one_into ::
  "'s frame_sink_ops \<Rightarrow> u8 \<Rightarrow> rns_serial_scanner \<Rightarrow> 's
   \<Rightarrow> (serial_decode_error + bool) \<times> rns_serial_scanner \<times> 's" where
  "serial_feed_one_into ops byte sc sink =
     (if byte = FLAG then
        if ser_in_frame sc
        then (Inr True, sc\<lparr>ser_in_frame := False, ser_saw_escape := False\<rparr>, sink)
        else (Inr False, sc\<lparr>ser_in_frame := True, ser_saw_escape := False\<rparr>, sink_clear ops sink)
      else
        let (sc, sink) =
              (if \<not> ser_in_frame sc
               then (sc\<lparr>ser_in_frame := True, ser_saw_escape := False\<rparr>, sink_clear ops sink)
               else (sc, sink))
        in if byte = ESC then (Inr False, sc\<lparr>ser_saw_escape := True\<rparr>, sink)
           else
             let (payload_byte, sc) =
                   (if ser_saw_escape sc
                    then (if byte = FLAG XOR ESC_MASK then FLAG
                          else if byte = ESC XOR ESC_MASK then ESC
                          else byte, sc\<lparr>ser_saw_escape := False\<rparr>)
                    else (byte, sc))
             in case sink_push ops payload_byte sink of
                  Inl _ \<Rightarrow> (Inl FrameTooBig, serial_scanner_reset sc, sink_clear ops sink)
                | Inr sink \<Rightarrow> (Inr False, sc, sink))"

text \<open>
  \<open>next_frame_into\<close>: the result, the advanced offset, the scanner and the sink. A run of ordinary
  bytes inside a frame is copied at once; otherwise one byte is fed.
\<close>

function serial_next_frame_into ::
  "'s frame_sink_ops \<Rightarrow> u8 list \<Rightarrow> nat \<Rightarrow> rns_serial_scanner \<Rightarrow> 's
   \<Rightarrow> (serial_decode_error + nat option) \<times> nat \<times> rns_serial_scanner \<times> 's" where
  "serial_next_frame_into ops input offset sc sink =
     (if offset < length input then
        let run_end =
              (case find_special (drop offset input) of
                 None \<Rightarrow> length input | Some at \<Rightarrow> offset + at);
            run_len = run_end - offset
        in
        if ser_in_frame sc \<and> \<not> ser_saw_escape sc \<and> run_len \<noteq> 0 then
          let run = take run_len (drop offset input)
          in case sink_extend_from_slice ops run sink of
               Inr sink \<Rightarrow> serial_next_frame_into ops input run_end sc sink
             | Inl _ \<Rightarrow>
                 (Inl FrameTooBig, offset + (sink_free_capacity ops sink + 1),
                  serial_scanner_reset sc, sink_clear ops sink)
        else
          (case serial_feed_one_into ops (input ! offset) sc sink of
             (Inl e, sc, sink) \<Rightarrow> (Inl e, offset + 1, sc, sink)
           | (Inr True, sc, sink) \<Rightarrow> (Inr (Some (sink_frame_len ops sink)), offset + 1, sc, sink)
           | (Inr False, sc, sink) \<Rightarrow> serial_next_frame_into ops input (offset + 1) sc sink)
      else (Inr None, offset, sc, sink))"
  by pat_completeness auto
termination
  by (relation "measure (\<lambda>(_, input, offset, _, _). length input - offset)") auto

declare serial_next_frame_into.simps [simp del]

section \<open>Decoder\<close>

lemma serial_next_frame_progress:
  assumes "serial_next_frame_into ops input offset sc sink = (r, offset', sc', sink')"
  shows "offset \<le> offset' \<and> (offset < length input \<longrightarrow> offset < offset')"
  using assms
proof (induction ops input offset sc sink arbitrary: r offset' sc' sink' rule: serial_next_frame_into.induct)
  case (1 ops input offset sc sink)
  show ?case
    using "1.prems"
    apply (subst (asm) serial_next_frame_into.simps)
    apply (simp only: Let_def split: if_splits sum.splits prod.splits bool.splits)
    apply (fastforce dest: "1.IH"(1)[rotated -1] "1.IH"(2)[rotated -1])+
    done
qed

record rns_serial_decoder =
  sd_scanner :: rns_serial_scanner
  sd_buffer :: frame_buffer


definition serial_decoder_reset :: "rns_serial_decoder \<Rightarrow> rns_serial_decoder" where
  "serial_decoder_reset d =
     d\<lparr>sd_buffer := sink_clear frame_buffer_ops (sd_buffer d),
       sd_scanner := serial_scanner_reset (sd_scanner d)\<rparr>"

definition serial_feed ::
  "u8 \<Rightarrow> rns_serial_decoder \<Rightarrow> (serial_decode_error + u8 list option) \<times> rns_serial_decoder" where
  "serial_feed byte d =
     (case serial_feed_one_into frame_buffer_ops byte (sd_scanner d) (sd_buffer d) of
        (r, sc, buffer) \<Rightarrow>
          (case r of
             Inl e \<Rightarrow> Inl e
           | Inr True \<Rightarrow> Inr (Some (frame_bytes buffer))
           | Inr False \<Rightarrow> Inr None, \<lparr>sd_scanner = sc, sd_buffer = buffer\<rparr>))"

definition serial_feed_slice_next ::
  "rns_serial_decoder \<Rightarrow> u8 list \<Rightarrow> nat
   \<Rightarrow> (serial_decode_error + u8 list option) \<times> nat \<times> rns_serial_decoder" where
  "serial_feed_slice_next d input offset =
     (case serial_next_frame_into frame_buffer_ops input offset (sd_scanner d) (sd_buffer d) of
        (r, offset, sc, buffer) \<Rightarrow>
          (case r of
             Inl e \<Rightarrow> Inl e
           | Inr (Some _) \<Rightarrow> Inr (Some (frame_bytes buffer))
           | Inr None \<Rightarrow> Inr None, offset, \<lparr>sd_scanner = sc, sd_buffer = buffer\<rparr>))"

lemma serial_feed_slice_next_progress:
  "serial_feed_slice_next d input offset = (r, offset', d') \<Longrightarrow> offset < length input \<Longrightarrow> offset < offset'"
  by (auto simp: serial_feed_slice_next_def dest: serial_next_frame_progress split: prod.splits)

text \<open>\<open>feed_slice\<close>: the frames handed to the callback, in order, and the decoder afterwards.\<close>

function serial_feed_slice_from ::
  "u8 list \<Rightarrow> nat \<Rightarrow> rns_serial_decoder \<Rightarrow> u8 list list \<times> rns_serial_decoder" where
  "serial_feed_slice_from input offset d =
     (if offset < length input then
        case serial_feed_slice_next d input offset of
          (Inr (Some frame), offset', d') \<Rightarrow> apfst (Cons frame) (serial_feed_slice_from input offset' d')
        | (Inr None, _, d') \<Rightarrow> ([], d')
        | (Inl FrameTooBig, offset', d') \<Rightarrow> serial_feed_slice_from input offset' d'
      else ([], d))"
  by pat_completeness auto
termination
  by (relation "measure (\<lambda>(input, offset, _). length input - offset)")
    (auto dest: serial_feed_slice_next_progress [OF sym] intro: diff_less_mono2)

declare serial_feed_slice_from.simps [simp del]

definition serial_feed_slice :: "rns_serial_decoder \<Rightarrow> u8 list \<Rightarrow> u8 list list \<times> rns_serial_decoder" where
  "serial_feed_slice d input = serial_feed_slice_from input 0 d"

section \<open>What the encoder writes\<close>

text \<open>A frame is the payload with every special byte escaped, between two flags.\<close>

definition serial_escape :: "u8 \<Rightarrow> u8 list" where
  "serial_escape b = (if is_special b then [ESC, b XOR ESC_MASK] else [b])"

definition serial_body :: "u8 list \<Rightarrow> u8 list" where
  "serial_body input = concat (map serial_escape input)"

definition serial_frame :: "u8 list \<Rightarrow> u8 list" where
  "serial_frame input = FLAG # serial_body input @ [FLAG]"

lemma serial_body_simps [simp]:
  "serial_body [] = []" "serial_body (b # bs) = serial_escape b @ serial_body bs"
  "serial_body (xs @ ys) = serial_body xs @ serial_body ys"
  by (simp_all add: serial_body_def)

lemma serial_body_plain: "\<forall>b\<in>set xs. \<not> is_special b \<Longrightarrow> serial_body xs = xs"
  by (induction xs) (auto simp: serial_escape_def)

lemma serial_body_split:
  assumes "find_special rest = Some pos"
  shows "serial_body rest =
    (take pos rest @ [ESC, rest ! pos XOR ESC_MASK]) @ serial_body (drop (pos + 1) rest)"
proof -
  have "position is_special rest = Some pos" using assms by (simp add: find_special_position)
  then have "\<forall>b\<in>set (take pos rest). \<not> is_special b" and "is_special (rest ! pos)"
    and "rest = take pos rest @ rest ! pos # drop (Suc pos) rest"
    by (auto simp: position_Some_iff in_set_conv_nth id_take_nth_drop)
  then show ?thesis
    by (metis Suc_eq_plus1 append.assoc append_Cons append_Nil serial_body_plain serial_body_simps(2,3) serial_escape_def)
qed

lemma serial_encode_loop_spec:
  assumes "written \<le> length out0"
  shows "if written + length (serial_body rest) \<le> length out0
     then serial_encode_loop rest out0 written =
       (Inr (written + length (serial_body rest)), copy_into out0 written (serial_body rest))
     else \<exists>out. serial_encode_loop rest out0 written = (Inl OutputTooSmall, out)
       \<and> length out = length out0"
  using assms
proof (induction rest out0 written rule: serial_encode_loop.induct)
  case (1 rest out0 written)
  show ?case
  proof (cases "find_special rest")
    case None
    then have "serial_body rest = rest"
      by (simp add: find_special_position position_None_iff serial_body_plain)
    with None show ?thesis
      by (subst serial_encode_loop.simps) (simp add: serial_encode_loop.simps [of rest])
  next
    case (Some pos)
    then have pos: "pos < length rest" by (rule find_special_less)
    let ?out = "copy_into out0 written (take pos rest)" and ?w = "written + pos"
    show ?thesis
    proof (cases "?w + 2 \<le> length out0")
      case True
      have out: "(?out)[?w := ESC, ?w + 1 := rest ! pos XOR ESC_MASK] =
        copy_into out0 written (take pos rest @ [ESC, rest ! pos XOR ESC_MASK])"
        using True pos update_pair_copy_into [of ?w ?out] copy_into_append [of written "take pos rest" out0]
        by simp
      have step: "serial_encode_loop rest out0 written =
        serial_encode_loop (drop (pos + 1) rest)
          (copy_into out0 written (take pos rest @ [ESC, rest ! pos XOR ESC_MASK])) (?w + 2)"
        using True pos out by (simp add: serial_encode_loop.simps [of rest] Some Let_def)
      have len: "length (copy_into out0 written (take pos rest @ [ESC, rest ! pos XOR ESC_MASK])) = length out0"
        using True pos by simp
      have app: "copy_into (copy_into out0 written (take pos rest @ [ESC, rest ! pos XOR ESC_MASK])) (?w + 2) ys =
        copy_into out0 written ((take pos rest @ [ESC, rest ! pos XOR ESC_MASK]) @ ys)" for ys
        using True pos copy_into_append [of written "take pos rest @ [ESC, rest ! pos XOR ESC_MASK]" out0 ys]
        by (simp add: add.assoc)
      show ?thesis
        using "1.IH" [OF refl refl _ refl refl Some] True pos
        unfolding step serial_body_split [OF Some] app [symmetric]
        by (simp add: Some out [simplified] len cong: if_cong)
    next
      case False
      with Some pos show ?thesis
        by (simp add: serial_encode_loop.simps [of rest] serial_body_split [OF Some] Let_def)
    qed
  qed
qed

lemma serial_encode_spec:
  "if length (serial_frame input) \<le> length out
   then serial_encode input out =
     (Inr (length (serial_frame input)), serial_frame input @ drop (length (serial_frame input)) out)
   else \<exists>out'. serial_encode input out = (Inl OutputTooSmall, out') \<and> length out' = length out"
proof (cases out)
  case Nil
  then show ?thesis by (simp add: serial_encode_def serial_frame_def)
next
  case (Cons x xs)
  note loop = serial_encode_loop_spec [of 1 "FLAG # xs" input]
  show ?thesis
  proof (cases "length (serial_frame input) \<le> length out")
    case True
    then have "length (serial_body input) < length xs" by (simp add: Cons serial_frame_def)
    with loop True show ?thesis
      by (simp add: Cons serial_encode_def serial_frame_def copy_into_def drop_update_head list_update_append)
  next
    case False
    then have "length xs \<le> length (serial_body input)" by (simp add: Cons serial_frame_def)
    with loop False show ?thesis
      by (cases "length xs = length (serial_body input)")
        (auto simp: Cons serial_encode_def serial_frame_def copy_into_def)
  qed
qed

lemma length_serial_body: "length (serial_body xs) \<le> 2 * length xs"
  by (induction xs) (auto simp: serial_escape_def)

section \<open>The byte-wise specification\<close>

text \<open>
  An abstract scanner over the payload collected so far: whether a frame is open, whether the last
  byte was an escape, and the bytes. It reads one byte at a time and has no fast path.
\<close>

type_synonym serial_state = "bool \<times> bool \<times> u8 list"

definition serial_unescape :: "u8 \<Rightarrow> u8" where
  "serial_unescape b = (if b = FLAG XOR ESC_MASK then FLAG else if b = ESC XOR ESC_MASK then ESC else b)"

fun serial_spec_step :: "nat \<Rightarrow> u8 \<Rightarrow> serial_state \<Rightarrow> u8 list scan_event \<times> serial_state" where
  "serial_spec_step cap byte (opened, esc, buf) =
     (if byte = FLAG then
        (if opened then (Yield buf, (False, False, buf)) else (Quiet, (True, False, [])))
      else
        let (esc, buf) = (if opened then (esc, buf) else (False, []))
        in if byte = ESC then (Quiet, (True, True, buf))
           else if length buf < cap
                then (Quiet, (True, False, buf @ [if esc then serial_unescape byte else byte]))
                else (Oversize, (False, False, [])))"

lemma serial_spec_next_run:
  assumes "\<forall>b\<in>set run. \<not> is_special b" and "length buf + length run \<le> cap"
  shows "scan_next (serial_spec_step cap) (run @ rest) (True, False, buf) =
    (case scan_next (serial_spec_step cap) rest (True, False, buf @ run) of (e, n, st) \<Rightarrow> (e, length run + n, st))"
  using assms
proof (induction run arbitrary: buf)
  case Nil
  then show ?case by (simp split: prod.splits)
next
  case (Cons b run)
  from Cons.prems have "b \<noteq> FLAG" "b \<noteq> ESC" by (auto simp: is_special_def)
  with Cons.prems Cons.IH [of "buf @ [b]"] show ?case
    by (auto split: prod.splits)
qed

lemma serial_spec_next_run_overflow:
  assumes "\<forall>b\<in>set run. \<not> is_special b" and "cap - length buf < length run"
  shows "scan_next (serial_spec_step cap) (run @ rest) (True, False, buf) =
    (Oversize, cap - length buf + 1, (False, False, []))"
  using assms
proof (induction run arbitrary: buf)
  case Nil
  then show ?case by simp
next
  case (Cons b run)
  from Cons.prems have b: "b \<noteq> FLAG" "b \<noteq> ESC" by (auto simp: is_special_def)
  show ?case
  proof (cases "length buf < cap")
    case True
    with Cons.prems b Cons.IH [of "buf @ [b]"] show ?thesis by auto
  next
    case False
    with b show ?thesis by simp
  qed
qed

section \<open>The scanner and the decoder implement the specification\<close>

context frame_sink
begin

definition serial_abs :: "rns_serial_scanner \<Rightarrow> 's \<Rightarrow> serial_state" where
  "serial_abs sc sink = (ser_in_frame sc, ser_saw_escape sc, contents sink)"

definition feed_event :: "serial_decode_error + bool \<Rightarrow> 's \<Rightarrow> u8 list scan_event" where
  "feed_event r sink = (case r of Inl _ \<Rightarrow> Oversize | Inr True \<Rightarrow> Yield (contents sink) | Inr False \<Rightarrow> Quiet)"

lemma serial_feed_one_refines:
  "serial_spec_step (cap sink) byte (serial_abs sc sink) =
     (case serial_feed_one_into ops byte sc sink of
        (r, sc', sink') \<Rightarrow> (feed_event r sink', serial_abs sc' sink'))"
  by (cases "byte = FLAG"; cases "ser_in_frame sc"; cases "byte = ESC"; cases "ser_saw_escape sc";
      cases "length (contents sink) < cap sink"; cases "0 < cap sink")
    (simp_all add: serial_feed_one_into_def serial_abs_def feed_event_def serial_unescape_def
      serial_scanner_reset_def sink_simps)

lemma serial_feed_one_cap:
  "serial_feed_one_into ops byte sc sink = (r, sc', sink') \<Longrightarrow> cap sink' = cap sink"
  by (auto simp: serial_feed_one_into_def sink_simps Let_def split: if_splits prod.splits sum.splits)

definition frame_event :: "serial_decode_error + nat option \<Rightarrow> 's \<Rightarrow> u8 list scan_event" where
  "frame_event r sink =
     (case r of Inl _ \<Rightarrow> Oversize | Inr None \<Rightarrow> Quiet | Inr (Some _) \<Rightarrow> Yield (contents sink))"

lemma plain_run:
  assumes "offset < length input"
    and "run_end = (case find_special (drop offset input) of None \<Rightarrow> length input | Some at \<Rightarrow> offset + at)"
  shows "offset \<le> run_end" "run_end \<le> length input"
    and "drop offset input = take (run_end - offset) (drop offset input) @ drop run_end input"
    and "\<forall>b\<in>set (take (run_end - offset) (drop offset input)). \<not> is_special b"
proof -
  show le: "offset \<le> run_end" "run_end \<le> length input"
    using assms by (auto simp: find_special_position position_Some_iff split: option.splits)
  then show "drop offset input = take (run_end - offset) (drop offset input) @ drop run_end input"
    by (metis append_take_drop_id drop_drop le_add_diff_inverse2)
  show "\<forall>b\<in>set (take (run_end - offset) (drop offset input)). \<not> is_special b"
  proof (cases "find_special (drop offset input)")
    case None
    then show ?thesis
      by (auto simp: find_special_position position_None_iff dest: in_set_takeD)
  next
    case (Some at)
    then have "run_end - offset = at" using assms(2) by simp
    with Some show ?thesis
      by (auto simp: find_special_position position_Some_iff in_set_conv_nth)
  qed
qed

lemma serial_next_frame_bulk:
  assumes nxt: "serial_next_frame_into ops input offset sc sink = (r, offset', sc', sink')"
    and offset: "offset < length input"
    and run_end: "run_end = (case find_special (drop offset input) of None \<Rightarrow> length input | Some at \<Rightarrow> offset + at)"
    and bulk: "ser_in_frame sc" "\<not> ser_saw_escape sc" "run_end - offset \<noteq> 0"
    and IH: "\<And>sink1. serial_next_frame_into ops input run_end sc sink1 = (r, offset', sc', sink') \<Longrightarrow>
      scan_next (serial_spec_step (cap sink1)) (drop run_end input) (serial_abs sc sink1) =
        (frame_event r sink', offset' - run_end, serial_abs sc' sink') \<and> cap sink' = cap sink1
        \<and> offset' \<le> length input"
  shows "scan_next (serial_spec_step (cap sink)) (drop offset input) (serial_abs sc sink) =
      (frame_event r sink', offset' - offset, serial_abs sc' sink') \<and> cap sink' = cap sink
      \<and> offset' \<le> length input"
proof -
  let ?run = "take (run_end - offset) (drop offset input)"
  note run = plain_run [OF offset run_end]
  have abs: "serial_abs sc sink = (True, False, contents sink)"
    and len: "length ?run = run_end - offset"
    using bulk run by (simp_all add: serial_abs_def)
  note eq = nxt [unfolded serial_next_frame_into.simps [of ops input offset]]
  show ?thesis
  proof (cases "run_end - offset \<le> cap sink - length (contents sink)")
    case True
    with eq offset bulk len have
      rec: "serial_next_frame_into ops input run_end sc (extended ?run sink) = (r, offset', sc', sink')"
      by (simp add: run_end [symmetric] sink_simps Let_def)
    moreover have "run_end \<le> offset'" using serial_next_frame_progress [OF rec] by simp
    ultimately show ?thesis
      using serial_spec_next_run [OF run(4), of "contents sink" "cap sink" "drop run_end input"]
        IH [OF rec] True len bulk
      by (subst run(3)) (auto simp: abs serial_abs_def sink_simps split: prod.splits)
  next
    case False
    with eq offset bulk len have
      "r = Inl FrameTooBig" "sc' = serial_scanner_reset sc" "sink' = sink_clear ops sink"
      "offset' = offset + (cap sink - length (contents sink) + 1)"
      by (simp_all add: run_end [symmetric] sink_simps Let_def)
    then show ?thesis
      using serial_spec_next_run_overflow [OF run(4), of "cap sink" "contents sink" "drop run_end input"]
        False len bulk run
      by (subst run(3)) (auto simp: abs serial_abs_def frame_event_def serial_scanner_reset_def sink_simps)
  qed
qed

lemma serial_next_frame_refines:
  assumes "serial_next_frame_into ops input offset sc sink = (r, offset', sc', sink')"
    and "offset \<le> length input"
  shows "scan_next (serial_spec_step (cap sink)) (drop offset input) (serial_abs sc sink) =
      (frame_event r sink', offset' - offset, serial_abs sc' sink') \<and> cap sink' = cap sink
      \<and> offset' \<le> length input"
  using assms
proof (induction "length input - offset" arbitrary: offset sc sink rule: less_induct)
  case less
  note eq = less.prems(1) [unfolded serial_next_frame_into.simps [of ops input offset]]
  define run_end where
    "run_end = (case find_special (drop offset input) of None \<Rightarrow> length input | Some at \<Rightarrow> offset + at)"
  consider "offset = length input"
    | (bulk) "offset < length input" "ser_in_frame sc" "\<not> ser_saw_escape sc" "run_end - offset \<noteq> 0"
    | (single) "offset < length input" "\<not> (ser_in_frame sc \<and> \<not> ser_saw_escape sc \<and> run_end - offset \<noteq> 0)"
    using less.prems(2) by linarith
  then show ?case
  proof cases
    case 1
    with eq show ?thesis by (auto simp: frame_event_def)
  next
    case bulk
    have "length input - run_end < length input - offset" "run_end \<le> length input"
      using bulk plain_run [OF bulk(1) run_end_def] by simp_all
    then show ?thesis
      by (intro serial_next_frame_bulk [OF less.prems(1) bulk(1) run_end_def bulk(2-4)] less.hyps)
  next
    case single
    obtain fr sc1 sink1 where feed: "serial_feed_one_into ops (input ! offset) sc sink = (fr, sc1, sink1)"
      by (metis prod_cases3)
    note step = serial_feed_one_refines [of sink "input ! offset" sc, unfolded feed, simplified]
    have cons: "drop offset input = input ! offset # drop (Suc offset) input"
      using single(1) by (simp add: Cons_nth_drop_Suc)
    have eq': "(case fr of Inl e \<Rightarrow> (Inl e, Suc offset, sc1, sink1)
        | Inr True \<Rightarrow> (Inr (Some (sink_frame_len ops sink1)), Suc offset, sc1, sink1)
        | Inr False \<Rightarrow> serial_next_frame_into ops input (Suc offset) sc1 sink1) = (r, offset', sc', sink')"
      using eq unfolding Let_def run_end_def [symmetric] if_P [OF single(1)] if_not_P [OF single(2)] feed
      by (auto split: sum.splits bool.splits)
    consider (err) e where "fr = Inl e" | (done') "fr = Inr True" | (more) "fr = Inr False"
      by (cases fr; auto)
    then show ?thesis
    proof cases
      case more
      with eq' have
        rec: "serial_next_frame_into ops input (Suc offset) sc1 sink1 = (r, offset', sc', sink')" by simp
      moreover have "Suc offset \<le> offset'" using serial_next_frame_progress [OF rec] by simp
      ultimately show ?thesis
        using less.hyps [OF _ rec] single(1) more step serial_feed_one_cap [OF feed]
        by (auto simp: cons feed_event_def)
    qed (use eq' step serial_feed_one_cap [OF feed] single in
        \<open>auto simp: cons feed_event_def frame_event_def\<close>)
  qed
qed
end

definition decoder_abs :: "rns_serial_decoder \<Rightarrow> serial_state" where
  "decoder_abs d = fb.serial_abs (sd_scanner d) (sd_buffer d)"

definition decoder_cap :: "rns_serial_decoder \<Rightarrow> nat" where
  "decoder_cap d = frame_cap (sd_buffer d)"

lemma decoder_eqI: "decoder_abs d = decoder_abs d' \<Longrightarrow> decoder_cap d = decoder_cap d' \<Longrightarrow> d = d'"
  by (cases d; cases d'; cases "sd_scanner d"; cases "sd_scanner d'"; cases "sd_buffer d"; cases "sd_buffer d'")
    (simp add: decoder_abs_def decoder_cap_def fb.serial_abs_def)

lemma serial_feed_refines:
  "decoder_cap d = c \<Longrightarrow>
     serial_spec_step c byte (decoder_abs d) = map_prod id decoder_abs (feed_step serial_feed byte d)
     \<and> decoder_cap (snd (feed_step serial_feed byte d)) = c"
  using fb.serial_feed_one_refines [of "sd_buffer d" byte "sd_scanner d"]
  by (auto simp: decoder_abs_def decoder_cap_def feed_step_def serial_feed_def fb.feed_event_def
      dest: fb.serial_feed_one_cap split: prod.splits sum.splits bool.splits)

lemma serial_feed_slice_next_refines:
  assumes "serial_feed_slice_next d input offset = (r, offset', d')" and "offset \<le> length input"
  shows "scan_next (serial_spec_step (decoder_cap d)) (drop offset input) (decoder_abs d) =
       (event_of r, offset' - offset, decoder_abs d')
     \<and> decoder_cap d' = decoder_cap d"
  using assms
  by (auto simp: serial_feed_slice_next_def decoder_abs_def decoder_cap_def fb.frame_event_def
      dest!: fb.serial_next_frame_refines split: prod.splits sum.splits option.splits)

interpretation serial: slice_decoder serial_feed serial_feed_slice_next serial_feed_slice_from
proof unfold_locales
  fix d input offset r offset' d'
  assume nxt: "serial_feed_slice_next d input offset = (r, offset', d')" and le: "offset \<le> length input"
  obtain e n d2 where scan: "scan_next (feed_step serial_feed) (drop offset input) d = (e, n, d2)"
    by (metis prod_cases3)
  have "offset \<le> offset'"
    using nxt by (auto simp: serial_feed_slice_next_def dest: serial_next_frame_progress split: prod.splits)
  moreover have "(e, n, d2) = (event_of r, offset' - offset, d')"
    using serial_feed_slice_next_refines [OF nxt le]
      scan_next_sim [where I = "\<lambda>x. decoder_cap x = decoder_cap d", OF serial_feed_refines scan refl]
    by (auto intro: decoder_eqI)
  ultimately show "offset \<le> offset' \<and>
      scan_next (feed_step serial_feed) (drop offset input) d = (event_of r, offset' - offset, d')"
    using scan by simp
next
  fix input offset d
  show "serial_feed_slice_from input offset d =
    (if offset < length input then
       case serial_feed_slice_next d input offset of
         (Inr (Some f), offset', d') \<Rightarrow> apfst (Cons f) (serial_feed_slice_from input offset' d')
       | (Inr None, _, d') \<Rightarrow> ([], d')
       | (Inl _, offset', d') \<Rightarrow> serial_feed_slice_from input offset' d'
     else ([], d))"
    by (subst serial_feed_slice_from.simps) (auto split: serial_decode_error.splits sum.splits option.splits prod.splits)
qed

section \<open>Properties of the serial framing\<close>

lemma serial_feed_slice_refines:
  "serial_feed_slice d input = (frames, d') \<Longrightarrow>
     scan_frames (serial_spec_step (decoder_cap d)) input (decoder_abs d) = (frames, decoder_abs d')
     \<and> decoder_cap d' = decoder_cap d"
  unfolding serial_feed_slice_def serial.slice_bytewise feed_bytes_def
  by (rule scan_frames_sim [where I = "\<lambda>x. decoder_cap x = decoder_cap d" and \<alpha> = decoder_abs])
    (simp_all add: serial_feed_refines)

lemma escape_bytes [simp]:
  "b XOR ESC_MASK = FLAG \<longleftrightarrow> b = 0x5E" "b XOR ESC_MASK = ESC \<longleftrightarrow> b = 0x5D"
  for b :: u8
  by (induction b rule: u8_exhaust) code_simp

lemma serial_unescape_escape: "is_special b \<Longrightarrow> serial_unescape (b XOR ESC_MASK) = b"
  by (auto simp: is_special_def serial_unescape_def FLAG_def ESC_def ESC_MASK_def)

lemma serial_spec_frames_escape:
  assumes "length buf < cap"
  shows "scan_frames (serial_spec_step cap) (serial_escape b @ rest) (True, False, buf) =
    scan_frames (serial_spec_step cap) rest (True, False, buf @ [b])"
proof (cases "is_special b")
  case True
  then have "b \<noteq> 0x5E" "b \<noteq> 0x5D" "ESC \<noteq> FLAG" by (auto simp: is_special_def FLAG_def ESC_def)
  with True assms show ?thesis by (simp add: serial_escape_def serial_unescape_escape)
next
  case False
  with assms show ?thesis by (simp add: serial_escape_def is_special_def)
qed

lemma serial_spec_frames_body:
  "length buf + length p \<le> cap \<Longrightarrow>
     scan_frames (serial_spec_step cap) (serial_body p @ rest) (True, False, buf) =
       scan_frames (serial_spec_step cap) rest (True, False, buf @ p)"
  by (induction p arbitrary: buf) (simp_all add: serial_spec_frames_escape)

lemma serial_body_nonempty:
  assumes "p \<noteq> []"
  obtains b bs where "serial_body p = b # bs" "b \<noteq> FLAG"
proof (cases p)
  case (Cons x xs)
  have "ESC \<noteq> FLAG" by (simp add: ESC_def FLAG_def)
  with Cons show ?thesis
    by (cases "is_special x") (auto simp: serial_escape_def is_special_def intro: that)
qed (use assms in simp)

lemma serial_spec_frames_implicit_open:
  "b \<noteq> FLAG \<Longrightarrow>
     scan_frames (serial_spec_step cap) (b # bs) (False, esc, buf) = scan_frames (serial_spec_step cap) (b # bs) (True, False, [])"
  by simp

lemma serial_spec_frames_open_flag:
  "scan_frames (serial_spec_step cap) (FLAG # bs) (False, esc, buf) = scan_frames (serial_spec_step cap) bs (True, False, [])"
  by simp

lemma serial_spec_frames_frame:
  assumes "p \<noteq> []" "length p \<le> cap"
  shows "scan_frames (serial_spec_step cap) (serial_frame p) (opened, esc, buf) =
    (if opened then [buf, p] else [p], (False, False, p))"
proof -
  from assms(1) obtain b bs where body: "serial_body p = b # bs" "b \<noteq> FLAG" by (rule serial_body_nonempty)
  have "scan_frames (serial_spec_step cap) (serial_body p @ [FLAG]) (True, False, []) = ([p], (False, False, p))"
    using assms(2) by (subst serial_spec_frames_body) simp_all
  moreover from this have "scan_frames (serial_spec_step cap) (serial_body p @ [FLAG]) (False, e, buf) = ([p], (False, False, p))" for e
    using body by (metis append_Cons serial_spec_frames_implicit_open)
  ultimately show ?thesis by (cases opened) (simp_all add: serial_frame_def)
qed

text \<open>
  C26. The serial encoder succeeds exactly when the frame of its input fits the output buffer. It then
  returns the frame's length, leaves the frame at the start of the buffer and the rest of the buffer
  untouched. A buffer of \<open>max_encoded_len\<close> bytes is always large enough.
\<close>

theorem serial_encode_correct:
  "(case serial_encode input out of
      (Inr n, out') \<Rightarrow> n = length (serial_frame input) \<and> n \<le> length out
        \<and> out' = serial_frame input @ drop n out
    | (Inl OutputTooSmall, out') \<Rightarrow> length out < length (serial_frame input) \<and> length out' = length out)
   \<and> length (serial_frame input) \<le> serial_max_encoded_len (length input)"
  using serial_encode_spec [of input out] length_serial_body [of input]
  by (cases "length (serial_frame input) \<le> length out")
    (auto simp: serial_max_encoded_len_def serial_frame_def split: serial_encode_error.splits)

text \<open>
  C27. The decoder's bulk path gives what feeding the bytes one at a time gives: the same frames in
  the same order, and the same decoder afterwards, from every decoder state.
\<close>

theorem serial_feed_slice_bytewise: "serial_feed_slice d input = feed_bytes serial_feed input d"
  unfolding serial_feed_slice_def by (rule serial.slice_bytewise)

text \<open>
  How a byte stream is cut into reads does not matter: decoding two chunks one after the other
  gives the frames, and the decoder, of decoding them as one.
\<close>

theorem serial_feed_slice_chunks:
  "serial_feed_slice d (xs @ ys) =
     (case serial_feed_slice d xs of
        (fs, d) \<Rightarrow> (case serial_feed_slice d ys of (gs, d) \<Rightarrow> (fs @ gs, d)))"
  unfolding serial_feed_slice_def by (rule serial.slice_chunks)

text \<open>
  C9. Encoding then decoding returns the payload, whatever state the decoder was in (for example after
  joining a stream in the middle of a frame): a non-empty payload within the frame capacity is the
  last frame delivered, at most one frame is delivered before it, and no frame is left open.
\<close>

theorem serial_round_trip_resync:
  assumes "serial_encode p out = (Inr n, out')" and "p \<noteq> []" and "length p \<le> frame_cap (sd_buffer d)"
  shows "\<exists>d'. serial_feed_slice d (take n out') =
      (if ser_in_frame (sd_scanner d) then [frame_bytes (sd_buffer d), p] else [p], d')
    \<and> \<not> ser_in_frame (sd_scanner d') \<and> frame_bytes (sd_buffer d') = p"
proof -
  have wire: "take n out' = serial_frame p"
    using serial_encode_spec [of p out] assms(1) by (auto split: if_splits)
  obtain fs d' where d': "serial_feed_slice d (serial_frame p) = (fs, d')" by fastforce
  show ?thesis
    unfolding wire d' using serial_feed_slice_refines [OF d'] serial_spec_frames_frame [OF assms(2,3)]
    by (intro exI [of _ d']) (simp add: decoder_abs_def decoder_cap_def fb.serial_abs_def)
qed

theorem serial_round_trip_resync_witness:
  "serial_encode [1, FLAG, ESC] (replicate 8 0) = (Inr 7, [0x7E, 1, 0x7D, 0x5E, 0x7D, 0x5D, 0x7E, 0])
   \<and> (\<exists>d'. serial_feed_slice
          \<lparr>sd_scanner = \<lparr>ser_in_frame = True, ser_saw_escape = True\<rparr>,
           sd_buffer = \<lparr>frame_cap = 16, frame_bytes = [9]\<rparr>\<rparr>
          (take 7 [0x7E, 1, 0x7D, 0x5E, 0x7D, 0x5D, 0x7E, 0]) = ([[9], [1, FLAG, ESC]], d')
        \<and> \<not> ser_in_frame (sd_scanner d') \<and> frame_bytes (sd_buffer d') = [1, FLAG, ESC])"
proof -
  have enc: "serial_encode [1, FLAG, ESC] (replicate 8 0) =
    (Inr 7, [0x7E, 1, 0x7D, 0x5E, 0x7D, 0x5D, 0x7E, 0])"
    by code_simp
  show ?thesis
    using serial_round_trip_resync [OF enc, of
        "\<lparr>sd_scanner = \<lparr>ser_in_frame = True, ser_saw_escape = True\<rparr>,
          sd_buffer = \<lparr>frame_cap = 16, frame_bytes = [9]\<rparr>\<rparr>"] enc
    by simp
qed








end
