(* ===== verification/Kiss_Framing.thy ===== *)
theory Kiss_Framing
  imports Byte_Scanner Frame_Sink
begin

text \<open>
  The KISS framing of \<^verbatim>\<open>prns-core/src/interfaces/framing/kiss_framing.rs\<close>: the encoder, the scanner and
  decoder that yield data frames only, and the command decoder that yields every frame with its
  command byte.
\<close>

section \<open>Constants and encoder\<close>

definition FEND :: u8 where "FEND = 0xC0"
definition FESC :: u8 where "FESC = 0xDB"
definition TFEND :: u8 where "TFEND = 0xDC"
definition TFESC :: u8 where "TFESC = 0xDD"

definition CMD_DATA :: u8 where "CMD_DATA = 0x00"
definition CMD_READY :: u8 where "CMD_READY = 0x0F"
definition CMD_UNKNOWN :: u8 where "CMD_UNKNOWN = 0xFE"

lemmas kiss_consts = FEND_def FESC_def TFEND_def TFESC_def CMD_DATA_def CMD_UNKNOWN_def

datatype kiss_encode_error = OutputTooSmall

definition kiss_max_encoded_len :: "nat \<Rightarrow> nat" where
  "kiss_max_encoded_len payload_len = 3 + 2 * payload_len"

fun kiss_encode_loop ::
  "u8 list \<Rightarrow> u8 list \<Rightarrow> nat \<Rightarrow> (kiss_encode_error + nat) \<times> u8 list" where
  "kiss_encode_loop [] out written = (Inr written, out)"
| "kiss_encode_loop (byte # rest) out written =
     (if byte = FEND then
        if written + 2 > length out then (Inl OutputTooSmall, out)
        else kiss_encode_loop rest (out[written := FESC, written + 1 := TFEND]) (written + 2)
      else if byte = FESC then
        if written + 2 > length out then (Inl OutputTooSmall, out)
        else kiss_encode_loop rest (out[written := FESC, written + 1 := TFESC]) (written + 2)
      else
        if written + 1 > length out then (Inl OutputTooSmall, out)
        else kiss_encode_loop rest (out[written := byte]) (written + 1))"

definition kiss_encode_with_command ::
  "u8 \<Rightarrow> u8 list \<Rightarrow> u8 list \<Rightarrow> (kiss_encode_error + nat) \<times> u8 list" where
  "kiss_encode_with_command command input out =
     (if length out < 2 then (Inl OutputTooSmall, out)
      else
        case kiss_encode_loop input (out[0 := FEND, 1 := command]) 2 of
          (Inl e, out) \<Rightarrow> (Inl e, out)
        | (Inr written, out) \<Rightarrow>
            if written \<ge> length out then (Inl OutputTooSmall, out)
            else (Inr (written + 1), out[written := FEND]))"

definition kiss_encode :: "u8 list \<Rightarrow> u8 list \<Rightarrow> (kiss_encode_error + nat) \<times> u8 list" where
  "kiss_encode input out = kiss_encode_with_command CMD_DATA input out"

definition kiss_command_frame :: "u8 \<Rightarrow> u8 \<Rightarrow> u8 list" where
  "kiss_command_frame command val = [FEND, command, val, FEND]"

section \<open>Data decoder\<close>

datatype kiss_decode_error = FrameTooBig

record kiss_scanner =
  kiss_in_frame :: bool
  kiss_command :: u8
  kiss_saw_escape :: bool

definition kiss_scanner_new :: kiss_scanner where
  "kiss_scanner_new =
     \<lparr>kiss_in_frame = False, kiss_command = CMD_UNKNOWN, kiss_saw_escape = False\<rparr>"

definition kiss_scanner_reset :: "kiss_scanner \<Rightarrow> kiss_scanner" where
  "kiss_scanner_reset sc =
     sc\<lparr>kiss_in_frame := False, kiss_command := CMD_UNKNOWN, kiss_saw_escape := False\<rparr>"

definition kiss_feed_one_into ::
  "'s frame_sink_ops \<Rightarrow> u8 \<Rightarrow> kiss_scanner \<Rightarrow> 's \<Rightarrow> (kiss_decode_error + bool) \<times> kiss_scanner \<times> 's" where
  "kiss_feed_one_into ops byte sc sink =
     (if kiss_in_frame sc \<and> byte = FEND \<and> kiss_command sc = CMD_DATA then
        (Inr True, sc\<lparr>kiss_in_frame := False, kiss_saw_escape := False\<rparr>, sink)
      else if byte = FEND then
        (Inr False, sc\<lparr>kiss_in_frame := True, kiss_command := CMD_UNKNOWN, kiss_saw_escape := False\<rparr>,
         sink_clear ops sink)
      else if \<not> kiss_in_frame sc then (Inr False, sc, sink)
      else if kiss_command sc = CMD_UNKNOWN \<and> sink_frame_len ops sink = 0 then
        (Inr False, sc\<lparr>kiss_command := byte AND 0x0F\<rparr>, sink)
      else if kiss_command sc \<noteq> CMD_DATA then (Inr False, sc, sink)
      else if byte = FESC then (Inr False, sc\<lparr>kiss_saw_escape := True\<rparr>, sink)
      else
        let (payload_byte, sc) =
              (if kiss_saw_escape sc
               then (if byte = TFEND then FEND else if byte = TFESC then FESC else byte,
                     sc\<lparr>kiss_saw_escape := False\<rparr>)
               else (byte, sc))
        in case sink_push ops payload_byte sink of
             Inl _ \<Rightarrow> (Inl FrameTooBig, kiss_scanner_reset sc, sink_clear ops sink)
           | Inr sink \<Rightarrow> (Inr False, sc, sink))"

function kiss_next_frame_into ::
  "'s frame_sink_ops \<Rightarrow> u8 list \<Rightarrow> nat \<Rightarrow> kiss_scanner \<Rightarrow> 's
   \<Rightarrow> (kiss_decode_error + nat option) \<times> nat \<times> kiss_scanner \<times> 's" where
  "kiss_next_frame_into ops input offset sc sink =
     (if offset < length input then
        case kiss_feed_one_into ops (input ! offset) sc sink of
          (Inl e, sc, sink) \<Rightarrow> (Inl e, offset + 1, sc, sink)
        | (Inr True, sc, sink) \<Rightarrow> (Inr (Some (sink_frame_len ops sink)), offset + 1, sc, sink)
        | (Inr False, sc, sink) \<Rightarrow> kiss_next_frame_into ops input (offset + 1) sc sink
      else (Inr None, offset, sc, sink))"
  by pat_completeness auto
termination
  by (relation "measure (\<lambda>(_, input, offset, _, _). length input - offset)") auto

declare kiss_next_frame_into.simps [simp del]

record kiss_decoder =
  kd_scanner :: kiss_scanner
  kd_buffer :: frame_buffer

definition kiss_decoder_new :: "nat \<Rightarrow> kiss_decoder" where
  "kiss_decoder_new c = \<lparr>kd_scanner = kiss_scanner_new, kd_buffer = frame_buffer_new c\<rparr>"

definition kiss_decoder_reset :: "kiss_decoder \<Rightarrow> kiss_decoder" where
  "kiss_decoder_reset d =
     d\<lparr>kd_buffer := sink_clear frame_buffer_ops (kd_buffer d),
       kd_scanner := kiss_scanner_reset (kd_scanner d)\<rparr>"

definition kiss_feed ::
  "u8 \<Rightarrow> kiss_decoder \<Rightarrow> (kiss_decode_error + u8 list option) \<times> kiss_decoder" where
  "kiss_feed byte d =
     (case kiss_feed_one_into frame_buffer_ops byte (kd_scanner d) (kd_buffer d) of
        (r, sc, buffer) \<Rightarrow>
          (case r of
             Inl e \<Rightarrow> Inl e
           | Inr True \<Rightarrow> Inr (Some (frame_bytes buffer))
           | Inr False \<Rightarrow> Inr None, \<lparr>kd_scanner = sc, kd_buffer = buffer\<rparr>))"

definition kiss_feed_slice_next ::
  "kiss_decoder \<Rightarrow> u8 list \<Rightarrow> nat \<Rightarrow> (kiss_decode_error + u8 list option) \<times> nat \<times> kiss_decoder" where
  "kiss_feed_slice_next d input offset =
     (case kiss_next_frame_into frame_buffer_ops input offset (kd_scanner d) (kd_buffer d) of
        (r, offset, sc, buffer) \<Rightarrow>
          (case r of
             Inl e \<Rightarrow> Inl e
           | Inr (Some _) \<Rightarrow> Inr (Some (frame_bytes buffer))
           | Inr None \<Rightarrow> Inr None, offset, \<lparr>kd_scanner = sc, kd_buffer = buffer\<rparr>))"

lemma kiss_next_frame_progress:
  "kiss_next_frame_into ops input offset sc sink = (r, offset', sc', sink') \<Longrightarrow>
     offset \<le> offset' \<and> (offset < length input \<longrightarrow> offset < offset')"
proof (induction ops input offset sc sink arbitrary: r offset' sc' sink' rule: kiss_next_frame_into.induct)
  case (1 ops input offset sc sink)
  obtain f sc1 sink1 where feed: "kiss_feed_one_into ops (input ! offset) sc sink = (f, sc1, sink1)"
    by (metis prod_cases3)
  have "offset < length input \<Longrightarrow> f = Inr False \<Longrightarrow>
    kiss_next_frame_into ops input (offset + 1) sc1 sink1 = (r, offset', sc', sink') \<Longrightarrow> offset + 1 \<le> offset'"
    using "1.IH" [OF _ feed [symmetric] _ _ refl] by blast
  with "1.prems" feed show ?case
    by (subst (asm) kiss_next_frame_into.simps) (auto split: if_splits sum.splits bool.splits)
qed

lemma kiss_feed_slice_next_progress:
  "kiss_feed_slice_next d input offset = (r, offset', d') \<Longrightarrow> offset < length input \<Longrightarrow> offset < offset'"
  by (auto simp: kiss_feed_slice_next_def dest: kiss_next_frame_progress split: prod.splits)

function kiss_feed_slice_from ::
  "u8 list \<Rightarrow> nat \<Rightarrow> kiss_decoder \<Rightarrow> u8 list list \<times> kiss_decoder" where
  "kiss_feed_slice_from input offset d =
     (if offset < length input then
        case kiss_feed_slice_next d input offset of
          (Inr (Some frame), offset', d') \<Rightarrow> apfst (Cons frame) (kiss_feed_slice_from input offset' d')
        | (Inr None, _, d') \<Rightarrow> ([], d')
        | (Inl FrameTooBig, offset', d') \<Rightarrow> kiss_feed_slice_from input offset' d'
      else ([], d))"
  by pat_completeness auto
termination
  by (relation "measure (\<lambda>(input, offset, _). length input - offset)")
    (auto dest: kiss_feed_slice_next_progress [OF sym] intro: diff_less_mono2)

declare kiss_feed_slice_from.simps [simp del]

definition kiss_feed_slice :: "kiss_decoder \<Rightarrow> u8 list \<Rightarrow> u8 list list \<times> kiss_decoder" where
  "kiss_feed_slice d input = kiss_feed_slice_from input 0 d"

section \<open>Command decoder\<close>

record kiss_command_decoder =
  kcd_buffer :: frame_buffer
  kcd_in_frame :: bool
  kcd_command :: u8
  kcd_saw_escape :: bool
  kcd_yielded :: bool

definition kcd_new :: "nat \<Rightarrow> kiss_command_decoder" where
  "kcd_new c =
     \<lparr>kcd_buffer = frame_buffer_new c, kcd_in_frame = False, kcd_command = CMD_UNKNOWN,
      kcd_saw_escape = False, kcd_yielded = False\<rparr>"

definition kcd_reset :: "kiss_command_decoder \<Rightarrow> kiss_command_decoder" where
  "kcd_reset d =
     d\<lparr>kcd_buffer := sink_clear frame_buffer_ops (kcd_buffer d), kcd_in_frame := False,
       kcd_command := CMD_UNKNOWN, kcd_saw_escape := False, kcd_yielded := False\<rparr>"

definition kcd_feed_one ::
  "u8 \<Rightarrow> kiss_command_decoder \<Rightarrow> (kiss_decode_error + bool) \<times> kiss_command_decoder" where
  "kcd_feed_one byte d0 =
     (let d = (if kcd_yielded d0
               then d0\<lparr>kcd_yielded := False, kcd_buffer := sink_clear frame_buffer_ops (kcd_buffer d0),
                       kcd_command := CMD_UNKNOWN, kcd_saw_escape := False\<rparr>
               else d0)
      in if byte = FEND then
           if kcd_in_frame d \<and> kcd_command d \<noteq> CMD_UNKNOWN
           then (Inr True, d\<lparr>kcd_yielded := True, kcd_in_frame := True\<rparr>)
           else (Inr False,
                 d\<lparr>kcd_in_frame := True, kcd_command := CMD_UNKNOWN, kcd_saw_escape := False,
                   kcd_buffer := sink_clear frame_buffer_ops (kcd_buffer d)\<rparr>)
         else if \<not> kcd_in_frame d then (Inr False, d)
         else if kcd_command d = CMD_UNKNOWN \<and> sink_frame_len frame_buffer_ops (kcd_buffer d) = 0
         then (Inr False, d\<lparr>kcd_command := byte\<rparr>)
         else if byte = FESC then (Inr False, d\<lparr>kcd_saw_escape := True\<rparr>)
         else
           let (payload_byte, d) =
                 (if kcd_saw_escape d
                  then (if byte = TFEND then FEND else if byte = TFESC then FESC else byte,
                        d\<lparr>kcd_saw_escape := False\<rparr>)
                  else (byte, d))
           in case sink_push frame_buffer_ops payload_byte (kcd_buffer d) of
                Inl _ \<Rightarrow> (Inl FrameTooBig, kcd_reset d)
              | Inr buffer \<Rightarrow> (Inr False, d\<lparr>kcd_buffer := buffer\<rparr>))"

definition kcd_feed ::
  "u8 \<Rightarrow> kiss_command_decoder
   \<Rightarrow> (kiss_decode_error + (u8 \<times> u8 list) option) \<times> kiss_command_decoder" where
  "kcd_feed byte d =
     (case kcd_feed_one byte d of
        (Inl e, d) \<Rightarrow> (Inl e, d)
      | (Inr True, d) \<Rightarrow> (Inr (Some (kcd_command d, frame_bytes (kcd_buffer d))), d)
      | (Inr False, d) \<Rightarrow> (Inr None, d))"

function kcd_feed_slice_next ::
  "kiss_command_decoder \<Rightarrow> u8 list \<Rightarrow> nat
   \<Rightarrow> (kiss_decode_error + (u8 \<times> u8 list) option) \<times> nat \<times> kiss_command_decoder" where
  "kcd_feed_slice_next d input offset =
     (if offset < length input then
        case kcd_feed_one (input ! offset) d of
          (Inl e, d) \<Rightarrow> (Inl e, offset + 1, d)
        | (Inr True, d) \<Rightarrow> (Inr (Some (kcd_command d, frame_bytes (kcd_buffer d))), offset + 1, d)
        | (Inr False, d) \<Rightarrow> kcd_feed_slice_next d input (offset + 1)
      else (Inr None, offset, d))"
  by pat_completeness auto
termination
  by (relation "measure (\<lambda>(_, input, offset). length input - offset)") auto

declare kcd_feed_slice_next.simps [simp del]

lemma kcd_slice_next_bytewise:
  "kcd_feed_slice_next d input offset = (r, offset', d') \<Longrightarrow>
     offset \<le> offset' \<and>
     scan_next (feed_step kcd_feed) (drop offset input) d = (event_of r, offset' - offset, d')"
proof (induction d input offset arbitrary: r offset' d' rule: kcd_feed_slice_next.induct)
  case (1 d input offset)
  show ?case
  proof (cases "offset < length input")
    case True
    obtain f d1 where feed: "kcd_feed_one (input ! offset) d = (f, d1)" by fastforce
    have cons: "drop offset input = input ! offset # drop (offset + 1) input"
      using True by (simp add: Cons_nth_drop_Suc)
    consider (err) e where "f = Inl e" | (yield) "f = Inr True" | (more) "f = Inr False"
      by (cases f; auto)
    then show ?thesis
    proof cases
      case more
      with "1.prems" True feed have rec: "kcd_feed_slice_next d1 input (offset + 1) = (r, offset', d')"
        by (simp add: kcd_feed_slice_next.simps [of d])
      with "1.IH" [OF True feed [symmetric] more _ rec] feed more show ?thesis
        unfolding cons by (auto simp: feed_step_def kcd_feed_def)
    qed (use "1.prems" True feed in
        \<open>auto simp: kcd_feed_slice_next.simps [of d] cons feed_step_def kcd_feed_def\<close>)
  next
    case False
    with "1.prems" show ?thesis by (auto simp: kcd_feed_slice_next.simps [of d])
  qed
qed

lemma kcd_slice_next_progress:
  assumes "kcd_feed_slice_next d input offset = (r, offset', d')" and "offset < length input"
  shows "offset < offset'"
  using kcd_slice_next_bytewise [OF assms(1)] assms(2)
    scan_next_progress [of "feed_step kcd_feed" "drop offset input" d]
  by fastforce

function kcd_feed_slice_from ::
  "u8 list \<Rightarrow> nat \<Rightarrow> kiss_command_decoder \<Rightarrow> (u8 \<times> u8 list) list \<times> kiss_command_decoder" where
  "kcd_feed_slice_from input offset d =
     (if offset < length input then
        case kcd_feed_slice_next d input offset of
          (Inr (Some frame), offset', d') \<Rightarrow> apfst (Cons frame) (kcd_feed_slice_from input offset' d')
        | (Inr None, _, d') \<Rightarrow> ([], d')
        | (Inl FrameTooBig, offset', d') \<Rightarrow> kcd_feed_slice_from input offset' d'
      else ([], d))"
  by pat_completeness auto
termination
  by (relation "measure (\<lambda>(input, offset, _). length input - offset)")
    (auto dest: kcd_slice_next_progress [OF sym] intro: diff_less_mono2)

declare kcd_feed_slice_from.simps [simp del]

definition kcd_feed_slice ::
  "kiss_command_decoder \<Rightarrow> u8 list \<Rightarrow> (u8 \<times> u8 list) list \<times> kiss_command_decoder" where
  "kcd_feed_slice d input = kcd_feed_slice_from input 0 d"

section \<open>Both decoders read a slice byte by byte\<close>

lemma kiss_slice_next_bytewise:
  assumes "kiss_feed_slice_next d input offset = (r, offset', d')" and "offset \<le> length input"
  shows "offset \<le> offset' \<and>
     scan_next (feed_step kiss_feed) (drop offset input) d = (event_of r, offset' - offset, d')"
  using assms
proof (induction "length input - offset" arbitrary: d offset rule: less_induct)
  case less
  show ?case
  proof (cases "offset < length input")
    case True
    obtain f sc buf where
      feed: "kiss_feed_one_into frame_buffer_ops (input ! offset) (kd_scanner d) (kd_buffer d) = (f, sc, buf)"
      by (metis prod_cases3)
    have cons: "drop offset input = input ! offset # drop (offset + 1) input"
      using True by (simp add: Cons_nth_drop_Suc)
    note unf = kiss_feed_slice_next_def kiss_next_frame_into.simps [of _ input offset]
    consider (err) e where "f = Inl e" | (yield) "f = Inr True" | (more) "f = Inr False"
      by (cases f; auto)
    then show ?thesis
    proof cases
      case more
      with less.prems True feed have
        rec: "kiss_feed_slice_next \<lparr>kd_scanner = sc, kd_buffer = buf\<rparr> input (offset + 1) = (r, offset', d')"
        by (simp add: unf kiss_feed_slice_next_def)
      moreover have "length input - (offset + 1) < length input - offset" using True by simp
      ultimately show ?thesis
        using less.hyps [OF _ rec] True feed more unfolding cons by (auto simp: feed_step_def kiss_feed_def)
    qed (use less.prems True feed in \<open>auto simp: unf cons feed_step_def kiss_feed_def\<close>)
  next
    case False
    with less.prems show ?thesis
      by (auto simp: kiss_feed_slice_next_def kiss_next_frame_into.simps [of _ input offset])
  qed
qed

interpretation kiss: slice_decoder kiss_feed kiss_feed_slice_next kiss_feed_slice_from
proof (unfold_locales, goal_cases)
  case (1 d input offset r offset' d')
  then show ?case by (rule kiss_slice_next_bytewise)
next
  case (2 input offset d)
  show ?case
    by (subst kiss_feed_slice_from.simps) (auto split: kiss_decode_error.splits sum.splits option.splits prod.splits)
qed

interpretation kcd: slice_decoder kcd_feed kcd_feed_slice_next kcd_feed_slice_from
proof (unfold_locales, goal_cases)
  case (1 d input offset r offset' d')
  then show ?case by (intro kcd_slice_next_bytewise)
next
  case (2 input offset d)
  show ?case
    by (subst kcd_feed_slice_from.simps) (auto split: kiss_decode_error.splits sum.splits option.splits prod.splits)
qed

section \<open>What the encoder writes\<close>

definition kiss_escape :: "u8 \<Rightarrow> u8 list" where
  "kiss_escape b = (if b = FEND then [FESC, TFEND] else if b = FESC then [FESC, TFESC] else [b])"

definition kiss_body :: "u8 list \<Rightarrow> u8 list" where
  "kiss_body input = concat (map kiss_escape input)"

definition kiss_frame :: "u8 \<Rightarrow> u8 list \<Rightarrow> u8 list" where
  "kiss_frame command input = FEND # command # kiss_body input @ [FEND]"

lemma kiss_body_simps [simp]:
  "kiss_body [] = []" "kiss_body (b # bs) = kiss_escape b @ kiss_body bs"
  by (simp_all add: kiss_body_def)

lemma length_kiss_body: "length (kiss_body xs) \<le> 2 * length xs"
  by (induction xs) (auto simp: kiss_escape_def)

lemma kiss_consts_distinct [simp]:
  "FESC \<noteq> FEND" "TFEND \<noteq> FEND" "TFESC \<noteq> FEND" "TFEND \<noteq> FESC" "TFESC \<noteq> FESC" "TFESC \<noteq> TFEND"
  "FEND \<noteq> FESC" "FEND \<noteq> TFEND" "FEND \<noteq> TFESC" "FESC \<noteq> TFEND" "FESC \<noteq> TFESC" "TFEND \<noteq> TFESC" "CMD_DATA \<noteq> CMD_UNKNOWN" "CMD_UNKNOWN \<noteq> CMD_DATA"
  by (simp_all add: kiss_consts)

lemma kiss_body_no_fend: "FEND \<notin> set (kiss_body p)"
  by (induction p) (auto simp: kiss_escape_def)

lemma kiss_escape_step:
  assumes "written \<le> length out"
  shows "kiss_encode_loop (b # rest) out written =
    (if written + length (kiss_escape b) \<le> length out
     then kiss_encode_loop rest (copy_into out written (kiss_escape b)) (written + length (kiss_escape b))
     else (Inl OutputTooSmall, out))"
proof -
  have one: "written < length out \<Longrightarrow> out[written := b] = copy_into out written [b]"
    by (simp add: copy_into_def upd_conv_take_nth_drop)
  show ?thesis
    using assms one update_pair_copy_into [of written out]
    by (auto simp: kiss_escape_def)
qed

lemma kiss_encode_loop_spec:
  "written \<le> length out \<Longrightarrow>
     if written + length (kiss_body rest) \<le> length out
     then kiss_encode_loop rest out written =
       (Inr (written + length (kiss_body rest)), copy_into out written (kiss_body rest))
     else \<exists>out'. kiss_encode_loop rest out written = (Inl OutputTooSmall, out') \<and> length out' = length out"
proof (induction rest arbitrary: out written)
  case Nil
  then show ?case by (simp add: copy_into_def)
next
  case (Cons b rest)
  show ?case
  proof (cases "written + length (kiss_escape b) \<le> length out")
    case True
    with Cons.IH [of "written + length (kiss_escape b)" "copy_into out written (kiss_escape b)"] Cons.prems
    show ?thesis
      unfolding kiss_escape_step [OF Cons.prems] by (simp add: copy_into_append add.assoc cong: if_cong)
  next
    case False
    then show ?thesis unfolding kiss_escape_step [OF Cons.prems] by simp
  qed
qed

lemma kiss_encode_spec:
  "if length (kiss_frame command input) \<le> length out
   then kiss_encode_with_command command input out =
     (Inr (length (kiss_frame command input)),
      kiss_frame command input @ drop (length (kiss_frame command input)) out)
   else \<exists>out'. kiss_encode_with_command command input out = (Inl OutputTooSmall, out')
     \<and> length out' = length out"
proof (cases "length out < 2")
  case True
  then show ?thesis by (simp add: kiss_encode_with_command_def kiss_frame_def)
next
  case False
  then obtain x y ys where out: "out = x # y # ys" by (cases out; cases "tl out") auto
  let ?body = "kiss_body input"
  note loop = kiss_encode_loop_spec [of 2 "FEND # command # ys" input]
  consider "length ?body < length ys" | "length ?body = length ys" | "length ys < length ?body" by linarith
  then show ?thesis
  proof cases
    case 1
    then have "kiss_encode_with_command command input out =
      (Inr (2 + length ?body + 1), copy_into (FEND # command # ys) 2 (?body @ [FEND]))"
      using loop update_copy_into [of 2 ?body "FEND # command # ys" FEND]
      by (simp add: kiss_encode_with_command_def out)
    with 1 show ?thesis by (simp add: out kiss_frame_def copy_into_def numeral_2_eq_2)
  next
    case 2
    with loop show ?thesis by (simp add: kiss_encode_with_command_def out kiss_frame_def)
  next
    case 3
    with loop show ?thesis by (auto simp: kiss_encode_with_command_def out kiss_frame_def)
  qed
qed

section \<open>Decoding a stream of frames\<close>

text \<open>A data decoder between frames: every state except the inside of a data frame.\<close>

definition kiss_ready :: "kiss_decoder \<Rightarrow> bool" where
  "kiss_ready d = (\<not> (kiss_in_frame (kd_scanner d) \<and> kiss_command (kd_scanner d) = CMD_DATA))"

abbreviation kd_state :: "bool \<Rightarrow> u8 \<Rightarrow> bool \<Rightarrow> nat \<Rightarrow> u8 list \<Rightarrow> kiss_decoder" where
  "kd_state opened command esc c buf \<equiv>
     \<lparr>kd_scanner = \<lparr>kiss_in_frame = opened, kiss_command = command, kiss_saw_escape = esc\<rparr>,
      kd_buffer = \<lparr>frame_cap = c, frame_bytes = buf\<rparr>\<rparr>"

lemmas kiss_feed_simps =
  feed_step_def kiss_feed_def kiss_feed_one_into_def frame_buffer_ops_def kiss_scanner_reset_def

lemma kiss_open:
  "kiss_ready d \<Longrightarrow>
     feed_step kiss_feed FEND d = (Quiet, kd_state True CMD_UNKNOWN False (frame_cap (kd_buffer d)) [])"
  by (cases d; cases "kd_scanner d"; cases "kd_buffer d") (auto simp: kiss_feed_simps kiss_ready_def)

lemma kiss_take_command:
  "k \<noteq> FEND \<Longrightarrow>
     feed_step kiss_feed k (kd_state True CMD_UNKNOWN False c []) = (Quiet, kd_state True (k AND 0x0F) False c [])"
  by (simp add: kiss_feed_simps)

lemma kiss_skip:
  assumes "FEND \<notin> set bs" and "\<not> opened \<or> k \<noteq> CMD_DATA \<and> k \<noteq> CMD_UNKNOWN"
  shows "scan_frames (feed_step kiss_feed) (bs @ rest) (kd_state opened k esc c buf) =
    scan_frames (feed_step kiss_feed) rest (kd_state opened k esc c buf)"
  using assms by (induction bs) (auto simp: kiss_feed_simps)

lemma kiss_data_escape:
  "scan_frames (feed_step kiss_feed) (kiss_escape b @ rest) (kd_state True CMD_DATA False c buf) =
     scan_frames (feed_step kiss_feed) rest
       (if length buf < c then kd_state True CMD_DATA False c (buf @ [b])
        else kd_state False CMD_UNKNOWN False c [])"
  by (cases "length buf < c") (auto simp: kiss_escape_def kiss_feed_simps)

lemma kiss_data_body:
  "length buf \<le> c \<Longrightarrow>
     scan_frames (feed_step kiss_feed) (kiss_body p @ rest) (kd_state True CMD_DATA False c buf) =
       scan_frames (feed_step kiss_feed) rest
         (if length buf + length p \<le> c then kd_state True CMD_DATA False c (buf @ p)
          else kd_state False CMD_UNKNOWN False c [])"
proof (induction p arbitrary: buf)
  case (Cons b p)
  show ?case
  proof (cases "length buf < c")
    case True
    with Cons.IH [of "buf @ [b]"] show ?thesis by (simp add: kiss_data_escape)
  next
    case False
    with kiss_skip [OF kiss_body_no_fend] show ?thesis by (simp add: kiss_data_escape)
  qed
qed simp

lemma kiss_nibble_known: "k AND 0x0F \<noteq> CMD_UNKNOWN" for k :: u8
  by (induction k rule: u8_exhaust) code_simp

lemma kiss_one_frame:
  assumes "kiss_ready d" and "k \<noteq> FEND"
  obtains d' where "kiss_ready d'" "frame_cap (kd_buffer d') = frame_cap (kd_buffer d)"
    "scan_frames (feed_step kiss_feed) (kiss_frame k p @ rest) d =
      apfst (append (if k AND 0x0F = CMD_DATA \<and> length p \<le> frame_cap (kd_buffer d) then [p] else []))
        (scan_frames (feed_step kiss_feed) rest d')"
proof -
  let ?c = "frame_cap (kd_buffer d)" and ?scan = "scan_frames (feed_step kiss_feed)"
  have start: "?scan (kiss_frame k p @ rest) d = ?scan (kiss_body p @ FEND # rest) (kd_state True (k AND 0x0F) False ?c [])"
    by (simp add: kiss_frame_def kiss_open [OF assms(1)] kiss_take_command [OF assms(2)])
  consider (fits) "k AND 0x0F = CMD_DATA" "length p \<le> ?c" | (big) "k AND 0x0F = CMD_DATA" "\<not> length p \<le> ?c"
    | (other) "k AND 0x0F \<noteq> CMD_DATA" by blast
  then show ?thesis
  proof cases
    case fits
    have "?scan (FEND # rest) (kd_state True CMD_DATA False ?c p) =
      apfst (append [p]) (?scan rest (kd_state False CMD_DATA False ?c p))"
      by (simp add: kiss_feed_simps)
    with fits start show ?thesis
      by (intro that [of "kd_state False CMD_DATA False ?c p"]) (simp_all add: kiss_data_body kiss_ready_def)
  next
    case big
    with start show ?thesis
      by (intro that [of "kd_state True CMD_UNKNOWN False ?c []"])
        (simp_all add: kiss_data_body kiss_ready_def kiss_open)
  next
    case other
    with start kiss_nibble_known kiss_skip [OF kiss_body_no_fend] show ?thesis
      by (intro that [of "kd_state True CMD_UNKNOWN False ?c []"]) (simp_all add: kiss_ready_def kiss_open)
  qed
qed

lemma kiss_stream_frames:
  assumes "kiss_ready d" and "\<forall>(k, p) \<in> set fs. k \<noteq> FEND"
  shows "fst (kiss_feed_slice d (concat (map (\<lambda>(k, p). kiss_frame k p) fs))) =
    [p. (k, p) \<leftarrow> fs, k AND 0x0F = CMD_DATA \<and> length p \<le> frame_cap (kd_buffer d)]"
  using assms unfolding kiss_feed_slice_def kiss.slice_bytewise feed_bytes_def
proof (induction fs arbitrary: d)
  case (Cons f fs)
  obtain k p where f: "f = (k, p)" by fastforce
  with Cons.prems have "k \<noteq> FEND" by simp
  with Cons.prems(1) obtain d' where "kiss_ready d'" "frame_cap (kd_buffer d') = frame_cap (kd_buffer d)"
    "scan_frames (feed_step kiss_feed) (kiss_frame k p @ concat (map (\<lambda>(k, p). kiss_frame k p) fs)) d =
      apfst (append (if k AND 0x0F = CMD_DATA \<and> length p \<le> frame_cap (kd_buffer d) then [p] else []))
        (scan_frames (feed_step kiss_feed) (concat (map (\<lambda>(k, p). kiss_frame k p) fs)) d')"
    by (rule kiss_one_frame)
  with Cons.IH [of d'] Cons.prems f show ?case by simp
qed simp

text \<open>A command decoder whose next \<open>FEND\<close> yields nothing.\<close>

definition kcd_ready :: "kiss_command_decoder \<Rightarrow> bool" where
  "kcd_ready d = (kcd_yielded d \<or> \<not> kcd_in_frame d \<or> kcd_command d = CMD_UNKNOWN)"

abbreviation kcd_cap :: "kiss_command_decoder \<Rightarrow> nat" where
  "kcd_cap d \<equiv> frame_cap (kcd_buffer d)"

abbreviation kcd_state :: "bool \<Rightarrow> u8 \<Rightarrow> bool \<Rightarrow> bool \<Rightarrow> nat \<Rightarrow> u8 list \<Rightarrow> kiss_command_decoder" where
  "kcd_state opened command esc yielded c buf \<equiv>
     \<lparr>kcd_buffer = \<lparr>frame_cap = c, frame_bytes = buf\<rparr>, kcd_in_frame = opened, kcd_command = command,
      kcd_saw_escape = esc, kcd_yielded = yielded\<rparr>"

lemmas kcd_feed_simps = feed_step_def kcd_feed_def kcd_feed_one_def frame_buffer_ops_def kcd_reset_def

lemma kcd_open:
  "kcd_ready d \<Longrightarrow> feed_step kcd_feed FEND d = (Quiet, kcd_state True CMD_UNKNOWN False False (kcd_cap d) [])"
  by (cases d; cases "kcd_buffer d") (auto simp: kcd_feed_simps kcd_ready_def)

text \<open>A closing \<open>FEND\<close> also opens the next frame.\<close>

lemma kcd_close:
  "\<not> kcd_ready d \<Longrightarrow>
     feed_step kcd_feed FEND d =
       (Yield (kcd_command d, frame_bytes (kcd_buffer d)), d\<lparr>kcd_yielded := True\<rparr>)"
  by (cases d; cases "kcd_buffer d") (auto simp: kcd_feed_simps kcd_ready_def)

lemma kcd_take_command:
  assumes "k \<noteq> FEND" and "kcd_in_frame d"
    and "kcd_yielded d \<or> kcd_command d = CMD_UNKNOWN \<and> \<not> kcd_saw_escape d \<and> frame_bytes (kcd_buffer d) = []"
  shows "feed_step kcd_feed k d = (Quiet, kcd_state True k False False (kcd_cap d) [])"
  using assms by (cases d; cases "kcd_buffer d") (auto simp: kcd_feed_simps)

lemma kcd_skip:
  "FEND \<notin> set bs \<Longrightarrow>
     scan_frames (feed_step kcd_feed) (bs @ rest) (kcd_state False k esc False c buf) =
       scan_frames (feed_step kcd_feed) rest (kcd_state False k esc False c buf)"
  by (induction bs) (auto simp: kcd_feed_simps)

lemma kcd_data_escape:
  "k \<noteq> CMD_UNKNOWN \<Longrightarrow>
     scan_frames (feed_step kcd_feed) (kiss_escape b @ rest) (kcd_state True k False False c buf) =
       scan_frames (feed_step kcd_feed) rest
         (if length buf < c then kcd_state True k False False c (buf @ [b])
          else kcd_state False CMD_UNKNOWN False False c [])"
  by (cases "length buf < c") (auto simp: kiss_escape_def kcd_feed_simps)

lemma kcd_data_body:
  "length buf \<le> c \<Longrightarrow> k \<noteq> CMD_UNKNOWN \<Longrightarrow>
     scan_frames (feed_step kcd_feed) (kiss_body p @ rest) (kcd_state True k False False c buf) =
       scan_frames (feed_step kcd_feed) rest
         (if length buf + length p \<le> c then kcd_state True k False False c (buf @ p)
          else kcd_state False CMD_UNKNOWN False False c [])"
proof (induction p arbitrary: buf)
  case (Cons b p)
  show ?case
  proof (cases "length buf < c")
    case True
    with Cons.IH [of "buf @ [b]"] Cons.prems show ?thesis by (simp add: kcd_data_escape)
  next
    case False
    with kcd_skip [OF kiss_body_no_fend] Cons.prems show ?thesis by (simp add: kcd_data_escape)
  qed
qed simp

lemma kcd_one_frame:
  assumes "k \<noteq> FEND" "k \<noteq> CMD_UNKNOWN"
  obtains d' where "kcd_ready d'" "kcd_cap d' = kcd_cap d"
    "scan_frames (feed_step kcd_feed) (kiss_frame k p @ rest) d =
      apfst (append ((if kcd_ready d then [] else [(kcd_command d, frame_bytes (kcd_buffer d))])
          @ (if length p \<le> kcd_cap d then [(k, p)] else [])))
        (scan_frames (feed_step kcd_feed) rest d')"
proof -
  let ?c = "kcd_cap d" and ?scan = "scan_frames (feed_step kcd_feed)"
  let ?junk = "if kcd_ready d then [] else [(kcd_command d, frame_bytes (kcd_buffer d))]"
  have start: "?scan (kiss_frame k p @ rest) d =
    apfst (append ?junk) (?scan (kiss_body p @ FEND # rest) (kcd_state True k False False ?c []))"
  proof (cases "kcd_ready d")
    case True
    then show ?thesis using assms by (simp add: kiss_frame_def kcd_open kcd_take_command)
  next
    case False
    then have "kcd_in_frame d" by (simp add: kcd_ready_def)
    with False show ?thesis using assms by (simp add: kiss_frame_def kcd_close kcd_take_command)
  qed
  show ?thesis
  proof (cases "length p \<le> ?c")
    case True
    have "?scan (FEND # rest) (kcd_state True k False False ?c p) =
      apfst (append [(k, p)]) (?scan rest (kcd_state True k False True ?c p))"
      using assms by (simp add: kcd_feed_simps)
    with True start assms show ?thesis
      by (intro that [of "kcd_state True k False True ?c p"])
        (simp_all add: kcd_data_body kcd_ready_def apfst_compose comp_def)
  next
    case False
    with start assms show ?thesis
      by (intro that [of "kcd_state True CMD_UNKNOWN False False ?c []"])
        (simp_all add: kcd_data_body kcd_ready_def kcd_open)
  qed
qed

section \<open>Properties of the KISS framing\<close>

text \<open>
  The KISS encoder succeeds exactly when the frame fits the output buffer, then returns its
  length and leaves the frame at the start of the buffer and the rest untouched. A buffer of
  \<open>max_encoded_len\<close> bytes is always large enough.
\<close>

theorem kiss_encode_correct:
  "(case kiss_encode_with_command k input out of
      (Inr n, out') \<Rightarrow> n = length (kiss_frame k input) \<and> n \<le> length out
        \<and> out' = kiss_frame k input @ drop n out
    | (Inl OutputTooSmall, out') \<Rightarrow> length out < length (kiss_frame k input) \<and> length out' = length out)
   \<and> length (kiss_frame k input) \<le> kiss_max_encoded_len (length input)"
  using kiss_encode_spec [of k input out] length_kiss_body [of input]
  by (cases "length (kiss_frame k input) \<le> length out")
    (auto simp: kiss_max_encoded_len_def kiss_frame_def split: kiss_encode_error.splits)

text \<open>
  C29. The KISS decoder over a stream of frames, started anywhere except inside a data frame, yields
  the payloads of exactly the data frames that fit its capacity, in order: command frames are
  consumed silently, and an oversized frame is dropped whole without disturbing the next one.
\<close>

theorem kiss_decode_stream:
  assumes "\<not> (kiss_in_frame (kd_scanner d) \<and> kiss_command (kd_scanner d) = CMD_DATA)"
    and "\<forall>(k, p) \<in> set fs. k \<noteq> FEND"
  shows "fst (kiss_feed_slice d (concat (map (\<lambda>(k, p). kiss_frame k p) fs))) =
    [p. (k, p) \<leftarrow> fs, k AND 0x0F = CMD_DATA \<and> length p \<le> frame_cap (kd_buffer d)]"
  using assms by (intro kiss_stream_frames) (simp_all add: kiss_ready_def)

theorem kiss_decode_stream_witness:
  "fst (kiss_feed_slice (kiss_decoder_new 2)
     (kiss_frame 0 [FEND, 1] @ kiss_frame 0 [1, 2, 3] @ kiss_frame 6 [9] @ kiss_frame 0 [FESC])) =
   [[FEND, 1], [FESC]]"
  using kiss_decode_stream [of "kiss_decoder_new 2" "[(0, [FEND, 1]), (0, [1, 2, 3]), (6, [9]), (0, [FESC])]"]
  by (simp add: kiss_decoder_new_def kiss_scanner_new_def frame_buffer_new_def FEND_def CMD_DATA_def)

text \<open>
  C30. The command decoder over a stream of frames yields every frame that fits, with its whole command
  byte, from every starting state: a frame it was in the middle of is closed by the first \<open>FEND\<close> and
  comes first, and costs none of the frames that follow. The command bytes \<open>FEND\<close> and \<open>0xFE\<close>, which
  the decoder uses for itself, are excluded.
\<close>

theorem kcd_decode_stream:
  assumes "\<forall>(k, p) \<in> set fs. k \<noteq> FEND \<and> k \<noteq> CMD_UNKNOWN"
  shows "fst (kcd_feed_slice d (concat (map (\<lambda>(k, p). kiss_frame k p) fs))) =
    (if kcd_ready d \<or> fs = [] then [] else [(kcd_command d, frame_bytes (kcd_buffer d))])
      @ filter (\<lambda>(k, p). length p \<le> frame_cap (kcd_buffer d)) fs"
  using assms unfolding kcd_feed_slice_def kcd.slice_bytewise feed_bytes_def
proof (induction fs arbitrary: d)
  case (Cons f fs)
  obtain k p where f: "f = (k, p)" by fastforce
  with Cons.prems have "k \<noteq> FEND" "k \<noteq> CMD_UNKNOWN" by simp_all
  then obtain d' where "kcd_ready d'" "kcd_cap d' = kcd_cap d"
    "scan_frames (feed_step kcd_feed) (kiss_frame k p @ concat (map (\<lambda>(k, p). kiss_frame k p) fs)) d =
      apfst (append ((if kcd_ready d then [] else [(kcd_command d, frame_bytes (kcd_buffer d))])
          @ (if length p \<le> kcd_cap d then [(k, p)] else [])))
        (scan_frames (feed_step kcd_feed) (concat (map (\<lambda>(k, p). kiss_frame k p) fs)) d')"
    by (rule kcd_one_frame)
  with Cons.IH [of d'] Cons.prems f show ?case by simp
qed simp

theorem kcd_decode_stream_witness:
  "fst (kcd_feed_slice (kcd_new 2) (kiss_frame 0x25 [FEND, 1] @ kiss_frame 0 [1, 2, 3] @ kiss_frame 0 [FESC])) =
   [(0x25, [FEND, 1]), (0, [FESC])]"
  using kcd_decode_stream [of "[(0x25, [FEND, 1]), (0, [1, 2, 3]), (0, [FESC])]" "kcd_new 2"]
  by (simp add: kcd_ready_def kcd_new_def frame_buffer_new_def FEND_def CMD_UNKNOWN_def)

text \<open>
  The data decoder and the command decoder give, over a slice of input, what feeding them its
  bytes one at a time gives.
\<close>

theorem kiss_feed_slice_bytewise:
  "kiss_feed_slice d input = feed_bytes kiss_feed input d
   \<and> kcd_feed_slice e input = feed_bytes kcd_feed input e"
  unfolding kiss_feed_slice_def kcd_feed_slice_def by (simp add: kiss.slice_bytewise kcd.slice_bytewise)

end
