(* ===== verification/Probing.thy ===== *)
theory Probing
  imports Prelude
begin

text \<open>
  Linear probing over a ring of buckets, as the side indexes use it: the loop that walks the ring,
  the distance along it, and the invariant that makes the walk complete. A bucket is seen here as
  the row it holds, if any; the concrete bucket encodings are in the theories of the indexes.
\<close>

section \<open>The probing loop\<close>

text \<open>
  The loops of the indexes: look at a bucket, leave with a result or step one to the right, around
  the end of the ring. \<open>None\<close> is a walk that never ends.
\<close>

partial_function (option) probe_loop ::
  "(nat \<Rightarrow> 'r option) \<Rightarrow> (nat \<Rightarrow> nat) \<Rightarrow> nat \<Rightarrow> 'r option" where
  "probe_loop body step pos =
     (case body pos of Some r \<Rightarrow> Some r | None \<Rightarrow> probe_loop body step (step pos))"

definition ring_next :: "nat \<Rightarrow> nat \<Rightarrow> nat" where
  "ring_next n pos = (pos + 1) mod n"

definition ring_step :: "nat \<Rightarrow> (nat \<Rightarrow> nat) \<Rightarrow> bool" where
  "ring_step n step = (\<forall>p < n. step p = ring_next n p)"

lemma ring_step_next [simp]: "ring_step n (ring_next n)"
  by (simp add: ring_step_def)

definition gap :: "nat \<Rightarrow> nat \<Rightarrow> nat \<Rightarrow> nat" where
  "gap n a b = (if a \<le> b then b - a else b + n - a)"

lemma gap_less [simp]: "a < n \<Longrightarrow> b < n \<Longrightarrow> gap n a b < n"
  by (auto simp: gap_def)

lemma gap_self [simp]: "gap n a a = 0"
  by (simp add: gap_def)

lemma add_gap_mod: "a < n \<Longrightarrow> b < n \<Longrightarrow> (a + gap n a b) mod n = b"
  by (simp add: gap_def)

lemma gap_add_mod: "a < n \<Longrightarrow> j < n \<Longrightarrow> gap n a ((a + j) mod n) = j"
  by (cases "a + j < n") (auto simp: gap_def mod_if)

lemma gap_eq_iff: "a < n \<Longrightarrow> b < n \<Longrightarrow> c < n \<Longrightarrow> gap n a b = gap n a c \<longleftrightarrow> b = c"
  by (metis add_gap_mod)

lemma gap_step: "a < n \<Longrightarrow> b < n \<Longrightarrow> a \<noteq> b \<Longrightarrow> gap n ((a + 1) mod n) b = gap n a b - 1"
  by (auto simp: gap_def mod_if)

text \<open>The loop stops at the nearest bucket where its body does.\<close>

lemma probe_loop_nearest:
  assumes ring: "ring_step n step" and "pos < n" "p < n" "body p \<noteq> None"
    and "\<And>q. q < n \<Longrightarrow> gap n pos q < gap n pos p \<Longrightarrow> body q = None"
  shows "probe_loop body step pos = body p"
  using assms(2-)
proof (induction "gap n pos p" arbitrary: pos)
  case 0
  then have "pos = p" by (auto simp: gap_def split: if_splits)
  with 0 show ?case by (subst probe_loop.simps) auto
next
  case (Suc d)
  then have ne: "pos \<noteq> p" by auto
  let ?next = "(pos + 1) mod n"
  have "body pos = None" using Suc by simp
  moreover have "step pos = ?next" using ring Suc.prems(1) by (simp add: ring_step_def ring_next_def)
  moreover have "probe_loop body step ?next = body p"
  proof (rule Suc.hyps(1))
    show "d = gap n ?next p" "?next < n"
      using Suc ne gap_step [of pos n p] by auto
    fix q assume "q < n" "gap n ?next q < gap n ?next p"
    then show "body q = None"
      using Suc.prems Suc.hyps(2) \<open>body pos = None\<close> gap_step [of pos n p] gap_step [of pos n q] ne
      by (cases "q = pos") auto
  qed (use Suc in auto)
  ultimately show ?case by (subst probe_loop.simps) simp
qed

lemma nearest_exists:
  assumes "\<exists>p<n. P p" and "a < n"
  obtains p where "p < n" "P p" "\<And>q. q < n \<Longrightarrow> gap n a q < gap n a p \<Longrightarrow> \<not> P q"
proof -
  let ?p = "arg_min (gap n a) (\<lambda>p. p < n \<and> P p)"
  from assms(1) obtain p0 where "p0 < n \<and> P p0" by blast
  then have "?p < n \<and> P ?p" and "\<And>q. q < n \<and> P q \<Longrightarrow> gap n a ?p \<le> gap n a q"
    by (rule arg_min_natI, metis arg_min_nat_le)
  then show ?thesis using that [of ?p] by (meson leD)
qed

section \<open>The probing invariant\<close>

definition occupants :: "nat option list \<Rightarrow> nat set" where
  "occupants tab = {s. Some s \<in> set tab}"

text \<open>
  Every row sits at or after its home bucket with no free bucket on the way, except possibly
  \<open>hole\<close>, and no row is held twice.
\<close>

definition probe_inv_but :: "nat set \<Rightarrow> (nat \<Rightarrow> nat) \<Rightarrow> nat option list \<Rightarrow> bool" where
  "probe_inv_but holes home tab =
     ((\<forall>i < length tab. \<forall>s. tab ! i = Some s \<longrightarrow>
         home s < length tab \<and>
         (\<forall>p < length tab. gap (length tab) (home s) p < gap (length tab) (home s) i \<longrightarrow>
            p \<notin> holes \<longrightarrow> tab ! p \<noteq> None)) \<and>
      (\<forall>i < length tab. \<forall>j < length tab. tab ! i \<noteq> None \<longrightarrow> tab ! i = tab ! j \<longrightarrow> i = j))"

abbreviation probe_inv :: "(nat \<Rightarrow> nat) \<Rightarrow> nat option list \<Rightarrow> bool" where
  "probe_inv \<equiv> probe_inv_but {}"

lemma probe_inv_home: "probe_inv_but H home tab \<Longrightarrow> i < length tab \<Longrightarrow> tab ! i = Some s \<Longrightarrow> home s < length tab"
  unfolding probe_inv_but_def by blast

lemma probe_inv_path:
  "probe_inv_but H home tab \<Longrightarrow> i < length tab \<Longrightarrow> tab ! i = Some s \<Longrightarrow> p < length tab \<Longrightarrow>
     gap (length tab) (home s) p < gap (length tab) (home s) i \<Longrightarrow> p \<notin> H \<Longrightarrow> tab ! p \<noteq> None"
  unfolding probe_inv_but_def by blast

lemma probe_inv_distinct:
  "probe_inv_but H home tab \<Longrightarrow> i < length tab \<Longrightarrow> j < length tab \<Longrightarrow> tab ! i = Some s \<Longrightarrow>
     tab ! j = Some s \<Longrightarrow> i = j"
  unfolding probe_inv_but_def by (metis option.distinct(1))

lemma probe_inv_butI:
  assumes "\<And>i s. i < length tab \<Longrightarrow> tab ! i = Some s \<Longrightarrow> home s < length tab"
    and "\<And>i s p. i < length tab \<Longrightarrow> tab ! i = Some s \<Longrightarrow> p < length tab \<Longrightarrow>
      gap (length tab) (home s) p < gap (length tab) (home s) i \<Longrightarrow> p \<notin> H \<Longrightarrow> tab ! p \<noteq> None"
    and "\<And>i j s. i < length tab \<Longrightarrow> j < length tab \<Longrightarrow> tab ! i = Some s \<Longrightarrow> tab ! j = Some s \<Longrightarrow> i = j"
  shows "probe_inv_but H home tab"
  using assms unfolding probe_inv_but_def by (metis option.exhaust)

lemma probe_inv_replicate [simp]: "probe_inv home (replicate n None)"
  by (simp add: probe_inv_but_def)

lemma occupants_replicate [simp]: "occupants (replicate n None) = {}"
  by (simp add: occupants_def)

lemma occupants_nth: "s \<in> occupants tab \<longleftrightarrow> (\<exists>i < length tab. tab ! i = Some s)"
  by (auto simp: occupants_def in_set_conv_nth)

text \<open>
  Searching from a home bucket finds a row of that home if and only if the table holds it, and
  otherwise stops at the nearest free bucket.
\<close>

lemma probe_search:
  assumes ring: "ring_step (length tab) step" and inv: "probe_inv home tab"
    and room: "None \<in> set tab" and h: "h < length tab"
    and home: "\<And>s. s \<in> occupants tab \<Longrightarrow> Q s \<Longrightarrow> home s = h"
    and body: "\<And>p. p < length tab \<Longrightarrow> body p =
      (case tab ! p of None \<Rightarrow> Some (free p) | Some s \<Rightarrow> if Q s then Some (found p) else None)"
  shows "(\<exists>p s. p < length tab \<and> tab ! p = Some s \<and> Q s \<and> probe_loop body step h = Some (found p))
     \<or> (\<forall>s \<in> occupants tab. \<not> Q s) \<and>
        (\<exists>p. p < length tab \<and> tab ! p = None \<and> probe_loop body step h = Some (free p) \<and>
          (\<forall>q < length tab. gap (length tab) h q < gap (length tab) h p \<longrightarrow> tab ! q \<noteq> None))"
proof -
  let ?n = "length tab"
  have "\<exists>p < ?n. body p \<noteq> None" using room body by (auto simp: in_set_conv_nth)
  then obtain p where p: "p < ?n" "body p \<noteq> None"
    and nearest: "\<And>q. q < ?n \<Longrightarrow> gap ?n h q < gap ?n h p \<Longrightarrow> \<not> body q \<noteq> None"
    using nearest_exists [OF _ h, of "\<lambda>p. body p \<noteq> None"] by blast
  then have loop: "probe_loop body step h = body p"
    using h by (intro probe_loop_nearest [OF ring]) auto
  show ?thesis
  proof (cases "tab ! p")
    case None
    have "\<not> Q s" if occ: "s \<in> occupants tab" for s
    proof
      assume "Q s"
      obtain i where i: "i < ?n" "tab ! i = Some s" using occ by (auto simp: occupants_nth)
      have "home s = h" using home occ \<open>Q s\<close> .
      moreover have "gap ?n h i \<le> gap ?n h p"
        using probe_inv_path [OF inv i p(1)] None \<open>home s = h\<close> by (metis empty_iff not_le_imp_less)
      moreover have "i \<noteq> p" using i None by auto
      ultimately have "gap ?n h i < gap ?n h p" using gap_eq_iff [OF h i(1) p(1)] by linarith
      then show False using nearest [OF i(1)] body [OF i(1)] i(2) \<open>Q s\<close> by simp
    qed
    moreover have "tab ! q \<noteq> None" if "q < ?n" "gap ?n h q < gap ?n h p" for q
      using nearest [OF that] body [OF that(1)] by (cases "tab ! q") auto
    ultimately show ?thesis using None loop body [OF p(1)] p(1) by auto
  next
    case (Some s)
    with loop body [OF p(1)] p show ?thesis by (auto split: if_splits)
  qed
qed

text \<open>The nearest free bucket is where a new row goes.\<close>

lemma probe_free:
  assumes ring: "ring_step (length tab) step" and room: "None \<in> set tab" and h: "h < length tab"
    and body: "\<And>p. p < length tab \<Longrightarrow> body p = (if tab ! p = None then Some p else None)"
  shows "\<exists>p. probe_loop body step h = Some p \<and> p < length tab \<and> tab ! p = None
    \<and> (\<forall>q < length tab. gap (length tab) h q < gap (length tab) h p \<longrightarrow> tab ! q \<noteq> None)"
proof -
  let ?n = "length tab"
  have "\<exists>p < ?n. tab ! p = None" using room by (auto simp: in_set_conv_nth)
  then obtain p where p: "p < ?n" "tab ! p = None"
    "\<And>q. q < ?n \<Longrightarrow> gap ?n h q < gap ?n h p \<Longrightarrow> tab ! q \<noteq> None"
    using nearest_exists [OF _ h, of "\<lambda>p. tab ! p = None"] by blast
  then have "probe_loop body step h = body p" using h body by (intro probe_loop_nearest [OF ring]) auto
  with p body show ?thesis by (intro exI [of _ p]) simp
qed

lemma probe_inv_place:
  assumes inv: "probe_inv home tab" and p: "p < length tab" "tab ! p = None"
    and h: "home s < length tab" and s: "s \<notin> occupants tab"
    and path: "\<And>q. q < length tab \<Longrightarrow> gap (length tab) (home s) q < gap (length tab) (home s) p \<Longrightarrow> tab ! q \<noteq> None"
  shows "probe_inv home (tab[p := Some s])"
proof (rule probe_inv_butI)
  fix i x assume i: "i < length (tab[p := Some s])" "tab[p := Some s] ! i = Some x"
  then show "home x < length (tab[p := Some s])"
    using h probe_inv_home [OF inv] by (cases "i = p") auto
  fix q assume "q < length (tab[p := Some s])"
    "gap (length (tab[p := Some s])) (home x) q < gap (length (tab[p := Some s])) (home x) i"
  then show "tab[p := Some s] ! q \<noteq> None"
    using i path [of q] probe_inv_path [OF inv, of i x q]
    by (cases "q = p"; cases "i = p") auto
next
  fix i j x assume "i < length (tab[p := Some s])" "j < length (tab[p := Some s])"
    "tab[p := Some s] ! i = Some x" "tab[p := Some s] ! j = Some x"
  then show "i = j"
    using s probe_inv_distinct [OF inv, of i j x]
    by (cases "i = p"; cases "j = p") (auto simp: occupants_nth)
qed

lemma occupants_place:
  "p < length tab \<Longrightarrow> tab ! p = None \<Longrightarrow> occupants (tab[p := Some s]) = insert s (occupants tab)"
  by (auto simp: occupants_nth nth_list_update split: if_splits) (metis option.distinct(1))+

section \<open>Removal by moving rows back\<close>

text \<open>
  Removing a row empties its bucket and so may cut the walk to a later row. The hole is filled by
  the next row whose home does not lie strictly between the hole and that row, which leaves a new
  hole further on, until a free bucket ends the run.
\<close>

definition stays :: "nat \<Rightarrow> nat \<Rightarrow> nat \<Rightarrow> nat \<Rightarrow> bool" where
  "stays n hole scan h = (h \<noteq> hole \<and> gap n hole h \<le> gap n hole scan)"

lemma stays_iff:
  "hole < n \<Longrightarrow> scan < n \<Longrightarrow> h < n \<Longrightarrow> scan \<noteq> hole \<Longrightarrow>
     stays n hole scan h = (if hole \<le> scan then h > hole \<and> h \<le> scan else h > hole \<or> h \<le> scan)"
  by (auto simp: stays_def gap_def)

lemma gap_over_hole:
  assumes "hole < n" "i < n" "h < n" "gap n h hole < gap n h i"
  shows "gap n h i = gap n h hole + gap n hole i" and "\<not> stays n hole i h"
  using assms by (auto simp: gap_def stays_def split: if_splits)

lemma gap_back:
  assumes "hole < n" "i < n" "h < n" "i \<noteq> hole" "\<not> stays n hole i h"
  shows "gap n h hole < gap n h i"
  using assms by (auto simp: gap_def stays_def split: if_splits)

lemma probe_inv_open:
  assumes inv: "probe_inv home tab" and p: "p < length tab" "tab ! p = Some s"
  shows "probe_inv_but {p} home (tab[p := None])" and "occupants (tab[p := None]) = occupants tab - {s}"
proof -
  show "probe_inv_but {p} home (tab[p := None])"
  proof (rule probe_inv_butI)
    fix i x assume i: "i < length (tab[p := None])" "tab[p := None] ! i = Some x"
    then have i': "i < length tab" "tab ! i = Some x" "i \<noteq> p"
      using p(1) by (auto simp: nth_list_update split: if_splits)
    then show "home x < length (tab[p := None])" using probe_inv_home [OF inv] by simp
    show "tab[p := None] ! q \<noteq> None"
      if "q < length (tab[p := None])" "q \<notin> {p}"
        "gap (length (tab[p := None])) (home x) q < gap (length (tab[p := None])) (home x) i" for q
      using that probe_inv_path [OF inv i'(1,2), of q] by simp
    show "i = j" if "j < length (tab[p := None])" "tab[p := None] ! j = Some x" for j
      using that i' p(1) probe_inv_distinct [OF inv i'(1), of j x] by (auto simp: nth_list_update split: if_splits)
  qed
  show "occupants (tab[p := None]) = occupants tab - {s}"
  proof (intro set_eqI iffI)
    fix x assume "x \<in> occupants (tab[p := None])"
    then obtain i where "i < length tab" "tab ! i = Some x" "i \<noteq> p"
      using p(1) by (auto simp: occupants_nth nth_list_update split: if_splits)
    then show "x \<in> occupants tab - {s}"
      using probe_inv_distinct [OF inv _ p(1) _ p(2)] by (auto simp: occupants_nth)
  next
    fix x assume "x \<in> occupants tab - {s}"
    then obtain i where "i < length tab" "tab ! i = Some x" "i \<noteq> p"
      using p(2) unfolding occupants_nth by (metis DiffD1 DiffD2 occupants_nth option.inject singletonI)
    then show "x \<in> occupants (tab[p := None])" unfolding occupants_nth by (metis length_list_update nth_list_update_neq)
  qed
qed

lemma probe_inv_move:
  assumes inv: "probe_inv_but {hole} home tab" and hole: "hole < length tab" "tab ! hole = None"
    and scan: "scan < length tab" "tab ! scan = Some s" and moves: "\<not> stays (length tab) hole scan (home s)"
  shows "probe_inv_but {scan} home (tab[hole := Some s, scan := None])"
    and "occupants (tab[hole := Some s, scan := None]) = occupants tab"
proof -
  let ?tab = "tab[hole := Some s, scan := None]"
  have ne: "scan \<noteq> hole" using hole scan by auto
  have h: "home s < length tab" using probe_inv_home [OF inv scan] .
  have nearer: "gap (length tab) (home s) hole < gap (length tab) (home s) scan"
    using gap_back [OF hole(1) scan(1) h ne moves] .
  show "probe_inv_but {scan} home ?tab"
  proof (rule probe_inv_butI)
    fix i x assume i: "i < length ?tab" "?tab ! i = Some x"
    then show "home x < length ?tab"
      using h probe_inv_home [OF inv, of i x] by (cases "i = scan"; cases "i = hole") auto
    fix p assume p: "p < length ?tab" "gap (length ?tab) (home x) p < gap (length ?tab) (home x) i" "p \<notin> {scan}"
    show "?tab ! p \<noteq> None"
    proof (cases "p = hole")
      case False
      have "tab ! p \<noteq> None"
        using i p False ne nearer probe_inv_path [OF inv scan, of p] probe_inv_path [OF inv, of i x p]
        by (cases "i = scan"; cases "i = hole") auto
      with p False show ?thesis by simp
    qed (use p hole in auto)
  next
    fix i j x assume "i < length ?tab" "j < length ?tab" "?tab ! i = Some x" "?tab ! j = Some x"
    then show "i = j"
      using ne probe_inv_distinct [OF inv, of i j x] probe_inv_distinct [OF inv, of i scan x]
        probe_inv_distinct [OF inv, of j scan x] scan hole
      by (auto simp: nth_list_update split: if_splits)
  qed
  show "occupants ?tab = occupants tab"
  proof (intro set_eqI iffI)
    fix x assume "x \<in> occupants ?tab"
    then show "x \<in> occupants tab"
      using hole scan by (auto simp: occupants_nth nth_list_update split: if_splits)
  next
    fix x assume "x \<in> occupants tab"
    then obtain i where i: "i < length tab" "tab ! i = Some x" by (auto simp: occupants_nth)
    then have "?tab ! (if i = scan then hole else i) = Some x" "(if i = scan then hole else i) < length ?tab"
      using hole scan ne by (auto simp: nth_list_update)
    then show "x \<in> occupants ?tab" unfolding occupants_nth by blast
  qed
qed

lemma probe_inv_close:
  assumes inv: "probe_inv_but {hole} home tab" and hole: "hole < length tab"
    and e: "e < length tab" "tab ! e = None" "e \<noteq> hole"
    and blocked: "\<And>i s. i < length tab \<Longrightarrow> i \<noteq> hole \<Longrightarrow> gap (length tab) hole i < gap (length tab) hole e \<Longrightarrow>
      tab ! i = Some s \<Longrightarrow> stays (length tab) hole i (home s)"
  shows "probe_inv home tab"
proof (rule probe_inv_butI)
  let ?n = "length tab"
  fix i s p assume i: "i < ?n" "tab ! i = Some s" and p: "p < ?n" "gap ?n (home s) p < gap ?n (home s) i"
  note h = probe_inv_home [OF inv i]
  have "p \<noteq> hole"
  proof
    assume "p = hole"
    with p have over: "gap ?n (home s) hole < gap ?n (home s) i" by simp
    note path = gap_over_hole [OF hole i(1) h over]
    have "i \<noteq> hole" using over by auto
    then have "gap ?n hole e \<le> gap ?n hole i"
      using blocked [OF i(1) _ _ i(2)] path(2) by (meson not_le_imp_less)
    moreover have "e \<noteq> i" using e i by auto
    ultimately have "gap ?n hole e < gap ?n hole i" using gap_eq_iff [OF hole e(1) i(1)] by linarith
    moreover have "gap ?n (home s) e \<le> gap ?n (home s) hole + gap ?n hole e"
      using hole e(1) h by (auto simp: gap_def)
    ultimately have "gap ?n (home s) e < gap ?n (home s) i" using path(1) by linarith
    then show False using probe_inv_path [OF inv i e(1)] e by simp
  qed
  then show "tab ! p \<noteq> None" using probe_inv_path [OF inv i p] by simp
qed (use probe_inv_home [OF inv] probe_inv_distinct [OF inv] in auto)

text \<open>
  One scan for a row to move back: either it ends at a free bucket and the table is whole again, or
  it finds a row that may move, closer to the free bucket \<open>e\<close>.
\<close>

lemma probe_scan:
  assumes ring: "ring_step (length tab) step" and inv: "probe_inv_but {hole} home tab" and hole: "hole < length tab" "tab ! hole = None"
    and e: "e < length tab" "tab ! e = None" "e \<noteq> hole"
    and body: "\<And>p. p < length tab \<Longrightarrow> p \<noteq> hole \<Longrightarrow> body p =
      (case tab ! p of None \<Rightarrow> Some None
       | Some s \<Rightarrow> if stays (length tab) hole p (home s) then None else Some (Some p))"
  shows "probe_loop body step ((hole + 1) mod length tab) = Some None \<and> probe_inv home tab
    \<or> (\<exists>scan s. probe_loop body step ((hole + 1) mod length tab) = Some (Some scan)
        \<and> scan < length tab \<and> tab ! scan = Some s \<and> \<not> stays (length tab) hole scan (home s)
        \<and> gap (length tab) scan e < gap (length tab) hole e)"
proof -
  let ?n = "length tab" and ?start = "(hole + 1) mod length tab"
  have "0 < ?n" using hole by auto
  then have start: "?start < ?n" by simp
  have shift: "gap ?n ?start q = gap ?n hole q - 1" "0 < gap ?n hole q" if "q < ?n" "q \<noteq> hole" for q
    using gap_step [OF hole(1) that(1)] that hole by (auto simp: gap_def split: if_splits)
  have last: "gap ?n ?start hole = ?n - 1" using hole by (auto simp: gap_def mod_if)
  have "\<exists>p < ?n. p \<noteq> hole \<and> body p \<noteq> None" using e body by force
  then obtain p where p: "p < ?n" "p \<noteq> hole" "body p \<noteq> None"
    and nearest: "\<And>q. q < ?n \<Longrightarrow> gap ?n ?start q < gap ?n ?start p \<Longrightarrow> \<not> (q \<noteq> hole \<and> body q \<noteq> None)"
    using nearest_exists [OF _ start, of "\<lambda>p. p \<noteq> hole \<and> body p \<noteq> None"] by blast
  have quiet: "body q = None" "q \<noteq> hole" if "q < ?n" "gap ?n ?start q < gap ?n ?start p" for q
    using nearest [OF that] that last gap_less [OF start p(1)] by auto
  have loop: "probe_loop body step ?start = body p"
    using start p quiet by (intro probe_loop_nearest [OF ring]) auto
  have "\<not> gap ?n ?start e < gap ?n ?start p"
    using nearest [OF e(1)] body [OF e(1,3)] e(2,3) by auto
  then have upto_e: "gap ?n hole p \<le> gap ?n hole e"
    using shift [OF p(1,2)] shift [OF e(1,3)] by linarith
  show ?thesis
  proof (cases "tab ! p")
    case None
    have "probe_inv home tab"
    proof (rule probe_inv_close [OF inv hole(1) p(1) None p(2)])
      fix i s assume i: "i < ?n" "i \<noteq> hole" "gap ?n hole i < gap ?n hole p" "tab ! i = Some s"
      then have "body i = None" using quiet(1) [OF i(1)] shift [OF i(1,2)] shift [OF p(1,2)] by linarith
      then show "stays ?n hole i (home s)" using body [OF i(1,2)] i(4) by (auto split: if_splits)
    qed
    with loop body [OF p(1,2)] None show ?thesis by simp
  next
    case (Some s)
    then have stop: "body p = Some (Some p)" "\<not> stays ?n hole p (home s)"
      using body [OF p(1,2)] p(3) by (auto split: if_splits)
    have "p \<noteq> e" using Some e by auto
    then have "gap ?n p e < gap ?n hole e"
      using upto_e hole(1) p(1,2) e(1,3) by (auto simp: gap_def split: if_splits)
    with loop stop Some p show ?thesis by auto
  qed
qed

end
