(* ===== verification/Lemire_Index.thy ===== *)
theory Lemire_Index
  imports Probing
begin

text \<open>
  The side index of \<^verbatim>\<open>prns-core/src/lemire_index/\<close>: which row of a table holds a key. The fixed
  index (\<open>LemireIndex\<close>, 16-bit buckets) and the growable one (\<open>HeapLemireIndex\<close>, 32-bit buckets) run
  the same loops, so these are defined once over the bucket width; what differs, the growth, is
  defined for the growable index. A result \<open>None\<close> is a loop that does not end.
\<close>

section \<open>Load and keys\<close>

definition div_ceil :: "nat \<Rightarrow> nat \<Rightarrow> nat" where
  "div_ceil a b = (a + b - 1) div b"

definition buckets_for_two_thirds_load :: "nat \<Rightarrow> nat" where
  "buckets_for_two_thirds_load entries =
     (if entries = 0 then 1 else min (entries + div_ceil entries 2) USIZE_MAX)"

definition exceeds_two_thirds_load :: "nat \<Rightarrow> nat \<Rightarrow> bool" where
  "exceeds_two_thirds_load entries buckets = (entries > buckets - div_ceil buckets 3)"

definition lemire_key_from_prefix :: "u8 list \<Rightarrow> u64" where
  "lemire_key_from_prefix bytes = from_be_bytes (map ((!) bytes) [0..<8])"

text \<open>The traits \<open>IndexKey\<close> and \<open>IndexRow\<close>: how a row gives its key and a key its 64 bits.\<close>

record ('r, 'k) index_row =
  index_key :: "'r \<Rightarrow> 'k"
  lemire_key :: "'k \<Rightarrow> u64"

section \<open>Operations\<close>

definition lemire_EMPTY :: "'w::len word" where
  "lemire_EMPTY = - 1"

definition lemire_new :: "nat \<Rightarrow> 'w::len word list" where
  "lemire_new buckets = replicate buckets lemire_EMPTY"

definition lemire_bucket :: "nat \<Rightarrow> u64 \<Rightarrow> nat" where
  "lemire_bucket buckets key = (unat key * buckets) div 2 ^ 64"

definition lemire_position ::
  "('r, 'k) index_row \<Rightarrow> 'w::len word list \<Rightarrow> 'k \<Rightarrow> 'r list \<Rightarrow> nat option option" where
  "lemire_position K slots target rows =
     probe_loop
       (\<lambda>pos. let slot = slots ! pos in
          if slot = lemire_EMPTY then Some None
          else if index_key K (rows ! unat slot) = target then Some (Some pos)
          else None)
       (ring_next (length slots)) (lemire_bucket (length slots) (lemire_key K target))"

definition lemire_position_of_slot ::
  "('r, 'k) index_row \<Rightarrow> 'w::len word list \<Rightarrow> nat \<Rightarrow> 'r list \<Rightarrow> nat option option" where
  "lemire_position_of_slot K slots target_slot rows =
     (if target_slot < length rows then
        probe_loop
          (\<lambda>pos. let slot = slots ! pos in
             if slot = lemire_EMPTY then Some None
             else if unat slot = target_slot then Some (Some pos)
             else None)
          (ring_next (length slots))
          (lemire_bucket (length slots) (lemire_key K (index_key K (rows ! target_slot))))
      else Some None)"

definition lemire_get ::
  "('r, 'k) index_row \<Rightarrow> 'w::len word list \<Rightarrow> 'k \<Rightarrow> 'r list \<Rightarrow> nat option option" where
  "lemire_get K slots target rows =
     map_option (map_option (\<lambda>pos. unat (slots ! pos))) (lemire_position K slots target rows)"

definition lemire_contains ::
  "('r, 'k) index_row \<Rightarrow> 'w::len word list \<Rightarrow> 'k \<Rightarrow> 'r list \<Rightarrow> bool option" where
  "lemire_contains K slots target rows =
     map_option (\<lambda>p. p \<noteq> None) (lemire_position K slots target rows)"

definition lemire_insert ::
  "('r, 'k) index_row \<Rightarrow> 'w::len word list \<Rightarrow> nat \<Rightarrow> 'r list \<Rightarrow> 'w word list option" where
  "lemire_insert K slots slot rows =
     map_option (\<lambda>pos. slots[pos := of_nat slot])
       (probe_loop (\<lambda>pos. if slots ! pos \<noteq> lemire_EMPTY then None else Some pos)
          (ring_next (length slots)) (lemire_bucket (length slots) (lemire_key K (index_key K (rows ! slot)))))"

text \<open>
  \<open>remove_position\<close>: the outer loop empties the hole, the inner one looks for a row to move into it
  or for the end of the run.
\<close>

definition lemire_scan ::
  "('r, 'k) index_row \<Rightarrow> 'w::len word list \<Rightarrow> nat \<Rightarrow> 'r list \<Rightarrow> nat option option" where
  "lemire_scan K slots hole rows =
     probe_loop
       (\<lambda>scan. let slot = slots ! scan in
          if slot = lemire_EMPTY then Some None
          else
            let home = lemire_bucket (length slots) (lemire_key K (index_key K (rows ! unat slot)));
                blocks_move = (if hole \<le> scan then home > hole \<and> home \<le> scan
                               else home > hole \<or> home \<le> scan)
            in if \<not> blocks_move then Some (Some scan) else None)
       (ring_next (length slots)) (ring_next (length slots) hole)"

partial_function (option) lemire_remove_position ::
  "('r, 'k) index_row \<Rightarrow> 'w::len word list \<Rightarrow> nat \<Rightarrow> 'r list \<Rightarrow> 'w word list option" where
  "lemire_remove_position K slots hole rows =
     (let slots = slots[hole := lemire_EMPTY]
      in case lemire_scan K slots hole rows of
           None \<Rightarrow> None
         | Some None \<Rightarrow> Some slots
         | Some (Some scan) \<Rightarrow> lemire_remove_position K (slots[hole := slots ! scan]) scan rows)"

definition lemire_remove ::
  "('r, 'k) index_row \<Rightarrow> 'w::len word list \<Rightarrow> 'k \<Rightarrow> 'r list \<Rightarrow> 'w word list option" where
  "lemire_remove K slots target rows =
     (case lemire_position K slots target rows of
        None \<Rightarrow> None
      | Some None \<Rightarrow> Some slots
      | Some (Some hole) \<Rightarrow> lemire_remove_position K slots hole rows)"

definition lemire_remove_slot ::
  "('r, 'k) index_row \<Rightarrow> 'w::len word list \<Rightarrow> nat \<Rightarrow> 'r list \<Rightarrow> 'w word list option" where
  "lemire_remove_slot K slots slot rows =
     (case lemire_position_of_slot K slots slot rows of
        None \<Rightarrow> None
      | Some None \<Rightarrow> Some slots
      | Some (Some hole) \<Rightarrow> lemire_remove_position K slots hole rows)"

definition lemire_repoint ::
  "('r, 'k) index_row \<Rightarrow> 'w::len word list \<Rightarrow> 'k \<Rightarrow> nat \<Rightarrow> 'r list \<Rightarrow> 'w word list option" where
  "lemire_repoint K slots target slot rows =
     map_option (\<lambda>p. case p of Some pos \<Rightarrow> slots[pos := of_nat slot] | None \<Rightarrow> slots)
       (lemire_position K slots target rows)"

definition lemire_clear :: "'w::len word list \<Rightarrow> 'w word list" where
  "lemire_clear slots = replicate (length slots) lemire_EMPTY"

section \<open>The growable index\<close>

definition MIN_BUCKETS :: nat where
  "MIN_BUCKETS = 8"

definition heap_lemire_default :: "u32 list" where
  "heap_lemire_default = replicate MIN_BUCKETS lemire_EMPTY"

function grow_buckets :: "nat \<Rightarrow> nat \<Rightarrow> nat" where
  "grow_buckets rows_len buckets =
     (if exceeds_two_thirds_load rows_len buckets then
        let grown = min (buckets * 2) USIZE_MAX
        in if grown = buckets then buckets else grow_buckets rows_len grown
      else buckets)"
  by pat_completeness auto
termination
  by (relation "measure (\<lambda>(_, b). if b \<le> USIZE_MAX then USIZE_MAX - b else USIZE_MAX + 1)")
    (auto simp: min_def split: if_splits)

declare grow_buckets.simps [simp del]

primrec heap_lemire_place_all ::
  "('r, 'k) index_row \<Rightarrow> nat list \<Rightarrow> 'w::len word list \<Rightarrow> 'r list \<Rightarrow> 'w word list option" where
  "heap_lemire_place_all K [] slots rows = Some slots"
| "heap_lemire_place_all K (slot # rest) slots rows =
     (case lemire_insert K slots slot rows of
        None \<Rightarrow> None
      | Some slots \<Rightarrow> heap_lemire_place_all K rest slots rows)"

definition heap_lemire_rebuild ::
  "('r, 'k) index_row \<Rightarrow> u32 list \<Rightarrow> 'r list \<Rightarrow> u32 list option" where
  "heap_lemire_rebuild K slots rows =
     heap_lemire_place_all K [0..<length rows]
       (replicate (grow_buckets (length rows) (max (length slots) MIN_BUCKETS)) lemire_EMPTY) rows"

definition heap_lemire_insert ::
  "('r, 'k) index_row \<Rightarrow> u32 list \<Rightarrow> nat \<Rightarrow> 'r list \<Rightarrow> u32 list option" where
  "heap_lemire_insert K slots slot rows =
     (if exceeds_two_thirds_load (length rows) (length slots) then heap_lemire_rebuild K slots rows
      else lemire_insert K slots slot rows)"

definition heap_lemire_repoint_slot ::
  "('r, 'k) index_row \<Rightarrow> u32 list \<Rightarrow> nat \<Rightarrow> nat \<Rightarrow> 'r list \<Rightarrow> u32 list option" where
  "heap_lemire_repoint_slot K slots previous slot rows =
     map_option (\<lambda>p. case p of Some pos \<Rightarrow> slots[pos := of_nat slot] | None \<Rightarrow> slots)
       (lemire_position_of_slot K slots previous rows)"

text \<open>The loops the growable index shares with the fixed one, at its bucket width.\<close>

definition heap_lemire_position ::
  "('r, 'k) index_row \<Rightarrow> u32 list \<Rightarrow> 'k \<Rightarrow> 'r list \<Rightarrow> nat option option" where
  "heap_lemire_position = lemire_position"

definition heap_lemire_position_of_slot ::
  "('r, 'k) index_row \<Rightarrow> u32 list \<Rightarrow> nat \<Rightarrow> 'r list \<Rightarrow> nat option option" where
  "heap_lemire_position_of_slot = lemire_position_of_slot"

definition heap_lemire_get ::
  "('r, 'k) index_row \<Rightarrow> u32 list \<Rightarrow> 'k \<Rightarrow> 'r list \<Rightarrow> nat option option" where
  "heap_lemire_get K slots target rows =
     map_option (map_option (\<lambda>pos. unat (slots ! pos))) (heap_lemire_position K slots target rows)"

definition heap_lemire_remove_position ::
  "('r, 'k) index_row \<Rightarrow> u32 list \<Rightarrow> nat \<Rightarrow> 'r list \<Rightarrow> u32 list option" where
  "heap_lemire_remove_position = lemire_remove_position"

definition heap_lemire_remove ::
  "('r, 'k) index_row \<Rightarrow> u32 list \<Rightarrow> 'k \<Rightarrow> 'r list \<Rightarrow> u32 list option" where
  "heap_lemire_remove K slots target rows =
     (case heap_lemire_position K slots target rows of
        None \<Rightarrow> None
      | Some None \<Rightarrow> Some slots
      | Some (Some hole) \<Rightarrow> heap_lemire_remove_position K slots hole rows)"

definition heap_lemire_remove_slot ::
  "('r, 'k) index_row \<Rightarrow> u32 list \<Rightarrow> nat \<Rightarrow> 'r list \<Rightarrow> u32 list option" where
  "heap_lemire_remove_slot K slots slot rows =
     (case heap_lemire_position_of_slot K slots slot rows of
        None \<Rightarrow> None
      | Some None \<Rightarrow> Some slots
      | Some (Some hole) \<Rightarrow> heap_lemire_remove_position K slots hole rows)"

definition heap_lemire_repoint ::
  "('r, 'k) index_row \<Rightarrow> u32 list \<Rightarrow> 'k \<Rightarrow> nat \<Rightarrow> 'r list \<Rightarrow> u32 list option" where
  "heap_lemire_repoint K slots target slot rows =
     map_option (\<lambda>p. case p of Some pos \<Rightarrow> slots[pos := of_nat slot] | None \<Rightarrow> slots)
       (heap_lemire_position K slots target rows)"

definition heap_lemire_clear :: "u32 list \<Rightarrow> u32 list" where
  "heap_lemire_clear slots = replicate (length slots) lemire_EMPTY"

lemma heap_lemire_shared:
  "heap_lemire_get = lemire_get" "heap_lemire_remove = lemire_remove"
  "heap_lemire_remove_slot = lemire_remove_slot" "heap_lemire_repoint = lemire_repoint"
  "heap_lemire_clear = lemire_clear"
  unfolding fun_eq_iff heap_lemire_get_def lemire_get_def heap_lemire_position_def heap_lemire_remove_def
    lemire_remove_def heap_lemire_remove_position_def heap_lemire_remove_slot_def lemire_remove_slot_def
    heap_lemire_position_of_slot_def heap_lemire_repoint_def lemire_repoint_def heap_lemire_clear_def
    lemire_clear_def
  by simp_all

section \<open>Invariant\<close>

definition decode :: "'w::len word \<Rightarrow> nat option" where
  "decode w = (if w = lemire_EMPTY then None else Some (unat w))"

definition lemire_home :: "('r, 'k) index_row \<Rightarrow> nat \<Rightarrow> 'r list \<Rightarrow> nat \<Rightarrow> nat" where
  "lemire_home K n rows s = lemire_bucket n (lemire_key K (index_key K (rows ! s)))"

text \<open>
  The index holds exactly the rows in \<open>live\<close>, each reachable from its home bucket, with at least one
  bucket free; row numbers fit the bucket width below the empty marker.
\<close>

definition lemire_ok ::
  "('r, 'k) index_row \<Rightarrow> 'w::len word list \<Rightarrow> 'r list \<Rightarrow> nat set \<Rightarrow> bool" where
  "lemire_ok K slots rows live =
     (probe_inv (lemire_home K (length slots) rows) (map decode slots)
      \<and> occupants (map decode slots) = live \<and> live \<subseteq> {..<length rows}
      \<and> card live < length slots \<and> length rows \<le> 2 ^ LENGTH('w) - 1)"

lemma lemire_bucket_less: "0 < n \<Longrightarrow> lemire_bucket n key < n"
proof -
  assume "0 < n"
  moreover have "unat key < 2 ^ 64" using unat_less_pow [of key] by simp
  ultimately have "unat key * n < n * 2 ^ 64" by simp
  then show ?thesis unfolding lemire_bucket_def by (simp add: less_mult_imp_div_less)
qed

lemma lemire_home_less [simp]: "0 < n \<Longrightarrow> lemire_home K n rows s < n"
  by (simp add: lemire_home_def lemire_bucket_less)

lemma decode_EMPTY [simp]: "decode lemire_EMPTY = None"
  by (simp add: decode_def)

lemma decode_of_nat: "s < 2 ^ LENGTH('w) - 1 \<Longrightarrow> decode (of_nat s :: 'w::len word) = Some s"
proof -
  assume s: "s < 2 ^ LENGTH('w) - 1"
  then have "unat (of_nat s :: 'w word) = s" by (simp add: unat_of_nat take_bit_nat_eq_self)
  moreover have "unat (lemire_EMPTY :: 'w word) = 2 ^ LENGTH('w) - 1"
    by (simp add: lemire_EMPTY_def unsigned_minus_1_eq_mask mask_eq_exp_minus_1)
  ultimately show ?thesis using s by (metis decode_def nless_le)
qed

lemma full_table_card:
  assumes "probe_inv home tab" and "None \<notin> set tab"
  shows "card (occupants tab) = length tab"
proof -
  have some: "\<exists>s. tab ! i = Some s" if "i < length tab" for i
    using assms(2) nth_mem [OF that] by (cases "tab ! i") auto
  have "inj_on (\<lambda>i. the (tab ! i)) {..<length tab}"
  proof (rule inj_onI)
    fix i j assume ij: "i \<in> {..<length tab}" "j \<in> {..<length tab}" and eq: "the (tab ! i) = the (tab ! j)"
    with some [of i] some [of j] show "i = j" using probe_inv_distinct [OF assms(1), of i j] by auto
  qed
  moreover have "occupants tab = (\<lambda>i. the (tab ! i)) ` {..<length tab}"
    using some by (force simp: occupants_nth image_iff)
  ultimately show ?thesis by (simp add: card_image)
qed

lemma lemire_ok_room: "lemire_ok K slots rows live \<Longrightarrow> None \<in> set (map decode slots)"
  using full_table_card [of "lemire_home K (length slots) rows" "map decode slots"]
  by (auto simp: lemire_ok_def)

lemma lemire_ok_pos: "lemire_ok K slots rows live \<Longrightarrow> 0 < length slots"
  by (auto simp: lemire_ok_def)

lemma lemire_ok_fits:
  "lemire_ok K (slots :: 'w::len word list) rows live \<Longrightarrow> length rows \<le> 2 ^ LENGTH('w) - 1"
  by (simp add: lemire_ok_def)

lemma lemire_ok_new: "0 < n \<Longrightarrow> length rows \<le> 2 ^ LENGTH('w) - 1 \<Longrightarrow> lemire_ok K (replicate n lemire_EMPTY :: 'w::len word list) rows {}"
  by (simp add: lemire_ok_def)

lemma lemire_ok_occupant:
  "lemire_ok K slots rows live \<Longrightarrow> p < length slots \<Longrightarrow> decode (slots ! p) = Some s \<Longrightarrow> s \<in> live"
  by (auto simp: lemire_ok_def occupants_nth)

lemma lemire_position_correct:
  assumes ok: "lemire_ok K slots rows live"
  shows "(\<exists>p s. lemire_position K slots k rows = Some (Some p) \<and> p < length slots
        \<and> decode (slots ! p) = Some s \<and> s \<in> live \<and> index_key K (rows ! s) = k)
    \<or> lemire_position K slots k rows = Some None \<and> (\<forall>s \<in> live. index_key K (rows ! s) \<noteq> k)"
proof -
  let ?tab = "map decode slots" and ?h = "lemire_bucket (length slots) (lemire_key K k)"
  let ?Q = "\<lambda>s. index_key K (rows ! s) = k"
  have "(\<exists>p s. p < length ?tab \<and> ?tab ! p = Some s \<and> ?Q s \<and> lemire_position K slots k rows = Some (Some p))
     \<or> (\<forall>s \<in> occupants ?tab. \<not> ?Q s) \<and>
        (\<exists>p. p < length ?tab \<and> ?tab ! p = None \<and> lemire_position K slots k rows = Some None \<and>
          (\<forall>q < length ?tab. gap (length ?tab) ?h q < gap (length ?tab) ?h p \<longrightarrow> ?tab ! q \<noteq> None))"
    unfolding lemire_position_def length_map [of decode slots, symmetric]
  proof (rule probe_search [OF ring_step_next])
    show "probe_inv (lemire_home K (length slots) rows) ?tab" using ok by (simp add: lemire_ok_def)
    show "None \<in> set ?tab" using ok by (rule lemire_ok_room)
    show "lemire_bucket (length ?tab) (lemire_key K k) < length ?tab"
      using lemire_ok_pos [OF ok] by (simp add: lemire_bucket_less)
  qed (auto simp: lemire_home_def decode_def Let_def)
  then show ?thesis using ok by (auto simp: lemire_ok_def occupants_nth)
qed

lemma lemire_position_of_slot_correct:
  assumes ok: "lemire_ok K slots rows live"
  shows "if t \<in> live
    then \<exists>p. lemire_position_of_slot K slots t rows = Some (Some p) \<and> p < length slots \<and> decode (slots ! p) = Some t
    else lemire_position_of_slot K slots t rows = Some None"
proof (cases "t < length rows")
  case True
  let ?tab = "map decode slots" and ?h = "lemire_bucket (length slots) (lemire_key K (index_key K (rows ! t)))"
  have "(\<exists>p s. p < length ?tab \<and> ?tab ! p = Some s \<and> s = t \<and> lemire_position_of_slot K slots t rows = Some (Some p))
     \<or> (\<forall>s \<in> occupants ?tab. \<not> s = t) \<and>
        (\<exists>p. p < length ?tab \<and> ?tab ! p = None \<and> lemire_position_of_slot K slots t rows = Some None \<and>
          (\<forall>q < length ?tab. gap (length ?tab) ?h q < gap (length ?tab) ?h p \<longrightarrow> ?tab ! q \<noteq> None))"
    unfolding lemire_position_of_slot_def length_map [of decode slots, symmetric] if_P [OF True]
  proof (rule probe_search [OF ring_step_next])
    show "probe_inv (lemire_home K (length slots) rows) ?tab" using ok by (simp add: lemire_ok_def)
    show "None \<in> set ?tab" using ok by (rule lemire_ok_room)
    show "lemire_bucket (length ?tab) (lemire_key K (index_key K (rows ! t))) < length ?tab"
      using lemire_ok_pos [OF ok] by (simp add: lemire_bucket_less)
  qed (auto simp: lemire_home_def decode_def Let_def)
  then show ?thesis using ok by (auto simp: lemire_ok_def occupants_nth)
next
  case False
  with ok show ?thesis by (auto simp: lemire_position_of_slot_def lemire_ok_def)
qed

lemma lemire_get_correct:
  assumes ok: "lemire_ok K slots rows live" and inj: "inj_on (\<lambda>s. index_key K (rows ! s)) live"
  shows "s \<in> live \<Longrightarrow> index_key K (rows ! s) = k \<Longrightarrow> lemire_get K slots k rows = Some (Some s)"
    and "\<forall>s \<in> live. index_key K (rows ! s) \<noteq> k \<Longrightarrow> lemire_get K slots k rows = Some None"
proof -
  show "lemire_get K slots k rows = Some (Some s)" if "s \<in> live" "index_key K (rows ! s) = k"
    using lemire_position_correct [OF ok, of k] that inj
    by (auto simp: lemire_get_def decode_def inj_on_def split: if_splits)
  show "lemire_get K slots k rows = Some None" if "\<forall>s \<in> live. index_key K (rows ! s) \<noteq> k"
    using lemire_position_correct [OF ok, of k] that by (auto simp: lemire_get_def)
qed

lemma lemire_contains_correct:
  assumes "lemire_ok K slots rows live"
  shows "lemire_contains K slots k rows = Some (\<exists>s \<in> live. index_key K (rows ! s) = k)"
  using lemire_position_correct [OF assms, of k] by (auto simp: lemire_contains_def)

lemma lemire_insert_correct:
  fixes slots :: "'w::len word list"
  assumes ok: "lemire_ok K slots rows live" and s: "s \<notin> live" "s < length rows"
    and room: "card live + 1 < length slots"
  shows "\<exists>slots'. lemire_insert K slots s rows = Some slots' \<and> length slots' = length slots
    \<and> lemire_ok K slots' rows (insert s live)"
proof -
  let ?tab = "map decode slots" and ?h = "lemire_home K (length slots) rows s"
  have inv: "probe_inv (lemire_home K (length slots) rows) ?tab" and occ: "occupants ?tab = live"
    and fits: "length rows \<le> 2 ^ LENGTH('w) - 1" and live: "live \<subseteq> {..<length rows}"
    using ok by (simp_all add: lemire_ok_def)
  have h: "?h < length ?tab" using lemire_ok_pos [OF ok] by simp
  have body: "(\<lambda>pos. if slots ! pos \<noteq> lemire_EMPTY then None else Some pos) p = (if ?tab ! p = None then Some p else None)"
    if "p < length ?tab" for p using that by (simp add: decode_def)
  obtain p where loop: "probe_loop (\<lambda>pos. if slots ! pos \<noteq> lemire_EMPTY then None else Some pos) (ring_next (length ?tab)) ?h = Some p"
    and p: "p < length ?tab" "?tab ! p = None"
      "\<forall>q < length ?tab. gap (length ?tab) ?h q < gap (length ?tab) ?h p \<longrightarrow> ?tab ! q \<noteq> None"
    using probe_free [OF ring_step_next lemire_ok_room [OF ok] h body] by blast
  have "decode (of_nat s :: 'w word) = Some s" using s fits by (intro decode_of_nat) linarith
  then have tab: "map decode (slots[p := of_nat s]) = ?tab[p := Some s]" by (simp add: map_update)
  have "probe_inv (lemire_home K (length slots) rows) (?tab[p := Some s])"
    using inv p h s occ by (intro probe_inv_place) auto
  moreover have "occupants (?tab[p := Some s]) = insert s live"
    using p occ by (simp add: occupants_place)
  moreover have "card (insert s live) < length slots"
    using room s finite_subset [OF live] by simp
  ultimately have "lemire_ok K (slots[p := of_nat s]) rows (insert s live)"
    using s live fits by (simp add: lemire_ok_def tab)
  with loop show ?thesis by (simp add: lemire_insert_def lemire_home_def)
qed

section \<open>Removal\<close>

lemma lemire_remove_position_correct:
  fixes slots :: "'w::len word list"
  assumes "probe_inv_but {hole} (lemire_home K (length slots) rows) (map decode (slots[hole := lemire_EMPTY]))"
    and "hole < length slots" "e < length slots" "slots ! e = lemire_EMPTY" "e \<noteq> hole"
  shows "\<exists>slots'. lemire_remove_position K slots hole rows = Some slots' \<and> length slots' = length slots
    \<and> probe_inv (lemire_home K (length slots) rows) (map decode slots')
    \<and> occupants (map decode slots') = occupants (map decode (slots[hole := lemire_EMPTY]))"
  using assms
proof (induction "gap (length slots) hole e" arbitrary: slots hole rule: less_induct)
  case less
  let ?home = "lemire_home K (length slots) rows" and ?slots = "slots[hole := lemire_EMPTY]"
  let ?tab = "map decode ?slots"
  have n: "length ?tab = length slots" by simp
  have hole: "hole < length ?tab" "?tab ! hole = None" and e: "e < length ?tab" "?tab ! e = None"
    using less.prems by simp_all
  have scan: "lemire_scan K ?slots hole rows = Some None \<and> probe_inv ?home ?tab
    \<or> (\<exists>scan s. lemire_scan K ?slots hole rows = Some (Some scan)
        \<and> scan < length ?tab \<and> ?tab ! scan = Some s \<and> \<not> stays (length ?tab) hole scan (?home s)
        \<and> gap (length ?tab) scan e < gap (length ?tab) hole e)"
    unfolding lemire_scan_def ring_next_def [of _ hole] n [symmetric] length_list_update [of slots hole lemire_EMPTY, symmetric]
      length_map [of decode ?slots, symmetric]
  proof (rule probe_scan [OF ring_step_next])
    fix p assume p: "p < length ?tab" "p \<noteq> hole"
    have "0 < length slots" using less.prems(2) by linarith
    then have "lemire_home K (length slots) rows s < length slots" for s by simp
    then have st: "stays (length slots) hole p (lemire_home K (length slots) rows s) =
      (if hole \<le> p then lemire_home K (length slots) rows s > hole \<and> lemire_home K (length slots) rows s \<le> p
       else lemire_home K (length slots) rows s > hole \<or> lemire_home K (length slots) rows s \<le> p)" for s
      using p hole(1) by (intro stays_iff) simp_all
    show "(let slot = ?slots ! p in
          if slot = lemire_EMPTY then Some None
          else
            let home = lemire_bucket (length ?tab) (lemire_key K (index_key K (rows ! unat slot)));
                blocks_move = (if hole \<le> p then home > hole \<and> home \<le> p else home > hole \<or> home \<le> p)
            in if \<not> blocks_move then Some (Some p) else None) =
      (case ?tab ! p of None \<Rightarrow> Some None
       | Some s \<Rightarrow> if stays (length ?tab) hole p (lemire_home K (length ?tab) rows s) then None else Some (Some p))"
      using p by (simp add: decode_def Let_def st lemire_home_def [symmetric])
  qed (use less.prems hole e in simp_all)
  note unf = lemire_remove_position.simps [of K slots hole rows] Let_def
  from scan show ?case
  proof (elim disjE exE conjE)
    assume "lemire_scan K ?slots hole rows = Some None" "probe_inv ?home ?tab"
    then show ?thesis by (simp add: unf)
  next
    fix scan s assume sc: "lemire_scan K ?slots hole rows = Some (Some scan)" "scan < length ?tab" "?tab ! scan = Some s"
      "\<not> stays (length ?tab) hole scan (?home s)" "gap (length ?tab) scan e < gap (length ?tab) hole e"
    let ?moved = "?slots[hole := ?slots ! scan]"
    have "decode (?slots ! scan) = Some s" using sc(2,3) by (metis length_map nth_map)
    then have tab: "map decode (?moved[scan := lemire_EMPTY]) = ?tab[hole := Some s, scan := None]"
      by (simp add: map_update)
    note mv = probe_inv_move [OF less.prems(1) hole sc(2-4)]
    have "probe_inv_but {scan} (lemire_home K (length ?moved) rows) (map decode (?moved[scan := lemire_EMPTY]))"
      unfolding tab using mv(1) by simp
    moreover have "scan \<noteq> hole" "scan \<noteq> e" using sc(3) hole(2) e(2) by auto
    ultimately have "\<exists>slots'. lemire_remove_position K ?moved scan rows = Some slots' \<and> length slots' = length ?moved
      \<and> probe_inv (lemire_home K (length ?moved) rows) (map decode slots')
      \<and> occupants (map decode slots') = occupants (map decode (?moved[scan := lemire_EMPTY]))"
      using sc(2,5) less.prems(2-5) by (intro less.hyps) (assumption | simp)+
    then show ?thesis using sc(1) mv(2) unfolding tab by (simp add: unf)
  qed
qed

lemma lemire_remove_hole:
  assumes ok: "lemire_ok K slots rows live" and p: "p < length slots" "decode (slots ! p) = Some s"
  shows "\<exists>slots'. lemire_remove_position K slots p rows = Some slots' \<and> length slots' = length slots
    \<and> lemire_ok K slots' rows (live - {s})"
proof -
  have inv: "probe_inv (lemire_home K (length slots) rows) (map decode slots)"
    and occ: "occupants (map decode slots) = live" and live: "live \<subseteq> {..<length rows}"
    using ok by (simp_all add: lemire_ok_def)
  obtain e where e: "e < length slots" "slots ! e = lemire_EMPTY"
    using lemire_ok_room [OF ok] by (auto simp: in_set_conv_nth decode_def split: if_splits)
  have "e \<noteq> p" using e p by auto
  have tab: "map decode (slots[p := lemire_EMPTY]) = (map decode slots)[p := None]" by (simp add: map_update)
  note opened = probe_inv_open [OF inv, of p s]
  have "\<exists>slots'. lemire_remove_position K slots p rows = Some slots' \<and> length slots' = length slots
    \<and> probe_inv (lemire_home K (length slots) rows) (map decode slots')
    \<and> occupants (map decode slots') = occupants (map decode (slots[p := lemire_EMPTY]))"
    using opened p e \<open>e \<noteq> p\<close> by (intro lemire_remove_position_correct) (simp_all add: tab)
  then obtain slots' where "lemire_remove_position K slots p rows = Some slots'" "length slots' = length slots"
    "probe_inv (lemire_home K (length slots) rows) (map decode slots')" "occupants (map decode slots') = live - {s}"
    using opened(2) p occ by (auto simp: tab)
  moreover have "card (live - {s}) \<le> card live" by (rule card_mono) (use finite_subset [OF live] in auto)
  ultimately show ?thesis using ok by (auto simp: lemire_ok_def)
qed

lemma lemire_remove_slot_correct:
  assumes ok: "lemire_ok K slots rows live"
  shows "\<exists>slots'. lemire_remove_slot K slots t rows = Some slots' \<and> length slots' = length slots
    \<and> lemire_ok K slots' rows (live - {t})"
  using lemire_position_of_slot_correct [OF ok, of t] lemire_remove_hole [OF ok, of _ t] ok
  by (cases "t \<in> live") (auto simp: lemire_remove_slot_def)

lemma lemire_remove_correct:
  assumes ok: "lemire_ok K slots rows live" and inj: "inj_on (\<lambda>s. index_key K (rows ! s)) live"
  shows "\<exists>slots'. lemire_remove K slots k rows = Some slots' \<and> length slots' = length slots
    \<and> lemire_ok K slots' rows {s \<in> live. index_key K (rows ! s) \<noteq> k}"
proof -
  let ?rest = "{s \<in> live. index_key K (rows ! s) \<noteq> k}"
  from lemire_position_correct [OF ok, of k] show ?thesis
  proof (elim disjE exE conjE)
    fix p s assume ps: "lemire_position K slots k rows = Some (Some p)" "p < length slots"
      "decode (slots ! p) = Some s" "s \<in> live" "index_key K (rows ! s) = k"
    then have "live - {s} = ?rest" using inj by (auto simp: inj_on_def)
    with lemire_remove_hole [OF ok ps(2,3)] ps(1) show ?thesis by (simp add: lemire_remove_def)
  next
    assume "lemire_position K slots k rows = Some None" and none: "\<forall>s \<in> live. index_key K (rows ! s) \<noteq> k"
    moreover from none have "?rest = live" by auto
    ultimately show ?thesis using ok by (simp add: lemire_remove_def)
  qed
qed

section \<open>Growth, repointing and changing rows\<close>

text \<open>The invariant reads the rows only at the live row numbers, and only their keys.\<close>

lemma lemire_ok_rows:
  fixes slots :: "'w::len word list"
  assumes "lemire_ok K slots rows live" and "\<And>s. s \<in> live \<Longrightarrow> index_key K (rows' ! s) = index_key K (rows ! s)"
    and "live \<subseteq> {..<length rows'}" and "length rows' \<le> 2 ^ LENGTH('w) - 1"
  shows "lemire_ok K slots rows' live"
proof -
  have inv: "probe_inv (lemire_home K (length slots) rows) (map decode slots)"
    using assms(1) by (simp add: lemire_ok_def)
  have same: "lemire_home K (length slots) rows' s = lemire_home K (length slots) rows s"
    if "i < length (map decode slots)" "map decode slots ! i = Some s" for i s
    using that assms(2) [OF lemire_ok_occupant [OF assms(1), of i s]] by (simp add: lemire_home_def)
  have "probe_inv (lemire_home K (length slots) rows') (map decode slots)"
    by (rule probe_inv_butI)
      (use probe_inv_home [OF inv] probe_inv_path [OF inv] probe_inv_distinct [OF inv] same in force)+
  with assms show ?thesis by (simp add: lemire_ok_def)
qed

lemma lemire_ok_push:
  fixes slots :: "'w::len word list"
  assumes "lemire_ok K slots rows live" and "length rows < 2 ^ LENGTH('w) - 1"
  shows "lemire_ok K slots (rows @ [r]) live"
proof -
  have live: "live \<subseteq> {..<length rows}" using assms(1) by (simp add: lemire_ok_def)
  show ?thesis
    by (rule lemire_ok_rows [OF assms(1)]) (use live assms(2) in \<open>auto simp: nth_append\<close>)
qed

lemma exceeds_two_thirds_load_less:
  "\<not> exceeds_two_thirds_load entries buckets \<Longrightarrow> 0 < buckets \<Longrightarrow> entries < buckets"
  by (auto simp: exceeds_two_thirds_load_def div_ceil_def)

lemma grow_buckets_enough:
  assumes "rows_len \<le> 2 ^ 32" and "0 < b" and "b \<le> USIZE_MAX"
  shows "\<not> exceeds_two_thirds_load rows_len (grow_buckets rows_len b) \<and> b \<le> grow_buckets rows_len b"
  using assms
proof (induction rows_len b rule: grow_buckets.induct)
  case (1 rows_len b)
  show ?case
  proof (cases "exceeds_two_thirds_load rows_len b")
    case True
    with 1 have "b - (b + 2) div 3 < 2 ^ 32" by (simp add: exceeds_two_thirds_load_def div_ceil_def)
    then have "b < 2 ^ 33" by simp
    then have "b * 2 \<le> USIZE_MAX" by (simp add: USIZE_MAX_def)
    with 1 True show ?thesis by (simp add: grow_buckets.simps [of rows_len b] Let_def)
  next
    case False
    then show ?thesis by (simp add: grow_buckets.simps [of rows_len b])
  qed
qed

lemma grow_buckets_le: "b \<le> USIZE_MAX \<Longrightarrow> grow_buckets rows_len b \<le> USIZE_MAX"
proof (induction rows_len b rule: grow_buckets.induct)
  case (1 rows_len b)
  then show ?case by (simp add: grow_buckets.simps [of rows_len b] Let_def)
qed

lemma heap_lemire_place_all_correct:
  assumes "lemire_ok K slots rows live" and "distinct ss" and "set ss \<inter> live = {}"
    and "set ss \<subseteq> {..<length rows}" and "card live + length ss < length slots"
  shows "\<exists>slots'. heap_lemire_place_all K ss slots rows = Some slots' \<and> length slots' = length slots
    \<and> lemire_ok K slots' rows (live \<union> set ss)"
  using assms
proof (induction ss arbitrary: slots live)
  case (Cons s ss)
  have "finite live" using Cons.prems(1) by (auto simp: lemire_ok_def intro: finite_subset)
  then have card: "card (insert s live) = card live + 1" using Cons.prems(3) by auto
  obtain slots1 where ins: "lemire_insert K slots s rows = Some slots1" "length slots1 = length slots"
    "lemire_ok K slots1 rows (insert s live)"
    using lemire_insert_correct [OF Cons.prems(1), of s] Cons.prems by auto
  then have "\<exists>slots'. heap_lemire_place_all K ss slots1 rows = Some slots' \<and> length slots' = length slots1
    \<and> lemire_ok K slots' rows (insert s live \<union> set ss)"
    using Cons.prems card by (intro Cons.IH) auto
  with ins show ?case by (simp add: Un_commute)
qed simp

lemma heap_lemire_insert_correct:
  assumes ok: "lemire_ok K slots rows {..<n}" and n: "length rows = Suc n" and usize: "length slots \<le> USIZE_MAX"
  shows "\<exists>slots'. heap_lemire_insert K slots n rows = Some slots' \<and> lemire_ok K slots' rows {..<Suc n}"
proof (cases "exceeds_two_thirds_load (length rows) (length slots)")
  case True
  let ?b = "grow_buckets (length rows) (max (length slots) MIN_BUCKETS)"
  have fits: "length rows \<le> 2 ^ 32 - 1" using ok by (simp add: lemire_ok_def)
  have "0 < max (length slots) MIN_BUCKETS" "max (length slots) MIN_BUCKETS \<le> USIZE_MAX"
    using usize by (simp_all add: MIN_BUCKETS_def USIZE_MAX_def)
  then have load: "\<not> exceeds_two_thirds_load (length rows) ?b" and "0 < ?b"
    using grow_buckets_enough [of "length rows" "max (length slots) MIN_BUCKETS"] fits by auto
  then have "length rows < ?b" by (rule exceeds_two_thirds_load_less)
  moreover have "lemire_ok K (replicate ?b lemire_EMPTY :: u32 list) rows {}"
    using \<open>0 < ?b\<close> fits by (intro lemire_ok_new) simp_all
  ultimately have "\<exists>slots'. heap_lemire_rebuild K slots rows = Some slots'
    \<and> lemire_ok K slots' rows ({} \<union> set [0..<length rows])"
    unfolding heap_lemire_rebuild_def
    using heap_lemire_place_all_correct [of K "replicate ?b lemire_EMPTY" rows "{}" "[0..<length rows]"]
    by (auto simp: atLeast0LessThan)
  with True n show ?thesis by (auto simp: heap_lemire_insert_def atLeast0LessThan lessThan_Suc atLeastLessThanSuc)
next
  case False
  then have "length rows < length slots" using exceeds_two_thirds_load_less lemire_ok_pos [OF ok] by blast
  then show ?thesis
    using False n lemire_insert_correct [OF ok, of n]
    by (auto simp: heap_lemire_insert_def lessThan_Suc)
qed

lemma heap_lemire_place_all_length:
  "heap_lemire_place_all K ss slots rows = Some slots' \<Longrightarrow> length slots' = length slots"
  by (induction ss arbitrary: slots) (auto simp: lemire_insert_def split: option.splits)

lemma heap_lemire_insert_length:
  assumes "heap_lemire_insert K slots n rows = Some slots'" "length slots \<le> USIZE_MAX"
  shows "length slots' \<le> USIZE_MAX"
proof -
  have "grow_buckets (length rows) (max (length slots) MIN_BUCKETS) \<le> USIZE_MAX"
    using assms(2) by (intro grow_buckets_le) (simp add: MIN_BUCKETS_def USIZE_MAX_def)
  with assms show ?thesis
    by (auto simp: heap_lemire_insert_def heap_lemire_rebuild_def lemire_insert_def split: if_splits
        dest: heap_lemire_place_all_length)
qed

text \<open>
  Repointing: the bucket that held row \<open>s\<close> under key \<open>k\<close> now holds row \<open>t\<close>, whose key is \<open>k\<close> too
  (a row that moves to another place of its table).
\<close>

lemma probe_inv_rename:
  assumes inv: "probe_inv home tab" and p: "p < length tab" "tab ! p = Some s"
    and t: "t \<notin> occupants tab" "home' t = home s"
    and same: "\<And>x. x \<in> occupants tab \<Longrightarrow> x \<noteq> s \<Longrightarrow> home' x = home x"
  shows "probe_inv home' (tab[p := Some t])"
    and "occupants (tab[p := Some t]) = insert t (occupants tab - {s})"
proof -
  have other: "x \<in> occupants tab" "x \<noteq> s" if "i < length tab" "i \<noteq> p" "tab ! i = Some x" for i x
    using that p probe_inv_distinct [OF inv that(1) p(1), of x] by (auto simp: occupants_nth)
  show "probe_inv home' (tab[p := Some t])"
  proof (rule probe_inv_butI)
    fix i x assume i: "i < length (tab[p := Some t])" "tab[p := Some t] ! i = Some x"
    then have i': "i < length tab" "home' x = home (the (tab ! i))" "\<exists>y. tab ! i = Some y"
      using p t(2) same other [of i x] by (auto simp: nth_list_update split: if_splits)
    then show "home' x < length (tab[p := Some t])" using probe_inv_home [OF inv] by auto
    show "tab[p := Some t] ! q \<noteq> None"
      if "q < length (tab[p := Some t])"
        "gap (length (tab[p := Some t])) (home' x) q < gap (length (tab[p := Some t])) (home' x) i" for q
      using that i' p(1) probe_inv_path [OF inv i'(1), of _ q] by (auto simp: nth_list_update)
    show "i = j" if "j < length (tab[p := Some t])" "tab[p := Some t] ! j = Some x" for j
      using that i p(1) t(1) probe_inv_distinct [OF inv, of i j x]
      by (auto simp: nth_list_update occupants_nth split: if_splits)
  qed
  show "occupants (tab[p := Some t]) = insert t (occupants tab - {s})"
  proof (intro set_eqI iffI)
    fix x assume "x \<in> occupants (tab[p := Some t])"
    then obtain i where "i < length tab" "(if p = i then Some t else tab ! i) = Some x"
      using p(1) by (auto simp: occupants_nth nth_list_update)
    then show "x \<in> insert t (occupants tab - {s})" using other [of i x] by (auto split: if_splits)
  next
    fix x assume x: "x \<in> insert t (occupants tab - {s})"
    show "x \<in> occupants (tab[p := Some t])"
    proof (cases "x = t")
      case False
      with x p(2) obtain i where "i < length tab" "tab ! i = Some x" "i \<noteq> p"
        unfolding occupants_nth by (metis DiffD1 DiffD2 insertE occupants_nth option.inject singletonI)
      then show ?thesis unfolding occupants_nth by (metis length_list_update nth_list_update_neq)
    qed (use p(1) in \<open>auto simp: occupants_nth\<close>)
  qed
qed

lemma lemire_repoint_correct:
  fixes slots :: "'w::len word list"
  assumes ok: "lemire_ok K slots rows live" and inj: "inj_on (\<lambda>s. index_key K (rows ! s)) live"
    and s: "s \<in> live" and t: "t \<notin> live" "t < length rows'" "index_key K (rows' ! t) = index_key K (rows ! s)"
    and rows': "\<And>x. x \<in> live \<Longrightarrow> x \<noteq> s \<Longrightarrow> x < length rows' \<and> index_key K (rows' ! x) = index_key K (rows ! x)"
    and fits: "length rows' \<le> 2 ^ LENGTH('w) - 1"
  shows "\<exists>slots'. lemire_repoint K slots (index_key K (rows ! s)) t rows = Some slots'
    \<and> length slots' = length slots \<and> lemire_ok K slots' rows' (insert t (live - {s}))"
proof -
  have inv: "probe_inv (lemire_home K (length slots) rows) (map decode slots)"
    and occ: "occupants (map decode slots) = live" and "finite live" and card: "card live < length slots"
    using ok by (auto simp: lemire_ok_def intro: finite_subset)
  obtain p where p: "lemire_position K slots (index_key K (rows ! s)) rows = Some (Some p)" "p < length slots"
    "decode (slots ! p) = Some s"
    using lemire_position_correct [OF ok, of "index_key K (rows ! s)"] s inj by (auto simp: inj_on_def)
  have "decode (of_nat t :: 'w word) = Some t" using t(2) fits by (intro decode_of_nat) linarith
  then have tab: "map decode (slots[p := of_nat t]) = (map decode slots)[p := Some t]" by (simp add: map_update)
  have "probe_inv (lemire_home K (length slots) rows') ((map decode slots)[p := Some t])"
    and occ': "occupants ((map decode slots)[p := Some t]) = insert t (live - {s})"
    using probe_inv_rename [OF inv, of p s t "lemire_home K (length slots) rows'"] p t rows' occ
    by (simp_all add: lemire_home_def)
  moreover have "card (insert t (live - {s})) = card live"
    using s t(1) \<open>finite live\<close> by (metis DiffD1 card_Suc_Diff1 card_insert_disjoint finite_Diff)
  ultimately have "lemire_ok K (slots[p := of_nat t]) rows' (insert t (live - {s}))"
    using card t(2) rows' fits unfolding lemire_ok_def tab by auto
  with p show ?thesis by (simp add: lemire_repoint_def)
qed

lemma lemire_clear_correct:
  assumes "lemire_ok K slots rows live" shows "lemire_ok K (lemire_clear slots) rows {}"
  using assms by (auto simp: lemire_clear_def lemire_ok_def)

section \<open>Properties of the index\<close>

text \<open>
  An index that holds the rows \<open>live\<close>, whose keys differ, answers every lookup with the row that
  has the key, and with nothing exactly when no live row has it. The probing loop always ends.
\<close>

theorem lemire_index_lookup:
  assumes "lemire_ok K slots rows live" and "inj_on (\<lambda>s. index_key K (rows ! s)) live"
  shows "(\<forall>s \<in> live. lemire_get K slots (index_key K (rows ! s)) rows = Some (Some s))
    \<and> (\<forall>k. k \<notin> (\<lambda>s. index_key K (rows ! s)) ` live \<longrightarrow> lemire_get K slots k rows = Some None)"
  using lemire_get_correct [OF assms] unfolding image_iff by metis

theorem lemire_index_lookup_witness:
  "\<exists>slots. lemire_insert \<lparr>index_key = (\<lambda>r::u64. r), lemire_key = (\<lambda>k. k)\<rparr> (lemire_new 4 :: u16 list) 0 [7] = Some slots
     \<and> lemire_get \<lparr>index_key = (\<lambda>r. r), lemire_key = (\<lambda>k. k)\<rparr> slots 7 [7] = Some (Some 0)
     \<and> lemire_get \<lparr>index_key = (\<lambda>r. r), lemire_key = (\<lambda>k. k)\<rparr> slots 8 [7] = Some None"
proof -
  let ?K = "\<lparr>index_key = (\<lambda>r::u64. r), lemire_key = (\<lambda>k. k)\<rparr>"
  have "lemire_ok ?K (lemire_new 4 :: u16 list) [7] {}" unfolding lemire_new_def by (rule lemire_ok_new) simp_all
  then obtain slots where slots: "lemire_insert ?K (lemire_new 4 :: u16 list) 0 [7] = Some slots"
    and ok: "lemire_ok ?K slots [7] {0}"
    using lemire_insert_correct [of ?K "lemire_new 4" "[7]" "{}" 0] by (auto simp: lemire_new_def)
  show ?thesis using slots lemire_index_lookup [OF ok] by auto
qed

text \<open>
  C33. Updates keep the index exact. Inserting a row adds it and only it, and removing a row, which
  moves later rows of the run back into the hole, removes it and only it. Both loops always end when
  the index has a free bucket.
\<close>

theorem lemire_index_updates:
  assumes "lemire_ok K slots rows live"
  shows "(s \<notin> live \<and> s < length rows \<and> card live + 1 < length slots \<longrightarrow>
      (\<exists>slots'. lemire_insert K slots s rows = Some slots' \<and> length slots' = length slots
         \<and> lemire_ok K slots' rows (insert s live)))
    \<and> (\<exists>slots'. lemire_remove_slot K slots t rows = Some slots' \<and> length slots' = length slots
         \<and> lemire_ok K slots' rows (live - {t}))"
  using lemire_insert_correct [OF assms, of s] lemire_remove_slot_correct [OF assms, of t] by blast

theorem lemire_index_updates_witness:
  "\<exists>slots'. lemire_insert \<lparr>index_key = (\<lambda>r::u64. r), lemire_key = (\<lambda>k. k)\<rparr> (lemire_new 4 :: u16 list) 0 [7] = Some slots'
     \<and> lemire_ok \<lparr>index_key = (\<lambda>r. r), lemire_key = (\<lambda>k. k)\<rparr> slots' [7] {0}"
proof -
  let ?K = "\<lparr>index_key = (\<lambda>r::u64. r), lemire_key = (\<lambda>k. k)\<rparr>"
  have "lemire_ok ?K (lemire_new 4 :: u16 list) [7] {}" unfolding lemire_new_def by (rule lemire_ok_new) simp_all
  from lemire_index_updates [OF this, of 0 0] show ?thesis by (auto simp: lemire_new_def)
qed

text \<open>
  The growable index holds its own load invariant: after a row has been pushed, inserting it
  leaves an index over all the rows with a free bucket, whether or not the buckets had to be doubled
  and every row placed again, and every row is then found under its key.
\<close>

theorem heap_lemire_insert_grows:
  assumes "lemire_ok K slots rows {..<n}" and "length rows = Suc n" and "length slots \<le> USIZE_MAX"
    and "inj_on (\<lambda>s. index_key K (rows ! s)) {..<Suc n}"
  shows "\<exists>slots'. heap_lemire_insert K slots n rows = Some slots' \<and> lemire_ok K slots' rows {..<Suc n}
    \<and> (\<forall>i < Suc n. heap_lemire_get K slots' (index_key K (rows ! i)) rows = Some (Some i))"
proof -
  obtain slots' where slots': "heap_lemire_insert K slots n rows = Some slots'" "lemire_ok K slots' rows {..<Suc n}"
    using heap_lemire_insert_correct [OF assms(1-3)] by blast
  with lemire_get_correct(1) [OF slots'(2) assms(4)] show ?thesis by (auto simp: heap_lemire_shared)
qed

theorem heap_lemire_insert_grows_witness:
  "\<exists>slots'. heap_lemire_insert \<lparr>index_key = (\<lambda>r::u64. r), lemire_key = (\<lambda>k. k)\<rparr> heap_lemire_default 0 [7] = Some slots'
     \<and> heap_lemire_get \<lparr>index_key = (\<lambda>r. r), lemire_key = (\<lambda>k. k)\<rparr> slots' 7 [7] = Some (Some 0)"
proof -
  let ?K = "\<lparr>index_key = (\<lambda>r::u64. r), lemire_key = (\<lambda>k. k)\<rparr>"
  have "lemire_ok ?K heap_lemire_default [7] {..<0}"
    unfolding heap_lemire_default_def lessThan_0 by (rule lemire_ok_new) (simp_all add: MIN_BUCKETS_def)
  from heap_lemire_insert_grows [OF this] show ?thesis
    by (auto simp: heap_lemire_default_def MIN_BUCKETS_def USIZE_MAX_def lessThan_Suc)
qed

end
