(* ===== verification/Dedup.thy ===== *)
theory Dedup
  imports Wire Lemire_Index
begin

text \<open>
  Packet deduplication, \<^verbatim>\<open>prns-core/src/routing/dedup/\<close>: the hash that identifies a packet while it is
  relayed, and the two-generation histories of seen hashes (a plain array, an array with a side
  index, and a growable one with its own packed index). SHA-256 is a parameter of the model.
\<close>

section \<open>Packet hashes\<close>

datatype packet_hash = PacketHash (packet_hash_bytes: "u8 list")

text \<open>\<open>sha256_chunks\<close> absorbs its chunks one after the other; \<open>sha\<close> is the digest of the bytes absorbed.\<close>

definition sha256_chunks :: "(u8 list \<Rightarrow> u8 list) \<Rightarrow> u8 list list \<Rightarrow> u8 list" where
  "sha256_chunks sha chunks = sha (foldl (@) [] chunks)"

definition packet_hash_of_wire_packet :: "(u8 list \<Rightarrow> u8 list) \<Rightarrow> u8 list \<Rightarrow> wire_error + packet_hash" where
  "packet_hash_of_wire_packet sha bytes =
     (case bytes of
        [] \<Rightarrow> Inl BufferTooShort
      | flags # _ \<Rightarrow>
          let after_hops = 2;
              hashable_from =
                (if flags AND 0x40 = 0x40 then after_hops + TRUNCATED_HASH_BYTE_LEN else after_hops)
          in if hashable_from \<le> length bytes
             then Inr (PacketHash (sha256_chunks sha [[flags AND 0x0F], drop hashable_from bytes]))
             else Inl BufferTooShort)"

definition packet_hash_of_fields ::
  "(u8 list \<Rightarrow> u8 list) \<Rightarrow> destination_type \<Rightarrow> packet_type \<Rightarrow> wire_address \<Rightarrow> wire_context \<Rightarrow> u8 list
   \<Rightarrow> packet_hash" where
  "packet_hash_of_fields sha dt pt addr ctx payload =
     (let hashed_flags = push_bit 2 (destination_type_as_u8 dt) OR packet_type_as_u8 pt
      in PacketHash (sha256_chunks sha
           [[hashed_flags], address_bytes addr, [wire_context_to_byte ctx], payload]))"

definition packet_hash_of_data_fields ::
  "(u8 list \<Rightarrow> u8 list) \<Rightarrow> destination_type \<Rightarrow> wire_address \<Rightarrow> wire_context \<Rightarrow> u8 list \<Rightarrow> packet_hash" where
  "packet_hash_of_data_fields sha dt addr ctx payload = packet_hash_of_fields sha dt Data addr ctx payload"

definition proof_destination :: "packet_hash \<Rightarrow> destination_hash" where
  "proof_destination h = DestinationHash (take TRUNCATED_HASH_BYTE_LEN (packet_hash_bytes h))"

section \<open>What a history promises\<close>

datatype remember_packet_outcome = AlreadyKnown | StoredFresh | StoredAfterRotation

text \<open>
  Two generations of hashes, newest last. Remembering into a full current generation makes it the
  previous one and forgets the oldest.
\<close>

fun remember_spec ::
  "nat \<Rightarrow> packet_hash \<Rightarrow> packet_hash list \<times> packet_hash list
   \<Rightarrow> remember_packet_outcome \<times> packet_hash list \<times> packet_hash list" where
  "remember_spec c h (cur, prev) =
     (if h \<in> set cur \<union> set prev then (AlreadyKnown, cur, prev)
      else if length cur < c then (StoredFresh, cur @ [h], prev)
      else (StoredAfterRotation, [h], cur))"

fun remember_all ::
  "(packet_hash \<Rightarrow> 's \<Rightarrow> (remember_packet_outcome \<times> 's) option) \<Rightarrow> packet_hash list \<Rightarrow> 's \<Rightarrow> 's option" where
  "remember_all remember [] s = Some s"
| "remember_all remember (h # hs) s =
     (case remember h s of None \<Rightarrow> None | Some (_, s) \<Rightarrow> remember_all remember hs s)"

locale packet_hash_history =
  fixes contains :: "'s \<Rightarrow> packet_hash \<Rightarrow> bool option"
    and remember :: "packet_hash \<Rightarrow> 's \<Rightarrow> (remember_packet_outcome \<times> 's) option"
    and generations :: "'s \<Rightarrow> packet_hash list \<times> packet_hash list"
    and valid :: "'s \<Rightarrow> bool"
    and c :: nat
  assumes capacity: "valid s \<Longrightarrow> 0 < c"
    and contains_spec: "valid s \<Longrightarrow>
      contains s h = Some (h \<in> set (fst (generations s)) \<union> set (snd (generations s)))"
    and remember_refines: "valid s \<Longrightarrow>
      \<exists>out s'. remember h s = Some (out, s') \<and> valid s'
        \<and> remember_spec c h (generations s) = (out, generations s')"
begin

lemma remember_all_valid:
  "valid s \<Longrightarrow> \<exists>s'. remember_all remember hs s = Some s' \<and> valid s'"
proof (induction hs arbitrary: s)
  case (Cons h hs)
  from remember_refines [OF Cons.prems, of h] Cons.IH show ?case by fastforce
qed simp

lemma remember_all_keeps:
  assumes "valid s" and "length hs + k \<le> c"
    and "h \<in> set (fst (generations s)) \<or> h \<in> set (snd (generations s)) \<and> length (fst (generations s)) \<le> k"
  shows "\<exists>s'. remember_all remember hs s = Some s' \<and> valid s' \<and> contains s' h = Some True"
  using assms
proof (induction hs arbitrary: s k)
  case Nil
  then show ?case by (auto simp: contains_spec)
next
  case (Cons x hs)
  obtain out s1 where s1: "remember x s = Some (out, s1)" "valid s1"
    "remember_spec c x (generations s) = (out, generations s1)"
    using remember_refines [OF Cons.prems(1), of x] by blast
  have "h \<in> set (fst (generations s1)) \<or> h \<in> set (snd (generations s1)) \<and> length (fst (generations s1)) \<le> k + 1"
    using s1(3) Cons.prems(2,3) capacity [OF Cons.prems(1)]
    by (cases "generations s"; cases "generations s1") (auto split: if_splits)
  moreover have "length hs + (k + 1) \<le> c" using Cons.prems(2) by simp
  ultimately have "\<exists>s'. remember_all remember hs s1 = Some s' \<and> valid s' \<and> contains s' h = Some True"
    using Cons.IH s1(2) by blast
  with s1(1) show ?case by simp
qed

lemma remembered_window:
  assumes "valid s" "remember h s = Some (out, s1)" "out \<noteq> AlreadyKnown" "length hs \<le> c"
  shows "\<exists>s2. remember_all remember hs s1 = Some s2 \<and> contains s2 h = Some True"
proof -
  obtain cur prev where g: "generations s = (cur, prev)" by fastforce
  have "valid s1" "remember_spec c h (cur, prev) = (out, generations s1)"
    using remember_refines [OF assms(1), of h] assms(2) g by auto
  moreover from this(2) assms(3) have "h \<in> set (fst (generations s1))"
    by (cases "generations s1") (auto split: if_splits)
  ultimately show ?thesis using remember_all_keeps [of s1 hs 0 h] assms(4) by auto
qed

lemma contains_iff_already_known:
  assumes "valid s" "remember h s = Some (out, s')"
  shows "contains s h = Some (out = AlreadyKnown) \<and> contains s' h = Some True"
proof -
  obtain cur prev where g: "generations s = (cur, prev)" by fastforce
  have "valid s'" "remember_spec c h (cur, prev) = (out, generations s')"
    using remember_refines [OF assms(1), of h] assms(2) g by auto
  then show ?thesis
    using contains_spec [OF assms(1), of h] contains_spec [of s' h] g
    by (cases "generations s'") (auto split: if_splits)
qed

end

section \<open>The plain array\<close>

record fixed_history =
  fph_capacity :: nat
  fph_current_len :: nat
  fph_previous_len :: nat
  fph_current :: "packet_hash list"
  fph_previous :: "packet_hash list"

definition PACKET_HASH_LEN :: nat where
  "PACKET_HASH_LEN = 32"

definition zero_hash :: packet_hash where
  "zero_hash = PacketHash (replicate PACKET_HASH_LEN 0)"

definition fixed_history_default :: "nat \<Rightarrow> fixed_history" where
  "fixed_history_default c =
     \<lparr>fph_capacity = c, fph_current_len = 0, fph_previous_len = 0,
      fph_current = replicate c zero_hash, fph_previous = replicate c zero_hash\<rparr>"

definition fixed_history_len :: "fixed_history \<Rightarrow> nat" where
  "fixed_history_len s = fph_current_len s + fph_previous_len s"

definition fixed_history_contains :: "fixed_history \<Rightarrow> packet_hash \<Rightarrow> bool" where
  "fixed_history_contains s h =
     (h \<in> set (take (fph_current_len s) (fph_current s)) \<or> h \<in> set (take (fph_previous_len s) (fph_previous s)))"

definition fixed_history_remember ::
  "packet_hash \<Rightarrow> fixed_history \<Rightarrow> remember_packet_outcome \<times> fixed_history" where
  "fixed_history_remember h s =
     (if fixed_history_contains s h then (AlreadyKnown, s)
      else if fph_current_len s < fph_capacity s then
        (StoredFresh,
         s\<lparr>fph_current := (fph_current s)[fph_current_len s := h], fph_current_len := fph_current_len s + 1\<rparr>)
      else
        let swapped = s\<lparr>fph_current := fph_previous s, fph_previous := fph_current s\<rparr>;
            moved = swapped\<lparr>fph_previous_len := fph_current_len swapped\<rparr>
        in (StoredAfterRotation,
            moved\<lparr>fph_current := (fph_current moved)[0 := h], fph_current_len := 1\<rparr>))"

definition fixed_history_ok :: "nat \<Rightarrow> fixed_history \<Rightarrow> bool" where
  "fixed_history_ok c s =
     (0 < c \<and> fph_capacity s = c \<and> length (fph_current s) = c \<and> length (fph_previous s) = c
      \<and> fph_current_len s \<le> c \<and> fph_previous_len s \<le> c)"

definition fixed_generations :: "fixed_history \<Rightarrow> packet_hash list \<times> packet_hash list" where
  "fixed_generations s =
     (take (fph_current_len s) (fph_current s), take (fph_previous_len s) (fph_previous s))"

lemma fixed_history_refines:
  assumes "fixed_history_ok c s"
  shows "fixed_history_ok c (snd (fixed_history_remember h s))
    \<and> remember_spec c h (fixed_generations s) =
      (fst (fixed_history_remember h s), fixed_generations (snd (fixed_history_remember h s)))"
proof -
  consider (known) "fixed_history_contains s h"
    | (fresh) "\<not> fixed_history_contains s h" "fph_current_len s < fph_capacity s"
    | (full) "\<not> fixed_history_contains s h" "fph_current_len s = c"
    using assms by (fastforce simp: fixed_history_ok_def)
  then show ?thesis
  proof cases
    case known
    with assms show ?thesis by (auto simp: fixed_history_remember_def fixed_history_contains_def fixed_generations_def)
  next
    case fresh
    with assms show ?thesis
      by (auto simp: fixed_history_remember_def fixed_history_contains_def fixed_generations_def
          fixed_history_ok_def take_Suc_conv_app_nth)
  next
    case full
    with assms obtain x xs where "fph_previous s = x # xs"
      by (cases "fph_previous s") (auto simp: fixed_history_ok_def)
    with full assms show ?thesis
      by (auto simp: fixed_history_remember_def fixed_history_contains_def fixed_generations_def
          fixed_history_ok_def Let_def)
  qed
qed

interpretation fixed: packet_hash_history
    "\<lambda>s h. Some (fixed_history_contains s h)" "\<lambda>h s. Some (fixed_history_remember h s)"
    fixed_generations "fixed_history_ok c" c
  for c
proof (unfold_locales, goal_cases)
  case (3 s h)
  from fixed_history_refines [OF this, of h] show ?case by (cases "fixed_history_remember h s") simp
qed (auto simp: fixed_history_ok_def fixed_history_contains_def fixed_generations_def)

section \<open>The indexed array\<close>

text \<open>A hash is its own index key; its first eight bytes pick the home bucket.\<close>

definition hash_rows :: "(packet_hash, packet_hash) index_row" where
  "hash_rows = \<lparr>index_key = (\<lambda>h. h), lemire_key = (\<lambda>h. lemire_key_from_prefix (packet_hash_bytes h))\<rparr>"

definition dedup_index_buckets :: "nat \<Rightarrow> nat" where
  "dedup_index_buckets generation_capacity = buckets_for_two_thirds_load generation_capacity"

record generation =
  gen_len :: nat
  gen_hashes :: "packet_hash list"
  gen_index :: "u16 list"

definition generation_default :: "nat \<Rightarrow> nat \<Rightarrow> generation" where
  "generation_default c buckets =
     \<lparr>gen_len = 0, gen_hashes = replicate c zero_hash, gen_index = lemire_new buckets\<rparr>"

definition generation_contains :: "generation \<Rightarrow> packet_hash \<Rightarrow> bool option" where
  "generation_contains g h = lemire_contains hash_rows (gen_index g) h (gen_hashes g)"

definition generation_insert :: "packet_hash \<Rightarrow> generation \<Rightarrow> generation option" where
  "generation_insert h g =
     (let slot = gen_len g; hashes = (gen_hashes g)[slot := h]
      in map_option (\<lambda>ix. g\<lparr>gen_hashes := hashes, gen_index := ix, gen_len := gen_len g + 1\<rparr>)
           (lemire_insert hash_rows (gen_index g) slot hashes))"

definition generation_clear :: "generation \<Rightarrow> generation" where
  "generation_clear g = g\<lparr>gen_len := 0, gen_index := lemire_clear (gen_index g)\<rparr>"

record indexed_history =
  fih_capacity :: nat
  fih_generations :: "generation list"
  fih_current :: nat

definition indexed_history_default :: "nat \<Rightarrow> nat \<Rightarrow> indexed_history" where
  "indexed_history_default c buckets =
     \<lparr>fih_capacity = c, fih_generations = [generation_default c buckets, generation_default c buckets],
      fih_current = 0\<rparr>"

definition indexed_history_len :: "indexed_history \<Rightarrow> nat" where
  "indexed_history_len s = gen_len (fih_generations s ! 0) + gen_len (fih_generations s ! 1)"

definition indexed_history_contains :: "indexed_history \<Rightarrow> packet_hash \<Rightarrow> bool option" where
  "indexed_history_contains s h =
     (case generation_contains (fih_generations s ! 0) h of
        None \<Rightarrow> None
      | Some True \<Rightarrow> Some True
      | Some False \<Rightarrow> generation_contains (fih_generations s ! 1) h)"

definition indexed_history_remember ::
  "packet_hash \<Rightarrow> indexed_history \<Rightarrow> (remember_packet_outcome \<times> indexed_history) option" where
  "indexed_history_remember h s =
     (case indexed_history_contains s h of
        None \<Rightarrow> None
      | Some True \<Rightarrow> Some (AlreadyKnown, s)
      | Some False \<Rightarrow>
          if gen_len (fih_generations s ! fih_current s) < fih_capacity s then
            map_option
              (\<lambda>g. (StoredFresh, s\<lparr>fih_generations := (fih_generations s)[fih_current s := g]\<rparr>))
              (generation_insert h (fih_generations s ! fih_current s))
          else
            let current = fih_current s XOR 1
            in map_option
                 (\<lambda>g. (StoredAfterRotation,
                       s\<lparr>fih_current := current, fih_generations := (fih_generations s)[current := g]\<rparr>))
                 (generation_insert h (generation_clear (fih_generations s ! current))))"

text \<open>
  A generation holds its first \<open>gen_len\<close> hashes, each once, and its index holds exactly those rows.
  The capacity stays below the bucket width and the buckets keep the headroom the constructor's
  assertions ask for.
\<close>

definition generation_ok :: "nat \<Rightarrow> nat \<Rightarrow> generation \<Rightarrow> bool" where
  "generation_ok c buckets g =
     (length (gen_hashes g) = c \<and> gen_len g \<le> c \<and> length (gen_index g) = buckets
      \<and> lemire_ok hash_rows (gen_index g) (gen_hashes g) {..<gen_len g})"

definition generation_list :: "generation \<Rightarrow> packet_hash list" where
  "generation_list g = take (gen_len g) (gen_hashes g)"

lemma generation_contains_correct:
  assumes "generation_ok c buckets g"
  shows "generation_contains g h = Some (h \<in> set (generation_list g))"
  using assms lemire_contains_correct [of hash_rows "gen_index g" "gen_hashes g" "{..<gen_len g}" h]
  by (auto simp: generation_contains_def generation_ok_def generation_list_def hash_rows_def in_set_conv_nth)

lemma generation_insert_correct:
  assumes ok: "generation_ok c buckets g" and room: "gen_len g < c" and buckets: "c < buckets"
  shows "\<exists>g'. generation_insert h g = Some g' \<and> generation_ok c buckets g'
    \<and> generation_list g' = generation_list g @ [h]"
proof -
  let ?hashes = "(gen_hashes g)[gen_len g := h]"
  have ix: "lemire_ok hash_rows (gen_index g) (gen_hashes g) {..<gen_len g}" and len: "length (gen_hashes g) = c"
    using ok by (simp_all add: generation_ok_def)
  have "lemire_ok hash_rows (gen_index g) ?hashes {..<gen_len g}"
    by (rule lemire_ok_rows [OF ix]) (use room len lemire_ok_fits [OF ix] in simp_all)
  then have "\<exists>ix. lemire_insert hash_rows (gen_index g) (gen_len g) ?hashes = Some ix
    \<and> length ix = length (gen_index g) \<and> lemire_ok hash_rows ix ?hashes (insert (gen_len g) {..<gen_len g})"
    using ok room buckets by (intro lemire_insert_correct) (auto simp: generation_ok_def)
  then show ?thesis
    using ok room
    by (auto simp: generation_insert_def generation_ok_def generation_list_def Let_def lessThan_Suc
        take_Suc_conv_app_nth)
qed

lemma generation_clear_correct:
  "generation_ok c buckets g \<Longrightarrow>
     generation_ok c buckets (generation_clear g) \<and> generation_list (generation_clear g) = []"
  by (auto simp: generation_ok_def generation_clear_def generation_list_def lemire_clear_def
      dest: lemire_clear_correct)

definition indexed_history_ok :: "nat \<Rightarrow> nat \<Rightarrow> indexed_history \<Rightarrow> bool" where
  "indexed_history_ok c buckets s =
     (0 < c \<and> c < buckets \<and> fih_capacity s = c \<and> length (fih_generations s) = 2 \<and> fih_current s < 2
      \<and> (\<forall>g \<in> set (fih_generations s). generation_ok c buckets g))"

definition indexed_generations :: "indexed_history \<Rightarrow> packet_hash list \<times> packet_hash list" where
  "indexed_generations s =
     (generation_list (fih_generations s ! fih_current s),
      generation_list (fih_generations s ! (fih_current s XOR 1)))"

lemma indexed_history_shape:
  assumes "indexed_history_ok c buckets s"
  obtains g0 g1 where "s = \<lparr>fih_capacity = c, fih_generations = [g0, g1], fih_current = 0\<rparr>"
      "generation_ok c buckets g0" "generation_ok c buckets g1"
    | g0 g1 where "s = \<lparr>fih_capacity = c, fih_generations = [g0, g1], fih_current = 1\<rparr>"
      "generation_ok c buckets g0" "generation_ok c buckets g1"
proof -
  obtain g0 g1 where g: "fih_generations s = [g0, g1]"
    using assms by (auto simp: indexed_history_ok_def length_Suc_conv numeral_2_eq_2)
  have "fih_current s = 0 \<or> fih_current s = 1" using assms by (auto simp: indexed_history_ok_def)
  then show ?thesis
    using assms g that by (cases s) (auto simp: indexed_history_ok_def)
qed

lemma indexed_history_contains_correct:
  assumes "indexed_history_ok c buckets s"
  shows "indexed_history_contains s h =
    Some (h \<in> set (fst (indexed_generations s)) \<union> set (snd (indexed_generations s)))"
  using assms
  by (elim indexed_history_shape)
    (auto simp: indexed_history_contains_def indexed_generations_def generation_contains_correct split: bool.splits)

lemma indexed_history_refines:
  assumes ok: "indexed_history_ok c buckets s"
  shows "\<exists>out s'. indexed_history_remember h s = Some (out, s') \<and> indexed_history_ok c buckets s'
    \<and> remember_spec c h (indexed_generations s) = (out, indexed_generations s')"
proof -
  have c: "0 < c" "c < buckets" using ok by (simp_all add: indexed_history_ok_def)
  have insert: "gen_len g < c \<Longrightarrow> \<exists>g'. generation_insert h g = Some g' \<and> generation_ok c buckets g'
    \<and> generation_list g' = generation_list g @ [h]"
    and restart: "\<exists>g'. generation_insert h (generation_clear g) = Some g' \<and> generation_ok c buckets g'
    \<and> generation_list g' = [h]"
    and len: "length (generation_list g) = gen_len g" if "generation_ok c buckets g" for g
    using generation_insert_correct [OF that] c generation_insert_correct [of c buckets "generation_clear g"]
      generation_clear_correct [OF that] that
    by (auto simp: generation_clear_def generation_list_def generation_ok_def)
  note has = indexed_history_contains_correct [OF ok, of h]
  from ok show ?thesis
  proof (cases rule: indexed_history_shape)
    case (1 g0 g1)
    with has ok insert [of g0] restart [of g1] len [of g0] c show ?thesis
      by (auto simp: indexed_history_remember_def indexed_generations_def indexed_history_ok_def Let_def)
  next
    case (2 g0 g1)
    with has ok insert [of g1] restart [of g0] len [of g1] c show ?thesis
      by (auto simp: indexed_history_remember_def indexed_generations_def indexed_history_ok_def Let_def)
  qed
qed

lemma indexed_history_default_ok:
  assumes "0 < c" "c < 2 ^ 16 - 1" "dedup_index_buckets c \<le> buckets" "buckets \<le> USIZE_MAX"
  shows "indexed_history_ok c buckets (indexed_history_default c buckets)"
proof -
  have "c < buckets"
    using assms by (auto simp: dedup_index_buckets_def buckets_for_two_thirds_load_def div_ceil_def USIZE_MAX_def)
  then show ?thesis
    using assms lemire_ok_new [of buckets "replicate c zero_hash", where 'w = 16, of hash_rows]
    by (simp add: indexed_history_ok_def indexed_history_default_def generation_ok_def generation_default_def
        lemire_new_def)
qed

interpretation indexed: packet_hash_history
    indexed_history_contains indexed_history_remember indexed_generations "indexed_history_ok c buckets" c
  for c buckets
proof (unfold_locales, goal_cases)
  case (1 s)
  then show ?case by (simp add: indexed_history_ok_def)
next
  case (2 s h)
  then show ?case by (rule indexed_history_contains_correct)
next
  case (3 s h)
  then show ?case by (rule indexed_history_refines)
qed

end
