(* ===== verification/Dedup_Heap.thy ===== *)
theory Dedup_Heap
  imports Dedup
begin

text \<open>
  The growable history, \<^verbatim>\<open>prns-core/src/routing/dedup/impls/heap.rs\<close> and
  \<^verbatim>\<open>heap_index.rs\<close>: its index packs a 13-bit fingerprint of the hash and the row number plus one into
  one 32-bit bucket, and doubles its buckets when more than two thirds are in use.
\<close>

section \<open>Packed buckets\<close>

definition PACKED_EMPTY :: u32 where "PACKED_EMPTY = 0"
definition SLOT_BITS :: nat where "SLOT_BITS = 19"
definition SLOT_MASK :: u32 where "SLOT_MASK = push_bit SLOT_BITS 1 - 1"
definition FINGERPRINT_MASK :: u16 where "FINGERPRINT_MASK = push_bit (32 - SLOT_BITS) 1 - 1"

definition MAX_ROWS :: nat where "MAX_ROWS = unat SLOT_MASK"

definition packed_from_parts :: "u16 \<Rightarrow> nat \<Rightarrow> u32" where
  "packed_from_parts fp slot = push_bit SLOT_BITS (ucast fp) OR (of_nat slot + 1)"

definition packed_slot :: "u32 \<Rightarrow> nat option" where
  "packed_slot b = (let encoded = b AND SLOT_MASK in if encoded = 0 then None else Some (unat encoded - 1))"

definition packed_matches :: "u32 \<Rightarrow> u16 \<Rightarrow> bool" where
  "packed_matches b fp = ((ucast (drop_bit SLOT_BITS b) :: u16) = fp)"

definition fingerprint :: "packet_hash \<Rightarrow> u16" where
  "fingerprint h =
     (push_bit 8 (ucast (packet_hash_bytes h ! 8)) OR ucast (packet_hash_bytes h ! 9)) AND FINGERPRINT_MASK"

definition packed_occupied :: "packet_hash \<Rightarrow> nat \<Rightarrow> u32" where
  "packed_occupied h slot = packed_from_parts (fingerprint h) slot"

section \<open>The index\<close>

datatype probe_position = Occupied | Vacant nat

definition heap_index_default :: "u32 list" where
  "heap_index_default = replicate MIN_BUCKETS PACKED_EMPTY"

definition heap_index_bucket :: "u32 list \<Rightarrow> packet_hash \<Rightarrow> nat" where
  "heap_index_bucket buckets h =
     (unat (lemire_key_from_prefix (packet_hash_bytes h)) * length buckets) div 2 ^ 64"

definition next_position :: "nat \<Rightarrow> nat \<Rightarrow> nat" where
  "next_position n pos = (if pos + 1 = n then 0 else pos + 1)"

definition heap_index_probe ::
  "u32 list \<Rightarrow> packet_hash \<Rightarrow> packet_hash list \<Rightarrow> probe_position option" where
  "heap_index_probe buckets target rows =
     probe_loop
       (\<lambda>pos. case packed_slot (buckets ! pos) of
          None \<Rightarrow> Some (Vacant pos)
        | Some slot \<Rightarrow>
            if packed_matches (buckets ! pos) (fingerprint target) \<and> rows ! slot = target
            then Some Occupied else None)
       (next_position (length buckets)) (heap_index_bucket buckets target)"

definition heap_index_contains :: "u32 list \<Rightarrow> packet_hash \<Rightarrow> packet_hash list \<Rightarrow> bool option" where
  "heap_index_contains buckets target rows =
     map_option (\<lambda>p. p = Occupied) (heap_index_probe buckets target rows)"

definition heap_index_place :: "u32 list \<Rightarrow> nat \<Rightarrow> packet_hash list \<Rightarrow> u32 list option" where
  "heap_index_place buckets slot rows =
     map_option (\<lambda>pos. buckets[pos := packed_occupied (rows ! slot) slot])
       (probe_loop (\<lambda>pos. if buckets ! pos \<noteq> PACKED_EMPTY then None else Some pos)
          (next_position (length buckets)) (heap_index_bucket buckets (rows ! slot)))"

primrec heap_index_place_all :: "nat list \<Rightarrow> u32 list \<Rightarrow> packet_hash list \<Rightarrow> u32 list option" where
  "heap_index_place_all [] buckets rows = Some buckets"
| "heap_index_place_all (slot # rest) buckets rows =
     (case heap_index_place buckets slot rows of
        None \<Rightarrow> None
      | Some buckets \<Rightarrow> heap_index_place_all rest buckets rows)"

definition heap_index_rebuild :: "u32 list \<Rightarrow> packet_hash list \<Rightarrow> u32 list option" where
  "heap_index_rebuild buckets rows =
     heap_index_place_all [0..<length rows]
       (replicate (grow_buckets (length rows) (max (length buckets) MIN_BUCKETS)) PACKED_EMPTY) rows"

definition heap_index_insert :: "u32 list \<Rightarrow> nat \<Rightarrow> packet_hash list \<Rightarrow> u32 list option" where
  "heap_index_insert buckets slot rows =
     (if exceeds_two_thirds_load (length rows) (length buckets) then heap_index_rebuild buckets rows
      else heap_index_place buckets slot rows)"

definition heap_index_clear :: "u32 list \<Rightarrow> u32 list" where
  "heap_index_clear buckets = replicate (length buckets) PACKED_EMPTY"

text \<open>\<open>HeapPacketHashIndexVacantEntry::insert\<close>: the position and fingerprint the probe found are reused.\<close>

definition vacant_insert :: "u32 list \<Rightarrow> nat \<Rightarrow> u16 \<Rightarrow> nat \<Rightarrow> packet_hash list \<Rightarrow> u32 list option" where
  "vacant_insert buckets pos fp slot rows =
     (if exceeds_two_thirds_load (length rows) (length buckets) then heap_index_rebuild buckets rows
      else Some (buckets[pos := packed_from_parts fp slot]))"

section \<open>The history\<close>

record heap_generation =
  hg_hashes :: "packet_hash list"
  hg_index :: "u32 list"

definition heap_generation_default :: heap_generation where
  "heap_generation_default = \<lparr>hg_hashes = [], hg_index = heap_index_default\<rparr>"

definition heap_generation_contains :: "heap_generation \<Rightarrow> packet_hash \<Rightarrow> bool option" where
  "heap_generation_contains g h = heap_index_contains (hg_index g) h (hg_hashes g)"

definition heap_generation_insert :: "packet_hash \<Rightarrow> heap_generation \<Rightarrow> heap_generation option" where
  "heap_generation_insert h g =
     (let hashes = hg_hashes g @ [h]
      in map_option (\<lambda>ix. \<lparr>hg_hashes = hashes, hg_index = ix\<rparr>)
           (heap_index_insert (hg_index g) (length hashes - 1) hashes))"

definition heap_generation_clear :: "heap_generation \<Rightarrow> heap_generation" where
  "heap_generation_clear g = \<lparr>hg_hashes = [], hg_index = heap_index_clear (hg_index g)\<rparr>"

record heap_history =
  hh_current :: heap_generation
  hh_previous :: heap_generation

definition heap_history_default :: heap_history where
  "heap_history_default = \<lparr>hh_current = heap_generation_default, hh_previous = heap_generation_default\<rparr>"

definition RNS_GENERATION_CAPACITY :: nat where
  "RNS_GENERATION_CAPACITY = 500000"

definition heap_history_len :: "heap_history \<Rightarrow> nat" where
  "heap_history_len s = length (hg_hashes (hh_current s)) + length (hg_hashes (hh_previous s))"

definition heap_history_contains :: "heap_history \<Rightarrow> packet_hash \<Rightarrow> bool option" where
  "heap_history_contains s h =
     (case heap_generation_contains (hh_current s) h of
        None \<Rightarrow> None
      | Some True \<Rightarrow> Some True
      | Some False \<Rightarrow> heap_generation_contains (hh_previous s) h)"

definition heap_history_rotate ::
  "packet_hash \<Rightarrow> heap_history \<Rightarrow> (remember_packet_outcome \<times> heap_history) option" where
  "heap_history_rotate h s =
     (let swapped = \<lparr>hh_current = hh_previous s, hh_previous = hh_current s\<rparr>
      in map_option (\<lambda>g. (StoredAfterRotation, swapped\<lparr>hh_current := g\<rparr>))
           (heap_generation_insert h (heap_generation_clear (hh_current swapped))))"

definition heap_history_remember ::
  "packet_hash \<Rightarrow> heap_history \<Rightarrow> (remember_packet_outcome \<times> heap_history) option" where
  "heap_history_remember h s =
     (let current = hh_current s; current_len = length (hg_hashes current)
      in case heap_index_probe (hg_index current) h (hg_hashes current) of
           None \<Rightarrow> None
         | Some Occupied \<Rightarrow> Some (AlreadyKnown, s)
         | Some (Vacant pos) \<Rightarrow>
             (case heap_generation_contains (hh_previous s) h of
                None \<Rightarrow> None
              | Some True \<Rightarrow> Some (AlreadyKnown, s)
              | Some False \<Rightarrow>
                  if current_len < RNS_GENERATION_CAPACITY then
                    (let hashes = hg_hashes current @ [h]
                     in map_option
                          (\<lambda>ix. (StoredFresh, s\<lparr>hh_current := \<lparr>hg_hashes = hashes, hg_index = ix\<rparr>\<rparr>))
                          (vacant_insert (hg_index current) pos (fingerprint h) current_len hashes))
                  else heap_history_rotate h s))"

section \<open>Packing and unpacking a bucket\<close>

lemma SLOT_MASK_mask: "SLOT_MASK = mask 19"
  by (simp add: SLOT_MASK_def SLOT_BITS_def mask_eq_exp_minus_1 push_bit_eq_mult)

lemma MAX_ROWS_eq: "MAX_ROWS = 2 ^ 19 - 1"
  by (simp add: MAX_ROWS_def SLOT_MASK_def SLOT_BITS_def push_bit_eq_mult)

lemma encoded_slot:
  assumes "s < MAX_ROWS"
  shows "unat (of_nat s + 1 :: u32) = s + 1" and "take_bit 19 (of_nat s + 1 :: u32) = of_nat s + 1"
proof -
  have "(of_nat s + 1 :: u32) = of_nat (s + 1)" by simp
  moreover have "unat (of_nat (s + 1) :: u32) = s + 1"
    using assms by (simp add: unat_of_nat take_bit_nat_eq_self MAX_ROWS_eq del: of_nat_add of_nat_Suc)
  ultimately show u: "unat (of_nat s + 1 :: u32) = s + 1" by presburger
  show "take_bit 19 (of_nat s + 1 :: u32) = of_nat s + 1"
    using assms by (simp add: word_unat_eq_iff u unsigned_take_bit_eq take_bit_nat_eq_self MAX_ROWS_eq)
qed

lemma packed_slot_from_parts:
  assumes "s < MAX_ROWS" shows "packed_slot (packed_from_parts fp s) = Some s"
proof -
  have "packed_from_parts fp s AND SLOT_MASK = of_nat s + 1"
    using encoded_slot(2) [OF assms]
    by (simp add: packed_from_parts_def SLOT_MASK_mask SLOT_BITS_def take_bit_eq_mask [symmetric]
        take_bit_or take_bit_push_bit)
  moreover have "(of_nat s + 1 :: u32) \<noteq> 0" using encoded_slot(1) [OF assms] by (metis add_is_0 one_neq_zero unsigned_0)
  ultimately show ?thesis using encoded_slot(1) [OF assms] by (simp add: packed_slot_def)
qed

lemma fingerprint_small: "take_bit 13 (fingerprint h) = fingerprint h"
proof -
  have "FINGERPRINT_MASK = mask 13"
    by (simp add: FINGERPRINT_MASK_def SLOT_BITS_def mask_eq_exp_minus_1 push_bit_eq_mult)
  then show ?thesis by (simp add: fingerprint_def take_bit_eq_mask)
qed

lemma packed_matches_from_parts:
  assumes "s < MAX_ROWS" shows "packed_matches (packed_from_parts (fingerprint h) s) fp = (fingerprint h = fp)"
proof -
  have fp_bits: "bit (fingerprint h) i \<Longrightarrow> i < 13" for i
    using fingerprint_small [of h] by (metis bit_take_bit_iff)
  have e_bits: "\<not> bit (of_nat s + 1 :: u32) (19 + i)" for i
    using encoded_slot(2) [OF assms] by (metis bit_take_bit_iff not_add_less1)
  have "(ucast (drop_bit 19 (packed_from_parts (fingerprint h) s)) :: u16) = fingerprint h"
    by (rule bit_word_eqI)
      (use e_bits fp_bits in \<open>auto simp: packed_from_parts_def SLOT_BITS_def bit_simps\<close>)
  then show ?thesis by (simp add: packed_matches_def SLOT_BITS_def)
qed
section \<open>Invariant of the index\<close>

definition hash_home :: "nat \<Rightarrow> packet_hash list \<Rightarrow> nat \<Rightarrow> nat" where
  "hash_home n rows s = lemire_bucket n (lemire_key_from_prefix (packet_hash_bytes (rows ! s)))"

text \<open>A bucket is empty, or carries a live row and the fingerprint of its hash.\<close>

definition bucket_ok :: "packet_hash list \<Rightarrow> u32 \<Rightarrow> bool" where
  "bucket_ok rows b =
     (case packed_slot b of
        None \<Rightarrow> b = PACKED_EMPTY
      | Some s \<Rightarrow> packed_matches b (fingerprint (rows ! s)))"

definition heap_index_ok :: "u32 list \<Rightarrow> packet_hash list \<Rightarrow> nat set \<Rightarrow> bool" where
  "heap_index_ok buckets rows live =
     (probe_inv (hash_home (length buckets) rows) (map packed_slot buckets)
      \<and> occupants (map packed_slot buckets) = live \<and> live \<subseteq> {..<length rows}
      \<and> card live < length buckets \<and> length rows \<le> MAX_ROWS \<and> length buckets \<le> USIZE_MAX
      \<and> (\<forall>b \<in> set buckets. bucket_ok rows b))"

lemma ring_step_next_position: "ring_step n (next_position n)"
  by (auto simp: ring_step_def ring_next_def next_position_def mod_if)

lemma packed_slot_empty [simp]: "packed_slot PACKED_EMPTY = None"
  by (simp add: packed_slot_def PACKED_EMPTY_def)

lemma heap_index_bucket_home: "heap_index_bucket buckets h = lemire_bucket (length buckets) (lemire_key_from_prefix (packet_hash_bytes h))"
  by (simp add: heap_index_bucket_def lemire_bucket_def)

lemma heap_index_ok_new:
  "0 < n \<Longrightarrow> n \<le> USIZE_MAX \<Longrightarrow> length rows \<le> MAX_ROWS \<Longrightarrow> heap_index_ok (replicate n PACKED_EMPTY) rows {}"
  by (simp add: heap_index_ok_def bucket_ok_def)

lemma heap_index_ok_room: "heap_index_ok buckets rows live \<Longrightarrow> None \<in> set (map packed_slot buckets)"
  using full_table_card [of "hash_home (length buckets) rows" "map packed_slot buckets"]
  by (auto simp: heap_index_ok_def)

lemma heap_index_ok_home: "heap_index_ok buckets rows live \<Longrightarrow> hash_home (length buckets) rows' s < length buckets"
  by (auto simp: heap_index_ok_def hash_home_def intro: lemire_bucket_less)

text \<open>Probing for a hash tells whether a live row holds it and otherwise where it would go.\<close>

lemma heap_index_probe_correct:
  assumes ok: "heap_index_ok buckets rows live"
  shows "(\<exists>s \<in> live. rows ! s = h) \<and> heap_index_probe buckets h rows = Some Occupied
    \<or> (\<forall>s \<in> live. rows ! s \<noteq> h) \<and>
      (\<exists>p < length buckets. packed_slot (buckets ! p) = None \<and> heap_index_probe buckets h rows = Some (Vacant p) \<and>
         (\<forall>q < length buckets. gap (length buckets) (heap_index_bucket buckets h) q
            < gap (length buckets) (heap_index_bucket buckets h) p \<longrightarrow> packed_slot (buckets ! q) \<noteq> None))"
proof -
  let ?tab = "map packed_slot buckets" and ?h = "heap_index_bucket buckets h"
  have occ: "occupants ?tab = live" and inv: "probe_inv (hash_home (length buckets) rows) ?tab"
    and bok: "\<forall>b \<in> set buckets. bucket_ok rows b" using ok by (simp_all add: heap_index_ok_def)
  have ring: "ring_step (length ?tab) (next_position (length buckets))"
    by (simp add: ring_step_next_position)
  have h: "?h < length ?tab"
    using heap_index_ok_home [OF ok, of "[h]" 0] by (simp add: hash_home_def heap_index_bucket_home)
  have body: "(case packed_slot (buckets ! pos) of
          None \<Rightarrow> Some (Vacant pos)
        | Some slot \<Rightarrow>
            if packed_matches (buckets ! pos) (fingerprint h) \<and> rows ! slot = h then Some Occupied else None) =
      (case ?tab ! pos of None \<Rightarrow> Some (Vacant pos) | Some s \<Rightarrow> if rows ! s = h then Some ((\<lambda>_. Occupied) pos) else None)"
    if "pos < length ?tab" for pos
    using that bok [rule_format, OF nth_mem, of pos] by (auto simp: bucket_ok_def split: option.splits)
  have home: "hash_home (length buckets) rows s = ?h" if "rows ! s = h" for s
    using that by (simp add: hash_home_def heap_index_bucket_home)
  have "(\<exists>p s. p < length ?tab \<and> ?tab ! p = Some s \<and> rows ! s = h \<and> heap_index_probe buckets h rows = Some Occupied)
     \<or> (\<forall>s \<in> occupants ?tab. \<not> rows ! s = h) \<and>
        (\<exists>p. p < length ?tab \<and> ?tab ! p = None \<and> heap_index_probe buckets h rows = Some (Vacant p) \<and>
          (\<forall>q < length ?tab. gap (length ?tab) ?h q < gap (length ?tab) ?h p \<longrightarrow> ?tab ! q \<noteq> None))"
    unfolding heap_index_probe_def
    using probe_search [OF ring inv heap_index_ok_room [OF ok] h home body] by blast
  moreover have "s \<in> live" if "p < length buckets" "packed_slot (buckets ! p) = Some s" for p s
    using that by (auto simp: occ [symmetric] occupants_nth)
  ultimately show ?thesis using occ by auto
qed

lemma heap_index_put:
  assumes ok: "heap_index_ok buckets rows live" and s: "s \<notin> live" "s < length rows"
    and room: "card live + 1 < length buckets"
    and p: "p < length buckets" "packed_slot (buckets ! p) = None"
      "\<forall>q < length buckets. gap (length buckets) (hash_home (length buckets) rows s) q
         < gap (length buckets) (hash_home (length buckets) rows s) p \<longrightarrow> packed_slot (buckets ! q) \<noteq> None"
  shows "heap_index_ok (buckets[p := packed_from_parts (fingerprint (rows ! s)) s]) rows (insert s live)"
proof -
  let ?tab = "map packed_slot buckets" and ?b = "packed_from_parts (fingerprint (rows ! s)) s"
  have occ: "occupants ?tab = live" and inv: "probe_inv (hash_home (length buckets) rows) ?tab"
    and live: "live \<subseteq> {..<length rows}" and fits: "length rows \<le> MAX_ROWS"
    using ok by (simp_all add: heap_index_ok_def)
  have small: "s < MAX_ROWS" using s fits by simp
  have tab: "map packed_slot (buckets[p := ?b]) = ?tab[p := Some s]"
    by (simp add: map_update packed_slot_from_parts [OF small])
  have "probe_inv (hash_home (length buckets) rows) (?tab[p := Some s])"
    using inv p s occ heap_index_ok_home [OF ok] by (intro probe_inv_place) auto
  moreover have "occupants (?tab[p := Some s]) = insert s live" using p occ by (simp add: occupants_place)
  moreover have "card (insert s live) < length buckets" using room s finite_subset [OF live] by simp
  moreover have "\<forall>b \<in> set (buckets[p := ?b]). bucket_ok rows b"
    using ok set_update_subset_insert [of buckets p ?b]
    by (auto simp: heap_index_ok_def bucket_ok_def packed_slot_from_parts [OF small] packed_matches_from_parts [OF small])
  ultimately show ?thesis using ok s live unfolding heap_index_ok_def tab by simp
qed

lemma heap_index_place_correct:
  assumes ok: "heap_index_ok buckets rows live" and s: "s \<notin> live" "s < length rows"
    and room: "card live + 1 < length buckets"
  shows "\<exists>buckets'. heap_index_place buckets s rows = Some buckets' \<and> length buckets' = length buckets
    \<and> heap_index_ok buckets' rows (insert s live)"
proof -
  let ?tab = "map packed_slot buckets" and ?h = "hash_home (length buckets) rows s"
  have body: "(\<lambda>pos. if buckets ! pos \<noteq> PACKED_EMPTY then None else Some pos) p = (if ?tab ! p = None then Some p else None)"
    if "p < length ?tab" for p
  proof -
    have "bucket_ok rows (buckets ! p)" using ok that by (simp add: heap_index_ok_def)
    with that show ?thesis by (auto simp: bucket_ok_def split: option.splits)
  qed
  have ring: "ring_step (length ?tab) (next_position (length buckets))" by (simp add: ring_step_next_position)
  have h: "?h < length ?tab" using heap_index_ok_home [OF ok] by simp
  obtain p where "probe_loop (\<lambda>pos. if buckets ! pos \<noteq> PACKED_EMPTY then None else Some pos)
      (next_position (length buckets)) ?h = Some p" and p: "p < length ?tab" "?tab ! p = None"
    "\<forall>q < length ?tab. gap (length ?tab) ?h q < gap (length ?tab) ?h p \<longrightarrow> ?tab ! q \<noteq> None"
    using probe_free [OF ring heap_index_ok_room [OF ok] h body] by blast
  then show ?thesis
    using heap_index_put [OF ok s room, of p]
    by (auto simp: heap_index_place_def packed_occupied_def hash_home_def heap_index_bucket_home)
qed

lemma heap_index_place_all_correct:
  assumes "heap_index_ok buckets rows live" and "distinct ss" and "set ss \<inter> live = {}"
    and "set ss \<subseteq> {..<length rows}" and "card live + length ss < length buckets"
  shows "\<exists>buckets'. heap_index_place_all ss buckets rows = Some buckets' \<and> length buckets' = length buckets
    \<and> heap_index_ok buckets' rows (live \<union> set ss)"
  using assms
proof (induction ss arbitrary: buckets live)
  case (Cons s ss)
  have "finite live" using Cons.prems(1) by (auto simp: heap_index_ok_def intro: finite_subset)
  then have card: "card (insert s live) = card live + 1" using Cons.prems(3) by auto
  obtain b1 where ins: "heap_index_place buckets s rows = Some b1" "length b1 = length buckets"
    "heap_index_ok b1 rows (insert s live)"
    using heap_index_place_correct [OF Cons.prems(1), of s] Cons.prems by auto
  then have "\<exists>buckets'. heap_index_place_all ss b1 rows = Some buckets' \<and> length buckets' = length b1
    \<and> heap_index_ok buckets' rows (insert s live \<union> set ss)"
    using Cons.prems card by (intro Cons.IH) auto
  with ins show ?case by (simp add: Un_commute)
qed simp

lemma heap_index_rebuild_correct:
  assumes "length rows \<le> MAX_ROWS" and "length buckets \<le> USIZE_MAX"
  shows "\<exists>buckets'. heap_index_rebuild buckets rows = Some buckets' \<and> heap_index_ok buckets' rows {..<length rows}"
proof -
  let ?m = "max (length buckets) MIN_BUCKETS"
  let ?b = "grow_buckets (length rows) ?m"
  have m: "0 < ?m" "?m \<le> USIZE_MAX" using assms(2) by (simp_all add: MIN_BUCKETS_def USIZE_MAX_def)
  have "length rows \<le> 2 ^ 32" using assms(1) by (simp add: MAX_ROWS_eq)
  then have load: "\<not> exceeds_two_thirds_load (length rows) ?b" and "0 < ?b"
    using grow_buckets_enough [of "length rows" ?m] m by auto
  then have "length rows < ?b" by (rule exceeds_two_thirds_load_less)
  moreover have "heap_index_ok (replicate ?b PACKED_EMPTY) rows {}"
    using \<open>0 < ?b\<close> assms(1) grow_buckets_le [OF m(2)] by (intro heap_index_ok_new) simp_all
  ultimately show ?thesis
    using heap_index_place_all_correct [of "replicate ?b PACKED_EMPTY" rows "{}" "[0..<length rows]"]
    by (auto simp: heap_index_rebuild_def atLeast0LessThan)
qed

lemma heap_index_ok_push:
  assumes "heap_index_ok buckets rows {..<length rows}" and "length rows < MAX_ROWS"
  shows "heap_index_ok buckets (rows @ [h]) {..<length rows}"
proof -
  have inv: "probe_inv (hash_home (length buckets) rows) (map packed_slot buckets)"
    and occ: "occupants (map packed_slot buckets) = {..<length rows}"
    and bok: "\<forall>b \<in> set buckets. bucket_ok rows b" using assms(1) by (simp_all add: heap_index_ok_def)
  have same: "hash_home (length buckets) (rows @ [h]) s = hash_home (length buckets) rows s"
    if "i < length (map packed_slot buckets)" "map packed_slot buckets ! i = Some s" for i s
  proof -
    have "s \<in> occupants (map packed_slot buckets)" unfolding occupants_nth using that by blast
    then show ?thesis unfolding occ by (simp add: hash_home_def nth_append)
  qed
  have "probe_inv (hash_home (length buckets) (rows @ [h])) (map packed_slot buckets)"
    by (rule probe_inv_butI)
      (use probe_inv_home [OF inv] probe_inv_path [OF inv] probe_inv_distinct [OF inv] same in force)+
  moreover have "bucket_ok (rows @ [h]) b" if "b \<in> set buckets" for b
  proof (cases "packed_slot b")
    case (Some s)
    then have "s \<in> occupants (map packed_slot buckets)" using that by (force simp: occupants_def)
    with Some bok that show ?thesis unfolding occ by (auto simp: bucket_ok_def nth_append)
  qed (use bok that in \<open>auto simp: bucket_ok_def\<close>)
  ultimately show ?thesis using assms by (auto simp: heap_index_ok_def)
qed

section \<open>The history refines its specification\<close>

definition heap_generation_ok :: "heap_generation \<Rightarrow> bool" where
  "heap_generation_ok g =
     (heap_index_ok (hg_index g) (hg_hashes g) {..<length (hg_hashes g)}
      \<and> length (hg_hashes g) \<le> RNS_GENERATION_CAPACITY)"

definition heap_history_ok :: "heap_history \<Rightarrow> bool" where
  "heap_history_ok s = (heap_generation_ok (hh_current s) \<and> heap_generation_ok (hh_previous s))"

definition heap_generations :: "heap_history \<Rightarrow> packet_hash list \<times> packet_hash list" where
  "heap_generations s = (hg_hashes (hh_current s), hg_hashes (hh_previous s))"

lemma capacity_below_rows: "RNS_GENERATION_CAPACITY < MAX_ROWS"
  by (simp add: RNS_GENERATION_CAPACITY_def MAX_ROWS_eq)

lemma live_rows: "(\<exists>s \<in> {..<length rows}. rows ! s = h) \<longleftrightarrow> h \<in> set rows"
  by (auto simp: in_set_conv_nth)

lemma heap_generation_contains_correct:
  "heap_generation_ok g \<Longrightarrow> heap_generation_contains g h = Some (h \<in> set (hg_hashes g))"
  using heap_index_probe_correct [of "hg_index g" "hg_hashes g" "{..<length (hg_hashes g)}" h]
    live_rows [of "hg_hashes g" h]
  by (auto simp: heap_generation_contains_def heap_index_contains_def heap_generation_ok_def)

lemma heap_index_insert_correct:
  assumes ok: "heap_index_ok buckets rows {..<length rows}" and "length rows < MAX_ROWS"
  shows "\<exists>buckets'. heap_index_insert buckets (length rows) (rows @ [h]) = Some buckets'
    \<and> heap_index_ok buckets' (rows @ [h]) {..<length (rows @ [h])}"
proof (cases "exceeds_two_thirds_load (length (rows @ [h])) (length buckets)")
  case True
  then show ?thesis
    using heap_index_rebuild_correct [of "rows @ [h]" buckets] assms by (auto simp: heap_index_insert_def heap_index_ok_def)
next
  case False
  have "0 < length buckets" using ok by (auto simp: heap_index_ok_def)
  with False have "length (rows @ [h]) < length buckets" by (rule exceeds_two_thirds_load_less)
  then show ?thesis
    using False heap_index_place_correct [OF heap_index_ok_push [OF assms], of "length rows" h]
    by (auto simp: heap_index_insert_def lessThan_Suc)
qed

lemma vacant_insert_correct:
  assumes ok: "heap_index_ok buckets rows {..<length rows}" and small: "length rows < MAX_ROWS"
    and p: "p < length buckets" "packed_slot (buckets ! p) = None"
      "\<forall>q < length buckets. gap (length buckets) (heap_index_bucket buckets h) q
         < gap (length buckets) (heap_index_bucket buckets h) p \<longrightarrow> packed_slot (buckets ! q) \<noteq> None"
  shows "\<exists>buckets'. vacant_insert buckets p (fingerprint h) (length rows) (rows @ [h]) = Some buckets'
    \<and> heap_index_ok buckets' (rows @ [h]) {..<length (rows @ [h])}"
proof (cases "exceeds_two_thirds_load (length (rows @ [h])) (length buckets)")
  case True
  then show ?thesis
    using heap_index_rebuild_correct [of "rows @ [h]" buckets] assms by (auto simp: vacant_insert_def heap_index_ok_def)
next
  case False
  have "0 < length buckets" using ok by (auto simp: heap_index_ok_def)
  with False have "length (rows @ [h]) < length buckets" by (rule exceeds_two_thirds_load_less)
  then show ?thesis
    using False p heap_index_put [OF heap_index_ok_push [OF ok small], of "length rows" h p]
    by (simp add: vacant_insert_def lessThan_Suc hash_home_def heap_index_bucket_home)
qed

lemma heap_generation_insert_correct:
  assumes "heap_generation_ok g" and "length (hg_hashes g) < RNS_GENERATION_CAPACITY"
  shows "\<exists>g'. heap_generation_insert h g = Some g' \<and> heap_generation_ok g' \<and> hg_hashes g' = hg_hashes g @ [h]"
  using heap_index_insert_correct [of "hg_index g" "hg_hashes g" h] assms capacity_below_rows
  by (auto simp: heap_generation_insert_def heap_generation_ok_def)

lemma heap_generation_clear_correct:
  "heap_generation_ok g \<Longrightarrow> heap_generation_ok (heap_generation_clear g) \<and> hg_hashes (heap_generation_clear g) = []"
  by (auto simp: heap_generation_ok_def heap_generation_clear_def heap_index_clear_def heap_index_ok_def bucket_ok_def)

lemma heap_history_refines:
  assumes ok: "heap_history_ok s"
  shows "\<exists>out s'. heap_history_remember h s = Some (out, s') \<and> heap_history_ok s'
    \<and> remember_spec RNS_GENERATION_CAPACITY h (heap_generations s) = (out, heap_generations s')"
proof -
  let ?cur = "hh_current s" and ?prev = "hh_previous s"
  have cur: "heap_generation_ok ?cur" and prev: "heap_generation_ok ?prev"
    using ok by (simp_all add: heap_history_ok_def)
  have ix: "heap_index_ok (hg_index ?cur) (hg_hashes ?cur) {..<length (hg_hashes ?cur)}"
    and le: "length (hg_hashes ?cur) \<le> RNS_GENERATION_CAPACITY" using cur by (simp_all add: heap_generation_ok_def)
  note has_prev = heap_generation_contains_correct [OF prev, of h]
  from heap_index_probe_correct [OF ix, of h] consider
      (known) "h \<in> set (hg_hashes ?cur)" "heap_index_probe (hg_index ?cur) h (hg_hashes ?cur) = Some Occupied"
    | (new) p where "h \<notin> set (hg_hashes ?cur)" "heap_index_probe (hg_index ?cur) h (hg_hashes ?cur) = Some (Vacant p)"
        "p < length (hg_index ?cur)" "packed_slot (hg_index ?cur ! p) = None"
        "\<forall>q < length (hg_index ?cur). gap (length (hg_index ?cur)) (heap_index_bucket (hg_index ?cur) h) q
          < gap (length (hg_index ?cur)) (heap_index_bucket (hg_index ?cur) h) p \<longrightarrow> packed_slot (hg_index ?cur ! q) \<noteq> None"
    using live_rows [of "hg_hashes ?cur" h] by blast
  then show ?thesis
  proof cases
    case known
    with ok show ?thesis by (simp add: heap_history_remember_def heap_generations_def)
  next
    case new
    consider (old) "h \<in> set (hg_hashes ?prev)"
      | (fresh) "h \<notin> set (hg_hashes ?prev)" "length (hg_hashes ?cur) < RNS_GENERATION_CAPACITY"
      | (full) "h \<notin> set (hg_hashes ?prev)" "\<not> length (hg_hashes ?cur) < RNS_GENERATION_CAPACITY" by blast
    then show ?thesis
    proof cases
      case old
      with ok new has_prev show ?thesis by (simp add: heap_history_remember_def heap_generations_def)
    next
      case fresh
      then have "\<exists>ix'. vacant_insert (hg_index ?cur) p (fingerprint h) (length (hg_hashes ?cur)) (hg_hashes ?cur @ [h]) = Some ix'
        \<and> heap_index_ok ix' (hg_hashes ?cur @ [h]) {..<length (hg_hashes ?cur @ [h])}"
        using new capacity_below_rows by (intro vacant_insert_correct [OF ix]) simp_all
      with fresh new has_prev prev show ?thesis
        by (auto simp: heap_history_remember_def heap_generations_def heap_history_ok_def heap_generation_ok_def Let_def)
    next
      case full
      have "\<exists>g'. heap_generation_insert h (heap_generation_clear ?prev) = Some g' \<and> heap_generation_ok g' \<and> hg_hashes g' = [h]"
        using heap_generation_insert_correct [of "heap_generation_clear ?prev" h] heap_generation_clear_correct [OF prev]
        by (auto simp: RNS_GENERATION_CAPACITY_def)
      with full new has_prev cur show ?thesis
        by (auto simp: heap_history_remember_def heap_history_rotate_def heap_generations_def heap_history_ok_def Let_def)
    qed
  qed
qed

lemma heap_history_contains_correct:
  assumes "heap_history_ok s"
  shows "heap_history_contains s h = Some (h \<in> set (fst (heap_generations s)) \<union> set (snd (heap_generations s)))"
  using assms heap_generation_contains_correct [of "hh_current s" h] heap_generation_contains_correct [of "hh_previous s" h]
  by (auto simp: heap_history_contains_def heap_history_ok_def heap_generations_def split: bool.splits)

lemma heap_history_default_ok: "heap_history_ok heap_history_default"
  by (simp add: heap_history_ok_def heap_history_default_def heap_generation_ok_def heap_generation_default_def
      heap_index_default_def heap_index_ok_new MIN_BUCKETS_def USIZE_MAX_def)

interpretation heap_hist: packet_hash_history
    heap_history_contains heap_history_remember heap_generations heap_history_ok RNS_GENERATION_CAPACITY
proof (unfold_locales, goal_cases)
  case (1 s)
  show ?case by (simp add: RNS_GENERATION_CAPACITY_def)
next
  case (2 s h)
  then show ?case by (rule heap_history_contains_correct)
next
  case (3 s h)
  then show ?case by (rule heap_history_refines)
qed

lemma hashed_flags:
  "header_meta_byte h AND 0x0F = push_bit 2 (destination_type_as_u8 (h_destination_type h)) OR packet_type_as_u8 (h_packet_type h)"
  "header_meta_byte h AND 0x40 = 0x40 \<longleftrightarrow> h_transport_id h \<noteq> None"
  by (cases "h_ifac_flag h"; cases "h_context_flag h"; cases "h_propagation h"; cases "h_destination_type h";
      cases "h_packet_type h"; cases "h_transport_id h"; simp add: header_meta_byte_def)+

section \<open>Properties of packet deduplication\<close>

text \<open>
  C31. What identifies a packet survives relaying: the hash taken from the bytes of a written header
  and a payload is the hash of the fields a relay keeps. The hop count, the transport id, the
  propagation type, the context flag and the access flag do not enter it.
\<close>

theorem packet_hash_survives_relaying:
  assumes "header_wf h" and "header_write h buf = Inr (buf', n)"
  shows "packet_hash_of_wire_packet sha (take n buf' @ payload) =
    Inr (packet_hash_of_fields sha (h_destination_type h) (h_packet_type h) (h_address h) (h_context h) payload)"
proof -
  have "wire_len h \<le> length buf"
    using assms(2) by (auto simp: header_write_def Let_def split: if_splits)
  then have "take n buf' = header_bytes h"
    using header_write_bytes [OF assms(1)] assms(2) length_header_bytes [OF assms(1)] by auto
  then show ?thesis
    using assms(1)
    by (cases "h_transport_id h")
      (auto simp: packet_hash_of_wire_packet_def packet_hash_of_fields_def header_bytes_def header_wf_def
        hashed_flags sha256_chunks_def wire_limits Let_def)
qed

theorem packet_hash_survives_relaying_witness:
  "\<exists>buf'. header_write example_header (replicate 35 0) = Inr (buf', 35)
     \<and> packet_hash_of_wire_packet (\<lambda>bs. bs) (take 35 buf' @ [9]) =
       Inr (packet_hash_of_fields (\<lambda>bs. bs) Link Proof (WireAddress (replicate 16 0x22)) PathResponse [9])"
proof -
  have wf: "header_wf example_header" "wire_len example_header = 35"
    by (simp_all add: example_header_def header_wf_def wire_limits wire_len_def)
  then obtain buf' where "header_write example_header (replicate 35 0) = Inr (buf', 35)"
    using header_write_bytes [OF wf(1), of "replicate 35 0"] by (simp only: wf length_replicate order.refl)
  moreover from packet_hash_survives_relaying [OF wf(1) this, of "\<lambda>bs. bs" "[9]"]
  have "packet_hash_of_wire_packet (\<lambda>bs. bs) (take 35 buf' @ [9]) =
    Inr (packet_hash_of_fields (\<lambda>bs. bs) Link Proof (WireAddress (replicate 16 0x22)) PathResponse [9])"
    unfolding example_header_def by (simp only: wire_packet_header.simps)
  ultimately show ?thesis by blast
qed

text \<open>
  C6. The array history, the indexed array history and the growable history do the same thing, the
  two-generation specification, from every valid state: same outcome, same generations afterwards,
  the index loops always end, and validity is kept.
\<close>

theorem histories_refine_spec:
  "(fixed_history_ok c s \<longrightarrow>
      (case fixed_history_remember h s of (out, s') \<Rightarrow>
         fixed_history_ok c s' \<and> remember_spec c h (fixed_generations s) = (out, fixed_generations s')))
   \<and> (indexed_history_ok c buckets t \<longrightarrow>
      (\<exists>out t'. indexed_history_remember h t = Some (out, t') \<and> indexed_history_ok c buckets t'
         \<and> remember_spec c h (indexed_generations t) = (out, indexed_generations t')))
   \<and> (heap_history_ok u \<longrightarrow>
      (\<exists>out u'. heap_history_remember h u = Some (out, u') \<and> heap_history_ok u'
         \<and> remember_spec RNS_GENERATION_CAPACITY h (heap_generations u) = (out, heap_generations u')))"
  using fixed_history_refines [of c s h] indexed_history_refines [of c buckets t h] heap_history_refines [of u h]
  by (auto split: prod.splits)

theorem histories_refine_spec_witness:
  "(case fixed_history_remember zero_hash (fixed_history_default 2) of (out, s') \<Rightarrow>
      fixed_history_ok 2 s' \<and> remember_spec 2 zero_hash ([], []) = (out, fixed_generations s'))
   \<and> (\<exists>out t'. indexed_history_remember zero_hash (indexed_history_default 2 3) = Some (out, t')
        \<and> remember_spec 2 zero_hash ([], []) = (out, indexed_generations t'))
   \<and> (\<exists>out u'. heap_history_remember zero_hash heap_history_default = Some (out, u')
        \<and> remember_spec RNS_GENERATION_CAPACITY zero_hash ([], []) = (out, heap_generations u'))"
proof -
  have ok: "fixed_history_ok 2 (fixed_history_default 2)" "indexed_history_ok 2 3 (indexed_history_default 2 3)"
    "heap_history_ok heap_history_default"
    using indexed_history_default_ok [of 2 3] heap_history_default_ok
    by (simp_all add: fixed_history_ok_def fixed_history_default_def dedup_index_buckets_def
        buckets_for_two_thirds_load_def div_ceil_def USIZE_MAX_def)
  have gens: "fixed_generations (fixed_history_default 2) = ([], [])"
    "indexed_generations (indexed_history_default 2 3) = ([], [])" "heap_generations heap_history_default = ([], [])"
    by (simp_all add: fixed_generations_def fixed_history_default_def indexed_generations_def
        indexed_history_default_def generation_list_def generation_default_def heap_generations_def
        heap_history_default_def heap_generation_default_def)
  show ?thesis
    using histories_refine_spec [of 2 "fixed_history_default 2" zero_hash 3 "indexed_history_default 2 3"
        heap_history_default] ok gens by auto
qed

text \<open>
  C32. A packet stored in the indexed history is recognised for at least one whole generation: after
  any run of at most \<open>CAP\<close> further packets, fresh or not, \<open>contains\<close> still answers yes.
\<close>

theorem stored_packet_stays_known:
  assumes "indexed_history_ok c buckets s" "indexed_history_remember h s = Some (out, s1)"
    and "out \<noteq> AlreadyKnown" "length hs \<le> c"
  shows "\<exists>s2. remember_all indexed_history_remember hs s1 = Some s2 \<and> indexed_history_contains s2 h = Some True"
  using assms by (rule indexed.remembered_window)

theorem stored_packet_stays_known_witness:
  "\<exists>s2. remember_all indexed_history_remember [PacketHash (replicate 32 1), PacketHash (replicate 32 2)]
     (snd (the (indexed_history_remember zero_hash (indexed_history_default 2 3)))) = Some s2
   \<and> indexed_history_contains s2 zero_hash = Some True"
proof -
  have ok: "indexed_history_ok 2 3 (indexed_history_default 2 3)"
    using indexed_history_default_ok [of 2 3]
    by (simp add: dedup_index_buckets_def buckets_for_two_thirds_load_def div_ceil_def USIZE_MAX_def)
  have "indexed_generations (indexed_history_default 2 3) = ([], [])"
    by (simp add: indexed_generations_def indexed_history_default_def generation_list_def generation_default_def)
  then obtain s1 where "indexed_history_remember zero_hash (indexed_history_default 2 3) = Some (StoredFresh, s1)"
    using indexed_history_refines [OF ok, of zero_hash] by auto
  then show ?thesis
    using stored_packet_stays_known [OF ok, of zero_hash StoredFresh s1
        "[PacketHash (replicate 32 1), PacketHash (replicate 32 2)]"]
    by (simp del: remember_all.simps)
qed

end
