(* ===== verification/Route_Types.thy ===== *)
theory Route_Types
  imports Wire
begin

text \<open>
  The vocabulary of routing: instants (\<^verbatim>\<open>prns-core/src/units.rs\<close>), attached interfaces
  (\<^verbatim>\<open>interfaces/descriptor/attached.rs\<close>, \<^verbatim>\<open>interfaces/policy/\<close>), how long routes live
  (\<^verbatim>\<open>routing/announce/defaults.rs\<close>, \<^verbatim>\<open>routing/warmth/core.rs\<close>) and the columns of a route
  (\<^verbatim>\<open>routing/routes/core.rs\<close>).
\<close>

section \<open>Instants\<close>

type_synonym instant_millis = u64
type_synonym duration_millis = u64
type_synonym hop_count = u8

definition instant_saturating_add :: "instant_millis \<Rightarrow> duration_millis \<Rightarrow> instant_millis" where
  "instant_saturating_add t elapsed = saturating_add t elapsed"

definition duration_since :: "instant_millis \<Rightarrow> instant_millis \<Rightarrow> duration_millis" where
  "duration_since t earlier = saturating_sub t earlier"

definition rtt_measured_between :: "instant_millis \<Rightarrow> instant_millis \<Rightarrow> u64" where
  "rtt_measured_between sent arrived = saturating_sub arrived sent"

section \<open>Interfaces\<close>

datatype interface_id = InterfaceId (interface_id_bytes: "u8 list")

datatype interface_mode = Full | PointToPoint | AccessPoint | Roaming | Boundary | Gateway | Internal

text \<open>An \<open>i64\<close> that routing only compares.\<close>

type_synonym interface_gravity = int

text \<open>The fields of \<open>InterfaceDescriptor\<close> that routing reads.\<close>

record interface_descriptor =
  if_id :: interface_id
  if_mode :: interface_mode
  if_gravity :: interface_gravity

text \<open>The unindexed roster.\<close>

definition descriptor_for :: "interface_descriptor list \<Rightarrow> interface_id \<Rightarrow> interface_descriptor option" where
  "descriptor_for interfaces i = find (\<lambda>d. if_id d = i) interfaces"

definition MAX_ANNOUNCE_IDS_PER_DESTINATION :: nat where
  "MAX_ANNOUNCE_IDS_PER_DESTINATION = 64"

definition DEFAULT_ROUTE_EXPIRY_MILLIS :: u64 where
  "DEFAULT_ROUTE_EXPIRY_MILLIS = 60 * 60 * 24 * 7 * 1000"

definition ACCESS_POINT_ROUTE_EXPIRY_MILLIS :: u64 where
  "ACCESS_POINT_ROUTE_EXPIRY_MILLIS = 60 * 60 * 24 * 1000"

definition ROAMING_ROUTE_EXPIRY_MILLIS :: u64 where
  "ROAMING_ROUTE_EXPIRY_MILLIS = 60 * 60 * 6 * 1000"

fun route_expiry_millis :: "interface_mode \<Rightarrow> u64" where
  "route_expiry_millis AccessPoint = ACCESS_POINT_ROUTE_EXPIRY_MILLIS"
| "route_expiry_millis Roaming = ROAMING_ROUTE_EXPIRY_MILLIS"
| "route_expiry_millis Full = DEFAULT_ROUTE_EXPIRY_MILLIS"
| "route_expiry_millis PointToPoint = DEFAULT_ROUTE_EXPIRY_MILLIS"
| "route_expiry_millis Boundary = DEFAULT_ROUTE_EXPIRY_MILLIS"
| "route_expiry_millis Gateway = DEFAULT_ROUTE_EXPIRY_MILLIS"
| "route_expiry_millis Internal = DEFAULT_ROUTE_EXPIRY_MILLIS"

text \<open>A \<open>dyn RouteWarmth\<close> is its only method, \<open>warm_until\<close>.\<close>

type_synonym route_warmth = "interface_id \<Rightarrow> instant_millis option"

definition no_warmth :: route_warmth where
  "no_warmth interface = None"

definition warmest_of :: "route_warmth \<Rightarrow> route_warmth \<Rightarrow> route_warmth" where
  "warmest_of v w interface =
     (case (v interface, w interface) of
        (Some a, Some b) \<Rightarrow> Some (max a b)
      | (Some a, None) \<Rightarrow> Some a
      | (None, b) \<Rightarrow> b)"

section \<open>Routes\<close>

datatype next_hop = Direct | Via transport_id

datatype route_responsiveness = Unknown | Responsive | Unresponsive

text \<open>A \<open>RouteEvidenceId\<close> is a \<open>NonZeroU32\<close>: a \<open>u32\<close> that \<open>evidence_id_new\<close> has let through.\<close>

type_synonym evidence_id = u32

definition FIRST_EVIDENCE_ID :: evidence_id where
  "FIRST_EVIDENCE_ID = 1"

definition evidence_id_new :: "u32 \<Rightarrow> evidence_id option" where
  "evidence_id_new v = (if v = 0 then None else Some v)"

record evidence_handle =
  eh_id :: evidence_id
  eh_row_hint :: u16

text \<open>\<open>RouteExpiresAfter\<close> wraps a \<open>NonZeroU32\<close> of milliseconds.\<close>

datatype route_retention = Network | Ephemeral u32

definition expires_after_duration :: "u32 \<Rightarrow> duration_millis" where
  "expires_after_duration millis = ucast millis"

definition deadline_from :: "u32 \<Rightarrow> instant_millis \<Rightarrow> instant_millis" where
  "deadline_from millis learned_at = instant_saturating_add learned_at (expires_after_duration millis)"

fun constrain_expiry :: "route_retention \<Rightarrow> instant_millis \<Rightarrow> instant_millis \<Rightarrow> instant_millis" where
  "constrain_expiry Network learned_at network_expiry = network_expiry"
| "constrain_expiry (Ephemeral expires_after) learned_at network_expiry =
     (let expires_at = deadline_from expires_after learned_at
      in if expires_at < network_expiry then expires_at else network_expiry)"

record route_entry =
  re_hops :: u8
  re_learned_at :: instant_millis
  re_last_route_activity_at :: instant_millis
  re_responsiveness :: route_responsiveness
  re_receiving_interface :: interface_id
  re_next_hop :: next_hop
  re_retention :: route_retention

lemma constrain_expiry_le: "constrain_expiry r learned_at network_expiry \<le> network_expiry"
  by (cases r) (auto simp: Let_def)

lemma constrain_expiry_mono: "e \<le> e' \<Longrightarrow> constrain_expiry r learned_at e \<le> constrain_expiry r learned_at e'"
  by (cases r) (auto simp: Let_def)

end
