(* ===== verification/Table_Rows.thy ===== *)
theory Table_Rows
  imports Prelude "HOL-Library.Multiset"
begin

text \<open>
  What the struct-of-arrays tables share: \<open>Vec::swap_remove\<close>, the live prefix of a fixed array column,
  and the error of a full table (\<^verbatim>\<open>prns-core/src/storage/core.rs\<close>). The contract of such a table is
  stated on the list of its rows.
\<close>

datatype table_push_error = TableFull

definition vec_swap_remove :: "nat \<Rightarrow> 'a list \<Rightarrow> 'a list" where
  "vec_swap_remove i xs = butlast (xs[i := last xs])"

lemma length_vec_swap_remove [simp]: "length (vec_swap_remove i xs) = length xs - 1"
  by (simp add: vec_swap_remove_def)

lemma nth_vec_swap_remove:
  assumes "i < length xs" "j < length xs - 1"
  shows "vec_swap_remove i xs ! j = (if j = i then last xs else xs ! j)"
  using assms by (auto simp: vec_swap_remove_def nth_butlast nth_list_update)

lemma map_vec_swap_remove [table_simps]:
  assumes "i < length xs"
  shows "map f (vec_swap_remove i xs) = vec_swap_remove i (map f xs)"
  using assms by (cases "xs = []") (auto simp: vec_swap_remove_def map_butlast map_update last_map)

lemma vec_swap_remove_last: "xs \<noteq> [] \<Longrightarrow> vec_swap_remove (length xs - 1) xs = butlast xs"
  by (cases xs rule: rev_cases) (auto simp: vec_swap_remove_def)

lemma mset_vec_swap_remove:
  assumes "i < length xs"
  shows "mset (vec_swap_remove i xs) = mset xs - {#xs ! i#}"
proof -
  obtain ys y where xs: "xs = ys @ [y]" using assms by (cases xs rule: rev_cases) auto
  show ?thesis
  proof (cases "i = length ys")
    case True
    then show ?thesis by (simp add: xs vec_swap_remove_def)
  next
    case False
    with assms have "i < length ys" by (simp add: xs)
    then show ?thesis
      by (simp add: xs vec_swap_remove_def list_update_append nth_append mset_update)
  qed
qed

lemma set_vec_swap_remove:
  assumes "i < length xs" "distinct (map f xs)"
  shows "set (vec_swap_remove i xs) = {x \<in> set xs. f x \<noteq> f (xs ! i)}"
    and "distinct (map f (vec_swap_remove i xs))"
proof -
  have "distinct xs" using assms(2) by (simp add: distinct_map)
  then have "mset (vec_swap_remove i xs) = mset_set (set xs) - {#xs ! i#}"
    using mset_vec_swap_remove [OF assms(1)] by (simp add: mset_set_set)
  also have "\<dots> = mset_set (set xs - {xs ! i})"
    using assms(1) by (simp add: mset_set_Diff)
  finally have m: "mset (vec_swap_remove i xs) = mset_set (set xs - {xs ! i})" .
  then have "set (vec_swap_remove i xs) = set xs - {xs ! i}"
    by (metis finite_Diff finite_set_mset_mset_set set_mset_mset List.finite_set)
  moreover have "f x \<noteq> f (xs ! i)" if "x \<in> set xs" "x \<noteq> xs ! i" for x
    using assms that by (metis distinct_map inj_onD nth_mem)
  ultimately show s: "set (vec_swap_remove i xs) = {x \<in> set xs. f x \<noteq> f (xs ! i)}" by auto
  have "distinct (vec_swap_remove i xs)"
    using m by (metis \<open>distinct xs\<close> card_Diff_singleton card_distinct distinct_card length_vec_swap_remove
        nth_mem assms(1) \<open>set (vec_swap_remove i xs) = set xs - {xs ! i}\<close>)
  then show "distinct (map f (vec_swap_remove i xs))"
    using assms(2) s by (auto simp: distinct_map intro: inj_on_subset)
qed

text \<open>\<open>Iterator::min_by_key\<close>: the first of the elements with the least key.\<close>

fun min_by_key :: "('a \<Rightarrow> 'k::linorder) \<Rightarrow> 'a list \<Rightarrow> 'a option" where
  "min_by_key key [] = None"
| "min_by_key key (x # xs) =
     Some (case min_by_key key xs of None \<Rightarrow> x | Some y \<Rightarrow> if key y < key x then y else x)"

lemma min_by_key_Some:
  "min_by_key key xs = Some x \<Longrightarrow> x \<in> set xs \<and> (\<forall>y\<in>set xs. key x \<le> key y)"
proof (induction xs arbitrary: x)
  case Nil
  then show ?case by simp
next
  case (Cons a xs)
  show ?case
  proof (cases "min_by_key key xs")
    case None
    then have "xs = []" by (cases xs) auto
    with Cons.prems show ?thesis by simp
  next
    case (Some b)
    with Cons.IH [OF Some] Cons.prems show ?thesis by (auto split: if_splits)
  qed
qed

lemma min_by_key_None: "min_by_key key xs = None \<longleftrightarrow> xs = []"
  by (cases xs) auto

text \<open>A column of a fixed-size table: an array of which the first \<open>n\<close> cells are rows.\<close>

lemma take_column: "n \<le> length xs \<Longrightarrow> take n xs = map ((!) xs) [0..<n]"
  by (intro nth_equalityI) simp_all

lemma take_column_set: "i < n \<Longrightarrow> take n (xs[i := x]) = (take n xs)[i := x]"
  by (simp add: take_update_swap)

lemma take_column_push: "n < length xs \<Longrightarrow> take (Suc n) (xs[n := x]) = take n xs @ [x]"
  by (simp add: take_Suc_conv_app_nth)

lemma take_column_swap_remove:
  assumes "i < n" "n \<le> length xs"
  shows "take (n - 1) (xs[i := xs ! (n - 1)]) = vec_swap_remove i (take n xs)"
proof -
  have "take n xs \<noteq> []" using assms by auto
  then have "last (take n xs) = xs ! (n - 1)" using assms by (simp add: last_conv_nth)
  then show ?thesis
    using assms by (intro nth_equalityI) (auto simp: nth_vec_swap_remove nth_list_update)
qed

end
