(* ===== verification/Route_Table.thy ===== *)
theory Route_Table
  imports Route_Types Table_Rows
begin

text \<open>
  The contract \<open>RouteTable\<close> (\<^verbatim>\<open>prns-core/src/routing/routes/core.rs\<close>), with its default methods, and
  the fixed-size table \<open>FixedArrayRouteTable\<close> (\<^verbatim>\<open>routes/impls/fixed_array.rs\<close>): nine parallel columns
  and a length.
\<close>

section \<open>The trait\<close>

record 'r route_table_ops =
  rt_capacity :: "'r \<Rightarrow> nat"
  rt_len :: "'r \<Rightarrow> nat"
  rt_destinations :: "'r \<Rightarrow> destination_hash list"
  rt_hops :: "'r \<Rightarrow> u8 list"
  rt_learned_at :: "'r \<Rightarrow> instant_millis list"
  rt_last_route_activity_at :: "'r \<Rightarrow> instant_millis list"
  rt_responsiveness :: "'r \<Rightarrow> route_responsiveness list"
  rt_receiving_interfaces :: "'r \<Rightarrow> interface_id list"
  rt_next_hops :: "'r \<Rightarrow> next_hop list"
  rt_retentions :: "'r \<Rightarrow> route_retention list"
  rt_evidence_ids :: "'r \<Rightarrow> evidence_id list"
  rt_set_row :: "nat \<Rightarrow> route_entry \<Rightarrow> 'r \<Rightarrow> 'r"
  rt_set_evidence_id :: "nat \<Rightarrow> evidence_id \<Rightarrow> 'r \<Rightarrow> 'r"
  rt_push :: "destination_hash \<Rightarrow> evidence_id \<Rightarrow> route_entry \<Rightarrow> 'r \<Rightarrow> table_push_error + nat \<times> 'r"
  rt_swap_remove :: "nat \<Rightarrow> nat \<Rightarrow> 'r \<Rightarrow> 'r"

text \<open>The methods the trait has a body for; an implementation may override them.\<close>

record 'r route_table_methods = "'r route_table_ops" +
  rt_index_of :: "destination_hash \<Rightarrow> 'r \<Rightarrow> nat option"
  rt_route_count_via :: "interface_id \<Rightarrow> 'r \<Rightarrow> nat"
  rt_repoint_receiving_interface :: "interface_id \<Rightarrow> interface_id \<Rightarrow> instant_millis \<Rightarrow> 'r \<Rightarrow> nat \<times> 'r"

definition routes_index_of :: "('r, 'z) route_table_ops_scheme \<Rightarrow> destination_hash \<Rightarrow> 'r \<Rightarrow> nat option" where
  "routes_index_of R destination r = position (\<lambda>candidate. candidate = destination) (rt_destinations R r)"

definition routes_count_via :: "('r, 'z) route_table_ops_scheme \<Rightarrow> interface_id \<Rightarrow> 'r \<Rightarrow> nat" where
  "routes_count_via R interface r = length (filter (\<lambda>candidate. candidate = interface) (rt_receiving_interfaces R r))"

text \<open>The loop of \<open>repoint_receiving_interface\<close> over the rows still to visit, with the number moved.\<close>

fun repoint_rows ::
  "('r, 'z) route_table_ops_scheme \<Rightarrow> interface_id \<Rightarrow> interface_id \<Rightarrow> instant_millis \<Rightarrow> nat list \<Rightarrow> 'r \<Rightarrow> nat \<Rightarrow> nat \<times> 'r" where
  "repoint_rows R previous current now [] r moved = (moved, r)"
| "repoint_rows R previous current now (row # rest) r moved =
     (if rt_receiving_interfaces R r ! row \<noteq> previous then repoint_rows R previous current now rest r moved
      else repoint_rows R previous current now rest
             (rt_set_row R row
                \<lparr>re_hops = rt_hops R r ! row, re_learned_at = rt_learned_at R r ! row,
                 re_last_route_activity_at = now, re_responsiveness = rt_responsiveness R r ! row,
                 re_receiving_interface = current, re_next_hop = rt_next_hops R r ! row,
                 re_retention = rt_retentions R r ! row\<rparr> r)
             (moved + 1))"

definition repoint_receiving_interface ::
  "('r, 'z) route_table_ops_scheme \<Rightarrow> interface_id \<Rightarrow> interface_id \<Rightarrow> instant_millis \<Rightarrow> 'r \<Rightarrow> nat \<times> 'r" where
  "repoint_receiving_interface R previous current now r =
     repoint_rows R previous current now [0..<rt_len R r] r 0"

definition with_default_methods :: "'r route_table_ops \<Rightarrow> 'r route_table_methods" where
  "with_default_methods R =
     route_table_ops.extend R (route_table_methods.fields
       (routes_index_of R) (routes_count_via R) (repoint_receiving_interface R))"

section \<open>The contract\<close>

record route_row =
  rr_destination :: destination_hash
  rr_evidence_id :: evidence_id
  rr_entry :: route_entry

definition repoint_row :: "interface_id \<Rightarrow> interface_id \<Rightarrow> instant_millis \<Rightarrow> route_row \<Rightarrow> route_row" where
  "repoint_row previous current now row =
     (if re_receiving_interface (rr_entry row) = previous
      then row\<lparr>rr_entry := (rr_entry row)\<lparr>re_receiving_interface := current, re_last_route_activity_at := now\<rparr>\<rparr>
      else row)"

text \<open>
  The required methods run on a list of rows. A destination is pushed only when no row has it.
\<close>

locale route_rows =
  fixes R :: "('r, 'z) route_table_ops_scheme"
    and rows :: "'r \<Rightarrow> route_row list"
    and valid :: "'r \<Rightarrow> bool"
  assumes len: "valid r \<Longrightarrow> rt_len R r = length (rows r)"
    and columns: "valid r \<Longrightarrow> rt_destinations R r = map rr_destination (rows r)"
      "valid r \<Longrightarrow> rt_hops R r = map (re_hops \<circ> rr_entry) (rows r)"
      "valid r \<Longrightarrow> rt_learned_at R r = map (re_learned_at \<circ> rr_entry) (rows r)"
      "valid r \<Longrightarrow> rt_last_route_activity_at R r = map (re_last_route_activity_at \<circ> rr_entry) (rows r)"
      "valid r \<Longrightarrow> rt_responsiveness R r = map (re_responsiveness \<circ> rr_entry) (rows r)"
      "valid r \<Longrightarrow> rt_receiving_interfaces R r = map (re_receiving_interface \<circ> rr_entry) (rows r)"
      "valid r \<Longrightarrow> rt_next_hops R r = map (re_next_hop \<circ> rr_entry) (rows r)"
      "valid r \<Longrightarrow> rt_retentions R r = map (re_retention \<circ> rr_entry) (rows r)"
      "valid r \<Longrightarrow> rt_evidence_ids R r = map rr_evidence_id (rows r)"
    and within_capacity: "valid r \<Longrightarrow> length (rows r) \<le> rt_capacity R r"
    and set_row: "valid r \<Longrightarrow> i < length (rows r) \<Longrightarrow>
      valid (rt_set_row R i e r) \<and> rt_capacity R (rt_set_row R i e r) = rt_capacity R r
      \<and> rows (rt_set_row R i e r) = (rows r)[i := (rows r ! i)\<lparr>rr_entry := e\<rparr>]"
    and set_evidence_id: "valid r \<Longrightarrow> i < length (rows r) \<Longrightarrow>
      valid (rt_set_evidence_id R i v r) \<and> rt_capacity R (rt_set_evidence_id R i v r) = rt_capacity R r
      \<and> rows (rt_set_evidence_id R i v r) = (rows r)[i := (rows r ! i)\<lparr>rr_evidence_id := v\<rparr>]"
    and push_full: "valid r \<Longrightarrow> rt_capacity R r \<le> length (rows r) \<Longrightarrow> rt_push R d v e r = Inl TableFull"
    and push_fits: "valid r \<Longrightarrow> length (rows r) < rt_capacity R r \<Longrightarrow> d \<notin> rr_destination ` set (rows r) \<Longrightarrow>
      \<exists>r'. rt_push R d v e r = Inr (length (rows r), r') \<and> valid r' \<and> rt_capacity R r' = rt_capacity R r
        \<and> rows r' = rows r @ [\<lparr>rr_destination = d, rr_evidence_id = v, rr_entry = e\<rparr>]"
    and swap_remove: "valid r \<Longrightarrow> i < length (rows r) \<Longrightarrow>
      valid (rt_swap_remove R i (length (rows r) - 1) r)
      \<and> rt_capacity R (rt_swap_remove R i (length (rows r) - 1) r) = rt_capacity R r
      \<and> rows (rt_swap_remove R i (length (rows r) - 1) r) = vec_swap_remove i (rows r)"
begin

lemma default_index_of: "valid r \<Longrightarrow> routes_index_of R d r = position (\<lambda>row. rr_destination row = d) (rows r)"
proof -
  have "position (\<lambda>c. c = d) (map rr_destination xs) = position (\<lambda>row. rr_destination row = d) xs" for xs
    by (induction xs) auto
  then show "valid r \<Longrightarrow> ?thesis" by (simp add: routes_index_of_def columns(1))
qed

lemma default_count_via:
  "valid r \<Longrightarrow> routes_count_via R i r = length (filter (\<lambda>row. re_receiving_interface (rr_entry row) = i) (rows r))"
  by (simp add: routes_count_via_def columns filter_map o_def)

lemma repoint_rows_correct:
  assumes "valid r" "set todo \<subseteq> {..<length (rows r)}" "distinct todo"
    and "repoint_rows R previous current now todo r moved = (m, r')"
  shows "valid r' \<and> rt_capacity R r' = rt_capacity R r \<and> length (rows r') = length (rows r)
    \<and> (\<forall>i<length (rows r). rows r' ! i =
         (if i \<in> set todo then repoint_row previous current now (rows r ! i) else rows r ! i))
    \<and> m = moved + length (filter (\<lambda>i. re_receiving_interface (rr_entry (rows r ! i)) = previous) todo)"
  using assms
proof (induction todo arbitrary: r moved)
  case Nil
  then show ?case by simp
next
  case (Cons row rest)
  have row: "row < length (rows r)" using Cons.prems(2) by simp
  let ?e = "rr_entry (rows r ! row)"
  show ?case
  proof (cases "re_receiving_interface ?e = previous")
    case False
    with Cons.prems row have "repoint_rows R previous current now rest r moved = (m, r')"
      by (simp add: columns)
    from Cons.IH [OF Cons.prems(1) _ _ this] Cons.prems(2,3) False show ?thesis
      by (auto simp: repoint_row_def)
  next
    case True
    define e where "e = ?e\<lparr>re_receiving_interface := current, re_last_route_activity_at := now\<rparr>"
    define r1 where "r1 = rt_set_row R row e r"
    have entry: "\<lparr>re_hops = re_hops ?e, re_learned_at = re_learned_at ?e, re_last_route_activity_at = now,
        re_responsiveness = re_responsiveness ?e, re_receiving_interface = current, re_next_hop = re_next_hop ?e,
        re_retention = re_retention ?e\<rparr> = ?e\<lparr>re_receiving_interface := current, re_last_route_activity_at := now\<rparr>"
      by (cases ?e) simp
    have r1: "valid r1" "rt_capacity R r1 = rt_capacity R r" "rows r1 = (rows r)[row := (rows r ! row)\<lparr>rr_entry := e\<rparr>]"
      using set_row [OF Cons.prems(1) row, of e] by (simp_all add: r1_def)
    have step: "repoint_rows R previous current now rest r1 (moved + 1) = (m, r')"
      using Cons.prems(1,4) row True by (simp add: columns entry r1_def e_def)
    have nth: "rows r1 ! i = (if i = row then repoint_row previous current now (rows r ! row) else rows r ! i)"
      if "i < length (rows r)" for i
      using that True by (simp add: r1 nth_list_update repoint_row_def e_def)
    have "rows r1 ! i = rows r ! i" if "i \<in> set rest" for i
      using nth [of i] that Cons.prems(2,3) by (cases "i = row") auto
    then have same: "filter (\<lambda>i. re_receiving_interface (rr_entry (rows r1 ! i)) = previous) rest
        = filter (\<lambda>i. re_receiving_interface (rr_entry (rows r ! i)) = previous) rest"
      by (intro filter_cong) simp_all
    have len: "length (rows r1) = length (rows r)" by (simp add: r1)
    have "set rest \<subseteq> {..<length (rows r1)}" "distinct rest"
      using len Cons.prems(2,3) by simp_all
    from Cons.IH [OF r1(1) this step]
    have ih: "valid r' \<and> rt_capacity R r' = rt_capacity R r \<and> length (rows r') = length (rows r)
      \<and> (\<forall>i<length (rows r). rows r' ! i =
           (if i \<in> set rest then repoint_row previous current now (rows r1 ! i) else rows r1 ! i))
      \<and> m = moved + 1 + length (filter (\<lambda>i. re_receiving_interface (rr_entry (rows r ! i)) = previous) rest)"
      unfolding same len r1(2) .
    have "rows r' ! i = (if i \<in> set (row # rest) then repoint_row previous current now (rows r ! i) else rows r ! i)"
      if "i < length (rows r)" for i
      using ih nth [OF that] that Cons.prems(3) by (cases "i = row") simp_all
    with ih True show ?thesis by simp
  qed
qed

lemma default_repoint:
  assumes "valid r" "repoint_receiving_interface R previous current now r = (m, r')"
  shows "valid r' \<and> rt_capacity R r' = rt_capacity R r \<and> rows r' = map (repoint_row previous current now) (rows r)
    \<and> m = length (filter (\<lambda>row. re_receiving_interface (rr_entry row) = previous) (rows r))"
proof -
  let ?n = "length (rows r)"
  have "repoint_rows R previous current now [0..<?n] r 0 = (m, r')"
    using assms by (simp add: repoint_receiving_interface_def len)
  from repoint_rows_correct [OF assms(1) _ _ this]
  have c: "valid r'" "rt_capacity R r' = rt_capacity R r" "length (rows r') = ?n"
    "\<And>i. i < ?n \<Longrightarrow> rows r' ! i = repoint_row previous current now (rows r ! i)"
    "m = length (filter (\<lambda>i. re_receiving_interface (rr_entry (rows r ! i)) = previous) [0..<?n])"
    by (simp_all add: atLeast0LessThan)
  have "length (filter (\<lambda>row. re_receiving_interface (rr_entry row) = previous) (map ((!) (rows r)) [0..<?n])) = m"
    unfolding c(5) filter_map by (simp add: o_def)
  moreover have "rows r' = map (repoint_row previous current now) (rows r)"
    using c(3,4) by (intro nth_equalityI) simp_all
  ultimately show ?thesis using c(1,2) by (simp add: map_nth)
qed

end

text \<open>The methods with a default, whether overridden or not, do what the default does.\<close>

locale route_table = route_rows R rows valid
  for R :: "'r route_table_methods" and rows :: "'r \<Rightarrow> route_row list" and valid :: "'r \<Rightarrow> bool" +
  assumes index_of: "valid r \<Longrightarrow> rt_index_of R d r = position (\<lambda>row. rr_destination row = d) (rows r)"
    and count_via: "valid r \<Longrightarrow>
      rt_route_count_via R i r = length (filter (\<lambda>row. re_receiving_interface (rr_entry row) = i) (rows r))"
    and repoint: "valid r \<Longrightarrow> rt_repoint_receiving_interface R previous current now r = (m, r') \<Longrightarrow>
      valid r' \<and> rt_capacity R r' = rt_capacity R r \<and> rows r' = map (repoint_row previous current now) (rows r)
      \<and> m = length (filter (\<lambda>row. re_receiving_interface (rr_entry row) = previous) (rows r))"

lemma with_default_methods_sel [simp]:
  "rt_capacity (with_default_methods R) = rt_capacity R" "rt_len (with_default_methods R) = rt_len R"
  "rt_destinations (with_default_methods R) = rt_destinations R" "rt_hops (with_default_methods R) = rt_hops R"
  "rt_learned_at (with_default_methods R) = rt_learned_at R"
  "rt_last_route_activity_at (with_default_methods R) = rt_last_route_activity_at R"
  "rt_responsiveness (with_default_methods R) = rt_responsiveness R"
  "rt_receiving_interfaces (with_default_methods R) = rt_receiving_interfaces R"
  "rt_next_hops (with_default_methods R) = rt_next_hops R"
  "rt_retentions (with_default_methods R) = rt_retentions R"
  "rt_evidence_ids (with_default_methods R) = rt_evidence_ids R"
  "rt_set_row (with_default_methods R) = rt_set_row R"
  "rt_set_evidence_id (with_default_methods R) = rt_set_evidence_id R"
  "rt_push (with_default_methods R) = rt_push R" "rt_swap_remove (with_default_methods R) = rt_swap_remove R"
  "rt_index_of (with_default_methods R) = routes_index_of R"
  "rt_route_count_via (with_default_methods R) = routes_count_via R"
  "rt_repoint_receiving_interface (with_default_methods R) = repoint_receiving_interface R"
  by (simp_all add: with_default_methods_def route_table_ops.defs route_table_methods.defs)

lemma with_default_methods_route_table:
  assumes "route_rows R rows valid"
  shows "route_table (with_default_methods R) rows valid"
proof (intro route_table.intro route_table_axioms.intro)
  show "route_rows (with_default_methods R) rows valid"
    using assms unfolding route_rows_def by simp
qed (simp_all add: route_rows.default_index_of [OF assms] route_rows.default_count_via [OF assms]
    route_rows.default_repoint [OF assms])

section \<open>The fixed-size table\<close>

record fixed_route_table =
  fr_len :: nat
  fr_destination :: "destination_hash list"
  fr_hops :: "u8 list"
  fr_learned_at :: "instant_millis list"
  fr_last_route_activity_at :: "instant_millis list"
  fr_responsiveness :: "route_responsiveness list"
  fr_receiving_interface :: "interface_id list"
  fr_next_hop :: "next_hop list"
  fr_retention :: "route_retention list"
  fr_evidence_id :: "evidence_id list"

definition fixed_routes_default :: "nat \<Rightarrow> fixed_route_table" where
  "fixed_routes_default max_tracked =
     \<lparr>fr_len = 0,
      fr_destination = replicate max_tracked (DestinationHash (replicate 16 0)),
      fr_hops = replicate max_tracked 0,
      fr_learned_at = replicate max_tracked 0,
      fr_last_route_activity_at = replicate max_tracked 0,
      fr_responsiveness = replicate max_tracked Responsive,
      fr_receiving_interface = replicate max_tracked (InterfaceId (replicate 8 0)),
      fr_next_hop = replicate max_tracked Direct,
      fr_retention = replicate max_tracked Network,
      fr_evidence_id = replicate max_tracked FIRST_EVIDENCE_ID\<rparr>"

text \<open>\<open>MAX_TRACKED_DESTINATIONS\<close>, the length every column has.\<close>

definition fixed_routes_capacity :: "fixed_route_table \<Rightarrow> nat" where
  "fixed_routes_capacity r = length (fr_destination r)"

definition fixed_routes_column :: "(fixed_route_table \<Rightarrow> 'c list) \<Rightarrow> fixed_route_table \<Rightarrow> 'c list" where
  "fixed_routes_column col r = take (fr_len r) (col r)"

definition fixed_routes_set_row :: "nat \<Rightarrow> route_entry \<Rightarrow> fixed_route_table \<Rightarrow> fixed_route_table" where
  "fixed_routes_set_row i row r =
     r\<lparr>fr_hops := (fr_hops r)[i := re_hops row],
       fr_learned_at := (fr_learned_at r)[i := re_learned_at row],
       fr_last_route_activity_at := (fr_last_route_activity_at r)[i := re_last_route_activity_at row],
       fr_responsiveness := (fr_responsiveness r)[i := re_responsiveness row],
       fr_receiving_interface := (fr_receiving_interface r)[i := re_receiving_interface row],
       fr_next_hop := (fr_next_hop r)[i := re_next_hop row],
       fr_retention := (fr_retention r)[i := re_retention row]\<rparr>"

definition fixed_routes_set_evidence_id :: "nat \<Rightarrow> evidence_id \<Rightarrow> fixed_route_table \<Rightarrow> fixed_route_table" where
  "fixed_routes_set_evidence_id i v r = r\<lparr>fr_evidence_id := (fr_evidence_id r)[i := v]\<rparr>"

definition fixed_routes_push ::
  "destination_hash \<Rightarrow> evidence_id \<Rightarrow> route_entry \<Rightarrow> fixed_route_table \<Rightarrow> table_push_error + nat \<times> fixed_route_table" where
  "fixed_routes_push destination v row r =
     (if fr_len r \<ge> fixed_routes_capacity r then Inl TableFull
      else
        let i = fr_len r;
            r = r\<lparr>fr_destination := (fr_destination r)[i := destination],
                  fr_evidence_id := (fr_evidence_id r)[i := v]\<rparr>;
            r = fixed_routes_set_row i row r
        in Inr (i, r\<lparr>fr_len := fr_len r + 1\<rparr>))"

definition fixed_routes_swap_remove :: "nat \<Rightarrow> nat \<Rightarrow> fixed_route_table \<Rightarrow> fixed_route_table" where
  "fixed_routes_swap_remove i lst r =
     r\<lparr>fr_destination := (fr_destination r)[i := fr_destination r ! lst],
       fr_hops := (fr_hops r)[i := fr_hops r ! lst],
       fr_learned_at := (fr_learned_at r)[i := fr_learned_at r ! lst],
       fr_last_route_activity_at := (fr_last_route_activity_at r)[i := fr_last_route_activity_at r ! lst],
       fr_responsiveness := (fr_responsiveness r)[i := fr_responsiveness r ! lst],
       fr_receiving_interface := (fr_receiving_interface r)[i := fr_receiving_interface r ! lst],
       fr_next_hop := (fr_next_hop r)[i := fr_next_hop r ! lst],
       fr_retention := (fr_retention r)[i := fr_retention r ! lst],
       fr_evidence_id := (fr_evidence_id r)[i := fr_evidence_id r ! lst],
       fr_len := lst\<rparr>"

definition fixed_routes_ops :: "fixed_route_table route_table_ops" where
  "fixed_routes_ops =
     \<lparr>rt_capacity = fixed_routes_capacity, rt_len = fr_len,
      rt_destinations = fixed_routes_column fr_destination, rt_hops = fixed_routes_column fr_hops,
      rt_learned_at = fixed_routes_column fr_learned_at,
      rt_last_route_activity_at = fixed_routes_column fr_last_route_activity_at,
      rt_responsiveness = fixed_routes_column fr_responsiveness,
      rt_receiving_interfaces = fixed_routes_column fr_receiving_interface,
      rt_next_hops = fixed_routes_column fr_next_hop, rt_retentions = fixed_routes_column fr_retention,
      rt_evidence_ids = fixed_routes_column fr_evidence_id,
      rt_set_row = fixed_routes_set_row, rt_set_evidence_id = fixed_routes_set_evidence_id,
      rt_push = fixed_routes_push, rt_swap_remove = fixed_routes_swap_remove\<rparr>"

definition fixed_routes :: "fixed_route_table route_table_methods" where
  "fixed_routes = with_default_methods fixed_routes_ops"

section \<open>The fixed-size table keeps the contract\<close>

definition fixed_routes_ok :: "fixed_route_table \<Rightarrow> bool" where
  "fixed_routes_ok r =
     (let n = fixed_routes_capacity r
      in fr_len r \<le> n \<and> length (fr_hops r) = n \<and> length (fr_learned_at r) = n
         \<and> length (fr_last_route_activity_at r) = n \<and> length (fr_responsiveness r) = n
         \<and> length (fr_receiving_interface r) = n \<and> length (fr_next_hop r) = n
         \<and> length (fr_retention r) = n \<and> length (fr_evidence_id r) = n)"

definition fixed_routes_row_at :: "fixed_route_table \<Rightarrow> nat \<Rightarrow> route_row" where
  "fixed_routes_row_at r i =
     \<lparr>rr_destination = fr_destination r ! i, rr_evidence_id = fr_evidence_id r ! i,
      rr_entry = \<lparr>re_hops = fr_hops r ! i, re_learned_at = fr_learned_at r ! i,
        re_last_route_activity_at = fr_last_route_activity_at r ! i,
        re_responsiveness = fr_responsiveness r ! i, re_receiving_interface = fr_receiving_interface r ! i,
        re_next_hop = fr_next_hop r ! i, re_retention = fr_retention r ! i\<rparr>\<rparr>"

definition fixed_routes_rows :: "fixed_route_table \<Rightarrow> route_row list" where
  "fixed_routes_rows r = map (fixed_routes_row_at r) [0..<fr_len r]"

lemma length_fixed_routes_rows [simp]: "length (fixed_routes_rows r) = fr_len r"
  by (simp add: fixed_routes_rows_def)

lemma nth_fixed_routes_rows [simp]: "i < fr_len r \<Longrightarrow> fixed_routes_rows r ! i = fixed_routes_row_at r i"
  by (simp add: fixed_routes_rows_def)

lemma fixed_routes_ok_len: "fixed_routes_ok r \<Longrightarrow> fr_len r \<le> fixed_routes_capacity r"
  by (simp add: fixed_routes_ok_def Let_def)

lemma fixed_routes_okD:
  assumes "fixed_routes_ok r"
  shows "length (fr_hops r) = fixed_routes_capacity r"
    "length (fr_learned_at r) = fixed_routes_capacity r"
    "length (fr_last_route_activity_at r) = fixed_routes_capacity r"
    "length (fr_responsiveness r) = fixed_routes_capacity r"
    "length (fr_receiving_interface r) = fixed_routes_capacity r"
    "length (fr_next_hop r) = fixed_routes_capacity r" "length (fr_retention r) = fixed_routes_capacity r"
    "length (fr_evidence_id r) = fixed_routes_capacity r" "length (fr_destination r) = fixed_routes_capacity r"
  using assms by (simp_all add: fixed_routes_ok_def Let_def fixed_routes_capacity_def)

lemma fixed_routes_default_ok: "fixed_routes_ok (fixed_routes_default n)"
  by (simp add: fixed_routes_ok_def fixed_routes_default_def fixed_routes_capacity_def Let_def)

lemma fixed_routes_set_row_ok:
  assumes "fixed_routes_ok r" "i < fixed_routes_capacity r"
  shows "fixed_routes_ok (fixed_routes_set_row i e r)"
    and "fixed_routes_capacity (fixed_routes_set_row i e r) = fixed_routes_capacity r"
    and "fr_len (fixed_routes_set_row i e r) = fr_len r"
    and "fixed_routes_row_at (fixed_routes_set_row i e r) j =
      (if j = i then (fixed_routes_row_at r i)\<lparr>rr_entry := e\<rparr> else fixed_routes_row_at r j)"
proof -
  show "fixed_routes_ok (fixed_routes_set_row i e r)"
    using assms by (simp add: fixed_routes_ok_def fixed_routes_set_row_def fixed_routes_capacity_def Let_def)
  show "fixed_routes_row_at (fixed_routes_set_row i e r) j =
      (if j = i then (fixed_routes_row_at r i)\<lparr>rr_entry := e\<rparr> else fixed_routes_row_at r j)"
    using assms by (cases e) (simp add: fixed_routes_row_at_def fixed_routes_set_row_def fixed_routes_okD)
qed (simp_all add: fixed_routes_set_row_def fixed_routes_capacity_def)

lemma fixed_routes_columns:
  assumes "fixed_routes_ok r"
  shows "fixed_routes_column fr_destination r = map rr_destination (fixed_routes_rows r)"
    "fixed_routes_column fr_hops r = map (re_hops \<circ> rr_entry) (fixed_routes_rows r)"
    "fixed_routes_column fr_learned_at r = map (re_learned_at \<circ> rr_entry) (fixed_routes_rows r)"
    "fixed_routes_column fr_last_route_activity_at r = map (re_last_route_activity_at \<circ> rr_entry) (fixed_routes_rows r)"
    "fixed_routes_column fr_responsiveness r = map (re_responsiveness \<circ> rr_entry) (fixed_routes_rows r)"
    "fixed_routes_column fr_receiving_interface r = map (re_receiving_interface \<circ> rr_entry) (fixed_routes_rows r)"
    "fixed_routes_column fr_next_hop r = map (re_next_hop \<circ> rr_entry) (fixed_routes_rows r)"
    "fixed_routes_column fr_retention r = map (re_retention \<circ> rr_entry) (fixed_routes_rows r)"
    "fixed_routes_column fr_evidence_id r = map rr_evidence_id (fixed_routes_rows r)"
  using assms fixed_routes_ok_len [OF assms]
  by (simp_all add: fixed_routes_column_def take_column fixed_routes_okD fixed_routes_rows_def fixed_routes_row_at_def o_def)

lemma fixed_routes_push_fits:
  assumes "fixed_routes_ok r" "fr_len r < fixed_routes_capacity r"
  shows "\<exists>r'. fixed_routes_push d v e r = Inr (fr_len r, r') \<and> fixed_routes_ok r'
    \<and> fixed_routes_capacity r' = fixed_routes_capacity r
    \<and> fixed_routes_rows r' = fixed_routes_rows r @ [\<lparr>rr_destination = d, rr_evidence_id = v, rr_entry = e\<rparr>]"
proof -
  let ?n = "fr_len r"
  define q where "q = r\<lparr>fr_destination := (fr_destination r)[?n := d], fr_evidence_id := (fr_evidence_id r)[?n := v]\<rparr>"
  have q: "fixed_routes_ok q" "fixed_routes_capacity q = fixed_routes_capacity r" "fr_len q = ?n"
    using assms(1) by (simp_all add: q_def fixed_routes_ok_def fixed_routes_capacity_def Let_def)
  have lt: "?n < fixed_routes_capacity q" using assms(2) q(2) by simp
  note s = fixed_routes_set_row_ok [OF q(1) lt, of e]
  let ?new = "\<lparr>rr_destination = d, rr_evidence_id = v, rr_entry = e\<rparr>"
  let ?r = "(fixed_routes_set_row ?n e q)\<lparr>fr_len := Suc ?n\<rparr>"
  have "fixed_routes_row_at q i = fixed_routes_row_at r i" if "i \<noteq> ?n" for i
    using that by (simp add: fixed_routes_row_at_def q_def)
  moreover have "(fixed_routes_row_at q ?n)\<lparr>rr_entry := e\<rparr> = ?new"
    using assms(2) fixed_routes_okD(8,9) [OF assms(1)] by (simp add: fixed_routes_row_at_def q_def)
  moreover have "fixed_routes_row_at ?r i = fixed_routes_row_at (fixed_routes_set_row ?n e q) i" for i
    by (simp add: fixed_routes_row_at_def)
  ultimately have row: "fixed_routes_row_at ?r i = (if i = ?n then ?new else fixed_routes_row_at r i)" for i
    by (simp add: s(4))
  have "fixed_routes_push d v e r = Inr (?n, ?r)"
    using assms(2) s(3) q(3) by (simp add: fixed_routes_push_def q_def [symmetric] Let_def)
  moreover have "fixed_routes_ok ?r" "fixed_routes_capacity ?r = fixed_routes_capacity r"
    using s(1,2) q(2) assms(2) by (simp_all add: fixed_routes_ok_def fixed_routes_capacity_def Let_def)
  moreover have "fixed_routes_rows ?r = fixed_routes_rows r @ [?new]"
    by (intro nth_equalityI) (auto simp: row nth_append less_Suc_eq)
  ultimately show ?thesis by blast
qed

lemma fixed_routes_swap_remove_ok:
  assumes "fixed_routes_ok r" "i < fr_len r"
  defines "r' \<equiv> fixed_routes_swap_remove i (fr_len r - 1) r"
  shows "fixed_routes_ok r'" "fixed_routes_capacity r' = fixed_routes_capacity r"
    and "fixed_routes_rows r' = vec_swap_remove i (fixed_routes_rows r)"
proof -
  show "fixed_routes_ok r'" "fixed_routes_capacity r' = fixed_routes_capacity r"
    using assms(1,2)
    by (simp_all add: r'_def fixed_routes_ok_def fixed_routes_swap_remove_def fixed_routes_capacity_def Let_def
        le_diff_conv)
  have i: "i < fixed_routes_capacity r" using assms(1,2) fixed_routes_ok_len [OF assms(1)] by linarith
  have row: "fixed_routes_row_at r' j =
      (if j = i then fixed_routes_row_at r (fr_len r - 1) else fixed_routes_row_at r j)" for j
    using assms(1) i by (simp add: r'_def fixed_routes_row_at_def fixed_routes_swap_remove_def fixed_routes_okD)
  have len: "fr_len r' = fr_len r - 1" by (simp add: r'_def fixed_routes_swap_remove_def)
  have "fixed_routes_rows r \<noteq> []" using assms(2) by (auto simp: fixed_routes_rows_def)
  then have "last (fixed_routes_rows r) = fixed_routes_row_at r (fr_len r - 1)"
    using assms(2) by (simp add: last_conv_nth)
  then show "fixed_routes_rows r' = vec_swap_remove i (fixed_routes_rows r)"
    using assms(2) by (intro nth_equalityI) (simp_all add: len row nth_vec_swap_remove)
qed

lemma fixed_routes_set_row_rows:
  assumes "fixed_routes_ok r" "i < length (fixed_routes_rows r)"
  shows "fixed_routes_ok (fixed_routes_set_row i e r)
    \<and> fixed_routes_capacity (fixed_routes_set_row i e r) = fixed_routes_capacity r
    \<and> fixed_routes_rows (fixed_routes_set_row i e r)
      = (fixed_routes_rows r)[i := (fixed_routes_rows r ! i)\<lparr>rr_entry := e\<rparr>]"
proof -
  have i: "i < fr_len r" "i < fixed_routes_capacity r" using assms fixed_routes_ok_len [OF assms(1)] by simp_all
  note s = fixed_routes_set_row_ok [OF assms(1) i(2), of e]
  have "fixed_routes_rows (fixed_routes_set_row i e r)
      = (fixed_routes_rows r)[i := (fixed_routes_rows r ! i)\<lparr>rr_entry := e\<rparr>]"
    using i(1) by (intro nth_equalityI) (simp_all add: s(3,4) nth_list_update)
  with s(1,2) show ?thesis by blast
qed

lemma fixed_routes_set_evidence_id_rows:
  assumes "fixed_routes_ok r" "i < length (fixed_routes_rows r)"
  shows "fixed_routes_ok (fixed_routes_set_evidence_id i v r)
    \<and> fixed_routes_capacity (fixed_routes_set_evidence_id i v r) = fixed_routes_capacity r
    \<and> fixed_routes_rows (fixed_routes_set_evidence_id i v r)
      = (fixed_routes_rows r)[i := (fixed_routes_rows r ! i)\<lparr>rr_evidence_id := v\<rparr>]"
proof -
  have i: "i < fr_len r" "i < fixed_routes_capacity r" using assms fixed_routes_ok_len [OF assms(1)] by simp_all
  have len: "fr_len (fixed_routes_set_evidence_id i v r) = fr_len r"
    by (simp add: fixed_routes_set_evidence_id_def)
  have row: "fixed_routes_row_at (fixed_routes_set_evidence_id i v r) j =
      (if j = i then (fixed_routes_row_at r i)\<lparr>rr_evidence_id := v\<rparr> else fixed_routes_row_at r j)" for j
    using assms(1) i(2) by (simp add: fixed_routes_row_at_def fixed_routes_set_evidence_id_def fixed_routes_okD)
  have "fixed_routes_rows (fixed_routes_set_evidence_id i v r)
      = (fixed_routes_rows r)[i := (fixed_routes_rows r ! i)\<lparr>rr_evidence_id := v\<rparr>]"
    using i(1) by (intro nth_equalityI) (simp_all add: len row nth_list_update)
  moreover have "fixed_routes_ok (fixed_routes_set_evidence_id i v r)"
    using assms(1) by (simp add: fixed_routes_ok_def fixed_routes_set_evidence_id_def fixed_routes_capacity_def Let_def)
  ultimately show ?thesis by (simp add: fixed_routes_set_evidence_id_def fixed_routes_capacity_def)
qed

lemma fixed_routes_sel:
  "rt_capacity fixed_routes_ops = fixed_routes_capacity" "rt_len fixed_routes_ops = fr_len"
  "rt_destinations fixed_routes_ops = fixed_routes_column fr_destination"
  "rt_hops fixed_routes_ops = fixed_routes_column fr_hops"
  "rt_learned_at fixed_routes_ops = fixed_routes_column fr_learned_at"
  "rt_last_route_activity_at fixed_routes_ops = fixed_routes_column fr_last_route_activity_at"
  "rt_responsiveness fixed_routes_ops = fixed_routes_column fr_responsiveness"
  "rt_receiving_interfaces fixed_routes_ops = fixed_routes_column fr_receiving_interface"
  "rt_next_hops fixed_routes_ops = fixed_routes_column fr_next_hop"
  "rt_retentions fixed_routes_ops = fixed_routes_column fr_retention"
  "rt_evidence_ids fixed_routes_ops = fixed_routes_column fr_evidence_id"
  "rt_set_row fixed_routes_ops = fixed_routes_set_row"
  "rt_set_evidence_id fixed_routes_ops = fixed_routes_set_evidence_id"
  "rt_push fixed_routes_ops = fixed_routes_push" "rt_swap_remove fixed_routes_ops = fixed_routes_swap_remove"
  by (simp_all add: fixed_routes_ops_def)

interpretation fixed_rr: route_rows fixed_routes_ops fixed_routes_rows fixed_routes_ok
proof (unfold_locales, unfold fixed_routes_sel, goal_cases)
  case (12 r i e)
  then show ?case by (rule fixed_routes_set_row_rows)
next
  case (13 r i v)
  then show ?case by (rule fixed_routes_set_evidence_id_rows)
next
  case (15 r d v e)
  then show ?case using fixed_routes_push_fits [of r d v e] by simp
next
  case (16 r i)
  then show ?case using fixed_routes_swap_remove_ok [of r i] by simp
qed (simp_all add: fixed_routes_columns fixed_routes_push_def fixed_routes_ok_len)

interpretation fixed_rt: route_table fixed_routes fixed_routes_rows fixed_routes_ok
  unfolding fixed_routes_def by (rule with_default_methods_route_table) (rule fixed_rr.route_rows_axioms)

end
