(* ===== verification/Announce_Acceptance.thy ===== *)
theory Announce_Acceptance
  imports Route_Types "HOL-Library.List_Lexorder"
begin

text \<open>
  Announce ids (\<^verbatim>\<open>prns-core/src/routing/announce/id.rs\<close>) and the predicate that decides whether an
  announce may change the route it is for (\<^verbatim>\<open>routing/announce/acceptance.rs\<close>). The predicate is pure:
  the table it is asked about is summarised in an \<open>ExistingRoute\<close>.
\<close>

section \<open>Announce ids\<close>

definition ANNOUNCE_ID_WIRE_LEN :: nat where
  "ANNOUNCE_ID_WIRE_LEN = 10"

definition NONCE_LEN :: nat where
  "NONCE_LEN = 5"

definition TIMEBASE_LEN :: nat where
  "TIMEBASE_LEN = 5"

datatype announce_nonce = AnnounceNonce (nonce_bytes: "u8 list")

datatype monotonic_timebase = MonotonicTimebase (timebase_bytes: "u8 list")

text \<open>The derived \<open>Ord\<close>: bytes compared from the first.\<close>

instantiation monotonic_timebase :: linorder
begin

definition less_monotonic_timebase :: "monotonic_timebase \<Rightarrow> monotonic_timebase \<Rightarrow> bool" where
  "less_monotonic_timebase a b = (timebase_bytes a < timebase_bytes b)"

definition less_eq_monotonic_timebase :: "monotonic_timebase \<Rightarrow> monotonic_timebase \<Rightarrow> bool" where
  "less_eq_monotonic_timebase a b = (timebase_bytes a \<le> timebase_bytes b)"

instance
  by standard (auto simp: less_monotonic_timebase_def less_eq_monotonic_timebase_def monotonic_timebase.expand)

end

definition TIMEBASE_ZERO :: monotonic_timebase where
  "TIMEBASE_ZERO = MonotonicTimebase (replicate TIMEBASE_LEN 0)"

definition timebase_as_count :: "monotonic_timebase \<Rightarrow> u64" where
  "timebase_as_count t = from_be_bytes (copy_into (replicate 8 0) (8 - TIMEBASE_LEN) (timebase_bytes t))"

record announce_id =
  ai_nonce :: announce_nonce
  ai_timebase :: monotonic_timebase

definition mint :: "u8 list \<Rightarrow> instant_millis \<Rightarrow> announce_id" where
  "mint announce_entropy now =
     (let emitted_seconds = now div 1000;
          timebase = drop (8 - TIMEBASE_LEN) (to_be_bytes emitted_seconds)
      in \<lparr>ai_nonce = AnnounceNonce announce_entropy, ai_timebase = MonotonicTimebase timebase\<rparr>)"

definition announce_id_from_wire :: "u8 list \<Rightarrow> announce_id" where
  "announce_id_from_wire bytes =
     \<lparr>ai_nonce = AnnounceNonce (take NONCE_LEN bytes), ai_timebase = MonotonicTimebase (drop NONCE_LEN bytes)\<rparr>"

definition announce_id_to_wire_bytes :: "announce_id \<Rightarrow> u8 list" where
  "announce_id_to_wire_bytes i =
     copy_into (copy_into (replicate ANNOUNCE_ID_WIRE_LEN 0) 0 (nonce_bytes (ai_nonce i))) NONCE_LEN
       (timebase_bytes (ai_timebase i))"

definition announce_id_wf :: "announce_id \<Rightarrow> bool" where
  "announce_id_wf i = (length (nonce_bytes (ai_nonce i)) = NONCE_LEN
     \<and> length (timebase_bytes (ai_timebase i)) = TIMEBASE_LEN)"

section \<open>Acceptance\<close>

record existing_route =
  ex_hops :: hop_count
  ex_expires_at :: instant_millis
  ex_announce_id_history :: "announce_id list"
  ex_responsiveness :: route_responsiveness
  ex_interface_gravity :: "interface_gravity option"

record acceptance_input =
  in_packet_hops :: u8
  in_announce_id :: announce_id
  in_destination_is_self_or_upstream :: bool
  in_existing_route :: "existing_route option"
  in_incoming_interface_gravity :: "interface_gravity option"
  in_arrived_at :: instant_millis

datatype accept_reason =
  FirstSighting
  | KnownRouteFreshEvidence
  | ExpiredRouteSucceededByLongerAlternative
  | LongerAlternativeWithNewerEvidence
  | FailoverFromUnresponsiveIncumbent
  | EqualEvidenceHigherGravity

datatype reject_reason =
  ExceedsMaxHops
  | DestinationIsSelfOrUpstream
  | KnownRouteReplay
  | KnownRouteNoNewerEvidence
  | DeadRouteReplay
  | EqualEvidenceIncumbentStillWorking
  | StaleEvidence

datatype acceptance_decision = Accept accept_reason | Reject reject_reason

text \<open>
  The loop over the stored ids: \<open>Inl\<close> is the early return, \<open>Inr\<close> the two variables it leaves behind.
\<close>

fun scan_history ::
  "announce_id \<Rightarrow> bool \<Rightarrow> announce_id list \<Rightarrow> bool \<Rightarrow> monotonic_timebase
     \<Rightarrow> acceptance_decision + bool \<times> monotonic_timebase" where
  "scan_history announce_id dead [] known_announce route_max_emitted = Inr (known_announce, route_max_emitted)"
| "scan_history announce_id dead (stored # rest) known_announce route_max_emitted =
     (if stored = announce_id \<and> dead then Inl (Reject DeadRouteReplay)
      else scan_history announce_id dead rest (known_announce \<or> stored = announce_id)
             (max route_max_emitted (ai_timebase stored)))"

definition gravity_preferred :: "interface_gravity option \<Rightarrow> interface_gravity option \<Rightarrow> bool" where
  "gravity_preferred incoming incumbent =
     (case (incoming, incumbent) of (Some a, Some b) \<Rightarrow> a > b | _ \<Rightarrow> False)"

definition determine_acceptance :: "acceptance_input \<Rightarrow> acceptance_decision" where
  "determine_acceptance inp =
     (if in_packet_hops inp > MAX_HOP_COUNT then Reject ExceedsMaxHops
      else if in_destination_is_self_or_upstream inp then Reject DestinationIsSelfOrUpstream
      else case in_existing_route inp of
        None \<Rightarrow> Accept FirstSighting
      | Some existing \<Rightarrow>
          let is_longer_hops = in_packet_hops inp > ex_hops existing;
              route_is_expired = in_arrived_at inp \<ge> ex_expires_at existing;
              announce_emitted_at = ai_timebase (in_announce_id inp)
          in case scan_history (in_announce_id inp) (is_longer_hops \<and> route_is_expired)
                    (ex_announce_id_history existing) False TIMEBASE_ZERO of
               Inl early \<Rightarrow> early
             | Inr (known_announce, route_max_emitted) \<Rightarrow>
                 if \<not> is_longer_hops then
                   if announce_emitted_at = route_max_emitted
                      \<and> gravity_preferred (in_incoming_interface_gravity inp) (ex_interface_gravity existing)
                   then Accept EqualEvidenceHigherGravity
                   else if known_announce then Reject KnownRouteReplay
                   else if announce_emitted_at > route_max_emitted then Accept KnownRouteFreshEvidence
                   else Reject KnownRouteNoNewerEvidence
                 else if route_is_expired then Accept ExpiredRouteSucceededByLongerAlternative
                 else if announce_emitted_at < route_max_emitted then Reject StaleEvidence
                 else if announce_emitted_at = route_max_emitted then
                   (case ex_responsiveness existing of
                      Unresponsive \<Rightarrow> Accept FailoverFromUnresponsiveIncumbent
                    | Responsive \<Rightarrow> Reject EqualEvidenceIncumbentStillWorking
                    | Unknown \<Rightarrow> Reject EqualEvidenceIncumbentStillWorking)
                 else Accept LongerAlternativeWithNewerEvidence)"

section \<open>What the loop computes\<close>

text \<open>The newest stored emission: the loop's maximum, as a function of the set of stored ids.\<close>

definition newest_emission :: "announce_id set \<Rightarrow> monotonic_timebase" where
  "newest_emission ids = Max (insert TIMEBASE_ZERO (ai_timebase ` ids))"

lemma scan_history_Max:
  "scan_history i dead ids known m =
     (if dead \<and> i \<in> set ids then Inl (Reject DeadRouteReplay)
      else Inr (known \<or> i \<in> set ids, Max (insert m (ai_timebase ` set ids))))"
proof (induction ids arbitrary: known m)
  case Nil
  then show ?case by simp
next
  case (Cons x ids)
  have "Max (insert (max m (ai_timebase x)) (ai_timebase ` set ids))
      = Max (insert m (insert (ai_timebase x) (ai_timebase ` set ids)))"
    by (cases "set ids = {}") (simp_all add: max.assoc)
  then show ?case unfolding scan_history.simps Cons.IH by auto
qed

lemma scan_history_eq:
  "scan_history i dead ids False TIMEBASE_ZERO =
     (if dead \<and> i \<in> set ids then Inl (Reject DeadRouteReplay)
      else Inr (i \<in> set ids, newest_emission (set ids)))"
  by (simp add: scan_history_Max newest_emission_def)

lemma newest_emission_ge: "finite ids \<Longrightarrow> i \<in> ids \<Longrightarrow> ai_timebase i \<le> newest_emission ids"
  by (simp add: newest_emission_def)

lemma max_u8_list_zero: "length xs = n \<Longrightarrow> replicate n (0 :: u8) \<le> xs"
  by (induction n arbitrary: xs) (auto simp: length_Suc_conv word_gt_0)

lemma timebase_zero_le: "length (timebase_bytes t) = TIMEBASE_LEN \<Longrightarrow> TIMEBASE_ZERO \<le> t"
  by (simp add: less_eq_monotonic_timebase_def TIMEBASE_ZERO_def max_u8_list_zero)

text \<open>The decision, with the loop replaced by what it computes.\<close>

lemma determine_acceptance_existing:
  assumes "in_packet_hops inp \<le> MAX_HOP_COUNT" "\<not> in_destination_is_self_or_upstream inp"
    and "in_existing_route inp = Some ex"
  defines "t \<equiv> ai_timebase (in_announce_id inp)" and "ids \<equiv> set (ex_announce_id_history ex)"
  shows "determine_acceptance inp =
    (if in_packet_hops inp \<le> ex_hops ex then
       if t = newest_emission ids
          \<and> gravity_preferred (in_incoming_interface_gravity inp) (ex_interface_gravity ex)
       then Accept EqualEvidenceHigherGravity
       else if in_announce_id inp \<in> ids then Reject KnownRouteReplay
       else if t > newest_emission ids then Accept KnownRouteFreshEvidence
       else Reject KnownRouteNoNewerEvidence
     else if in_arrived_at inp \<ge> ex_expires_at ex then
       if in_announce_id inp \<in> ids then Reject DeadRouteReplay
       else Accept ExpiredRouteSucceededByLongerAlternative
     else if t < newest_emission ids then Reject StaleEvidence
     else if t > newest_emission ids then Accept LongerAlternativeWithNewerEvidence
     else if ex_responsiveness ex = Unresponsive then Accept FailoverFromUnresponsiveIncumbent
     else Reject EqualEvidenceIncumbentStillWorking)"
  using assms(1-3)
  by (cases "ex_responsiveness ex")
    (auto simp: determine_acceptance_def scan_history_eq Let_def not_less t_def ids_def)

lemma determine_acceptance_other:
  "in_packet_hops inp > MAX_HOP_COUNT \<Longrightarrow> determine_acceptance inp = Reject ExceedsMaxHops"
  "in_packet_hops inp \<le> MAX_HOP_COUNT \<Longrightarrow> in_destination_is_self_or_upstream inp \<Longrightarrow>
     determine_acceptance inp = Reject DestinationIsSelfOrUpstream"
  "in_packet_hops inp \<le> MAX_HOP_COUNT \<Longrightarrow> \<not> in_destination_is_self_or_upstream inp \<Longrightarrow>
     in_existing_route inp = None \<Longrightarrow> determine_acceptance inp = Accept FirstSighting"
  by (auto simp: determine_acceptance_def)

lemma accepted_guards:
  assumes "determine_acceptance inp = Accept r"
  shows "in_packet_hops inp \<le> MAX_HOP_COUNT" "\<not> in_destination_is_self_or_upstream inp"
  using assms determine_acceptance_other(1,2) [of inp] by (auto simp: not_le [symmetric])

lemma bytes_less_iff:
  "length xs = length ys \<Longrightarrow> xs < ys \<longleftrightarrow> be_nat xs < be_nat ys"
proof (induction xs ys rule: list_induct2)
  case Nil
  then show ?case by simp
next
  case (Cons x xs y ys)
  have bx: "be_nat xs < 256 ^ length ys" and b_y: "be_nat ys < 256 ^ length ys"
    using be_nat_bound [of xs] be_nat_bound [of ys] Cons.hyps by simp_all
  have *: "unat a * 256 ^ length ys + u < unat b * 256 ^ length ys + v"
    if "unat a < unat b" "u < 256 ^ length ys" for a b :: u8 and u v
  proof -
    have "(unat a + 1) * 256 ^ length ys \<le> unat b * 256 ^ length ys"
      using that(1) by (intro mult_le_mono1) simp
    then have "unat a * 256 ^ length ys + 256 ^ length ys \<le> unat b * 256 ^ length ys"
      by (simp only: distrib_right mult_1)
    with that(2) show ?thesis by linarith
  qed
  consider "unat x < unat y" | "unat y < unat x" | "x = y"
    using linorder_neqE_nat by (metis word_unat_eq_iff)
  then show ?case
  proof cases
    case 1
    with * [OF 1 bx, of "be_nat ys"] Cons.hyps show ?thesis by (simp add: word_less_nat_alt)
  next
    case 2
    with * [OF 2 b_y, of "be_nat xs"] Cons.hyps show ?thesis by (auto simp: word_less_nat_alt)
  next
    case 3
    with Cons show ?thesis by simp
  qed
qed

lemma timebase_less_iff:
  assumes "length (timebase_bytes a) = TIMEBASE_LEN" "length (timebase_bytes b) = TIMEBASE_LEN"
  shows "a < b \<longleftrightarrow> timebase_as_count a < timebase_as_count b"
proof -
  have "unat (timebase_as_count t) = be_nat (timebase_bytes t)"
    if "length (timebase_bytes t) = TIMEBASE_LEN" for t
    using that by (simp add: timebase_as_count_def unat_from_be_bytes copy_into_def TIMEBASE_LEN_def)
  then show ?thesis
    using assms by (simp add: less_monotonic_timebase_def bytes_less_iff word_less_nat_alt)
qed

lemma mint_count: "timebase_as_count (ai_timebase (mint e now)) = (now div 1000) mod 2 ^ 40"
proof -
  have len: "length (drop 3 (to_be_bytes (now div 1000))) = 5" by simp
  have "unat (timebase_as_count (ai_timebase (mint e now))) = be_nat (drop 3 (to_be_bytes (now div 1000)))"
    using len by (simp add: timebase_as_count_def mint_def unat_from_be_bytes copy_into_def TIMEBASE_LEN_def Let_def)
  also have "\<dots> = unat (now div 1000) mod 2 ^ 40"
    using be_nat_drop_to_be_bytes [of 3 "now div 1000"] by simp
  finally show ?thesis
    by (simp add: word_unat_eq_iff unat_mod unat_div)
qed

lemma mint_wf: "length e = NONCE_LEN \<Longrightarrow> announce_id_wf (mint e now)"
  by (simp add: announce_id_wf_def mint_def Let_def TIMEBASE_LEN_def)

lemma announce_id_wire:
  assumes "announce_id_wf i"
  shows "announce_id_from_wire (announce_id_to_wire_bytes i) = i"
    "length (announce_id_to_wire_bytes i) = ANNOUNCE_ID_WIRE_LEN"
  using assms
  by (cases i; cases "ai_nonce i"; cases "ai_timebase i";
      simp add: announce_id_from_wire_def announce_id_to_wire_bytes_def announce_id_wf_def copy_into_def
        NONCE_LEN_def TIMEBASE_LEN_def ANNOUNCE_ID_WIRE_LEN_def)+

text \<open>A replay over an interface that is no better never replaces a route that is not marked unresponsive.\<close>

lemma replay_refused:
  assumes "in_existing_route inp = Some ex" "in_announce_id inp \<in> set (ex_announce_id_history ex)"
    and "\<not> gravity_preferred (in_incoming_interface_gravity inp) (ex_interface_gravity ex)"
    and "ex_responsiveness ex \<noteq> Unresponsive"
  shows "determine_acceptance inp \<noteq> Accept r"
proof
  assume acc: "determine_acceptance inp = Accept r"
  have "ai_timebase (in_announce_id inp) \<le> newest_emission (set (ex_announce_id_history ex))"
    using assms(2) by (simp add: newest_emission_ge)
  with acc assms accepted_guards [OF acc] determine_acceptance_existing [of inp ex] show False
    by (auto split: if_splits)
qed

section \<open>Properties\<close>

text \<open>
  C37. Replays. An announce whose id is already in the route's history changes the route in exactly two
  cases: it is as short as the route, no newer one has been heard and it came over an interface of
  higher gravity; or it is longer, no newer one has been heard, and the route it would replace is live
  but marked unresponsive. Every other replay is refused, on a dead route too.
\<close>

theorem replay_accepted_iff:
  assumes "in_existing_route inp = Some ex" and "in_announce_id inp \<in> set (ex_announce_id_history ex)"
    and wf: "announce_id_wf (in_announce_id inp)"
  shows "(\<exists>r. determine_acceptance inp = Accept r) \<longleftrightarrow>
    in_packet_hops inp \<le> MAX_HOP_COUNT \<and> \<not> in_destination_is_self_or_upstream inp
    \<and> (\<forall>stored\<in>set (ex_announce_id_history ex). ai_timebase stored \<le> ai_timebase (in_announce_id inp))
    \<and> (in_packet_hops inp \<le> ex_hops ex
         \<and> gravity_preferred (in_incoming_interface_gravity inp) (ex_interface_gravity ex)
       \<or> in_packet_hops inp > ex_hops ex \<and> in_arrived_at inp < ex_expires_at ex
         \<and> ex_responsiveness ex = Unresponsive)"
proof (cases "in_packet_hops inp \<le> MAX_HOP_COUNT \<and> \<not> in_destination_is_self_or_upstream inp")
  case True
  let ?ids = "set (ex_announce_id_history ex)" and ?t = "ai_timebase (in_announce_id inp)"
  have le: "?t \<le> newest_emission ?ids" using assms(2) by (simp add: newest_emission_ge)
  moreover have "newest_emission ?ids \<le> ?t \<longleftrightarrow> (\<forall>s\<in>?ids. ai_timebase s \<le> ?t)"
    using wf by (simp add: newest_emission_def timebase_zero_le announce_id_wf_def)
  ultimately have "?t = newest_emission ?ids \<longleftrightarrow> (\<forall>s\<in>?ids. ai_timebase s \<le> ?t)"
    by (auto intro: antisym)
  with le assms True determine_acceptance_existing [of inp ex] show ?thesis
    by (auto simp: not_le)
next
  case False
  then show ?thesis using accepted_guards [of inp] by blast
qed

definition sample_id :: announce_id where
  "sample_id = announce_id_from_wire [1, 2, 3, 4, 5, 0, 0, 0, 0, 9]"

definition sample_input :: acceptance_input where
  "sample_input =
     \<lparr>in_packet_hops = 3, in_announce_id = sample_id, in_destination_is_self_or_upstream = False,
      in_existing_route = Some \<lparr>ex_hops = 3, ex_expires_at = 100, ex_announce_id_history = [sample_id],
        ex_responsiveness = Unknown, ex_interface_gravity = Some 1\<rparr>,
      in_incoming_interface_gravity = Some 2, in_arrived_at = 50\<rparr>"

theorem replay_accepted_iff_witness:
  "\<exists>r. determine_acceptance sample_input = Accept r"
  using replay_accepted_iff [of sample_input "the (in_existing_route sample_input)"]
  by (simp add: sample_input_def MAX_HOP_COUNT_def gravity_preferred_def sample_id_def announce_id_wf_def
      announce_id_from_wire_def NONCE_LEN_def TIMEBASE_LEN_def)

text \<open>
  C38. Old evidence. An accepted announce for a known destination that is older than some stored one can
  only be the longer alternative to a route that has expired, and it has not been heard before.
\<close>

theorem stale_accepted_only_after_expiry:
  assumes "determine_acceptance inp = Accept r" "in_existing_route inp = Some ex"
    and "stored \<in> set (ex_announce_id_history ex)" "ai_timebase (in_announce_id inp) < ai_timebase stored"
  shows "r = ExpiredRouteSucceededByLongerAlternative \<and> ex_expires_at ex \<le> in_arrived_at inp
    \<and> in_packet_hops inp > ex_hops ex \<and> in_announce_id inp \<notin> set (ex_announce_id_history ex)"
proof -
  have "ai_timebase (in_announce_id inp) < newest_emission (set (ex_announce_id_history ex))"
    using newest_emission_ge [of "set (ex_announce_id_history ex)" stored] assms(3,4) by simp
  with assms(1,2) accepted_guards [OF assms(1)] determine_acceptance_existing [of inp ex] show ?thesis
    by (auto split: if_splits)
qed

theorem stale_accepted_only_after_expiry_witness:
  "determine_acceptance
     (sample_input\<lparr>in_packet_hops := 4, in_arrived_at := 100, in_announce_id := mint [1, 1, 1, 1, 1] 8000\<rparr>)
   = Accept ExpiredRouteSucceededByLongerAlternative \<and> mint [1, 1, 1, 1, 1] 8000 \<noteq> sample_id"
proof -
  let ?i = "sample_input\<lparr>in_packet_hops := 4, in_arrived_at := 100, in_announce_id := mint [1, 1, 1, 1, 1] 8000\<rparr>"
  have r: "determine_acceptance ?i = Accept ExpiredRouteSucceededByLongerAlternative" by code_simp
  have "ai_timebase (in_announce_id ?i) < ai_timebase sample_id" by code_simp
  with stale_accepted_only_after_expiry [OF r, of "the (in_existing_route sample_input)" sample_id] r
  show ?thesis by (simp add: sample_input_def)
qed

text \<open>
  Order independence. The decision depends on which ids the history holds, not on their order or on
  how often one was heard.
\<close>

theorem acceptance_ignores_history_order:
  assumes "set ids = set ids'"
  shows "determine_acceptance (inp\<lparr>in_existing_route := Some (ex\<lparr>ex_announce_id_history := ids\<rparr>)\<rparr>)
    = determine_acceptance (inp\<lparr>in_existing_route := Some (ex\<lparr>ex_announce_id_history := ids'\<rparr>)\<rparr>)"
  using assms by (simp add: determine_acceptance_def scan_history_eq Let_def)

theorem acceptance_ignores_history_order_witness:
  "determine_acceptance (sample_input\<lparr>in_existing_route := Some
      (the (in_existing_route sample_input)\<lparr>ex_announce_id_history := [sample_id, mint [] 0]\<rparr>)\<rparr>)
   = determine_acceptance (sample_input\<lparr>in_existing_route := Some
      (the (in_existing_route sample_input)\<lparr>ex_announce_id_history := [mint [] 0, sample_id, mint [] 0]\<rparr>)\<rparr>)"
  by (rule acceptance_ignores_history_order) auto

text \<open>
  Announce ids. An id survives its wire form; the byte order of timebases is the order of the clock
  readings they carry; and ids minted at later seconds compare greater, for clocks below 2 to the 40
  seconds, where the five bytes wrap.
\<close>

theorem announce_id_round_trip:
  assumes "announce_id_wf i" "length e = NONCE_LEN" "length e' = NONCE_LEN"
    and "now' div 1000 < 2 ^ 40" "now div 1000 < now' div 1000"
  shows "announce_id_from_wire (announce_id_to_wire_bytes i) = i
    \<and> length (announce_id_to_wire_bytes i) = ANNOUNCE_ID_WIRE_LEN
    \<and> announce_id_wf (mint e now) \<and> ai_timebase (mint e now) < ai_timebase (mint e' now')"
proof -
  have small: "x mod 2 ^ 40 = x" if "x < 2 ^ 40" for x :: u64
    using that by (simp add: word_unat_eq_iff unat_mod word_less_nat_alt)
  have "now div 1000 < 2 ^ 40" using assms(4,5) by (rule order.strict_trans [rotated])
  then have "ai_timebase (mint e now) < ai_timebase (mint e' now')"
    using assms mint_wf [of e now] mint_wf [of e' now']
    by (simp only: timebase_less_iff announce_id_wf_def mint_count small)
  with announce_id_wire [OF assms(1)] show ?thesis using mint_wf [OF assms(2)] by blast
qed

theorem announce_id_round_trip_witness:
  "announce_id_from_wire (announce_id_to_wire_bytes sample_id) = sample_id
   \<and> ai_timebase (mint [1, 2, 3, 4, 5] 1999) < ai_timebase (mint [0, 0, 0, 0, 0] 2000)"
  using announce_id_round_trip [of sample_id "[1, 2, 3, 4, 5]" "[0, 0, 0, 0, 0]" 2000 1999]
  by (simp add: announce_id_wf_def sample_id_def announce_id_from_wire_def NONCE_LEN_def TIMEBASE_LEN_def)

end
