(* ===== verification/Announce_Store.thy ===== *)
theory Announce_Store
  imports Announce_Acceptance Table_Rows
begin

text \<open>
  What is kept of the announce behind each route, \<^verbatim>\<open>prns-core/src/routing/announce/stored/\<close>: the
  contract \<open>AnnounceRecordTable\<close> with its fixed and growable implementations, and the contract
  \<open>AnnounceIdHistory\<close> with its fixed and growable implementations. Both run in step with the route table,
  row for row.
\<close>

section \<open>Records\<close>

record identity_public_keys =
  encryption_key :: "u8 list"
  signing_key :: "u8 list"

datatype dotted_name_hash = DottedNameHash (dotted_name_bytes: "u8 list")

datatype ratchet_key = RatchetKey (ratchet_bytes: "u8 list")

type_synonym signature = "u8 list"

record announce_record =
  ar_public_keys :: identity_public_keys
  ar_dotted_name_hash :: dotted_name_hash
  ar_announce_id :: announce_id
  ar_signature :: signature
  ar_ratchet :: "ratchet_key option"
  ar_app_data_handle :: "nat option"

record 'a record_table_ops =
  at_capacity :: "'a \<Rightarrow> nat"
  at_len :: "'a \<Rightarrow> nat"
  at_public_keys :: "'a \<Rightarrow> identity_public_keys list"
  at_dotted_name_hashes :: "'a \<Rightarrow> dotted_name_hash list"
  at_announce_ids :: "'a \<Rightarrow> announce_id list"
  at_ratchets :: "'a \<Rightarrow> ratchet_key option list"
  at_signatures :: "'a \<Rightarrow> signature list"
  at_app_data_handles :: "'a \<Rightarrow> nat option list"
  at_set_row :: "nat \<Rightarrow> announce_record \<Rightarrow> 'a \<Rightarrow> 'a"
  at_push :: "announce_record \<Rightarrow> 'a \<Rightarrow> table_push_error + nat \<times> 'a"
  at_swap_remove :: "nat \<Rightarrow> nat \<Rightarrow> 'a \<Rightarrow> 'a"

locale announce_record_table =
  fixes A :: "'a record_table_ops"
    and records :: "'a \<Rightarrow> announce_record list"
    and valid :: "'a \<Rightarrow> bool"
  assumes columns: "valid a \<Longrightarrow> at_len A a = length (records a)"
      "valid a \<Longrightarrow> at_public_keys A a = map ar_public_keys (records a)"
      "valid a \<Longrightarrow> at_dotted_name_hashes A a = map ar_dotted_name_hash (records a)"
      "valid a \<Longrightarrow> at_announce_ids A a = map ar_announce_id (records a)"
      "valid a \<Longrightarrow> at_ratchets A a = map ar_ratchet (records a)"
      "valid a \<Longrightarrow> at_signatures A a = map ar_signature (records a)"
      "valid a \<Longrightarrow> at_app_data_handles A a = map ar_app_data_handle (records a)"
    and set_row: "valid a \<Longrightarrow> i < length (records a) \<Longrightarrow>
      valid (at_set_row A i e a) \<and> at_capacity A (at_set_row A i e a) = at_capacity A a
      \<and> records (at_set_row A i e a) = (records a)[i := e]"
    and push_fits: "valid a \<Longrightarrow> length (records a) < at_capacity A a \<Longrightarrow>
      \<exists>a'. at_push A e a = Inr (length (records a), a') \<and> valid a' \<and> at_capacity A a' = at_capacity A a
        \<and> records a' = records a @ [e]"
    and swap_remove: "valid a \<Longrightarrow> i < length (records a) \<Longrightarrow>
      valid (at_swap_remove A i (length (records a) - 1) a)
      \<and> at_capacity A (at_swap_remove A i (length (records a) - 1) a) = at_capacity A a
      \<and> records (at_swap_remove A i (length (records a) - 1) a) = vec_swap_remove i (records a)"

subsection \<open>Fixed arrays\<close>

record fixed_record_table =
  fa_len :: nat
  fa_public_keys :: "identity_public_keys list"
  fa_dotted_name_hashes :: "dotted_name_hash list"
  fa_announce_ids :: "announce_id list"
  fa_ratchets :: "ratchet_key option list"
  fa_signatures :: "signature list"
  fa_app_data_handles :: "nat option list"

definition fixed_records_default :: "nat \<Rightarrow> fixed_record_table" where
  "fixed_records_default max_tracked =
     \<lparr>fa_len = 0,
      fa_public_keys = replicate max_tracked \<lparr>encryption_key = replicate 32 0, signing_key = replicate 32 0\<rparr>,
      fa_dotted_name_hashes = replicate max_tracked (DottedNameHash (replicate 10 0)),
      fa_announce_ids = replicate max_tracked (announce_id_from_wire (replicate 10 0)),
      fa_ratchets = replicate max_tracked None,
      fa_signatures = replicate max_tracked (replicate 64 0),
      fa_app_data_handles = replicate max_tracked None\<rparr>"

text \<open>\<open>MAX_TRACKED_DESTINATIONS\<close>, the length every column has.\<close>

definition fixed_records_capacity :: "fixed_record_table \<Rightarrow> nat" where
  "fixed_records_capacity a = length (fa_public_keys a)"

definition fixed_records_column :: "(fixed_record_table \<Rightarrow> 'c list) \<Rightarrow> fixed_record_table \<Rightarrow> 'c list" where
  "fixed_records_column col a = take (fa_len a) (col a)"

definition fixed_records_set_row :: "nat \<Rightarrow> announce_record \<Rightarrow> fixed_record_table \<Rightarrow> fixed_record_table" where
  "fixed_records_set_row i row a =
     a\<lparr>fa_public_keys := (fa_public_keys a)[i := ar_public_keys row],
       fa_dotted_name_hashes := (fa_dotted_name_hashes a)[i := ar_dotted_name_hash row],
       fa_announce_ids := (fa_announce_ids a)[i := ar_announce_id row],
       fa_ratchets := (fa_ratchets a)[i := ar_ratchet row],
       fa_signatures := (fa_signatures a)[i := ar_signature row],
       fa_app_data_handles := (fa_app_data_handles a)[i := ar_app_data_handle row]\<rparr>"

definition fixed_records_push ::
  "announce_record \<Rightarrow> fixed_record_table \<Rightarrow> table_push_error + nat \<times> fixed_record_table" where
  "fixed_records_push row a =
     (if fa_len a \<ge> fixed_records_capacity a then Inl TableFull
      else
        let i = fa_len a; a = fixed_records_set_row i row a
        in Inr (i, a\<lparr>fa_len := fa_len a + 1\<rparr>))"

definition fixed_records_swap_remove :: "nat \<Rightarrow> nat \<Rightarrow> fixed_record_table \<Rightarrow> fixed_record_table" where
  "fixed_records_swap_remove i lst a =
     a\<lparr>fa_public_keys := (fa_public_keys a)[i := fa_public_keys a ! lst],
       fa_dotted_name_hashes := (fa_dotted_name_hashes a)[i := fa_dotted_name_hashes a ! lst],
       fa_announce_ids := (fa_announce_ids a)[i := fa_announce_ids a ! lst],
       fa_ratchets := (fa_ratchets a)[i := fa_ratchets a ! lst],
       fa_signatures := (fa_signatures a)[i := fa_signatures a ! lst],
       fa_app_data_handles := (fa_app_data_handles a)[i := fa_app_data_handles a ! lst],
       fa_len := lst\<rparr>"

definition fixed_records :: "fixed_record_table record_table_ops" where
  "fixed_records =
     \<lparr>at_capacity = fixed_records_capacity, at_len = fa_len,
      at_public_keys = fixed_records_column fa_public_keys,
      at_dotted_name_hashes = fixed_records_column fa_dotted_name_hashes,
      at_announce_ids = fixed_records_column fa_announce_ids, at_ratchets = fixed_records_column fa_ratchets,
      at_signatures = fixed_records_column fa_signatures,
      at_app_data_handles = fixed_records_column fa_app_data_handles,
      at_set_row = fixed_records_set_row, at_push = fixed_records_push,
      at_swap_remove = fixed_records_swap_remove\<rparr>"

definition fixed_records_ok :: "fixed_record_table \<Rightarrow> bool" where
  "fixed_records_ok a =
     (let n = fixed_records_capacity a
      in fa_len a \<le> n \<and> length (fa_dotted_name_hashes a) = n \<and> length (fa_announce_ids a) = n
         \<and> length (fa_ratchets a) = n \<and> length (fa_signatures a) = n \<and> length (fa_app_data_handles a) = n)"

definition fixed_records_row_at :: "fixed_record_table \<Rightarrow> nat \<Rightarrow> announce_record" where
  "fixed_records_row_at a i =
     \<lparr>ar_public_keys = fa_public_keys a ! i, ar_dotted_name_hash = fa_dotted_name_hashes a ! i,
      ar_announce_id = fa_announce_ids a ! i, ar_signature = fa_signatures a ! i,
      ar_ratchet = fa_ratchets a ! i, ar_app_data_handle = fa_app_data_handles a ! i\<rparr>"

definition fixed_records_rows :: "fixed_record_table \<Rightarrow> announce_record list" where
  "fixed_records_rows a = map (fixed_records_row_at a) [0..<fa_len a]"

lemma length_fixed_records_rows [simp]: "length (fixed_records_rows a) = fa_len a"
  by (simp add: fixed_records_rows_def)

lemma nth_fixed_records_rows [simp]: "i < fa_len a \<Longrightarrow> fixed_records_rows a ! i = fixed_records_row_at a i"
  by (simp add: fixed_records_rows_def)

lemma fixed_records_ok_len: "fixed_records_ok a \<Longrightarrow> fa_len a \<le> fixed_records_capacity a"
  by (simp add: fixed_records_ok_def Let_def)

lemma fixed_records_okD:
  assumes "fixed_records_ok a"
  shows "length (fa_public_keys a) = fixed_records_capacity a"
    "length (fa_dotted_name_hashes a) = fixed_records_capacity a"
    "length (fa_announce_ids a) = fixed_records_capacity a" "length (fa_ratchets a) = fixed_records_capacity a"
    "length (fa_signatures a) = fixed_records_capacity a"
    "length (fa_app_data_handles a) = fixed_records_capacity a"
  using assms by (simp_all add: fixed_records_ok_def Let_def fixed_records_capacity_def)

lemma fixed_records_default_ok: "fixed_records_ok (fixed_records_default n)"
  by (simp add: fixed_records_ok_def fixed_records_default_def fixed_records_capacity_def Let_def)

lemma fixed_records_columns:
  assumes "fixed_records_ok a"
  shows "fixed_records_column fa_public_keys a = map ar_public_keys (fixed_records_rows a)"
    "fixed_records_column fa_dotted_name_hashes a = map ar_dotted_name_hash (fixed_records_rows a)"
    "fixed_records_column fa_announce_ids a = map ar_announce_id (fixed_records_rows a)"
    "fixed_records_column fa_ratchets a = map ar_ratchet (fixed_records_rows a)"
    "fixed_records_column fa_signatures a = map ar_signature (fixed_records_rows a)"
    "fixed_records_column fa_app_data_handles a = map ar_app_data_handle (fixed_records_rows a)"
  using assms fixed_records_ok_len [OF assms]
  by (simp_all add: fixed_records_column_def take_column fixed_records_okD fixed_records_rows_def
      fixed_records_row_at_def o_def)

lemma fixed_records_set_row_at:
  assumes "fixed_records_ok a" "i < fixed_records_capacity a"
  shows "fixed_records_ok (fixed_records_set_row i e a)"
    and "fixed_records_capacity (fixed_records_set_row i e a) = fixed_records_capacity a"
    and "fa_len (fixed_records_set_row i e a) = fa_len a"
    and "fixed_records_row_at (fixed_records_set_row i e a) j = (if j = i then e else fixed_records_row_at a j)"
proof -
  show "fixed_records_ok (fixed_records_set_row i e a)"
    using assms by (simp add: fixed_records_ok_def fixed_records_set_row_def fixed_records_capacity_def Let_def)
  show "fixed_records_row_at (fixed_records_set_row i e a) j = (if j = i then e else fixed_records_row_at a j)"
    using assms by (cases e) (simp add: fixed_records_row_at_def fixed_records_set_row_def fixed_records_okD)
qed (simp_all add: fixed_records_set_row_def fixed_records_capacity_def)

lemma fixed_records_push_fits:
  assumes "fixed_records_ok a" "fa_len a < fixed_records_capacity a"
  shows "\<exists>a'. fixed_records_push e a = Inr (fa_len a, a') \<and> fixed_records_ok a'
    \<and> fixed_records_capacity a' = fixed_records_capacity a
    \<and> fixed_records_rows a' = fixed_records_rows a @ [e]"
proof -
  let ?n = "fa_len a" and ?a = "(fixed_records_set_row (fa_len a) e a)\<lparr>fa_len := Suc (fa_len a)\<rparr>"
  note s = fixed_records_set_row_at [OF assms, of e]
  have row: "fixed_records_row_at ?a i = (if i = ?n then e else fixed_records_row_at a i)" for i
    using s(4) [of i] by (simp add: fixed_records_row_at_def)
  have "fixed_records_push e a = Inr (?n, ?a)"
    using assms(2) s(3) by (simp add: fixed_records_push_def Let_def)
  moreover have "fixed_records_ok ?a" "fixed_records_capacity ?a = fixed_records_capacity a"
    using s(1,2) assms(2) by (simp_all add: fixed_records_ok_def fixed_records_capacity_def Let_def)
  moreover have "fixed_records_rows ?a = fixed_records_rows a @ [e]"
    by (intro nth_equalityI) (auto simp: row nth_append less_Suc_eq)
  ultimately show ?thesis by blast
qed

lemma fixed_records_swap_remove_ok:
  assumes "fixed_records_ok a" "i < fa_len a"
  defines "a' \<equiv> fixed_records_swap_remove i (fa_len a - 1) a"
  shows "fixed_records_ok a'" "fixed_records_capacity a' = fixed_records_capacity a"
    and "fixed_records_rows a' = vec_swap_remove i (fixed_records_rows a)"
proof -
  show "fixed_records_ok a'" "fixed_records_capacity a' = fixed_records_capacity a"
    using assms(1,2)
    by (simp_all add: a'_def fixed_records_ok_def fixed_records_swap_remove_def fixed_records_capacity_def Let_def
        le_diff_conv)
  have i: "i < fixed_records_capacity a" using assms(2) fixed_records_ok_len [OF assms(1)] by linarith
  have row: "fixed_records_row_at a' j =
      (if j = i then fixed_records_row_at a (fa_len a - 1) else fixed_records_row_at a j)" for j
    using assms(1) i
    by (simp add: a'_def fixed_records_row_at_def fixed_records_swap_remove_def fixed_records_okD)
  have len: "fa_len a' = fa_len a - 1" by (simp add: a'_def fixed_records_swap_remove_def)
  have "fixed_records_rows a \<noteq> []" using assms(2) by (auto simp: fixed_records_rows_def)
  then have "last (fixed_records_rows a) = fixed_records_row_at a (fa_len a - 1)"
    using assms(2) by (simp add: last_conv_nth)
  then show "fixed_records_rows a' = vec_swap_remove i (fixed_records_rows a)"
    using assms(2) by (intro nth_equalityI) (simp_all add: len row nth_vec_swap_remove)
qed

lemma fixed_records_sel:
  "at_capacity fixed_records = fixed_records_capacity" "at_len fixed_records = fa_len"
  "at_public_keys fixed_records = fixed_records_column fa_public_keys"
  "at_dotted_name_hashes fixed_records = fixed_records_column fa_dotted_name_hashes"
  "at_announce_ids fixed_records = fixed_records_column fa_announce_ids"
  "at_ratchets fixed_records = fixed_records_column fa_ratchets"
  "at_signatures fixed_records = fixed_records_column fa_signatures"
  "at_app_data_handles fixed_records = fixed_records_column fa_app_data_handles"
  "at_set_row fixed_records = fixed_records_set_row" "at_push fixed_records = fixed_records_push"
  "at_swap_remove fixed_records = fixed_records_swap_remove"
  by (simp_all add: fixed_records_def)

interpretation fixed_at: announce_record_table fixed_records fixed_records_rows fixed_records_ok
proof (unfold_locales, unfold fixed_records_sel, goal_cases)
  case (8 a i e)
  then have i: "i < fixed_records_capacity a" using fixed_records_ok_len [OF 8(1)] by simp
  note s = fixed_records_set_row_at [OF 8(1) i, of e]
  have "fixed_records_rows (fixed_records_set_row i e a) = (fixed_records_rows a)[i := e]"
    using 8(2) by (intro nth_equalityI) (simp_all add: s(3,4) nth_list_update)
  with s(1,2) show ?case by blast
next
  case (9 a e)
  then show ?case using fixed_records_push_fits [of a e] by simp
next
  case (10 a i)
  then show ?case using fixed_records_swap_remove_ok [of a i] by simp
qed (simp_all add: fixed_records_columns)

subsection \<open>Growable columns\<close>

record heap_record_table =
  ha_public_keys :: "identity_public_keys list"
  ha_dotted_name_hashes :: "dotted_name_hash list"
  ha_announce_ids :: "announce_id list"
  ha_ratchets :: "ratchet_key option list"
  ha_signatures :: "signature list"
  ha_app_data_handles :: "nat option list"

definition heap_records_default :: heap_record_table where
  "heap_records_default =
     \<lparr>ha_public_keys = [], ha_dotted_name_hashes = [], ha_announce_ids = [], ha_ratchets = [],
      ha_signatures = [], ha_app_data_handles = []\<rparr>"

definition heap_records_len :: "heap_record_table \<Rightarrow> nat" where
  "heap_records_len a = length (ha_public_keys a)"

definition heap_records_set_row :: "nat \<Rightarrow> announce_record \<Rightarrow> heap_record_table \<Rightarrow> heap_record_table" where
  "heap_records_set_row i row a =
     a\<lparr>ha_public_keys := (ha_public_keys a)[i := ar_public_keys row],
       ha_dotted_name_hashes := (ha_dotted_name_hashes a)[i := ar_dotted_name_hash row],
       ha_announce_ids := (ha_announce_ids a)[i := ar_announce_id row],
       ha_ratchets := (ha_ratchets a)[i := ar_ratchet row],
       ha_signatures := (ha_signatures a)[i := ar_signature row],
       ha_app_data_handles := (ha_app_data_handles a)[i := ar_app_data_handle row]\<rparr>"

definition heap_records_push ::
  "announce_record \<Rightarrow> heap_record_table \<Rightarrow> table_push_error + nat \<times> heap_record_table" where
  "heap_records_push row a =
     (let i = length (ha_public_keys a)
      in Inr (i, a\<lparr>ha_public_keys := ha_public_keys a @ [ar_public_keys row],
                   ha_dotted_name_hashes := ha_dotted_name_hashes a @ [ar_dotted_name_hash row],
                   ha_announce_ids := ha_announce_ids a @ [ar_announce_id row],
                   ha_ratchets := ha_ratchets a @ [ar_ratchet row],
                   ha_signatures := ha_signatures a @ [ar_signature row],
                   ha_app_data_handles := ha_app_data_handles a @ [ar_app_data_handle row]\<rparr>))"

definition heap_records_swap_remove :: "nat \<Rightarrow> nat \<Rightarrow> heap_record_table \<Rightarrow> heap_record_table" where
  "heap_records_swap_remove i lst a =
     a\<lparr>ha_public_keys := vec_swap_remove i (ha_public_keys a),
       ha_dotted_name_hashes := vec_swap_remove i (ha_dotted_name_hashes a),
       ha_announce_ids := vec_swap_remove i (ha_announce_ids a),
       ha_ratchets := vec_swap_remove i (ha_ratchets a),
       ha_signatures := vec_swap_remove i (ha_signatures a),
       ha_app_data_handles := vec_swap_remove i (ha_app_data_handles a)\<rparr>"

definition heap_records :: "heap_record_table record_table_ops" where
  "heap_records =
     \<lparr>at_capacity = (\<lambda>_. USIZE_MAX), at_len = heap_records_len, at_public_keys = ha_public_keys,
      at_dotted_name_hashes = ha_dotted_name_hashes, at_announce_ids = ha_announce_ids,
      at_ratchets = ha_ratchets, at_signatures = ha_signatures, at_app_data_handles = ha_app_data_handles,
      at_set_row = heap_records_set_row, at_push = heap_records_push,
      at_swap_remove = heap_records_swap_remove\<rparr>"

definition heap_records_ok :: "heap_record_table \<Rightarrow> bool" where
  "heap_records_ok a =
     (let n = length (ha_public_keys a)
      in length (ha_dotted_name_hashes a) = n \<and> length (ha_announce_ids a) = n \<and> length (ha_ratchets a) = n
         \<and> length (ha_signatures a) = n \<and> length (ha_app_data_handles a) = n)"

definition heap_records_row_at :: "heap_record_table \<Rightarrow> nat \<Rightarrow> announce_record" where
  "heap_records_row_at a i =
     \<lparr>ar_public_keys = ha_public_keys a ! i, ar_dotted_name_hash = ha_dotted_name_hashes a ! i,
      ar_announce_id = ha_announce_ids a ! i, ar_signature = ha_signatures a ! i,
      ar_ratchet = ha_ratchets a ! i, ar_app_data_handle = ha_app_data_handles a ! i\<rparr>"

definition heap_records_rows :: "heap_record_table \<Rightarrow> announce_record list" where
  "heap_records_rows a = map (heap_records_row_at a) [0..<heap_records_len a]"

lemma length_heap_records_rows [simp]: "length (heap_records_rows a) = heap_records_len a"
  by (simp add: heap_records_rows_def)

lemma nth_heap_records_rows [simp]:
  "i < heap_records_len a \<Longrightarrow> heap_records_rows a ! i = heap_records_row_at a i"
  by (simp add: heap_records_rows_def)

lemma map_rows_column: "length xs = n \<Longrightarrow> map ((!) xs) [0..<n] = xs"
  by (intro nth_equalityI) simp_all

lemma heap_records_columns:
  assumes "heap_records_ok a"
  shows "ha_public_keys a = map ar_public_keys (heap_records_rows a)"
    "ha_dotted_name_hashes a = map ar_dotted_name_hash (heap_records_rows a)"
    "ha_announce_ids a = map ar_announce_id (heap_records_rows a)"
    "ha_ratchets a = map ar_ratchet (heap_records_rows a)"
    "ha_signatures a = map ar_signature (heap_records_rows a)"
    "ha_app_data_handles a = map ar_app_data_handle (heap_records_rows a)"
  using assms
  by (simp_all add: map_rows_column heap_records_ok_def heap_records_rows_def heap_records_row_at_def heap_records_len_def o_def
      Let_def)

lemma heap_records_set_row_rows:
  assumes "heap_records_ok a" "i < heap_records_len a"
  shows "heap_records_ok (heap_records_set_row i e a)
    \<and> heap_records_rows (heap_records_set_row i e a) = (heap_records_rows a)[i := e]"
proof
  show "heap_records_ok (heap_records_set_row i e a)"
    using assms by (simp add: heap_records_ok_def heap_records_set_row_def Let_def)
  have len: "heap_records_len (heap_records_set_row i e a) = heap_records_len a"
    by (simp add: heap_records_len_def heap_records_set_row_def)
  have "heap_records_row_at (heap_records_set_row i e a) j = (if j = i then e else heap_records_row_at a j)" for j
    using assms
    by (cases e) (simp add: heap_records_row_at_def heap_records_set_row_def heap_records_ok_def heap_records_len_def Let_def)
  then show "heap_records_rows (heap_records_set_row i e a) = (heap_records_rows a)[i := e]"
    using assms(2) by (intro nth_equalityI) (simp_all add: len nth_list_update)
qed

lemma heap_records_push_rows:
  assumes "heap_records_ok a"
  shows "\<exists>a'. heap_records_push e a = Inr (heap_records_len a, a') \<and> heap_records_ok a'
    \<and> heap_records_rows a' = heap_records_rows a @ [e]"
proof -
  obtain a' where a': "heap_records_push e a = Inr (heap_records_len a, a')"
    by (simp add: heap_records_push_def heap_records_len_def Let_def)
  have "heap_records_ok a'" "heap_records_len a' = Suc (heap_records_len a)"
    using a' assms by (auto simp: heap_records_push_def heap_records_ok_def heap_records_len_def Let_def)
  moreover have "heap_records_row_at a' i = (if i = heap_records_len a then e else heap_records_row_at a i)"
    if "i \<le> heap_records_len a" for i
    using a' assms that
    by (cases e) (auto simp: heap_records_push_def heap_records_ok_def heap_records_len_def heap_records_row_at_def
        nth_append Let_def)
  ultimately have "heap_records_rows a' = heap_records_rows a @ [e]"
    by (intro nth_equalityI) (auto simp: nth_append less_Suc_eq)
  with a' \<open>heap_records_ok a'\<close> show ?thesis by blast
qed

lemma heap_records_swap_remove_rows:
  assumes "heap_records_ok a" "i < heap_records_len a"
  shows "heap_records_ok (heap_records_swap_remove i lst a)
    \<and> heap_records_rows (heap_records_swap_remove i lst a) = vec_swap_remove i (heap_records_rows a)"
proof
  let ?a = "heap_records_swap_remove i lst a" and ?n = "heap_records_len a"
  show "heap_records_ok ?a"
    using assms by (simp add: heap_records_ok_def heap_records_swap_remove_def Let_def)
  have len: "heap_records_len ?a = ?n - 1"
    by (simp add: heap_records_len_def heap_records_swap_remove_def)
  have "heap_records_rows a \<noteq> []" using assms(2) by (auto simp: heap_records_rows_def)
  then have last: "last (heap_records_rows a) = heap_records_row_at a (?n - 1)"
    using assms(2) by (simp add: last_conv_nth)
  have col: "vec_swap_remove i xs ! j = (if j = i then xs ! (?n - 1) else xs ! j)"
    if "length xs = ?n" "j < ?n - 1" for xs :: "'c list" and j
  proof -
    have "xs \<noteq> []" using that assms(2) by auto
    with that assms(2) show ?thesis by (simp add: nth_vec_swap_remove last_conv_nth)
  qed
  have "heap_records_row_at ?a j = (if j = i then heap_records_row_at a (?n - 1) else heap_records_row_at a j)"
    if "j < ?n - 1" for j
    using assms(1) that
    by (simp add: heap_records_row_at_def heap_records_swap_remove_def col heap_records_ok_def heap_records_len_def Let_def)
  then show "heap_records_rows ?a = vec_swap_remove i (heap_records_rows a)"
    using assms(2) by (intro nth_equalityI) (simp_all add: len nth_vec_swap_remove last)
qed

interpretation heap_at: announce_record_table heap_records heap_records_rows heap_records_ok
proof (unfold_locales, goal_cases)
  case (8 a i e)
  then show ?case using heap_records_set_row_rows [of a i e] by (simp add: heap_records_def)
next
  case (9 a e)
  then show ?case using heap_records_push_rows [of a e] by (simp add: heap_records_def)
next
  case (10 a i)
  then show ?case using heap_records_swap_remove_rows [of a i] by (simp add: heap_records_def)
qed (simp_all add: heap_records_def heap_records_columns [symmetric])

section \<open>Announce id histories\<close>

datatype remember_outcome = AlreadyKnown | StoredFresh | StoredEvictingOldest

record 'h id_history_ops =
  ih_history :: "'h \<Rightarrow> nat \<Rightarrow> announce_id list"
  ih_remember :: "nat \<Rightarrow> announce_id \<Rightarrow> 'h \<Rightarrow> remember_outcome \<times> 'h"
  ih_swap_remove :: "nat \<Rightarrow> nat \<Rightarrow> 'h \<Rightarrow> 'h"

text \<open>What remembering one more id does to a slot: nothing twice, oldest out when the ring is full.\<close>

definition remember_id :: "nat \<Rightarrow> announce_id list \<Rightarrow> announce_id \<Rightarrow> remember_outcome \<times> announce_id list" where
  "remember_id cap ids i =
     (if i \<in> set ids then (AlreadyKnown, ids)
      else if length ids < cap then (StoredFresh, ids @ [i])
      else (StoredEvictingOldest, tl ids @ [i]))"

text \<open>
  The contract of a history with \<open>cap\<close> ids per slot, for the slots the table has. Removing the row
  \<open>i\<close> of a table whose last row is \<open>lst\<close> moves the last slot into \<open>i\<close> and empties it.
\<close>

locale announce_id_history =
  fixes H :: "'h id_history_ops"
    and cap :: nat
    and slot_ok :: "nat \<Rightarrow> bool"
    and valid :: "'h \<Rightarrow> bool"
  assumes cap: "valid h \<Longrightarrow> 0 < cap"
    and bounded: "valid h \<Longrightarrow> slot_ok j \<Longrightarrow> length (ih_history H h j) \<le> cap \<and> distinct (ih_history H h j)"
    and remember: "valid h \<Longrightarrow> slot_ok s \<Longrightarrow> ih_remember H s x h = (out, h') \<Longrightarrow>
      valid h' \<and> (out, ih_history H h' s) = remember_id cap (ih_history H h s) x
      \<and> (\<forall>j. slot_ok j \<and> j \<noteq> s \<longrightarrow> ih_history H h' j = ih_history H h j)"
    and swap_remove: "valid h \<Longrightarrow> slot_ok lst \<Longrightarrow> i \<le> lst \<Longrightarrow>
      valid (ih_swap_remove H i lst h) \<and> ih_history H (ih_swap_remove H i lst h) lst = []
      \<and> (\<forall>j<lst. ih_history H (ih_swap_remove H i lst h) j =
           (if j = i then ih_history H h lst else ih_history H h j))
      \<and> (\<forall>j. slot_ok j \<and> lst < j \<longrightarrow>
           ih_history H (ih_swap_remove H i lst h) j \<in> {[], ih_history H h j})"
    and slots_below: "slot_ok j \<Longrightarrow> k < j \<Longrightarrow> slot_ok k"

lemma remember_id_keeps:
  assumes "0 < cap" "length ids \<le> cap" "distinct ids" "remember_id cap ids i = (out, ids')"
  shows "length ids' \<le> cap" "distinct ids'" "i \<in> set ids'" "set ids' \<subseteq> insert i (set ids)"
  using assms by (cases ids; auto simp: remember_id_def split: if_splits)+

subsection \<open>Fixed rings\<close>

record fixed_id_history =
  fh_rows :: "announce_id list list"
  fh_len :: "u8 list"

definition fixed_ids_default :: "nat \<Rightarrow> nat \<Rightarrow> fixed_id_history" where
  "fixed_ids_default max_destinations max_per_destination =
     (let zero = announce_id_from_wire (replicate 10 0)
      in \<lparr>fh_rows = replicate max_destinations (replicate max_per_destination zero),
          fh_len = replicate max_destinations 0\<rparr>)"

definition fixed_ids_history :: "fixed_id_history \<Rightarrow> nat \<Rightarrow> announce_id list" where
  "fixed_ids_history h slot = take (unat (fh_len h ! slot)) (fh_rows h ! slot)"

definition fixed_ids_remember ::
  "nat \<Rightarrow> nat \<Rightarrow> announce_id \<Rightarrow> fixed_id_history \<Rightarrow> remember_outcome \<times> fixed_id_history" where
  "fixed_ids_remember max_per_destination slot i h =
     (let len = unat (fh_len h ! slot); row = fh_rows h ! slot
      in if i \<in> set (take len row) then (AlreadyKnown, h)
         else if len < max_per_destination then
           (StoredFresh, h\<lparr>fh_rows := (fh_rows h)[slot := row[len := i]],
                           fh_len := (fh_len h)[slot := word_of_nat (len + 1)]\<rparr>)
         else
           (StoredEvictingOldest,
            h\<lparr>fh_rows := (fh_rows h)[slot := (copy_within row 1 (length row - 1) 0)[max_per_destination - 1 := i]]\<rparr>))"

definition fixed_ids_swap_remove :: "nat \<Rightarrow> nat \<Rightarrow> fixed_id_history \<Rightarrow> fixed_id_history" where
  "fixed_ids_swap_remove i lst h =
     (let h = h\<lparr>fh_rows := (fh_rows h)[i := fh_rows h ! lst]\<rparr>;
          h = h\<lparr>fh_len := (fh_len h)[i := fh_len h ! lst]\<rparr>
      in h\<lparr>fh_len := (fh_len h)[lst := 0]\<rparr>)"

definition fixed_ids :: "nat \<Rightarrow> fixed_id_history id_history_ops" where
  "fixed_ids max_per_destination =
     \<lparr>ih_history = fixed_ids_history, ih_remember = fixed_ids_remember max_per_destination,
      ih_swap_remove = fixed_ids_swap_remove\<rparr>"

text \<open>\<open>MAX_PER_DESTINATION\<close> is at least one and fits a \<open>u8\<close>, as \<open>remember\<close> asserts at compile time.\<close>

definition fixed_ids_ok :: "nat \<Rightarrow> nat \<Rightarrow> fixed_id_history \<Rightarrow> bool" where
  "fixed_ids_ok destinations per h =
     (0 < per \<and> per < 256 \<and> length (fh_rows h) = destinations \<and> length (fh_len h) = destinations
      \<and> (\<forall>s<destinations. length (fh_rows h ! s) = per \<and> unat (fh_len h ! s) \<le> per
           \<and> distinct (fixed_ids_history h s)))"

lemma fixed_ids_default_ok: "0 < per \<Longrightarrow> per < 256 \<Longrightarrow> fixed_ids_ok destinations per (fixed_ids_default destinations per)"
  by (simp add: fixed_ids_ok_def fixed_ids_default_def fixed_ids_history_def Let_def)

lemma shift_ring:
  assumes "length row = n" "0 < n"
  shows "(copy_within row 1 (length row - 1) 0)[n - 1 := i] = tl row @ [i]"
proof (rule nth_equalityI)
  show "length ((copy_within row 1 (length row - 1) 0)[n - 1 := i]) = length (tl row @ [i])"
    using assms by simp
  fix j assume "j < length ((copy_within row 1 (length row - 1) 0)[n - 1 := i])"
  then have "j < n" using assms by simp
  then show "(copy_within row 1 (length row - 1) 0)[n - 1 := i] ! j = (tl row @ [i]) ! j"
    using assms by (auto simp: nth_list_update nth_copy_within nth_append nth_tl)
qed

lemma fixed_ids_remember_history:
  assumes ok: "fixed_ids_ok D per h" and s: "s < D"
    and rem: "fixed_ids_remember per s i h = (out, h')"
  shows "(out, fixed_ids_history h' s) = remember_id per (fixed_ids_history h s) i"
    and "j < D \<Longrightarrow> j \<noteq> s \<Longrightarrow> fixed_ids_history h' j = fixed_ids_history h j \<and> fh_rows h' ! j = fh_rows h ! j
      \<and> fh_len h' ! j = fh_len h ! j"
    and "length (fh_rows h') = D \<and> length (fh_len h') = D \<and> length (fh_rows h' ! s) = per
      \<and> unat (fh_len h' ! s) \<le> per"
proof -
  let ?len = "unat (fh_len h ! s)" and ?row = "fh_rows h ! s"
  have k: "length ?row = per" "?len \<le> per" "length (fh_rows h) = D" "length (fh_len h) = D"
    and per: "0 < per" "per < 256"
    using ok s by (simp_all add: fixed_ids_ok_def)
  have succ: "unat (word_of_nat (?len + 1) :: u8) = ?len + 1" if "?len < per"
    using that per(2) by (simp only: unat_of_nat) (simp add: take_bit_nat_eq_self)
  have full: "take ?len ?row = ?row" if "\<not> ?len < per" using that k by simp
  show "(out, fixed_ids_history h' s) = remember_id per (fixed_ids_history h s) i"
  proof (cases "?len < per")
    case True
    with rem k s succ show ?thesis
      by (auto simp: fixed_ids_remember_def fixed_ids_history_def remember_id_def Let_def take_Suc_conv_app_nth
          split: if_splits)
  next
    case False
    then have len: "?len = per" using k(2) by simp
    have h': "(out, h') = (if i \<in> set ?row then (AlreadyKnown, h)
        else (StoredEvictingOldest, h\<lparr>fh_rows := (fh_rows h)[s := tl ?row @ [i]]\<rparr>))"
      using rem len shift_ring [OF k(1) per(1), of i] k(1)
      by (auto simp: fixed_ids_remember_def Let_def split: if_splits)
    have "take ?len (tl ?row @ [i]) = tl ?row @ [i]" using k(1) len per(1) by simp
    with h' len k s show ?thesis
      by (auto simp: fixed_ids_history_def remember_id_def simp del: take_append split: if_splits)
  qed
  show "length (fh_rows h') = D \<and> length (fh_len h') = D \<and> length (fh_rows h' ! s) = per
      \<and> unat (fh_len h' ! s) \<le> per"
    using rem k s succ per by (auto simp: fixed_ids_remember_def Let_def split: if_splits)
  show "j < D \<Longrightarrow> j \<noteq> s \<Longrightarrow> fixed_ids_history h' j = fixed_ids_history h j \<and> fh_rows h' ! j = fh_rows h ! j
      \<and> fh_len h' ! j = fh_len h ! j"
    using rem by (auto simp: fixed_ids_remember_def fixed_ids_history_def Let_def split: if_splits)
qed

lemma fixed_ids_remember_ok:
  assumes ok: "fixed_ids_ok D per h" and s: "s < D"
    and rem: "fixed_ids_remember per s i h = (out, h')"
  shows "fixed_ids_ok D per h'"
proof -
  note r = fixed_ids_remember_history [OF assms]
  have per: "0 < per" using ok by (simp add: fixed_ids_ok_def)
  have "length (fixed_ids_history h s) \<le> per" "distinct (fixed_ids_history h s)"
    using ok s by (simp_all add: fixed_ids_ok_def fixed_ids_history_def)
  from remember_id_keeps(2) [OF per this, of i out "fixed_ids_history h' s"] r(1)
  have "distinct (fixed_ids_history h' s)" by simp
  then show ?thesis
    using ok r(2,3) unfolding fixed_ids_ok_def by metis
qed

lemma fixed_ids_swap_remove_history:
  assumes ok: "fixed_ids_ok D per h" and "lst < D" "i \<le> lst"
  defines "h' \<equiv> fixed_ids_swap_remove i lst h"
  shows "fixed_ids_ok D per h'"
    and "j < D \<Longrightarrow> fixed_ids_history h' j =
      (if j = lst then [] else if j = i then fixed_ids_history h lst else fixed_ids_history h j)"
proof -
  have k: "length (fh_rows h) = D" "length (fh_len h) = D" using ok by (simp_all add: fixed_ids_ok_def)
  have rows: "fh_rows h' ! j = (if j = i then fh_rows h ! lst else fh_rows h ! j)"
    and len: "fh_len h' ! j = (if j = lst then 0 else if j = i then fh_len h ! lst else fh_len h ! j)"
    if "j < D" for j
    using k assms(2,3) that by (auto simp: h'_def fixed_ids_swap_remove_def Let_def nth_list_update)
  show hist: "fixed_ids_history h' j =
      (if j = lst then [] else if j = i then fixed_ids_history h lst else fixed_ids_history h j)" if "j < D" for j
    using rows [OF that] len [OF that] by (simp add: fixed_ids_history_def)
  show "fixed_ids_ok D per h'"
    unfolding fixed_ids_ok_def
  proof (intro conjI allI impI)
    fix s assume s: "s < D"
    show "length (fh_rows h' ! s) = per" "unat (fh_len h' ! s) \<le> per" "distinct (fixed_ids_history h' s)"
      using ok assms(2) s rows [OF s] len [OF s] hist [OF s] by (simp_all add: fixed_ids_ok_def)
  qed (use k ok in \<open>simp_all add: fixed_ids_ok_def h'_def fixed_ids_swap_remove_def Let_def\<close>)
qed

interpretation fixed_ih: announce_id_history "fixed_ids per" per "\<lambda>s. s < D" "fixed_ids_ok D per" for D per
proof (unfold_locales, goal_cases)
  case 1
  then show ?case by (simp add: fixed_ids_ok_def)
next
  case (2 h j)
  then show ?case by (simp add: fixed_ids_def fixed_ids_ok_def fixed_ids_history_def)
next
  case (3 h s x out h')
  then show ?case
    using fixed_ids_remember_history [OF 3(1,2), of x out h'] fixed_ids_remember_ok [OF 3(1,2), of x out h']
    by (simp add: fixed_ids_def)
next
  case (4 h lst i)
  then show ?case using fixed_ids_swap_remove_history [of D per h lst i] by (auto simp: fixed_ids_def)
next
  case (5 j k)
  then show ?case by simp
qed

subsection \<open>Growable rings\<close>

record heap_id_history =
  hh_per_slot :: "announce_id list list"

definition heap_ids_default :: heap_id_history where
  "heap_ids_default = \<lparr>hh_per_slot = []\<rparr>"

definition heap_ids_history :: "heap_id_history \<Rightarrow> nat \<Rightarrow> announce_id list" where
  "heap_ids_history h slot = (if slot < length (hh_per_slot h) then hh_per_slot h ! slot else [])"

text \<open>\<open>if self.per_slot.len() <= slot { resize_with(slot + 1, Vec::new) }\<close>\<close>

definition heap_ids_materialize :: "nat \<Rightarrow> heap_id_history \<Rightarrow> heap_id_history" where
  "heap_ids_materialize slot h =
     (if length (hh_per_slot h) \<le> slot
      then h\<lparr>hh_per_slot := hh_per_slot h @ replicate (slot + 1 - length (hh_per_slot h)) []\<rparr> else h)"

definition heap_ids_remember :: "nat \<Rightarrow> announce_id \<Rightarrow> heap_id_history \<Rightarrow> remember_outcome \<times> heap_id_history" where
  "heap_ids_remember slot i h =
     (let h = heap_ids_materialize slot h; ids = hh_per_slot h ! slot
      in if i \<in> set ids then (AlreadyKnown, h)
         else if length ids < MAX_ANNOUNCE_IDS_PER_DESTINATION then
           (StoredFresh, h\<lparr>hh_per_slot := (hh_per_slot h)[slot := ids @ [i]]\<rparr>)
         else (StoredEvictingOldest, h\<lparr>hh_per_slot := (hh_per_slot h)[slot := tl ids @ [i]]\<rparr>))"

definition heap_ids_swap_remove :: "nat \<Rightarrow> nat \<Rightarrow> heap_id_history \<Rightarrow> heap_id_history" where
  "heap_ids_swap_remove i lst h =
     (let h = heap_ids_materialize lst h; slots = hh_per_slot h
      in h\<lparr>hh_per_slot := take lst (slots[i := slots ! lst, lst := slots ! i])\<rparr>)"

definition heap_ids :: "heap_id_history id_history_ops" where
  "heap_ids = \<lparr>ih_history = heap_ids_history, ih_remember = heap_ids_remember, ih_swap_remove = heap_ids_swap_remove\<rparr>"

definition heap_ids_ok :: "heap_id_history \<Rightarrow> bool" where
  "heap_ids_ok h = (\<forall>ids\<in>set (hh_per_slot h). length ids \<le> MAX_ANNOUNCE_IDS_PER_DESTINATION \<and> distinct ids)"

lemma heap_ids_materialize:
  "heap_ids_history (heap_ids_materialize s h) j = heap_ids_history h j"
  "s < length (hh_per_slot (heap_ids_materialize s h))"
  "heap_ids_ok h \<Longrightarrow> heap_ids_ok (heap_ids_materialize s h)"
  by (auto simp: heap_ids_materialize_def heap_ids_history_def heap_ids_ok_def nth_append)

lemma heap_ids_remember_history:
  assumes "heap_ids_ok h" "heap_ids_remember s i h = (out, h')"
  shows "(out, heap_ids_history h' s) = remember_id MAX_ANNOUNCE_IDS_PER_DESTINATION (heap_ids_history h s) i"
    and "j \<noteq> s \<Longrightarrow> heap_ids_history h' j = heap_ids_history h j" and "heap_ids_ok h'"
proof -
  let ?cap = MAX_ANNOUNCE_IDS_PER_DESTINATION
  define g where "g = heap_ids_materialize s h"
  have g: "heap_ids_history g j = heap_ids_history h j" "s < length (hh_per_slot g)" "heap_ids_ok g" for j
    unfolding g_def using heap_ids_materialize assms(1) by blast+
  have ids: "heap_ids_history h s = hh_per_slot g ! s" using g(1) [of s] g(2) by (simp add: heap_ids_history_def)
  have step: "heap_ids_remember s i h =
      (let (out, ids) = remember_id ?cap (hh_per_slot g ! s) i in (out, g\<lparr>hh_per_slot := (hh_per_slot g)[s := ids]\<rparr>))"
    by (simp add: heap_ids_remember_def g_def [symmetric] remember_id_def Let_def)
  obtain ids' where r: "remember_id ?cap (hh_per_slot g ! s) i = (out, ids')"
    and h': "h' = g\<lparr>hh_per_slot := (hh_per_slot g)[s := ids']\<rparr>"
    using assms(2) unfolding step by (auto split: prod.splits)
  show "(out, heap_ids_history h' s) = remember_id ?cap (heap_ids_history h s) i"
    unfolding ids using g(2) r by (simp add: h' heap_ids_history_def)
  show "j \<noteq> s \<Longrightarrow> heap_ids_history h' j = heap_ids_history h j"
    using g(1) [of j, symmetric] by (simp add: h' heap_ids_history_def)
  have "length (hh_per_slot g ! s) \<le> ?cap" "distinct (hh_per_slot g ! s)"
    using g(2,3) by (simp_all add: heap_ids_ok_def)
  from remember_id_keeps(1,2) [OF _ this r] have "length ids' \<le> ?cap" "distinct ids'"
    by (simp_all add: MAX_ANNOUNCE_IDS_PER_DESTINATION_def)
  with g(3) show "heap_ids_ok h'"
    by (auto simp: h' heap_ids_ok_def dest: set_update_subset_insert [THEN subsetD])
qed

lemma heap_ids_swap_remove_history:
  assumes "heap_ids_ok h" "i \<le> lst"
  defines "h' \<equiv> heap_ids_swap_remove i lst h"
  shows "heap_ids_ok h'"
    and "heap_ids_history h' j =
      (if lst \<le> j then [] else if j = i then heap_ids_history h lst else heap_ids_history h j)"
proof -
  define g where "g = heap_ids_materialize lst h"
  have g: "heap_ids_history g j = heap_ids_history h j" "lst < length (hh_per_slot g)" "heap_ids_ok g" for j
    unfolding g_def using heap_ids_materialize assms(1) by blast+
  have h': "h' = g\<lparr>hh_per_slot := take lst ((hh_per_slot g)[i := hh_per_slot g ! lst, lst := hh_per_slot g ! i])\<rparr>"
    by (simp add: h'_def heap_ids_swap_remove_def g_def [symmetric] Let_def)
  have "set (hh_per_slot h') \<subseteq> set (hh_per_slot g)"
    unfolding h' using nth_mem [OF g(2)]
    by (auto dest!: in_set_takeD set_update_subset_insert [THEN subsetD])
  with g(3) show "heap_ids_ok h'" by (auto simp: heap_ids_ok_def)
  show "heap_ids_history h' j =
      (if lst \<le> j then [] else if j = i then heap_ids_history h lst else heap_ids_history h j)"
    using g(1) [of j, symmetric] g(1) [of lst, symmetric] g(2) assms(2)
    by (auto simp: h' heap_ids_history_def nth_list_update)
qed

interpretation heap_ih: announce_id_history heap_ids MAX_ANNOUNCE_IDS_PER_DESTINATION "\<lambda>_. True" heap_ids_ok
proof (unfold_locales, goal_cases)
  case 1
  show ?case by (simp add: MAX_ANNOUNCE_IDS_PER_DESTINATION_def)
next
  case (2 h j)
  then show ?case by (simp add: heap_ids_def heap_ids_ok_def heap_ids_history_def)
next
  case (3 h s x out h')
  then show ?case using heap_ids_remember_history [of h s x out h'] by (simp add: heap_ids_def)
next
  case (4 h lst i)
  then show ?case using heap_ids_swap_remove_history [of h i lst] by (auto simp: heap_ids_def)
qed simp_all

end
