(* ===== verification/App_Data_Arena.thy ===== *)
theory App_Data_Arena
  imports Prelude
begin

text \<open>
  Where a routing table keeps the application data of the announces it stores,
  \<^verbatim>\<open>prns-core/src/routing/announce/stored/\<close>: the contract \<open>AnnounceAppData\<close>, the packed arena (one byte
  array, payloads back to back, a span per handle) and the growable store. The fixed-heap arena runs
  the packed arena's code over a boxed array.
\<close>

section \<open>The contract\<close>

datatype app_data_error = ArenaFull | TooManyEntries

record 'd app_data_ops =
  ad_get :: "'d \<Rightarrow> nat \<Rightarrow> u8 list"
  ad_insert :: "u8 list \<Rightarrow> 'd \<Rightarrow> app_data_error + nat \<times> 'd"
  ad_replace :: "nat \<Rightarrow> u8 list \<Rightarrow> 'd \<Rightarrow> app_data_error + 'd"
  ad_free :: "nat \<Rightarrow> 'd \<Rightarrow> 'd"

text \<open>
  \<open>stored s h\<close> is what a live handle stands for. \<open>replace\<close> is promised for the payloads that are
  \<open>replaceable\<close>: all of them in the growable store, those that are not empty in the packed arena.
\<close>

locale announce_app_data =
  fixes get :: "'s \<Rightarrow> nat \<Rightarrow> u8 list"
    and insert :: "u8 list \<Rightarrow> 's \<Rightarrow> app_data_error + nat \<times> 's"
    and replace :: "nat \<Rightarrow> u8 list \<Rightarrow> 's \<Rightarrow> app_data_error + 's"
    and free :: "nat \<Rightarrow> 's \<Rightarrow> 's"
    and stored :: "'s \<Rightarrow> nat \<Rightarrow> u8 list option"
    and valid :: "'s \<Rightarrow> bool"
    and replaceable :: "u8 list \<Rightarrow> bool"
  assumes get_stored: "valid s \<Longrightarrow> stored s h = Some bytes \<Longrightarrow> get s h = bytes"
    and insert_stored: "valid s \<Longrightarrow> insert bytes s = Inr (h, s') \<Longrightarrow>
      valid s' \<and> stored s h = None \<and> stored s' = (stored s)(h := Some bytes)"
    and replace_stored: "valid s \<Longrightarrow> stored s h = Some old \<Longrightarrow> replaceable old \<Longrightarrow> replace h bytes s = Inr s' \<Longrightarrow>
      valid s' \<and> stored s' = (stored s)(h := Some bytes)"
    and free_stored: "valid s \<Longrightarrow> stored s h = Some old \<Longrightarrow>
      valid (free h s) \<and> stored (free h s) = (stored s)(h := None)"
begin

lemma get_after_insert:
  "valid s \<Longrightarrow> insert bytes s = Inr (h, s') \<Longrightarrow> get s' h = bytes"
  using insert_stored get_stored by (metis fun_upd_same)

lemma others_kept:
  assumes "valid s" "stored s g = Some bytes" "g \<noteq> h"
  shows "insert new s = Inr (h, s') \<Longrightarrow> get s' g = bytes"
    and "stored s h = Some old \<Longrightarrow> replaceable old \<Longrightarrow> replace h new s = Inr s' \<Longrightarrow> get s' g = bytes"
    and "stored s h = Some old \<Longrightarrow> get (free h s) g = bytes"
proof -
  show "get s' g = bytes" if "insert new s = Inr (h, s')"
    using insert_stored [OF assms(1) that] get_stored [of s' g] assms by simp
  show "get s' g = bytes" if "stored s h = Some old" "replaceable old" "replace h new s = Inr s'"
    using replace_stored [OF assms(1) that] get_stored [of s' g] assms by simp
  show "get (free h s) g = bytes" if "stored s h = Some old"
    using free_stored [OF assms(1) that] get_stored [of "free h s" g] assms by simp
qed

end

section \<open>The packed arena\<close>

record span =
  sp_offset :: nat
  sp_len :: nat

record packed_arena =
  pa_arena :: "u8 list"
  pa_used :: nat
  pa_spans :: "span list"
  pa_free_slots :: "nat list"
  pa_max_entries :: nat

definition packed_arena_new :: "nat \<Rightarrow> nat \<Rightarrow> packed_arena" where
  "packed_arena_new arena_bytes max_entries =
     \<lparr>pa_arena = replicate arena_bytes 0, pa_used = 0, pa_spans = [], pa_free_slots = [],
      pa_max_entries = max_entries\<rparr>"

definition packed_get :: "packed_arena \<Rightarrow> nat \<Rightarrow> u8 list" where
  "packed_get a h = (let span = pa_spans a ! h in slice (pa_arena a) (sp_offset span) (sp_len span))"

definition packed_insert :: "u8 list \<Rightarrow> packed_arena \<Rightarrow> app_data_error + nat \<times> packed_arena" where
  "packed_insert bytes a =
     (if pa_free_slots a = [] \<and> length (pa_spans a) = pa_max_entries a then Inl TooManyEntries
      else if length bytes > length (pa_arena a) - pa_used a then Inl ArenaFull
      else
        let off = pa_used a;
            a = a\<lparr>pa_arena := copy_into (pa_arena a) off bytes, pa_used := pa_used a + length bytes\<rparr>;
            span = \<lparr>sp_offset = off, sp_len = length bytes\<rparr>
        in if pa_free_slots a \<noteq> [] then
             let slot = last (pa_free_slots a)
             in Inr (slot, a\<lparr>pa_free_slots := butlast (pa_free_slots a), pa_spans := (pa_spans a)[slot := span]\<rparr>)
           else Inr (length (pa_spans a @ [span]) - 1, a\<lparr>pa_spans := pa_spans a @ [span]\<rparr>))"

definition packed_free :: "nat \<Rightarrow> packed_arena \<Rightarrow> packed_arena" where
  "packed_free h a =
     (let span = pa_spans a ! h;
          tail_start = sp_offset span + sp_len span;
          tail_len = pa_used a - tail_start;
          shifted = map (\<lambda>other. if sp_offset other > sp_offset span
                           then other\<lparr>sp_offset := sp_offset other - sp_len span\<rparr> else other) (pa_spans a)
      in a\<lparr>pa_arena := copy_within (pa_arena a) tail_start tail_len (sp_offset span),
           pa_used := pa_used a - sp_len span,
           pa_spans := shifted[h := \<lparr>sp_offset = 0, sp_len = 0\<rparr>],
           pa_free_slots := pa_free_slots a @ [h]\<rparr>)"

definition packed_replace :: "nat \<Rightarrow> u8 list \<Rightarrow> packed_arena \<Rightarrow> app_data_error + packed_arena" where
  "packed_replace h bytes a =
     (let span = pa_spans a ! h; new_len = length bytes
      in if new_len = sp_len span then
           Inr (a\<lparr>pa_arena := copy_into (pa_arena a) (sp_offset span) bytes\<rparr>)
         else
           let new_used = pa_used a - sp_len span + new_len
           in if new_used > length (pa_arena a) then Inl ArenaFull
              else
                let tail_start = sp_offset span + sp_len span;
                    tail_len = pa_used a - tail_start;
                    new_tail_start = sp_offset span + new_len;
                    arena = copy_within (pa_arena a) tail_start tail_len new_tail_start;
                    arena = copy_into arena (sp_offset span) bytes;
                    spans = (pa_spans a)[h := span\<lparr>sp_len := new_len\<rparr>];
                    spans = map (\<lambda>other. if sp_offset other > sp_offset span
                              then other\<lparr>sp_offset := nat (int (sp_offset other) + int new_len - int (sp_len span))\<rparr>
                              else other) spans
                in Inr (a\<lparr>pa_arena := arena, pa_spans := spans, pa_used := new_used\<rparr>))"

definition packed_app_data :: "packed_arena app_data_ops" where
  "packed_app_data = \<lparr>ad_get = packed_get, ad_insert = packed_insert, ad_replace = packed_replace, ad_free = packed_free\<rparr>"

section \<open>The growable store\<close>

record heap_app_data =
  had_entries :: "u8 list list"
  had_free_slots :: "nat list"

definition heap_app_data_default :: heap_app_data where
  "heap_app_data_default = \<lparr>had_entries = [], had_free_slots = []\<rparr>"

definition heap_app_data_get :: "heap_app_data \<Rightarrow> nat \<Rightarrow> u8 list" where
  "heap_app_data_get s h = had_entries s ! h"

definition heap_app_data_insert :: "u8 list \<Rightarrow> heap_app_data \<Rightarrow> app_data_error + nat \<times> heap_app_data" where
  "heap_app_data_insert bytes s =
     (if had_free_slots s \<noteq> [] then
        let slot = last (had_free_slots s)
        in Inr (slot, s\<lparr>had_free_slots := butlast (had_free_slots s), had_entries := (had_entries s)[slot := bytes]\<rparr>)
      else Inr (length (had_entries s), s\<lparr>had_entries := had_entries s @ [bytes]\<rparr>))"

definition heap_app_data_replace :: "nat \<Rightarrow> u8 list \<Rightarrow> heap_app_data \<Rightarrow> app_data_error + heap_app_data" where
  "heap_app_data_replace h bytes s = Inr (s\<lparr>had_entries := (had_entries s)[h := bytes]\<rparr>)"

definition heap_app_data_free :: "nat \<Rightarrow> heap_app_data \<Rightarrow> heap_app_data" where
  "heap_app_data_free h s =
     s\<lparr>had_entries := (had_entries s)[h := []], had_free_slots := had_free_slots s @ [h]\<rparr>"

definition heap_app_data_ops :: "heap_app_data app_data_ops" where
  "heap_app_data_ops =
     \<lparr>ad_get = heap_app_data_get, ad_insert = heap_app_data_insert, ad_replace = heap_app_data_replace,
      ad_free = heap_app_data_free\<rparr>"

section \<open>Free slots\<close>

text \<open>The handles in use: the slots that are not on the free list, which holds each slot once.\<close>

definition free_list_ok :: "nat \<Rightarrow> nat list \<Rightarrow> bool" where
  "free_list_ok n free_slots = (distinct free_slots \<and> set free_slots \<subseteq> {..<n})"

definition live_slot :: "nat \<Rightarrow> nat list \<Rightarrow> nat \<Rightarrow> bool" where
  "live_slot n free_slots h = (h < n \<and> h \<notin> set free_slots)"

lemma free_list_pop:
  assumes "free_list_ok n fs" "fs \<noteq> []"
  shows "free_list_ok n (butlast fs)" "last fs < n" "\<not> live_slot n fs (last fs)"
    and "live_slot n (butlast fs) g \<longleftrightarrow> live_slot n fs g \<or> g = last fs"
    and "g \<in> set (butlast fs) \<Longrightarrow> g \<in> set fs \<and> g \<noteq> last fs \<and> g < n"
proof -
  obtain ys y where fs: "fs = ys @ [y]" using assms(2) by (meson rev_exhaust)
  show "free_list_ok n (butlast fs)" "last fs < n" "\<not> live_slot n fs (last fs)"
    "live_slot n (butlast fs) g \<longleftrightarrow> live_slot n fs g \<or> g = last fs"
    "g \<in> set (butlast fs) \<Longrightarrow> g \<in> set fs \<and> g \<noteq> last fs \<and> g < n"
    using assms by (auto simp: fs free_list_ok_def live_slot_def)
qed

lemma free_list_push:
  assumes "free_list_ok n fs" "live_slot n fs h"
  shows "free_list_ok n (fs @ [h])" and "live_slot n (fs @ [h]) g \<longleftrightarrow> live_slot n fs g \<and> g \<noteq> h"
  using assms by (auto simp: free_list_ok_def live_slot_def)

definition heap_app_data_ok :: "heap_app_data \<Rightarrow> bool" where
  "heap_app_data_ok s = free_list_ok (length (had_entries s)) (had_free_slots s)"

definition heap_app_data_stored :: "heap_app_data \<Rightarrow> nat \<Rightarrow> u8 list option" where
  "heap_app_data_stored s h =
     (if live_slot (length (had_entries s)) (had_free_slots s) h then Some (had_entries s ! h) else None)"

lemma heap_app_data_insert_stored:
  assumes ok: "heap_app_data_ok s" and ins: "heap_app_data_insert bytes s = Inr (h, s')"
  shows "heap_app_data_ok s' \<and> heap_app_data_stored s h = None
    \<and> heap_app_data_stored s' = (heap_app_data_stored s)(h := Some bytes)"
proof (cases "had_free_slots s = []")
  case True
  then have "h = length (had_entries s)" "s' = s\<lparr>had_entries := had_entries s @ [bytes]\<rparr>"
    using ins by (simp_all add: heap_app_data_insert_def)
  with True show ?thesis
    by (simp add: heap_app_data_ok_def heap_app_data_stored_def free_list_ok_def live_slot_def nth_append
        fun_eq_iff)
next
  case False
  let ?n = "length (had_entries s)" and ?fs = "had_free_slots s"
  note pop = free_list_pop [OF ok [unfolded heap_app_data_ok_def] False]
  have h: "h = last ?fs" "s' = s\<lparr>had_free_slots := butlast ?fs, had_entries := (had_entries s)[h := bytes]\<rparr>"
    using ins False by (auto simp: heap_app_data_insert_def Let_def)
  show ?thesis
    using pop unfolding h(2) by (simp add: h(1) heap_app_data_ok_def heap_app_data_stored_def fun_eq_iff)
qed

interpretation heap_app: announce_app_data
  heap_app_data_get heap_app_data_insert heap_app_data_replace heap_app_data_free
  heap_app_data_stored heap_app_data_ok "\<lambda>_. True"
proof (unfold_locales, goal_cases)
  case (1 s h bytes)
  then show ?case by (simp add: heap_app_data_stored_def heap_app_data_get_def split: if_splits)
next
  case (2 s bytes h s')
  then show ?case by (rule heap_app_data_insert_stored)
next
  case (3 s h old bytes s')
  then have live: "live_slot (length (had_entries s)) (had_free_slots s) h"
    and s': "s' = s\<lparr>had_entries := (had_entries s)[h := bytes]\<rparr>"
    by (simp_all add: heap_app_data_stored_def heap_app_data_replace_def split: if_splits)
  with 3(1) show ?case
    by (simp add: heap_app_data_ok_def heap_app_data_stored_def fun_eq_iff nth_list_update live_slot_def)
next
  case (4 s h old)
  then have live: "live_slot (length (had_entries s)) (had_free_slots s) h"
    by (simp add: heap_app_data_stored_def split: if_splits)
  show ?case
    using free_list_push [OF 4(1) [unfolded heap_app_data_ok_def] live]
    by (simp add: heap_app_data_free_def heap_app_data_ok_def heap_app_data_stored_def fun_eq_iff
        nth_list_update)
qed

section \<open>The packed arena keeps the contract\<close>

text \<open>
  Every payload lies in the used prefix, no two overlap, and together they fill it: a freed slot has
  the empty span at 0, which overlaps nothing.
\<close>

definition spans_apart :: "span \<Rightarrow> span \<Rightarrow> bool" where
  "spans_apart s t = (sp_offset s + sp_len s \<le> sp_offset t \<or> sp_offset t + sp_len t \<le> sp_offset s)"

definition packed_ok :: "packed_arena \<Rightarrow> bool" where
  "packed_ok a =
     (pa_used a \<le> length (pa_arena a) \<and> length (pa_spans a) \<le> pa_max_entries a
      \<and> free_list_ok (length (pa_spans a)) (pa_free_slots a)
      \<and> (\<forall>h\<in>set (pa_free_slots a). sp_len (pa_spans a ! h) = 0)
      \<and> sum_list (map sp_len (pa_spans a)) = pa_used a
      \<and> (\<forall>i<length (pa_spans a). sp_offset (pa_spans a ! i) + sp_len (pa_spans a ! i) \<le> pa_used a)
      \<and> (\<forall>i<length (pa_spans a). \<forall>j<length (pa_spans a).
           i \<noteq> j \<longrightarrow> spans_apart (pa_spans a ! i) (pa_spans a ! j)))"

definition packed_stored :: "packed_arena \<Rightarrow> nat \<Rightarrow> u8 list option" where
  "packed_stored a h =
     (if live_slot (length (pa_spans a)) (pa_free_slots a) h then Some (packed_get a h) else None)"

lemma packed_okD:
  assumes "packed_ok a"
  shows "pa_used a \<le> length (pa_arena a)" "length (pa_spans a) \<le> pa_max_entries a"
    and "free_list_ok (length (pa_spans a)) (pa_free_slots a)"
    and "h \<in> set (pa_free_slots a) \<Longrightarrow> sp_len (pa_spans a ! h) = 0"
    and "sum_list (map sp_len (pa_spans a)) = pa_used a"
    and "i < length (pa_spans a) \<Longrightarrow> sp_offset (pa_spans a ! i) + sp_len (pa_spans a ! i) \<le> pa_used a"
    and "i < length (pa_spans a) \<Longrightarrow> j < length (pa_spans a) \<Longrightarrow> i \<noteq> j \<Longrightarrow>
      spans_apart (pa_spans a ! i) (pa_spans a ! j)"
  using assms unfolding packed_ok_def by blast+

lemma packed_okI:
  assumes "pa_used a \<le> length (pa_arena a)" "length (pa_spans a) \<le> pa_max_entries a"
    and "free_list_ok (length (pa_spans a)) (pa_free_slots a)"
    and "\<And>h. h \<in> set (pa_free_slots a) \<Longrightarrow> sp_len (pa_spans a ! h) = 0"
    and "sum_list (map sp_len (pa_spans a)) = pa_used a"
    and "\<And>i. i < length (pa_spans a) \<Longrightarrow> sp_offset (pa_spans a ! i) + sp_len (pa_spans a ! i) \<le> pa_used a"
    and "\<And>i j. i < length (pa_spans a) \<Longrightarrow> j < length (pa_spans a) \<Longrightarrow> i \<noteq> j \<Longrightarrow>
      spans_apart (pa_spans a ! i) (pa_spans a ! j)"
  shows "packed_ok a"
  using assms unfolding packed_ok_def by blast

lemma slice_copy_into_same:
  assumes "off + length src \<le> length buf"
  shows "slice (copy_into buf off src) off (length src) = src"
  using assms by (simp add: slice_def copy_into_def)

lemma slice_copy_into_apart:
  assumes "off + length src \<le> length buf" "i + n \<le> length buf" "i + n \<le> off \<or> off + length src \<le> i \<or> n = 0"
  shows "slice (copy_into buf off src) i n = slice buf i n"
  using assms by (intro slice_cong) (auto simp: nth_copy_into)

lemma packed_insert_cases:
  assumes "packed_insert bytes a = Inr (h, a')"
  shows "pa_used a \<le> length (pa_arena a) \<Longrightarrow> pa_used a + length bytes \<le> length (pa_arena a)"
    and "pa_arena a' = copy_into (pa_arena a) (pa_used a) bytes"
    and "pa_used a' = pa_used a + length bytes" "pa_max_entries a' = pa_max_entries a"
    and "pa_free_slots a \<noteq> [] \<and> h = last (pa_free_slots a) \<and> pa_free_slots a' = butlast (pa_free_slots a)
           \<and> pa_spans a' = (pa_spans a)[h := \<lparr>sp_offset = pa_used a, sp_len = length bytes\<rparr>]
         \<or> pa_free_slots a = [] \<and> h = length (pa_spans a) \<and> pa_free_slots a' = []
           \<and> length (pa_spans a) \<noteq> pa_max_entries a
           \<and> pa_spans a' = pa_spans a @ [\<lparr>sp_offset = pa_used a, sp_len = length bytes\<rparr>]"
  using assms by (auto simp: packed_insert_def Let_def not_less split: if_splits)

lemma packed_insert_slots:
  assumes ok: "packed_ok a" and ins: "packed_insert bytes a = Inr (h, a')"
  shows "h < length (pa_spans a')" "pa_spans a' ! h = \<lparr>sp_offset = pa_used a, sp_len = length bytes\<rparr>"
    and "i < length (pa_spans a') \<Longrightarrow> i \<noteq> h \<Longrightarrow> i < length (pa_spans a) \<and> pa_spans a' ! i = pa_spans a ! i"
    and "free_list_ok (length (pa_spans a')) (pa_free_slots a')" "length (pa_spans a') \<le> pa_max_entries a"
    and "live_slot (length (pa_spans a')) (pa_free_slots a') g \<longleftrightarrow>
           live_slot (length (pa_spans a)) (pa_free_slots a) g \<or> g = h"
    and "\<not> live_slot (length (pa_spans a)) (pa_free_slots a) h"
    and "g \<in> set (pa_free_slots a') \<Longrightarrow> g \<in> set (pa_free_slots a) \<and> g \<noteq> h \<and> g < length (pa_spans a')"
    and "sum_list (map sp_len (pa_spans a')) = pa_used a + length bytes"
proof (atomize (full), use packed_insert_cases(5) [OF ins] in \<open>elim disjE conjE\<close>, goal_cases)
  case 1
  let ?new = "\<lparr>sp_offset = pa_used a, sp_len = length bytes\<rparr>"
  note pop = free_list_pop [OF packed_okD(3) [OF ok] 1(1)]
  have h: "last (pa_free_slots a) = h" "h \<in> set (pa_free_slots a)" using 1(1,2) by simp_all
  have "sum_list (map sp_len ((pa_spans a)[h := ?new])) = pa_used a + length bytes"
    using pop(2) packed_okD(4) [OF ok h(2)] packed_okD(5) [OF ok] by (simp add: map_update sum_list_update h)
  with pop(1-4) show ?case
    unfolding 1(3,4) h using packed_okD(2) [OF ok] pop(5) [unfolded h] by (simp add: nth_list_update)
next
  case 2
  then show ?case
    using packed_okD(2,5) [OF ok] by (simp add: free_list_ok_def live_slot_def nth_append) auto
qed

lemma packed_get_cong:
  assumes "pa_spans a' ! h = pa_spans a ! g" "pa_spans a ! g = s"
    and "slice (pa_arena a') (sp_offset s) (sp_len s) = slice (pa_arena a) (sp_offset s) (sp_len s)"
  shows "packed_get a' h = packed_get a g"
  using assms by (simp add: packed_get_def)

lemma packed_insert_stored:
  assumes ok: "packed_ok a" and ins: "packed_insert bytes a = Inr (h, a')"
  shows "packed_ok a' \<and> packed_stored a h = None \<and> packed_stored a' = (packed_stored a)(h := Some bytes)"
proof -
  note slots = packed_insert_slots [OF ok ins] and c = packed_insert_cases(2-4) [OF ins]
  have fit: "pa_used a + length bytes \<le> length (pa_arena a)"
    using packed_insert_cases(1) [OF ins] packed_okD(1) [OF ok] by simp
  have "packed_ok a'"
  proof (rule packed_okI)
    fix i assume "i < length (pa_spans a')"
    then show "sp_offset (pa_spans a' ! i) + sp_len (pa_spans a' ! i) \<le> pa_used a'"
      using slots(2) slots(3) [of i] packed_okD(6) [OF ok, of i] by (cases "i = h") (auto simp: c)
  next
    fix i j assume ij: "i < length (pa_spans a')" "j < length (pa_spans a')" "i \<noteq> j"
    then show "spans_apart (pa_spans a' ! i) (pa_spans a' ! j)"
      using slots(2) slots(3) [of i] slots(3) [of j] packed_okD(6) [OF ok, of i] packed_okD(6) [OF ok, of j]
        packed_okD(7) [OF ok, of i j]
      by (cases "i = h"; cases "j = h") (simp_all add: spans_apart_def)
  qed (use slots c fit packed_okD(4) [OF ok] in auto)
  moreover have "packed_get a' h = bytes"
    using slots(2) slice_copy_into_same [OF fit] by (simp add: packed_get_def c)
  moreover have "packed_get a' g = packed_get a g" if "g < length (pa_spans a')" "g \<noteq> h" for g
  proof (rule packed_get_cong [OF _ refl])
    show "pa_spans a' ! g = pa_spans a ! g" using slots(3) that by blast
    show "slice (pa_arena a') (sp_offset (pa_spans a ! g)) (sp_len (pa_spans a ! g))
        = slice (pa_arena a) (sp_offset (pa_spans a ! g)) (sp_len (pa_spans a ! g))"
      using slots(3) [OF that] packed_okD(6) [OF ok, of g] fit unfolding c
      by (intro slice_copy_into_apart) auto
  qed
  ultimately show ?thesis
    using slots(1,6,7) by (auto simp: packed_stored_def fun_eq_iff live_slot_def)
qed

text \<open>
  Closing or opening a gap: the tail behind a span moves to its new place, and the spans behind it
  with it. \<open>gap_shift\<close> is what the update loops of \<open>free\<close> and \<open>replace\<close> do to another span.
\<close>

definition gap_shift :: "span \<Rightarrow> nat \<Rightarrow> span \<Rightarrow> span" where
  "gap_shift s new_len t =
     (if sp_offset t > sp_offset s then t\<lparr>sp_offset := sp_offset t + new_len - sp_len s\<rparr> else t)"

lemma gap_shift_len [simp]: "sp_len (gap_shift s n t) = sp_len t"
  by (simp add: gap_shift_def)

lemma gap_shift_apart:
  assumes "0 < sp_len s \<or> n = 0" "spans_apart s t"
  shows "spans_apart s u \<Longrightarrow> spans_apart t u \<Longrightarrow> spans_apart (gap_shift s n t) (gap_shift s n u)"
    and "spans_apart (s\<lparr>sp_len := n\<rparr>) (gap_shift s n t)"
    and "sp_offset t + sp_len t \<le> used \<Longrightarrow> sp_offset s + sp_len s \<le> used \<Longrightarrow>
      sp_offset (gap_shift s n t) + sp_len t \<le> used - sp_len s + n"
  using assms by (auto simp: spans_apart_def gap_shift_def)

lemma spans_apart_sym: "spans_apart s t \<longleftrightarrow> spans_apart t s"
  by (auto simp: spans_apart_def)

lemma gap_shift_slice:
  assumes "0 < sp_len s \<or> n = 0" "spans_apart s t" "used \<le> length xs" "used - sp_len s + n \<le> length xs"
    and "sp_offset s + sp_len s \<le> used" "sp_offset t + sp_len t \<le> used"
  defines "ys \<equiv> copy_within xs (sp_offset s + sp_len s) (used - (sp_offset s + sp_len s)) (sp_offset s + n)"
  shows "slice ys (sp_offset (gap_shift s n t)) (sp_len t) = slice xs (sp_offset t) (sp_len t)"
proof -
  let ?o = "sp_offset s" and ?l = "sp_len s" and ?p = "sp_offset t" and ?m = "sp_len t"
  have len: "length ys = length xs" unfolding ys_def using assms by simp
  have nth: "ys ! k = (if ?o + n \<le> k \<and> k < used - ?l + n then xs ! (?o + ?l + (k - (?o + n))) else xs ! k)"
    if "k < length xs" for k
    unfolding ys_def using that assms by (subst nth_copy_within) auto
  have "?p + ?m \<le> ?o \<or> ?o + ?l \<le> ?p"
    using assms(2) by (auto simp: spans_apart_def)
  then show ?thesis
  proof
    assume before: "?p + ?m \<le> ?o"
    then show ?thesis
      using assms(1-6) len by (intro slice_cong) (auto simp: gap_shift_def nth)
  next
    assume after: "?o + ?l \<le> ?p"
    show ?thesis
    proof (rule slice_cong)
      fix k assume "k < ?m"
      moreover have q: "sp_offset (gap_shift s n t) = ?p + n - ?l"
        using after assms(1) by (auto simp: gap_shift_def)
      moreover have "?o + n \<le> ?p + n - ?l + k" "?p + n - ?l + k < used - ?l + n"
        "?o + ?l + (?p + n - ?l + k - (?o + n)) = ?p + k"
        using \<open>k < ?m\<close> after assms(1-6) by auto
      ultimately show "ys ! (sp_offset (gap_shift s n t) + k) = xs ! (?p + k)"
        using nth [of "?p + n - ?l + k"] assms(4) by (simp only: q if_True) auto
    qed (use gap_shift_apart(3) [OF assms(1,2,6,5)] assms(1-6) len in auto)
  qed
qed

text \<open>What \<open>free\<close> and \<open>replace\<close> have in common, for the slot \<open>h\<close> and the length it is left with.\<close>

lemma packed_resize:
  assumes ok: "packed_ok a" and h: "h < length (pa_spans a)" and s: "s = pa_spans a ! h"
    and gap: "0 < sp_len s \<or> n = 0"
    and spans: "length (pa_spans a') = length (pa_spans a)" "sp_len (pa_spans a' ! h) = n"
      "\<And>i. i < length (pa_spans a) \<Longrightarrow> i \<noteq> h \<Longrightarrow> pa_spans a' ! i = gap_shift s n (pa_spans a ! i)"
    and used: "pa_used a' = pa_used a - sp_len s + n" "pa_used a' \<le> length (pa_arena a')"
    and hbound: "sp_offset (pa_spans a' ! h) + n \<le> pa_used a'"
    and hapart: "\<And>i. i < length (pa_spans a) \<Longrightarrow> i \<noteq> h \<Longrightarrow>
      spans_apart (pa_spans a' ! h) (gap_shift s n (pa_spans a ! i))"
    and frees: "free_list_ok (length (pa_spans a)) (pa_free_slots a')"
      "\<And>g. g \<in> set (pa_free_slots a') \<Longrightarrow> g = h \<and> n = 0 \<or> g \<noteq> h \<and> g \<in> set (pa_free_slots a)"
      "pa_max_entries a' = pa_max_entries a"
  shows "packed_ok a'"
proof (rule packed_okI)
  have "map sp_len (pa_spans a') = (map sp_len (pa_spans a))[h := n]"
    using spans h by (intro nth_equalityI) (auto simp: nth_list_update)
  moreover have "sp_len s \<le> pa_used a"
    using packed_okD(6) [OF ok h] by (simp add: s)
  ultimately show "sum_list (map sp_len (pa_spans a')) = pa_used a'"
    using h packed_okD(5) [OF ok] by (simp add: sum_list_update used(1) s)
next
  fix i assume i: "i < length (pa_spans a')"
  show "sp_offset (pa_spans a' ! i) + sp_len (pa_spans a' ! i) \<le> pa_used a'"
  proof (cases "i = h")
    case False
    have "spans_apart s (pa_spans a ! i)"
      using packed_okD(7) [OF ok h, of i] i spans(1) False by (simp add: s)
    from gap_shift_apart(3) [OF gap this] show ?thesis
      using packed_okD(6) [OF ok, of i] packed_okD(6) [OF ok h] i spans(1) spans(3) [of i] False
      by (simp add: used(1) s)
  qed (use hbound spans(2) in simp)
  fix j assume j: "j < length (pa_spans a')" "i \<noteq> j"
  note apart = packed_okD(7) [OF ok] and len = spans(1)
  consider "i = h" | "j = h" | "i \<noteq> h" "j \<noteq> h" by blast
  then show "spans_apart (pa_spans a' ! i) (pa_spans a' ! j)"
  proof cases
    case 1
    then show ?thesis using hapart [of j] spans(3) [of j] j len by simp
  next
    case 2
    then show ?thesis
      using hapart [of i] spans(3) [of i] i j len by (simp add: spans_apart_sym)
  next
    case 3
    then show ?thesis
      using gap_shift_apart(1) [OF gap apart [OF h, of i, folded s] apart [OF h, of j, folded s] apart [of i j]]
        spans(3) [of i] spans(3) [of j] i j len by simp
  qed
next
  fix g assume "g \<in> set (pa_free_slots a')"
  from frees(2) [OF this] show "sp_len (pa_spans a' ! g) = 0"
    using packed_okD(3) [OF ok] packed_okD(4) [OF ok, of g] spans by (auto simp: free_list_ok_def)
qed (use packed_okD(2) [OF ok] spans(1) used frees in simp_all)

lemma packed_free_stored:
  assumes ok: "packed_ok a" and live: "live_slot (length (pa_spans a)) (pa_free_slots a) h"
  shows "packed_ok (packed_free h a)"
    and "packed_stored (packed_free h a) = (packed_stored a)(h := None)"
proof -
  let ?s = "pa_spans a ! h" and ?a = "packed_free h a"
  have h: "h < length (pa_spans a)" using live by (simp add: live_slot_def)
  note bound = packed_okD(6) [OF ok h]
  have others: "pa_spans ?a ! i = gap_shift ?s 0 (pa_spans a ! i)"
    if "i < length (pa_spans a)" "i \<noteq> h" for i
    using that by (simp add: packed_free_def Let_def gap_shift_def)
  have fields: "length (pa_spans ?a) = length (pa_spans a)" "pa_free_slots ?a = pa_free_slots a @ [h]"
    "pa_spans ?a ! h = \<lparr>sp_offset = 0, sp_len = 0\<rparr>" "pa_used ?a = pa_used a - sp_len ?s"
    "length (pa_arena ?a) = length (pa_arena a)" "pa_max_entries ?a = pa_max_entries a"
    using h bound packed_okD(1) [OF ok] by (simp_all add: packed_free_def Let_def)
  show "packed_ok ?a"
    by (rule packed_resize [OF ok h refl, where n = 0])
      (use fields others free_list_push(1) [OF packed_okD(3) [OF ok] live] live packed_okD(1) [OF ok] bound
        in \<open>auto simp: spans_apart_def live_slot_def\<close>)
  have "packed_get ?a g = packed_get a g" if g: "g < length (pa_spans a)" "g \<noteq> h" for g
    using gap_shift_slice [of ?s 0 "pa_spans a ! g" "pa_used a" "pa_arena a"] packed_okD(1) [OF ok] bound
      packed_okD(6) [OF ok g(1)] packed_okD(7) [OF ok h g(1)] g others [OF g]
    by (simp add: packed_get_def Let_def) (simp add: packed_free_def Let_def)
  then show "packed_stored ?a = (packed_stored a)(h := None)"
    using free_list_push(2) [OF packed_okD(3) [OF ok] live]
    by (auto simp: packed_stored_def fields fun_eq_iff live_slot_def)
qed

lemma packed_replace_cases:
  assumes ok: "packed_ok a" and h: "h < length (pa_spans a)" and s: "s = pa_spans a ! h"
    and rep: "packed_replace h bytes a = Inr a'" and ne: "0 < sp_len s"
  shows "length (pa_spans a') = length (pa_spans a)" "pa_spans a' ! h = s\<lparr>sp_len := length bytes\<rparr>"
    and "i < length (pa_spans a) \<Longrightarrow> i \<noteq> h \<Longrightarrow> pa_spans a' ! i = gap_shift s (length bytes) (pa_spans a ! i)"
    and "pa_used a' = pa_used a - sp_len s + length bytes"
    and "pa_used a - sp_len s + length bytes \<le> length (pa_arena a)"
    and "pa_free_slots a' = pa_free_slots a" "pa_max_entries a' = pa_max_entries a"
    and "pa_arena a' = copy_into (copy_within (pa_arena a) (sp_offset s + sp_len s)
      (pa_used a - (sp_offset s + sp_len s)) (sp_offset s + length bytes)) (sp_offset s) bytes"
proof -
  note bound = packed_okD(6) [OF ok h, folded s]
  have later: "sp_offset s + sp_len s \<le> sp_offset (pa_spans a ! i)"
    if "i < length (pa_spans a)" "sp_offset s < sp_offset (pa_spans a ! i)" for i
    using packed_okD(7) [OF ok h, of i] that s by (cases "i = h") (auto simp: spans_apart_def)
  have "copy_within (pa_arena a) n m n = pa_arena a" if "n + m \<le> length (pa_arena a)" for n m
    using that by (intro nth_equalityI) (auto simp: nth_copy_within)
  moreover have "gap_shift s (sp_len s) t = t" for t
    by (simp add: gap_shift_def)
  moreover have "s\<lparr>sp_len := sp_len s\<rparr> = s" by simp
  ultimately show "length (pa_spans a') = length (pa_spans a)" "pa_spans a' ! h = s\<lparr>sp_len := length bytes\<rparr>"
    "i < length (pa_spans a) \<Longrightarrow> i \<noteq> h \<Longrightarrow> pa_spans a' ! i = gap_shift s (length bytes) (pa_spans a ! i)"
    "pa_used a' = pa_used a - sp_len s + length bytes"
    "pa_used a - sp_len s + length bytes \<le> length (pa_arena a)"
    "pa_free_slots a' = pa_free_slots a" "pa_max_entries a' = pa_max_entries a"
    "pa_arena a' = copy_into (copy_within (pa_arena a) (sp_offset s + sp_len s)
      (pa_used a - (sp_offset s + sp_len s)) (sp_offset s + length bytes)) (sp_offset s) bytes"
    using rep h bound later [of i] packed_okD(1) [OF ok]
    by (auto simp: packed_replace_def Let_def gap_shift_def s [symmetric] split: if_splits)
qed

lemma packed_replace_stored:
  assumes ok: "packed_ok a" and live: "live_slot (length (pa_spans a)) (pa_free_slots a) h"
    and ne: "0 < sp_len (pa_spans a ! h)" and rep: "packed_replace h bytes a = Inr a'"
  shows "packed_ok a'" and "packed_stored a' = (packed_stored a)(h := Some bytes)"
proof -
  define s where "s = pa_spans a ! h"
  let ?n = "length bytes"
  have h: "h < length (pa_spans a)" using live by (simp add: live_slot_def)
  have ne': "0 < sp_len s" using ne by (simp add: s_def)
  note bound = packed_okD(6) [OF ok h, folded s_def] and used = packed_okD(1) [OF ok]
  note c = packed_replace_cases [OF ok h s_def rep ne']
  define ys where "ys = copy_within (pa_arena a) (sp_offset s + sp_len s)
      (pa_used a - (sp_offset s + sp_len s)) (sp_offset s + ?n)"
  have ys: "length ys = length (pa_arena a)" "pa_arena a' = copy_into ys (sp_offset s) bytes"
    using bound used c(5,8) by (simp_all add: ys_def)
  have fit: "sp_offset s + ?n \<le> length ys" using bound c(5) ys(1) by simp
  note apart = packed_okD(7) [OF ok h, folded s_def]
  show "packed_ok a'"
    by (rule packed_resize [OF ok h s_def, where n = ?n])
      (use c(1-7) ne' ys fit used bound packed_okD(3) [OF ok] live gap_shift_apart(2) apart
        in \<open>auto simp: live_slot_def\<close>)
  have "packed_get a' h = bytes"
    using slice_copy_into_same [OF fit] c(2) by (simp add: packed_get_def ys)
  moreover have "packed_get a' g = packed_get a g" if g: "g < length (pa_spans a)" "g \<noteq> h" for g
  proof -
    let ?t = "pa_spans a ! g" and ?t' = "gap_shift s ?n (pa_spans a ! g)"
    have ap: "spans_apart s ?t" using apart [OF g(1)] g(2) by simp
    note tb = packed_okD(6) [OF ok g(1)]
    have "slice (copy_into ys (sp_offset s) bytes) (sp_offset ?t') (sp_len ?t) = slice ys (sp_offset ?t') (sp_len ?t)"
      using gap_shift_apart(2) [OF disjI1 [OF ne'] ap, of ?n] gap_shift_apart(3) [OF disjI1 [OF ne'] ap tb bound, of ?n]
        fit ys(1) c(5)
      by (intro slice_copy_into_apart) (auto simp: spans_apart_def)
    also have "\<dots> = slice (pa_arena a) (sp_offset ?t) (sp_len ?t)"
      unfolding ys_def by (rule gap_shift_slice [OF disjI1 [OF ne'] ap used c(5) bound tb])
    finally show ?thesis using c(3) [OF g] by (simp add: packed_get_def Let_def ys)
  qed
  ultimately show "packed_stored a' = (packed_stored a)(h := Some bytes)"
    using live by (auto simp: packed_stored_def c(1,6) fun_eq_iff live_slot_def)
qed

interpretation packed_app: announce_app_data
  packed_get packed_insert packed_replace packed_free packed_stored packed_ok "\<lambda>old. old \<noteq> []"
proof (unfold_locales, goal_cases)
  case (1 s h bytes)
  then show ?case by (simp add: packed_stored_def split: if_splits)
next
  case (2 s bytes h s')
  then show ?case by (rule packed_insert_stored)
next
  case (3 s h old bytes s')
  then have live: "live_slot (length (pa_spans s)) (pa_free_slots s) h"
    and "slice (pa_arena s) (sp_offset (pa_spans s ! h)) (sp_len (pa_spans s ! h)) \<noteq> []"
    by (auto simp: packed_stored_def packed_get_def split: if_splits)
  then have "0 < sp_len (pa_spans s ! h)" by (auto simp: slice_def)
  from packed_replace_stored [OF 3(1) live this 3(4)] show ?case by blast
next
  case (4 s h old)
  then have "live_slot (length (pa_spans s)) (pa_free_slots s) h"
    by (simp add: packed_stored_def split: if_splits)
  from packed_free_stored [OF 4(1) this] show ?case by blast
qed

lemma packed_arena_new_ok: "packed_ok (packed_arena_new arena_bytes max_entries)"
  by (simp add: packed_ok_def packed_arena_new_def free_list_ok_def)

definition packed_live :: "packed_arena \<Rightarrow> nat set" where
  "packed_live a = {h. packed_stored a h \<noteq> None}"

lemma packed_live_alt:
  assumes "packed_ok a"
  shows "packed_live a = {..<length (pa_spans a)} - set (pa_free_slots a)"
  by (auto simp: packed_live_def packed_stored_def live_slot_def)

lemma packed_live_payload:
  assumes ok: "packed_ok a"
  shows "(\<Sum>h\<in>packed_live a. length (packed_get a h)) = pa_used a"
proof -
  let ?n = "length (pa_spans a)"
  have len: "length (packed_get a h) = sp_len (pa_spans a ! h)" if "h < ?n" for h
    using packed_okD(1) [OF ok] packed_okD(6) [OF ok that] by (simp add: packed_get_def Let_def)
  have "(\<Sum>h\<in>packed_live a. length (packed_get a h)) = (\<Sum>h<?n. sp_len (pa_spans a ! h))"
    unfolding packed_live_alt [OF ok] using len packed_okD(4) [OF ok]
    by (intro sum.mono_neutral_cong_left) auto
  also have "\<dots> = sum_list (map sp_len (pa_spans a))"
    by (simp add: sum_list_sum_nth atLeast0LessThan)
  finally show ?thesis using packed_okD(5) [OF ok] by simp
qed

lemma packed_live_card:
  assumes ok: "packed_ok a"
  shows "card (packed_live a) = pa_max_entries a \<longleftrightarrow>
    pa_free_slots a = [] \<and> length (pa_spans a) = pa_max_entries a"
proof -
  have fs: "distinct (pa_free_slots a)" "set (pa_free_slots a) \<subseteq> {..<length (pa_spans a)}"
    using packed_okD(3) [OF ok] by (simp_all add: free_list_ok_def)
  have "card (packed_live a) = length (pa_spans a) - length (pa_free_slots a)"
    unfolding packed_live_alt [OF ok] using fs by (simp add: card_Diff_subset distinct_card)
  moreover have "length (pa_free_slots a) \<le> length (pa_spans a)"
    using card_mono [OF _ fs(2)] distinct_card [OF fs(1)] by simp
  ultimately show ?thesis using packed_okD(2) [OF ok] by (cases "pa_free_slots a") auto
qed

lemma packed_contract_steps:
  assumes "packed_ok a"
  shows "packed_insert bytes a = Inr (h, a') \<Longrightarrow>
      packed_ok a' \<and> packed_get a' h = bytes \<and> packed_stored a h = None
      \<and> (\<forall>g. packed_stored a g \<noteq> None \<longrightarrow> packed_get a' g = packed_get a g)"
    and "packed_stored a h \<noteq> None \<Longrightarrow>
      packed_ok (packed_free h a) \<and> packed_stored (packed_free h a) h = None
      \<and> (\<forall>g. packed_stored a g \<noteq> None \<and> g \<noteq> h \<longrightarrow> packed_get (packed_free h a) g = packed_get a g)"
    and "packed_stored a h = Some old \<Longrightarrow> old \<noteq> [] \<Longrightarrow> packed_replace h bytes a = Inr a' \<Longrightarrow>
      packed_ok a' \<and> packed_get a' h = bytes
      \<and> (\<forall>g. packed_stored a g \<noteq> None \<and> g \<noteq> h \<longrightarrow> packed_get a' g = packed_get a g)"
proof -
  note get = packed_app.get_stored
  show "packed_ok a' \<and> packed_get a' h = bytes \<and> packed_stored a h = None
      \<and> (\<forall>g. packed_stored a g \<noteq> None \<longrightarrow> packed_get a' g = packed_get a g)"
    if "packed_insert bytes a = Inr (h, a')"
    using packed_app.insert_stored [OF assms that] packed_app.get_after_insert [OF assms that]
      packed_app.others_kept(1) [OF assms _ _ that] get [OF assms] by fastforce
  show "packed_ok (packed_free h a) \<and> packed_stored (packed_free h a) h = None
      \<and> (\<forall>g. packed_stored a g \<noteq> None \<and> g \<noteq> h \<longrightarrow> packed_get (packed_free h a) g = packed_get a g)"
    if "packed_stored a h \<noteq> None"
    using that packed_app.free_stored [OF assms] packed_app.others_kept(3) [OF assms] get [OF assms] by fastforce
  show "packed_ok a' \<and> packed_get a' h = bytes
      \<and> (\<forall>g. packed_stored a g \<noteq> None \<and> g \<noteq> h \<longrightarrow> packed_get a' g = packed_get a g)"
    if "packed_stored a h = Some old" "old \<noteq> []" "packed_replace h bytes a = Inr a'"
    using packed_app.replace_stored [OF assms that] packed_app.others_kept(2) [OF assms _ _ that] get
      get [OF assms] by fastforce
qed

text \<open>An empty payload that is replaced: only the spans that start strictly after it move.\<close>

lemma packed_replace_empty:
  assumes ok: "packed_ok a" and empty: "packed_stored a h = Some []" and rep: "packed_replace h bytes a = Inr a'"
    and g: "packed_stored a g = Some payload" "g \<noteq> h"
  defines "off \<equiv> sp_offset (pa_spans a ! h)" and "q \<equiv> sp_offset (pa_spans a ! g)"
  shows "packed_get a' h = bytes"
    and "packed_get a' g = (if q = off then take (length payload) (bytes @ payload) else payload)"
proof -
  let ?n = "length bytes" and ?m = "sp_len (pa_spans a ! g)" and ?xs = "pa_arena a"
  have slots: "h < length (pa_spans a)" "g < length (pa_spans a)"
    using empty g by (auto simp: packed_stored_def live_slot_def split: if_splits)
  note used = packed_okD(1) [OF ok] and bound = packed_okD(6) [OF ok slots(1)] packed_okD(6) [OF ok slots(2)]
  have len: "sp_len (pa_spans a ! h) = 0"
    using empty used bound(1) by (auto simp: packed_stored_def packed_get_def Let_def slice_def split: if_splits)
  have pay: "payload = slice ?xs q ?m" using g by (simp add: packed_stored_def packed_get_def Let_def q_def split: if_splits)
  have apart: "off \<le> q \<or> q + ?m \<le> off"
    using packed_okD(7) [OF ok slots] g(2) len by (auto simp: spans_apart_def off_def q_def)
  have b: "off \<le> pa_used a" "q + ?m \<le> pa_used a" using bound len by (simp_all add: off_def q_def)
  define ys where "ys = copy_into (copy_within ?xs off (pa_used a - off) (off + ?n)) off bytes"
  have fit: "pa_used a + ?n \<le> length ?xs" if "?n \<noteq> 0"
    using rep that len by (auto simp: packed_replace_def Let_def split: if_splits)
  have a': "pa_arena a' = ys" "pa_spans a' ! h = (pa_spans a ! h)\<lparr>sp_len := ?n\<rparr>"
    "pa_spans a' ! g = (if off < q then (pa_spans a ! g)\<lparr>sp_offset := q + ?n\<rparr> else pa_spans a ! g)"
    if "?n \<noteq> 0"
    using rep that len slots g(2) by (auto simp: packed_replace_def Let_def ys_def off_def q_def split: if_splits)
  have ylen: "length ys = length ?xs" if "?n \<noteq> 0" using fit [OF that] b unfolding ys_def by simp
  have nth: "ys ! k = (if off \<le> k \<and> k < off + ?n then bytes ! (k - off)
      else if off + ?n \<le> k \<and> k < pa_used a + ?n then ?xs ! (k - ?n) else ?xs ! k)"
    if "?n \<noteq> 0" "k < length ?xs" for k
    using fit [OF that(1)] b that(2) by (auto simp: ys_def nth_copy_into nth_copy_within intro!: arg_cong [of _ _ "(!) ?xs"])
  show "packed_get a' h = bytes"
  proof (cases "?n = 0")
    case True
    then show ?thesis using rep len by (simp add: packed_replace_def packed_get_def Let_def slice_def copy_into_def)
  next
    case False
    then have "packed_get a' h = slice ys off ?n" using a' [OF False] by (simp add: packed_get_def Let_def off_def)
    also have "\<dots> = bytes" unfolding ys_def using fit [OF False] b by (intro slice_copy_into_same) simp
    finally show ?thesis .
  qed
  show "packed_get a' g = (if q = off then take (length payload) (bytes @ payload) else payload)"
  proof (cases "?n = 0")
    case True
    then show ?thesis using rep len pay by (simp add: packed_replace_def packed_get_def Let_def q_def copy_into_def)
  next
    case False
    consider "q = off" | "off < q" | "q < off" "q + ?m \<le> off" using apart by linarith
    then show ?thesis
    proof cases
      case 1
      have "packed_get a' g = slice ys off ?m" using a' [OF False] 1 by (simp add: packed_get_def Let_def q_def)
      also have "\<dots> = take ?m (bytes @ payload)"
        using 1 fit [OF False] b ylen [OF False]
        by (intro nth_equalityI) (simp_all add: pay nth [OF False] nth_append)
      finally show ?thesis using 1 pay used b by simp
    next
      case 2
      have "packed_get a' g = slice ys (q + ?n) ?m" using a' [OF False] 2 by (simp add: packed_get_def Let_def)
      also have "\<dots> = slice ?xs q ?m"
        using 2 fit [OF False] b ylen [OF False] by (intro slice_cong) (simp_all add: nth [OF False])
      finally show ?thesis using 2 pay by simp
    next
      case 3
      have "packed_get a' g = slice ys q ?m" using a' [OF False] 3 by (simp add: packed_get_def Let_def q_def)
      also have "\<dots> = slice ?xs q ?m"
        using 3 fit [OF False] b ylen [OF False] by (intro slice_cong) (simp_all add: nth [OF False])
      finally show ?thesis using 3 pay by simp
    qed
  qed
qed

section \<open>Properties\<close>

text \<open>
  C34. The packed arena is a faithful store: a payload reads back as it was inserted, and it keeps
  reading back while other payloads are inserted, freed (which moves every later payload down) or
  replaced by longer or shorter ones (which moves every later payload up or down), as long as
  \<open>replace\<close> is called on a payload that is not empty.
\<close>

theorem packed_arena_contract:
  assumes "packed_ok a"
  shows "(packed_insert bytes a = Inr (h, a') \<longrightarrow>
      packed_ok a' \<and> packed_get a' h = bytes \<and> packed_stored a h = None
      \<and> (\<forall>g. packed_stored a g \<noteq> None \<longrightarrow> packed_get a' g = packed_get a g))
    \<and> (packed_stored a h \<noteq> None \<longrightarrow>
      packed_ok (packed_free h a) \<and> packed_stored (packed_free h a) h = None
      \<and> (\<forall>g. packed_stored a g \<noteq> None \<and> g \<noteq> h \<longrightarrow> packed_get (packed_free h a) g = packed_get a g))
    \<and> (packed_stored a h = Some old \<and> old \<noteq> [] \<and> packed_replace h bytes a = Inr a' \<longrightarrow>
      packed_ok a' \<and> packed_get a' h = bytes
      \<and> (\<forall>g. packed_stored a g \<noteq> None \<and> g \<noteq> h \<longrightarrow> packed_get a' g = packed_get a g))"
  using packed_contract_steps [OF assms] by blast

definition sample_arena :: packed_arena where
  "sample_arena =
     \<lparr>pa_arena = [1, 2, 3, 0, 0, 0], pa_used = 3,
      pa_spans = [\<lparr>sp_offset = 0, sp_len = 1\<rparr>, \<lparr>sp_offset = 1, sp_len = 2\<rparr>],
      pa_free_slots = [], pa_max_entries = 4\<rparr>"

lemma sample_arena_ok: "packed_ok sample_arena"
  by (auto simp: packed_ok_def sample_arena_def free_list_ok_def spans_apart_def less_Suc_eq)

theorem packed_arena_contract_witness:
  "packed_get (packed_free 0 sample_arena) 1 = [2, 3]
   \<and> (case packed_replace 0 [7, 8, 9] sample_arena of Inl e \<Rightarrow> False
      | Inr a' \<Rightarrow> packed_get a' 0 = [7, 8, 9] \<and> packed_get a' 1 = [2, 3])
   \<and> (case packed_insert [5] sample_arena of Inl e \<Rightarrow> False
      | Inr (h, a') \<Rightarrow> packed_get a' h = [5] \<and> packed_get a' 0 = [1])"
proof (intro conjI)
  have live: "packed_stored sample_arena 0 = Some [1]" "packed_stored sample_arena 1 = Some [2, 3]"
    "packed_get sample_arena 0 = [1]" "packed_get sample_arena 1 = [2, 3]"
    by code_simp+
  show "packed_get (packed_free 0 sample_arena) 1 = [2, 3]"
    using packed_arena_contract [OF sample_arena_ok, of _ 0] live by simp
  obtain a' where a': "packed_replace 0 [7, 8, 9] sample_arena = Inr a'"
    by (simp add: packed_replace_def sample_arena_def Let_def)
  then show "case packed_replace 0 [7, 8, 9] sample_arena of Inl e \<Rightarrow> False
      | Inr a' \<Rightarrow> packed_get a' 0 = [7, 8, 9] \<and> packed_get a' 1 = [2, 3]"
    using packed_arena_contract [OF sample_arena_ok, of "[7, 8, 9]" 0 a' "[1]"] live by simp
  obtain h b where b: "packed_insert [5] sample_arena = Inr (h, b)"
    by (simp add: packed_insert_def sample_arena_def Let_def)
  then show "case packed_insert [5] sample_arena of Inl e \<Rightarrow> False
      | Inr (h, a') \<Rightarrow> packed_get a' h = [5] \<and> packed_get a' 0 = [1]"
    using packed_arena_contract [OF sample_arena_ok, of "[5]" h b] live by simp
qed

text \<open>
  C35. The packed arena never fragments: an insertion is refused for want of entries exactly when the
  limit is in use, and otherwise for want of room exactly when the live payloads and the new one do
  not fit the arena together, whatever was inserted, freed and replaced before.
\<close>

theorem packed_insert_errors:
  assumes "packed_ok a"
  shows "(packed_insert bytes a = Inl TooManyEntries \<longleftrightarrow> card (packed_live a) = pa_max_entries a)
    \<and> (packed_insert bytes a = Inl ArenaFull \<longleftrightarrow>
      card (packed_live a) \<noteq> pa_max_entries a
      \<and> (\<Sum>h\<in>packed_live a. length (packed_get a h)) + length bytes > length (pa_arena a))"
  unfolding packed_live_card [OF assms] packed_live_payload [OF assms]
  using packed_okD(1) [OF assms] by (auto simp: packed_insert_def Let_def)

theorem packed_insert_errors_witness:
  "packed_insert [1, 2, 3, 4] sample_arena = Inl ArenaFull \<and> card (packed_live sample_arena) \<noteq> 4"
proof -
  have "packed_insert [1, 2, 3, 4] sample_arena = Inl ArenaFull"
    by (simp add: packed_insert_def sample_arena_def)
  with packed_insert_errors [OF sample_arena_ok, of "[1, 2, 3, 4]"] show ?thesis
    by (simp add: sample_arena_def)
qed

text \<open>
  C36. What \<open>replace\<close> does to an empty payload, for every arena in order. The replaced handle reads the new
  bytes. A payload that starts elsewhere is kept. A payload that starts where the empty one does (the one
  inserted right after it) is not moved, because \<open>replace\<close> moves only the spans that start strictly after the
  replaced one: it now reads the new bytes followed by its own, cut to its length.
\<close>

theorem packed_replace_empty_corrupts:
  assumes "packed_ok a" "packed_stored a h = Some []" "packed_replace h bytes a = Inr a'"
    and "packed_stored a g = Some payload" "g \<noteq> h"
  shows "packed_get a' h = bytes
    \<and> packed_get a' g =
        (if sp_offset (pa_spans a ! g) = sp_offset (pa_spans a ! h) then take (length payload) (bytes @ payload) else payload)"
  using packed_replace_empty [OF assms] by simp

theorem packed_replace_empty_corrupts_witness:
  "case packed_insert [] (packed_arena_new 16 4) of Inl e \<Rightarrow> False | Inr (h0, a1) \<Rightarrow>
     (case packed_insert [1, 2] a1 of Inl e \<Rightarrow> False | Inr (h1, a2) \<Rightarrow>
        packed_get a2 h1 = [1, 2]
        \<and> (case packed_replace h0 [7, 8, 9] a2 of Inl e \<Rightarrow> False | Inr a3 \<Rightarrow>
             packed_get a3 h0 = [7, 8, 9] \<and> packed_get a3 h1 = [7, 8]))"
proof -
  obtain a1 where a1: "packed_insert [] (packed_arena_new 16 4) = Inr (0, a1)"
    by (simp add: packed_insert_def packed_arena_new_def Let_def)
  have s1: "packed_ok a1" "packed_stored a1 0 = Some []" "pa_used a1 = 0" "length (pa_arena a1) = 16"
    "pa_spans a1 = [\<lparr>sp_offset = 0, sp_len = 0\<rparr>]" "pa_free_slots a1 = []" "pa_max_entries a1 = 4"
    using packed_insert_stored [OF packed_arena_new_ok a1] a1
    by (simp_all add: packed_insert_def packed_arena_new_def Let_def copy_into_def) auto
  obtain a2 where a2: "packed_insert [1, 2] a1 = Inr (1, a2)"
    using s1 by (simp add: packed_insert_def Let_def)
  have s2: "packed_ok a2" "packed_stored a2 0 = Some []" "packed_stored a2 1 = Some [1, 2]" "pa_used a2 = 2"
    "length (pa_arena a2) = 16" "sp_offset (pa_spans a2 ! 0) = 0" "sp_len (pa_spans a2 ! 0) = 0" "sp_offset (pa_spans a2 ! 1) = 0"
    using packed_insert_stored [OF s1(1) a2] a2 s1 by (auto simp: packed_insert_def Let_def)
  obtain a3 where a3: "packed_replace 0 [7, 8, 9] a2 = Inr a3"
    using s2 by (simp add: packed_replace_def Let_def)
  have "packed_get a2 1 = [1, 2]" using packed_app.get_stored [OF s2(1,3)] .
  with packed_replace_empty_corrupts [OF s2(1,2) a3 s2(3)] a1 a2 a3 s2 show ?thesis by simp
qed

end
