(* ===== verification/Routing_Table.thy ===== *)
theory Routing_Table
  imports Route_Table Announce_Store App_Data_Arena
begin

text \<open>
  The routing table, \<^verbatim>\<open>prns-core/src/routing/table/\<close>: the route columns, the announce records, the
  announce id histories and the app data run in step, row for row. The Rust type is generic over its four
  stores; here they are a record of operations. The route expiry index is the linear one
  (\<^verbatim>\<open>routing/route_expiry/impls/linear.rs\<close>), which keeps no state. The \<open>on_removed\<close> callback is the
  list of the removals in the order it is called.

  This theory holds the operations; \<^verbatim>\<open>Routing_Table_Laws\<close> holds what they do.
\<close>

section \<open>The table\<close>

datatype linear_route_expiry_index = LinearRouteExpiryIndex

definition linear_invalidate :: "linear_route_expiry_index \<Rightarrow> linear_route_expiry_index" where
  "linear_invalidate x = x"

definition linear_insert :: "nat \<Rightarrow> instant_millis \<Rightarrow> linear_route_expiry_index \<Rightarrow> linear_route_expiry_index" where
  "linear_insert row expiry x = x"

definition linear_update :: "nat \<Rightarrow> instant_millis \<Rightarrow> linear_route_expiry_index \<Rightarrow> linear_route_expiry_index" where
  "linear_update row expiry x = x"

definition linear_swap_remove :: "nat \<Rightarrow> nat \<Rightarrow> linear_route_expiry_index \<Rightarrow> linear_route_expiry_index" where
  "linear_swap_remove removed lst x = x"

fun iter_min :: "'a::linorder list \<Rightarrow> 'a option" where
  "iter_min [] = None"
| "iter_min (x # xs) = Some (case iter_min xs of None \<Rightarrow> x | Some y \<Rightarrow> min x y)"

definition linear_earliest_exact :: "nat \<Rightarrow> (nat \<Rightarrow> instant_millis) \<Rightarrow> instant_millis option" where
  "linear_earliest_exact row_count expiry_of = iter_min (map expiry_of [0..<row_count])"

definition linear_first_expired :: "nat \<Rightarrow> instant_millis \<Rightarrow> (nat \<Rightarrow> instant_millis) \<Rightarrow> nat option" where
  "linear_first_expired row_count now expiry_of = find (\<lambda>row. expiry_of row \<le> now) [0..<row_count]"

record ('r, 'a, 'h, 'd) backends =
  be_routes :: "'r route_table_methods"
  be_records :: "'a record_table_ops"
  be_history :: "'h id_history_ops"
  be_app_data :: "'d app_data_ops"

record ('r, 'a, 'h, 'd) routing_table =
  t_routes :: 'r
  t_route_expiries :: linear_route_expiry_index
  t_announce_records :: 'a
  t_announce_id_history :: 'h
  t_announce_app_data :: 'd

section \<open>Reading\<close>

definition index_of :: "('r, 'a, 'h, 'd) backends \<Rightarrow> ('r, 'a, 'h, 'd) routing_table \<Rightarrow> destination_hash \<Rightarrow> nat option" where
  "index_of B t destination = rt_index_of (be_routes B) destination (t_routes t)"

definition route_count :: "('r, 'a, 'h, 'd) backends \<Rightarrow> ('r, 'a, 'h, 'd) routing_table \<Rightarrow> nat" where
  "route_count B t = rt_len (be_routes B) (t_routes t)"

definition route_count_via :: "('r, 'a, 'h, 'd) backends \<Rightarrow> ('r, 'a, 'h, 'd) routing_table \<Rightarrow> interface_id \<Rightarrow> nat" where
  "route_count_via B t interface = rt_route_count_via (be_routes B) interface (t_routes t)"

definition path_row_at :: "('r, 'a, 'h, 'd) backends \<Rightarrow> ('r, 'a, 'h, 'd) routing_table \<Rightarrow> nat \<Rightarrow> route_entry" where
  "path_row_at B t i =
     (let R = be_routes B; r = t_routes t
      in \<lparr>re_hops = rt_hops R r ! i, re_learned_at = rt_learned_at R r ! i,
          re_last_route_activity_at = rt_last_route_activity_at R r ! i,
          re_responsiveness = rt_responsiveness R r ! i,
          re_receiving_interface = rt_receiving_interfaces R r ! i, re_next_hop = rt_next_hops R r ! i,
          re_retention = rt_retentions R r ! i\<rparr>)"

definition hop_count_to :: "('r, 'a, 'h, 'd) backends \<Rightarrow> ('r, 'a, 'h, 'd) routing_table \<Rightarrow> destination_hash \<Rightarrow> u8 option" where
  "hop_count_to B t destination = map_option (\<lambda>i. rt_hops (be_routes B) (t_routes t) ! i) (index_of B t destination)"

definition has_route :: "('r, 'a, 'h, 'd) backends \<Rightarrow> ('r, 'a, 'h, 'd) routing_table \<Rightarrow> destination_hash \<Rightarrow> bool" where
  "has_route B t destination = (index_of B t destination \<noteq> None)"

definition responsiveness_of ::
  "('r, 'a, 'h, 'd) backends \<Rightarrow> ('r, 'a, 'h, 'd) routing_table \<Rightarrow> destination_hash \<Rightarrow> route_responsiveness option" where
  "responsiveness_of B t destination =
     map_option (\<lambda>i. rt_responsiveness (be_routes B) (t_routes t) ! i) (index_of B t destination)"

definition path_rows ::
  "('r, 'a, 'h, 'd) backends \<Rightarrow> ('r, 'a, 'h, 'd) routing_table \<Rightarrow> (destination_hash \<times> route_entry) list" where
  "path_rows B t =
     map (\<lambda>i. (rt_destinations (be_routes B) (t_routes t) ! i, path_row_at B t i)) [0..<route_count B t]"

definition path_row ::
  "('r, 'a, 'h, 'd) backends \<Rightarrow> ('r, 'a, 'h, 'd) routing_table \<Rightarrow> destination_hash \<Rightarrow> route_entry option" where
  "path_row B t destination = map_option (path_row_at B t) (index_of B t destination)"

record forwarding_route =
  fw_hops :: hop_count
  fw_receiving_interface :: interface_id
  fw_next_hop :: next_hop

definition forwarding_route_for ::
  "('r, 'a, 'h, 'd) backends \<Rightarrow> ('r, 'a, 'h, 'd) routing_table \<Rightarrow> destination_hash \<Rightarrow> forwarding_route option" where
  "forwarding_route_for B t destination =
     map_option (\<lambda>i. \<lparr>fw_hops = rt_hops (be_routes B) (t_routes t) ! i,
         fw_receiving_interface = rt_receiving_interfaces (be_routes B) (t_routes t) ! i,
         fw_next_hop = rt_next_hops (be_routes B) (t_routes t) ! i\<rparr>) (index_of B t destination)"

record announce =
  an_destination :: destination_hash
  an_public_keys :: identity_public_keys
  an_dotted_name_hash :: dotted_name_hash
  an_announce_id :: announce_id
  an_ratchet :: "ratchet_key option"
  an_signature :: signature
  an_app_data :: "u8 list"

record stored_announce =
  st_hops :: u8
  st_receiving_interface :: interface_id
  st_next_hop :: next_hop
  st_announce :: announce

definition stored_announce_for ::
  "('r, 'a, 'h, 'd) backends \<Rightarrow> ('r, 'a, 'h, 'd) routing_table \<Rightarrow> destination_hash \<Rightarrow> stored_announce option" where
  "stored_announce_for B t destination =
     (let R = be_routes B; r = t_routes t; A = be_records B; a = t_announce_records t
      in case index_of B t destination of
           None \<Rightarrow> None
         | Some i \<Rightarrow>
             (case at_app_data_handles A a ! i of
                None \<Rightarrow> None
              | Some handle \<Rightarrow>
                  let app_data = ad_get (be_app_data B) (t_announce_app_data t) handle
                  in Some \<lparr>st_hops = rt_hops R r ! i, st_receiving_interface = rt_receiving_interfaces R r ! i,
                       st_next_hop = rt_next_hops R r ! i,
                       st_announce = \<lparr>an_destination = rt_destinations R r ! i,
                         an_public_keys = at_public_keys A a ! i,
                         an_dotted_name_hash = at_dotted_name_hashes A a ! i,
                         an_announce_id = at_announce_ids A a ! i, an_ratchet = at_ratchets A a ! i,
                         an_signature = at_signatures A a ! i, an_app_data = app_data\<rparr>\<rparr>))"

definition app_data_for ::
  "('r, 'a, 'h, 'd) backends \<Rightarrow> ('r, 'a, 'h, 'd) routing_table \<Rightarrow> destination_hash \<Rightarrow> u8 list option" where
  "app_data_for B t destination =
     map_option (\<lambda>s. an_app_data (st_announce s)) (stored_announce_for B t destination)"

subsection \<open>Evidence handles\<close>

definition route_evidence_row_hint :: "nat \<Rightarrow> u16" where
  "route_evidence_row_hint row = (if row < 2 ^ 16 then word_of_nat row else - 1)"

definition route_evidence_scan_start :: "u16 \<Rightarrow> nat \<Rightarrow> nat" where
  "route_evidence_scan_start row_hint len =
     (if row_hint = - 1 then len - 1 else min (unat row_hint) (len - 1))"

definition route_evidence_handle_for ::
  "('r, 'a, 'h, 'd) backends \<Rightarrow> ('r, 'a, 'h, 'd) routing_table \<Rightarrow> destination_hash \<Rightarrow> evidence_handle option" where
  "route_evidence_handle_for B t destination =
     map_option (\<lambda>row. \<lparr>eh_id = rt_evidence_ids (be_routes B) (t_routes t) ! row,
         eh_row_hint = route_evidence_row_hint row\<rparr>) (index_of B t destination)"

text \<open>The loop \<open>for row in (0..=start).rev()\<close>.\<close>

fun evidence_scan_down :: "evidence_id list \<Rightarrow> evidence_id \<Rightarrow> nat \<Rightarrow> nat option" where
  "evidence_scan_down ids v 0 = (if ids ! 0 = v then Some 0 else None)"
| "evidence_scan_down ids v (Suc row) = (if ids ! Suc row = v then Some (Suc row) else evidence_scan_down ids v row)"

definition resolve_route_evidence ::
  "('r, 'a, 'h, 'd) backends \<Rightarrow> ('r, 'a, 'h, 'd) routing_table \<Rightarrow> evidence_handle \<Rightarrow> nat option \<times> evidence_handle" where
  "resolve_route_evidence B t handle =
     (let len = route_count B t
      in if len = 0 then (None, handle)
         else
           let start = route_evidence_scan_start (eh_row_hint handle) len
           in case evidence_scan_down (rt_evidence_ids (be_routes B) (t_routes t)) (eh_id handle) start of
                None \<Rightarrow> (None, handle)
              | Some row \<Rightarrow> (Some row, handle\<lparr>eh_row_hint := route_evidence_row_hint row\<rparr>))"

section \<open>Lifetimes\<close>

definition last_active_at :: "('r, 'a, 'h, 'd) backends \<Rightarrow> ('r, 'a, 'h, 'd) routing_table \<Rightarrow> nat \<Rightarrow> instant_millis" where
  "last_active_at B t i =
     max (rt_learned_at (be_routes B) (t_routes t) ! i) (rt_last_route_activity_at (be_routes B) (t_routes t) ! i)"

definition expiry_from_anchor ::
  "('r, 'a, 'h, 'd) backends \<Rightarrow> ('r, 'a, 'h, 'd) routing_table \<Rightarrow> instant_millis \<Rightarrow> nat
     \<Rightarrow> interface_descriptor list \<Rightarrow> route_warmth \<Rightarrow> instant_millis" where
  "expiry_from_anchor B t anchor i interfaces warmth =
     (let R = be_routes B; r = t_routes t;
          receiving_interface = rt_receiving_interfaces R r ! i;
          network_expiry =
            (case descriptor_for interfaces receiving_interface of
               Some descriptor \<Rightarrow> saturating_add anchor (route_expiry_millis (if_mode descriptor))
             | None \<Rightarrow> (case warmth receiving_interface of Some warm \<Rightarrow> warm | None \<Rightarrow> anchor))
      in constrain_expiry (rt_retentions R r ! i) (rt_learned_at R r ! i) network_expiry)"

definition expiry_of_with_warmth ::
  "('r, 'a, 'h, 'd) backends \<Rightarrow> ('r, 'a, 'h, 'd) routing_table \<Rightarrow> nat \<Rightarrow> interface_descriptor list
     \<Rightarrow> route_warmth \<Rightarrow> instant_millis" where
  "expiry_of_with_warmth B t i interfaces warmth =
     expiry_from_anchor B t (last_active_at B t i) i interfaces warmth"

definition expiry_of ::
  "('r, 'a, 'h, 'd) backends \<Rightarrow> ('r, 'a, 'h, 'd) routing_table \<Rightarrow> nat \<Rightarrow> interface_descriptor list \<Rightarrow> instant_millis" where
  "expiry_of B t i interfaces = expiry_of_with_warmth B t i interfaces no_warmth"

definition gate_expiry_of ::
  "('r, 'a, 'h, 'd) backends \<Rightarrow> ('r, 'a, 'h, 'd) routing_table \<Rightarrow> nat \<Rightarrow> interface_descriptor list \<Rightarrow> instant_millis" where
  "gate_expiry_of B t i interfaces =
     (case rt_responsiveness (be_routes B) (t_routes t) ! i of
        Responsive \<Rightarrow> expiry_of B t i interfaces
      | Unknown \<Rightarrow>
          expiry_from_anchor B t (rt_learned_at (be_routes B) (t_routes t) ! i) i interfaces no_warmth
      | Unresponsive \<Rightarrow>
          expiry_from_anchor B t (rt_learned_at (be_routes B) (t_routes t) ! i) i interfaces no_warmth)"

definition existing_route_for ::
  "('r, 'a, 'h, 'd) backends \<Rightarrow> ('r, 'a, 'h, 'd) routing_table \<Rightarrow> destination_hash \<Rightarrow> interface_descriptor list
     \<Rightarrow> existing_route option" where
  "existing_route_for B t destination interfaces =
     map_option (\<lambda>i. \<lparr>ex_hops = rt_hops (be_routes B) (t_routes t) ! i,
         ex_expires_at = gate_expiry_of B t i interfaces,
         ex_announce_id_history = ih_history (be_history B) (t_announce_id_history t) i,
         ex_responsiveness = rt_responsiveness (be_routes B) (t_routes t) ! i,
         ex_interface_gravity =
           map_option if_gravity (descriptor_for interfaces (rt_receiving_interfaces (be_routes B) (t_routes t) ! i))\<rparr>)
       (index_of B t destination)"

definition path_rows_with_expiry ::
  "('r, 'a, 'h, 'd) backends \<Rightarrow> ('r, 'a, 'h, 'd) routing_table \<Rightarrow> interface_descriptor list \<Rightarrow> route_warmth
     \<Rightarrow> (destination_hash \<times> route_entry \<times> instant_millis) list" where
  "path_rows_with_expiry B t interfaces warmth =
     map (\<lambda>i. (rt_destinations (be_routes B) (t_routes t) ! i, path_row_at B t i,
               expiry_of_with_warmth B t i interfaces warmth)) [0..<route_count B t]"

definition path_row_with_expiry ::
  "('r, 'a, 'h, 'd) backends \<Rightarrow> ('r, 'a, 'h, 'd) routing_table \<Rightarrow> destination_hash \<Rightarrow> interface_descriptor list
     \<Rightarrow> route_warmth \<Rightarrow> (route_entry \<times> instant_millis) option" where
  "path_row_with_expiry B t destination interfaces warmth =
     map_option (\<lambda>i. (path_row_at B t i, expiry_of_with_warmth B t i interfaces warmth)) (index_of B t destination)"

definition soonest_route_expiry_with_warmth ::
  "('r, 'a, 'h, 'd) backends \<Rightarrow> ('r, 'a, 'h, 'd) routing_table \<Rightarrow> interface_descriptor list \<Rightarrow> route_warmth
     \<Rightarrow> instant_millis option" where
  "soonest_route_expiry_with_warmth B t interfaces warmth =
     iter_min (map (\<lambda>i. expiry_of_with_warmth B t i interfaces warmth) [0..<route_count B t])"

definition soonest_route_expiry ::
  "('r, 'a, 'h, 'd) backends \<Rightarrow> ('r, 'a, 'h, 'd) routing_table \<Rightarrow> interface_descriptor list \<Rightarrow> instant_millis option" where
  "soonest_route_expiry B t interfaces = soonest_route_expiry_with_warmth B t interfaces no_warmth"

definition soonest_route_expiry_indexed_with_warmth ::
  "('r, 'a, 'h, 'd) backends \<Rightarrow> ('r, 'a, 'h, 'd) routing_table \<Rightarrow> interface_descriptor list \<Rightarrow> route_warmth
     \<Rightarrow> instant_millis option" where
  "soonest_route_expiry_indexed_with_warmth B t interfaces warmth =
     linear_earliest_exact (route_count B t) (\<lambda>row. expiry_of_with_warmth B t row interfaces warmth)"

section \<open>Removing\<close>

datatype route_removal_cause = Expired | Evicted | InterfaceGone | Dropped

record removed_route =
  rm_destination :: destination_hash
  rm_receiving_interface :: interface_id
  rm_cause :: route_removal_cause

definition route_removal_at ::
  "('r, 'a, 'h, 'd) backends \<Rightarrow> ('r, 'a, 'h, 'd) routing_table \<Rightarrow> nat \<Rightarrow> route_removal_cause \<Rightarrow> removed_route" where
  "route_removal_at B t row cause =
     \<lparr>rm_destination = rt_destinations (be_routes B) (t_routes t) ! row,
      rm_receiving_interface = rt_receiving_interfaces (be_routes B) (t_routes t) ! row, rm_cause = cause\<rparr>"

definition remove_route_at ::
  "('r, 'a, 'h, 'd) backends \<Rightarrow> nat \<Rightarrow> ('r, 'a, 'h, 'd) routing_table \<Rightarrow> ('r, 'a, 'h, 'd) routing_table" where
  "remove_route_at B row t =
     (let lst = route_count B t - 1;
          freed = at_app_data_handles (be_records B) (t_announce_records t) ! row;
          t = (case freed of
                 Some handle \<Rightarrow> t\<lparr>t_announce_app_data := ad_free (be_app_data B) handle (t_announce_app_data t)\<rparr>
               | None \<Rightarrow> t)
      in t\<lparr>t_routes := rt_swap_remove (be_routes B) row lst (t_routes t),
           t_announce_records := at_swap_remove (be_records B) row lst (t_announce_records t),
           t_announce_id_history := ih_swap_remove (be_history B) row lst (t_announce_id_history t),
           t_route_expiries := linear_swap_remove row lst (t_route_expiries t)\<rparr>)"

definition drop_route ::
  "('r, 'a, 'h, 'd) backends \<Rightarrow> destination_hash \<Rightarrow> ('r, 'a, 'h, 'd) routing_table
     \<Rightarrow> removed_route option \<times> ('r, 'a, 'h, 'd) routing_table" where
  "drop_route B destination t =
     (case index_of B t destination of
        None \<Rightarrow> (None, t)
      | Some row \<Rightarrow> (Some (route_removal_at B t row Dropped), remove_route_at B row t))"

text \<open>
  The loops that walk the table and remove the rows that are due: a removal puts the last row in the
  current place, so the cursor moves on only past a row that stays. \<open>None\<close> is a loop that never ends.
\<close>

partial_function (option) sweep_loop ::
  "('r, 'a, 'h, 'd) backends \<Rightarrow> (('r, 'a, 'h, 'd) routing_table \<Rightarrow> nat \<Rightarrow> route_removal_cause option) \<Rightarrow> nat
     \<Rightarrow> ('r, 'a, 'h, 'd) routing_table \<Rightarrow> removed_route list
     \<Rightarrow> (('r, 'a, 'h, 'd) routing_table \<times> removed_route list) option" where
  "sweep_loop B due i t removed =
     (if i < route_count B t then
        (case due t i of
           Some cause \<Rightarrow> sweep_loop B due i (remove_route_at B i t) (removed @ [route_removal_at B t i cause])
         | None \<Rightarrow> sweep_loop B due (i + 1) t removed)
      else Some (t, removed))"

definition expired_cause ::
  "('r, 'a, 'h, 'd) backends \<Rightarrow> ('r, 'a, 'h, 'd) routing_table \<Rightarrow> nat \<Rightarrow> interface_descriptor list \<Rightarrow> route_removal_cause" where
  "expired_cause B t row interfaces =
     (if descriptor_for interfaces (rt_receiving_interfaces (be_routes B) (t_routes t) ! row) \<noteq> None
      then Expired else InterfaceGone)"

definition cull_expired_routes_with_warmth ::
  "('r, 'a, 'h, 'd) backends \<Rightarrow> instant_millis \<Rightarrow> interface_descriptor list \<Rightarrow> route_warmth
     \<Rightarrow> ('r, 'a, 'h, 'd) routing_table \<Rightarrow> (('r, 'a, 'h, 'd) routing_table \<times> removed_route list) option" where
  "cull_expired_routes_with_warmth B now interfaces warmth t =
     sweep_loop B (\<lambda>t i. if now \<ge> expiry_of_with_warmth B t i interfaces warmth
        then Some (expired_cause B t i interfaces) else None) 0 t []"

definition cull_expired_routes ::
  "('r, 'a, 'h, 'd) backends \<Rightarrow> instant_millis \<Rightarrow> interface_descriptor list
     \<Rightarrow> ('r, 'a, 'h, 'd) routing_table \<Rightarrow> (('r, 'a, 'h, 'd) routing_table \<times> removed_route list) option" where
  "cull_expired_routes B now interfaces t = cull_expired_routes_with_warmth B now interfaces no_warmth t"

definition drop_routes_via ::
  "('r, 'a, 'h, 'd) backends \<Rightarrow> transport_id \<Rightarrow> ('r, 'a, 'h, 'd) routing_table
     \<Rightarrow> (('r, 'a, 'h, 'd) routing_table \<times> removed_route list) option" where
  "drop_routes_via B transport t =
     sweep_loop B (\<lambda>t row. if rt_next_hops (be_routes B) (t_routes t) ! row \<noteq> Via transport then None
        else Some Dropped) 0 t []"

text \<open>The identity hash of a pair of keys is a parameter: it is a SHA-256.\<close>

definition drop_routes_for_identity ::
  "(identity_public_keys \<Rightarrow> 'i) \<Rightarrow> ('r, 'a, 'h, 'd) backends \<Rightarrow> 'i \<Rightarrow> ('r, 'a, 'h, 'd) routing_table
     \<Rightarrow> (('r, 'a, 'h, 'd) routing_table \<times> removed_route list) option" where
  "drop_routes_for_identity identity_hash B identity t =
     sweep_loop B (\<lambda>t row. if identity_hash (at_public_keys (be_records B) (t_announce_records t) ! row) \<noteq> identity
        then None else Some Dropped) 0 t []"

section \<open>Learning\<close>

datatype eviction = EvictedRow | NothingToEvict

datatype drop_cause = RoutingTableFull | PayloadArenaFull

datatype upsert_route_outcome = Inserted | Updated | DroppedAnnounce drop_cause

record announce_arrival =
  aa_announce :: announce
  aa_hops :: u8
  aa_arrived_at :: instant_millis
  aa_receiving_interface :: interface_id
  aa_next_hop :: next_hop
  aa_is_path_response :: bool

definition destination_capacity :: "('r, 'a, 'h, 'd) backends \<Rightarrow> ('r, 'a, 'h, 'd) routing_table \<Rightarrow> nat" where
  "destination_capacity B t =
     min (rt_capacity (be_routes B) (t_routes t)) (at_capacity (be_records B) (t_announce_records t))"

definition evict_route_nearest_expiry ::
  "('r, 'a, 'h, 'd) backends \<Rightarrow> interface_descriptor list \<Rightarrow> route_warmth \<Rightarrow> ('r, 'a, 'h, 'd) routing_table
     \<Rightarrow> eviction \<times> ('r, 'a, 'h, 'd) routing_table \<times> removed_route list" where
  "evict_route_nearest_expiry B interfaces warmth t =
     (case min_by_key (\<lambda>i. expiry_of_with_warmth B t i interfaces warmth) [0..<route_count B t] of
        None \<Rightarrow> (NothingToEvict, t, [])
      | Some i \<Rightarrow> (EvictedRow, remove_route_at B i t, [route_removal_at B t i Evicted]))"

definition arrival_entry :: "announce_arrival \<Rightarrow> route_retention \<Rightarrow> route_entry" where
  "arrival_entry arrival retention =
     \<lparr>re_hops = aa_hops arrival, re_learned_at = aa_arrived_at arrival, re_last_route_activity_at = 0,
      re_responsiveness = Unknown, re_receiving_interface = aa_receiving_interface arrival,
      re_next_hop = aa_next_hop arrival, re_retention = retention\<rparr>"

definition announce_record_of :: "announce \<Rightarrow> nat \<Rightarrow> announce_record" where
  "announce_record_of announce handle =
     \<lparr>ar_public_keys = an_public_keys announce, ar_dotted_name_hash = an_dotted_name_hash announce,
      ar_announce_id = an_announce_id announce, ar_signature = an_signature announce,
      ar_ratchet = an_ratchet announce, ar_app_data_handle = Some handle\<rparr>"

text \<open>\<open>insert_new_route\<close> from the point where the app data has its handle.\<close>

definition push_new_route ::
  "('r, 'a, 'h, 'd) backends \<Rightarrow> announce_arrival \<Rightarrow> evidence_id \<Rightarrow> route_retention \<Rightarrow> interface_descriptor list
     \<Rightarrow> route_warmth \<Rightarrow> nat \<Rightarrow> ('r, 'a, 'h, 'd) routing_table
     \<Rightarrow> upsert_route_outcome \<times> ('r, 'a, 'h, 'd) routing_table" where
  "push_new_route B arrival v retention interfaces warmth handle t =
     (let announce = aa_announce arrival;
          undo = (\<lambda>t. t\<lparr>t_announce_app_data := ad_free (be_app_data B) handle (t_announce_app_data t)\<rparr>)
      in case rt_push (be_routes B) (an_destination announce) v (arrival_entry arrival retention) (t_routes t) of
           Inl TableFull \<Rightarrow> (DroppedAnnounce RoutingTableFull, undo t)
         | Inr (routes_slot, r) \<Rightarrow>
             let t = t\<lparr>t_routes := r\<rparr>
             in case at_push (be_records B) (announce_record_of announce handle) (t_announce_records t) of
                  Inl e \<Rightarrow>
                    (DroppedAnnounce RoutingTableFull,
                     (undo t)\<lparr>t_routes := rt_swap_remove (be_routes B) routes_slot (route_count B t - 1) (t_routes t)\<rparr>)
                | Inr (records_slot, a) \<Rightarrow>
                    let t = t\<lparr>t_announce_records := a\<rparr>;
                        (out, h) = ih_remember (be_history B) routes_slot (an_announce_id announce) (t_announce_id_history t);
                        t = t\<lparr>t_announce_id_history := h\<rparr>;
                        expiry = expiry_of_with_warmth B t routes_slot interfaces warmth
                    in (Inserted, t\<lparr>t_route_expiries := linear_insert routes_slot expiry (t_route_expiries t)\<rparr>))"

definition insert_new_route ::
  "('r, 'a, 'h, 'd) backends \<Rightarrow> announce_arrival \<Rightarrow> evidence_id \<Rightarrow> route_retention \<Rightarrow> interface_descriptor list
     \<Rightarrow> route_warmth \<Rightarrow> ('r, 'a, 'h, 'd) routing_table
     \<Rightarrow> upsert_route_outcome \<times> ('r, 'a, 'h, 'd) routing_table \<times> removed_route list" where
  "insert_new_route B arrival v retention interfaces warmth t =
     (let app_data = an_app_data (aa_announce arrival);
          insert = (\<lambda>t. ad_insert (be_app_data B) app_data (t_announce_app_data t));
          push = push_new_route B arrival v retention interfaces warmth
      in if route_count B t \<ge> destination_capacity B t then (DroppedAnnounce RoutingTableFull, t, [])
         else case insert t of
           Inr (handle, d) \<Rightarrow> (case push handle (t\<lparr>t_announce_app_data := d\<rparr>) of (out, t) \<Rightarrow> (out, t, []))
         | Inl e \<Rightarrow>
             (case evict_route_nearest_expiry B interfaces warmth t of
                (NothingToEvict, t, removed) \<Rightarrow> (DroppedAnnounce PayloadArenaFull, t, removed)
              | (EvictedRow, t, removed) \<Rightarrow>
                  (case insert t of
                     Inr (handle, d) \<Rightarrow>
                       (case push handle (t\<lparr>t_announce_app_data := d\<rparr>) of (out, t) \<Rightarrow> (out, t, removed))
                   | Inl e \<Rightarrow> (DroppedAnnounce PayloadArenaFull, t, removed))))"

definition refresh_existing_route ::
  "('r, 'a, 'h, 'd) backends \<Rightarrow> nat \<Rightarrow> announce_arrival \<Rightarrow> evidence_id \<Rightarrow> route_retention \<Rightarrow> interface_descriptor list
     \<Rightarrow> route_warmth \<Rightarrow> ('r, 'a, 'h, 'd) routing_table
     \<Rightarrow> upsert_route_outcome \<times> ('r, 'a, 'h, 'd) routing_table" where
  "refresh_existing_route B i arrival v retention interfaces warmth t =
     (let R = be_routes B; announce = aa_announce arrival;
          path_changed = (rt_receiving_interfaces R (t_routes t) ! i \<noteq> aa_receiving_interface arrival
            \<or> rt_next_hops R (t_routes t) ! i \<noteq> aa_next_hop arrival)
      in case at_app_data_handles (be_records B) (t_announce_records t) ! i of
           None \<Rightarrow> (DroppedAnnounce PayloadArenaFull, t)
         | Some handle \<Rightarrow>
             (case ad_replace (be_app_data B) handle (an_app_data announce) (t_announce_app_data t) of
                Inl e \<Rightarrow> (DroppedAnnounce PayloadArenaFull, t)
              | Inr d \<Rightarrow>
                  let t = t\<lparr>t_announce_app_data := d\<rparr>;
                      t = t\<lparr>t_routes := rt_set_row R i (arrival_entry arrival retention) (t_routes t)\<rparr>;
                      t = (if path_changed then t\<lparr>t_routes := rt_set_evidence_id R i v (t_routes t)\<rparr> else t);
                      t = t\<lparr>t_announce_records :=
                             at_set_row (be_records B) i (announce_record_of announce handle) (t_announce_records t)\<rparr>;
                      (out, h) = ih_remember (be_history B) i (an_announce_id announce) (t_announce_id_history t);
                      t = t\<lparr>t_announce_id_history := h\<rparr>;
                      expiry = expiry_of_with_warmth B t i interfaces warmth
                  in (Updated, t\<lparr>t_route_expiries := linear_update i expiry (t_route_expiries t)\<rparr>)))"

definition upsert_route_with_retention_and_warmth ::
  "('r, 'a, 'h, 'd) backends \<Rightarrow> announce_arrival \<Rightarrow> evidence_id \<Rightarrow> route_retention \<Rightarrow> interface_descriptor list
     \<Rightarrow> route_warmth \<Rightarrow> ('r, 'a, 'h, 'd) routing_table
     \<Rightarrow> (upsert_route_outcome \<times> ('r, 'a, 'h, 'd) routing_table \<times> removed_route list) option" where
  "upsert_route_with_retention_and_warmth B arrival v retention interfaces warmth t =
     (case index_of B t (an_destination (aa_announce arrival)) of
        Some i \<Rightarrow>
          Some (case refresh_existing_route B i arrival v retention interfaces warmth t of (out, t) \<Rightarrow> (out, t, []))
      | None \<Rightarrow>
          (if route_count B t \<ge> destination_capacity B t then
             case cull_expired_routes_with_warmth B (aa_arrived_at arrival) interfaces warmth t of
               None \<Rightarrow> None
             | Some (t, culled) \<Rightarrow>
                 let (t, evicted) =
                       (if route_count B t \<ge> destination_capacity B t
                        then case evict_route_nearest_expiry B interfaces warmth t of (e, t, evicted) \<Rightarrow> (t, evicted)
                        else (t, []))
                 in Some (case insert_new_route B arrival v retention interfaces warmth t of
                        (out, t, removed) \<Rightarrow> (out, t, culled @ evicted @ removed))
           else Some (insert_new_route B arrival v retention interfaces warmth t)))"

definition upsert_route_with_warmth ::
  "('r, 'a, 'h, 'd) backends \<Rightarrow> announce_arrival \<Rightarrow> evidence_id \<Rightarrow> interface_descriptor list \<Rightarrow> route_warmth
     \<Rightarrow> ('r, 'a, 'h, 'd) routing_table
     \<Rightarrow> (upsert_route_outcome \<times> ('r, 'a, 'h, 'd) routing_table \<times> removed_route list) option" where
  "upsert_route_with_warmth B arrival v interfaces warmth t =
     upsert_route_with_retention_and_warmth B arrival v Network interfaces warmth t"

definition upsert_route ::
  "('r, 'a, 'h, 'd) backends \<Rightarrow> announce_arrival \<Rightarrow> evidence_id \<Rightarrow> interface_descriptor list
     \<Rightarrow> ('r, 'a, 'h, 'd) routing_table
     \<Rightarrow> (upsert_route_outcome \<times> ('r, 'a, 'h, 'd) routing_table \<times> removed_route list) option" where
  "upsert_route B arrival v interfaces t = upsert_route_with_warmth B arrival v interfaces no_warmth t"

section \<open>Updating\<close>

definition apply_route_evidence ::
  "('r, 'a, 'h, 'd) backends \<Rightarrow> evidence_handle \<Rightarrow> instant_millis \<Rightarrow> ('r, 'a, 'h, 'd) routing_table
     \<Rightarrow> bool \<times> evidence_handle \<times> ('r, 'a, 'h, 'd) routing_table" where
  "apply_route_evidence B handle observed_at t =
     (case resolve_route_evidence B t handle of
        (None, handle) \<Rightarrow> (False, handle, t)
      | (Some i, handle) \<Rightarrow>
          let R = be_routes B;
              last_route_activity = max (rt_last_route_activity_at R (t_routes t) ! i) observed_at;
              changed = (last_route_activity \<noteq> rt_last_route_activity_at R (t_routes t) ! i
                \<or> rt_responsiveness R (t_routes t) ! i \<noteq> Responsive)
          in if \<not> changed then (False, handle, t)
             else (True, handle,
               t\<lparr>t_routes := rt_set_row R i ((path_row_at B t i)\<lparr>re_last_route_activity_at := last_route_activity,
                    re_responsiveness := Responsive\<rparr>) (t_routes t),
                 t_route_expiries := linear_invalidate (t_route_expiries t)\<rparr>))"

definition mark_unresponsive_if_not_active_since ::
  "('r, 'a, 'h, 'd) backends \<Rightarrow> evidence_handle \<Rightarrow> instant_millis \<Rightarrow> ('r, 'a, 'h, 'd) routing_table
     \<Rightarrow> bool \<times> evidence_handle \<times> ('r, 'a, 'h, 'd) routing_table" where
  "mark_unresponsive_if_not_active_since B handle attempt_started_at t =
     (case resolve_route_evidence B t handle of
        (None, handle) \<Rightarrow> (False, handle, t)
      | (Some i, handle) \<Rightarrow>
          let R = be_routes B;
              last_active = max (rt_learned_at R (t_routes t) ! i) (rt_last_route_activity_at R (t_routes t) ! i)
          in if last_active > attempt_started_at \<or> rt_responsiveness R (t_routes t) ! i = Unresponsive
             then (False, handle, t)
             else (True, handle,
               t\<lparr>t_routes := rt_set_row R i ((path_row_at B t i)\<lparr>re_responsiveness := Unresponsive\<rparr>) (t_routes t)\<rparr>))"

definition mark_responsiveness ::
  "('r, 'a, 'h, 'd) backends \<Rightarrow> destination_hash \<Rightarrow> route_responsiveness \<Rightarrow> ('r, 'a, 'h, 'd) routing_table
     \<Rightarrow> ('r, 'a, 'h, 'd) routing_table" where
  "mark_responsiveness B destination responsiveness t =
     (case index_of B t destination of
        None \<Rightarrow> t
      | Some i \<Rightarrow>
          t\<lparr>t_routes := rt_set_row (be_routes B) i ((path_row_at B t i)\<lparr>re_responsiveness := responsiveness\<rparr>) (t_routes t)\<rparr>)"

definition rebalance_hops ::
  "('r, 'a, 'h, 'd) backends \<Rightarrow> destination_hash \<Rightarrow> u8 \<Rightarrow> ('r, 'a, 'h, 'd) routing_table
     \<Rightarrow> ('r, 'a, 'h, 'd) routing_table" where
  "rebalance_hops B destination hops t =
     (case index_of B t destination of
        None \<Rightarrow> t
      | Some i \<Rightarrow> t\<lparr>t_routes := rt_set_row (be_routes B) i ((path_row_at B t i)\<lparr>re_hops := hops\<rparr>) (t_routes t)\<rparr>)"

definition note_relayed ::
  "('r, 'a, 'h, 'd) backends \<Rightarrow> destination_hash \<Rightarrow> instant_millis \<Rightarrow> ('r, 'a, 'h, 'd) routing_table
     \<Rightarrow> ('r, 'a, 'h, 'd) routing_table" where
  "note_relayed B destination now t =
     (case index_of B t destination of
        None \<Rightarrow> t
      | Some i \<Rightarrow>
          t\<lparr>t_routes := rt_set_row (be_routes B) i ((path_row_at B t i)\<lparr>re_last_route_activity_at := now\<rparr>) (t_routes t),
            t_route_expiries := linear_invalidate (t_route_expiries t)\<rparr>)"

definition note_relayed_with_warmth ::
  "('r, 'a, 'h, 'd) backends \<Rightarrow> destination_hash \<Rightarrow> instant_millis \<Rightarrow> interface_descriptor list \<Rightarrow> route_warmth
     \<Rightarrow> ('r, 'a, 'h, 'd) routing_table \<Rightarrow> ('r, 'a, 'h, 'd) routing_table" where
  "note_relayed_with_warmth B destination now interfaces warmth t =
     (case index_of B t destination of
        None \<Rightarrow> t
      | Some i \<Rightarrow>
          let t = t\<lparr>t_routes := rt_set_row (be_routes B) i ((path_row_at B t i)\<lparr>re_last_route_activity_at := now\<rparr>) (t_routes t)\<rparr>;
              expiry = expiry_of_with_warmth B t i interfaces warmth
          in t\<lparr>t_route_expiries := linear_update i expiry (t_route_expiries t)\<rparr>)"

definition repoint_routes ::
  "('r, 'a, 'h, 'd) backends \<Rightarrow> interface_id \<Rightarrow> interface_id \<Rightarrow> instant_millis \<Rightarrow> ('r, 'a, 'h, 'd) routing_table
     \<Rightarrow> nat \<times> ('r, 'a, 'h, 'd) routing_table" where
  "repoint_routes B previous current now t =
     (case rt_repoint_receiving_interface (be_routes B) previous current now (t_routes t) of
        (moved, r) \<Rightarrow>
          let t = t\<lparr>t_routes := r\<rparr>
          in (moved, if moved \<noteq> 0 then t\<lparr>t_route_expiries := linear_invalidate (t_route_expiries t)\<rparr> else t))"

section \<open>Saving and restoring\<close>

datatype announce_id_ring = RingTable "announce_id list" | RingWire "u8 list"

fun ring_len :: "announce_id_ring \<Rightarrow> nat" where
  "ring_len (RingTable ids) = length ids"
| "ring_len (RingWire bytes) = length bytes div ANNOUNCE_ID_WIRE_LEN"

text \<open>The whole chunks of \<open>as_chunks::<ANNOUNCE_ID_WIRE_LEN>\<close>; a remainder is ignored.\<close>

fun wire_ids :: "u8 list \<Rightarrow> announce_id list" where
  "wire_ids bytes =
     (if length bytes < 10 then [] else announce_id_from_wire (take 10 bytes) # wire_ids (drop 10 bytes))"

declare wire_ids.simps [simp del]

fun ring_ids :: "announce_id_ring \<Rightarrow> announce_id list" where
  "ring_ids (RingTable ids) = ids"
| "ring_ids (RingWire bytes) = wire_ids bytes"

record persisted_route_row =
  pr_destination :: destination_hash
  pr_entry :: route_entry
  pr_public_keys :: identity_public_keys
  pr_dotted_name_hash :: dotted_name_hash
  pr_announce_id :: announce_id
  pr_ratchet :: "ratchet_key option"
  pr_signature :: signature
  pr_app_data :: "u8 list"
  pr_announce_id_ring :: announce_id_ring

datatype seed_route_outcome = Seeded | AlreadyPresent | SeedTableFull | AppDataArenaFull

definition persisted_row_at ::
  "('r, 'a, 'h, 'd) backends \<Rightarrow> ('r, 'a, 'h, 'd) routing_table \<Rightarrow> nat \<Rightarrow> persisted_route_row" where
  "persisted_row_at B t i =
     (let A = be_records B; a = t_announce_records t
      in \<lparr>pr_destination = rt_destinations (be_routes B) (t_routes t) ! i, pr_entry = path_row_at B t i,
          pr_public_keys = at_public_keys A a ! i, pr_dotted_name_hash = at_dotted_name_hashes A a ! i,
          pr_announce_id = at_announce_ids A a ! i, pr_ratchet = at_ratchets A a ! i,
          pr_signature = at_signatures A a ! i,
          pr_app_data =
            (case at_app_data_handles A a ! i of None \<Rightarrow> []
             | Some handle \<Rightarrow> ad_get (be_app_data B) (t_announce_app_data t) handle),
          pr_announce_id_ring = RingTable (ih_history (be_history B) (t_announce_id_history t) i)\<rparr>)"

definition persisted_rows ::
  "('r, 'a, 'h, 'd) backends \<Rightarrow> ('r, 'a, 'h, 'd) routing_table \<Rightarrow> persisted_route_row list" where
  "persisted_rows B t =
     map (persisted_row_at B t)
       (filter (\<lambda>i. rt_retentions (be_routes B) (t_routes t) ! i = Network) [0..<route_count B t])"

definition persisted_destinations ::
  "('r, 'a, 'h, 'd) backends \<Rightarrow> ('r, 'a, 'h, 'd) routing_table \<Rightarrow> destination_hash list" where
  "persisted_destinations B t =
     map fst (filter (\<lambda>(d, retention). case retention of Network \<Rightarrow> True | Ephemeral e \<Rightarrow> False)
       (zip (rt_destinations (be_routes B) (t_routes t)) (rt_retentions (be_routes B) (t_routes t))))"

definition persisted_row ::
  "('r, 'a, 'h, 'd) backends \<Rightarrow> ('r, 'a, 'h, 'd) routing_table \<Rightarrow> destination_hash \<Rightarrow> persisted_route_row option" where
  "persisted_row B t destination =
     (case rt_index_of (be_routes B) destination (t_routes t) of
        None \<Rightarrow> None
      | Some i \<Rightarrow>
          (case rt_retentions (be_routes B) (t_routes t) ! i of
             Network \<Rightarrow> Some (persisted_row_at B t i)
           | Ephemeral e \<Rightarrow> None))"

fun remember_all_ids ::
  "('r, 'a, 'h, 'd) backends \<Rightarrow> nat \<Rightarrow> announce_id list \<Rightarrow> ('r, 'a, 'h, 'd) routing_table \<Rightarrow> ('r, 'a, 'h, 'd) routing_table" where
  "remember_all_ids B slot [] t = t"
| "remember_all_ids B slot (i # ids) t =
     (case ih_remember (be_history B) slot i (t_announce_id_history t) of
        (out, h) \<Rightarrow> remember_all_ids B slot ids (t\<lparr>t_announce_id_history := h\<rparr>))"

definition seed_route ::
  "('r, 'a, 'h, 'd) backends \<Rightarrow> persisted_route_row \<Rightarrow> evidence_id \<Rightarrow> ('r, 'a, 'h, 'd) routing_table
     \<Rightarrow> seed_route_outcome \<times> ('r, 'a, 'h, 'd) routing_table" where
  "seed_route B row v t =
     (if index_of B t (pr_destination row) \<noteq> None then (AlreadyPresent, t)
      else if route_count B t \<ge> destination_capacity B t then (SeedTableFull, t)
      else case ad_insert (be_app_data B) (pr_app_data row) (t_announce_app_data t) of
        Inl e \<Rightarrow> (AppDataArenaFull, t)
      | Inr (handle, d) \<Rightarrow>
          let t = t\<lparr>t_announce_app_data := d\<rparr>;
              undo = (\<lambda>t. t\<lparr>t_announce_app_data := ad_free (be_app_data B) handle (t_announce_app_data t)\<rparr>);
              entry = (pr_entry row)\<lparr>re_retention := Network\<rparr>
          in case rt_push (be_routes B) (pr_destination row) v entry (t_routes t) of
               Inl TableFull \<Rightarrow> (SeedTableFull, undo t)
             | Inr (routes_slot, r) \<Rightarrow>
                 let t = t\<lparr>t_routes := r\<rparr>;
                     announce_entry =
                       \<lparr>ar_public_keys = pr_public_keys row, ar_dotted_name_hash = pr_dotted_name_hash row,
                        ar_announce_id = pr_announce_id row, ar_signature = pr_signature row,
                        ar_ratchet = pr_ratchet row, ar_app_data_handle = Some handle\<rparr>
                 in case at_push (be_records B) announce_entry (t_announce_records t) of
                      Inl e \<Rightarrow>
                        (SeedTableFull,
                         (undo t)\<lparr>t_routes := rt_swap_remove (be_routes B) routes_slot (route_count B t - 1) (t_routes t)\<rparr>)
                    | Inr (records_slot, a) \<Rightarrow>
                        let t = remember_all_ids B routes_slot (ring_ids (pr_announce_id_ring row)) (t\<lparr>t_announce_records := a\<rparr>)
                        in (Seeded, t\<lparr>t_route_expiries := linear_invalidate (t_route_expiries t)\<rparr>))"

end
