(* ===== verification/Routing_Table_Laws.thy ===== *)
theory Routing_Table_Laws
  imports Routing_Table
begin

text \<open>
  What the operations of the routing table do, for any four stores that keep their contracts. The
  table is seen as the list of its rows, each the evidence id and everything \<open>persisted_row_at\<close> reads; the
  invariant \<open>table_ok\<close> says that the four stores are in step.
\<close>

section \<open>Stores and invariant\<close>

text \<open>How the stores of a table are read, and when each of them is well-formed.\<close>

record ('r, 'a, 'h, 'd) contracts =
  ct_route_rows :: "'r \<Rightarrow> route_row list"
  ct_routes_valid :: "'r \<Rightarrow> bool"
  ct_record_rows :: "'a \<Rightarrow> announce_record list"
  ct_records_valid :: "'a \<Rightarrow> bool"
  ct_id_cap :: nat
  ct_slot_ok :: "nat \<Rightarrow> bool"
  ct_ids_valid :: "'h \<Rightarrow> bool"
  ct_stored :: "'d \<Rightarrow> nat \<Rightarrow> u8 list option"
  ct_store_valid :: "'d \<Rightarrow> bool"
  ct_replaceable :: "u8 list \<Rightarrow> bool"

text \<open>
  The invariant: the columns have one length, no destination has two routes, each row owns one payload
  of the store and every payload of the store belongs to a row, and the history slots past the last row
  are empty.
\<close>

definition table_ok ::
  "('r, 'a, 'h, 'd) backends \<Rightarrow> ('r, 'a, 'h, 'd) contracts \<Rightarrow> ('r, 'a, 'h, 'd) routing_table \<Rightarrow> bool" where
  "table_ok B C t =
     (let rr = ct_route_rows C (t_routes t); ar = ct_record_rows C (t_announce_records t)
      in ct_routes_valid C (t_routes t) \<and> ct_records_valid C (t_announce_records t)
         \<and> ct_ids_valid C (t_announce_id_history t) \<and> ct_store_valid C (t_announce_app_data t)
         \<and> length ar = length rr \<and> length rr \<le> destination_capacity B t \<and> distinct (map rr_destination rr)
         \<and> (\<exists>hs. map ar_app_data_handle ar = map Some hs \<and> distinct hs
              \<and> set hs = {h. ct_stored C (t_announce_app_data t) h \<noteq> None})
         \<and> (\<forall>j<destination_capacity B t. ct_slot_ok C j)
         \<and> (\<forall>j. ct_slot_ok C j \<and> length rr \<le> j \<longrightarrow> ih_history (be_history B) (t_announce_id_history t) j = []))"

definition row_view :: "route_row \<Rightarrow> announce_record \<Rightarrow> u8 list \<Rightarrow> announce_id list \<Rightarrow> evidence_id \<times> persisted_route_row" where
  "row_view r a app_data ids =
     (rr_evidence_id r,
      \<lparr>pr_destination = rr_destination r, pr_entry = rr_entry r, pr_public_keys = ar_public_keys a,
       pr_dotted_name_hash = ar_dotted_name_hash a, pr_announce_id = ar_announce_id a,
       pr_ratchet = ar_ratchet a, pr_signature = ar_signature a, pr_app_data = app_data,
       pr_announce_id_ring = RingTable ids\<rparr>)"

definition table_view ::
  "('r, 'a, 'h, 'd) backends \<Rightarrow> ('r, 'a, 'h, 'd) routing_table \<Rightarrow> (evidence_id \<times> persisted_route_row) list" where
  "table_view B t =
     map (\<lambda>i. (rt_evidence_ids (be_routes B) (t_routes t) ! i, persisted_row_at B t i)) [0..<route_count B t]"

text \<open>When a route expires, as a function of its entry.\<close>

definition entry_expiry :: "interface_descriptor list \<Rightarrow> route_warmth \<Rightarrow> instant_millis \<Rightarrow> route_entry \<Rightarrow> instant_millis" where
  "entry_expiry interfaces warmth anchor e =
     constrain_expiry (re_retention e) (re_learned_at e)
       (case descriptor_for interfaces (re_receiving_interface e) of
          Some descriptor \<Rightarrow> saturating_add anchor (route_expiry_millis (if_mode descriptor))
        | None \<Rightarrow> (case warmth (re_receiving_interface e) of Some warm \<Rightarrow> warm | None \<Rightarrow> anchor))"

definition entry_last_active :: "route_entry \<Rightarrow> instant_millis" where
  "entry_last_active e = max (re_learned_at e) (re_last_route_activity_at e)"

text \<open>The row an arrival leaves in the table, with the ids its history then holds.\<close>

definition arrival_view :: "announce_arrival \<Rightarrow> route_retention \<Rightarrow> announce_id list \<Rightarrow> persisted_route_row" where
  "arrival_view arrival retention ids =
     (let announce = aa_announce arrival
      in \<lparr>pr_destination = an_destination announce, pr_entry = arrival_entry arrival retention,
          pr_public_keys = an_public_keys announce, pr_dotted_name_hash = an_dotted_name_hash announce,
          pr_announce_id = an_announce_id announce, pr_ratchet = an_ratchet announce,
          pr_signature = an_signature announce, pr_app_data = an_app_data announce,
          pr_announce_id_ring = RingTable ids\<rparr>)"

lemma length_table_view [simp]: "length (table_view B t) = route_count B t"
  by (simp add: table_view_def)

lemma table_view_expiries [simp]:
  "table_view B (t\<lparr>t_route_expiries := x\<rparr>) = table_view B t"
  "table_ok B C (t\<lparr>t_route_expiries := x\<rparr>) = table_ok B C t"
  "route_count B (t\<lparr>t_route_expiries := x\<rparr>) = route_count B t"
  "destination_capacity B (t\<lparr>t_route_expiries := x\<rparr>) = destination_capacity B t"
  by (simp_all add: table_view_def table_ok_def persisted_row_at_def path_row_at_def route_count_def
      destination_capacity_def Let_def split: option.split)

text \<open>A table with nothing in it.\<close>

lemma iter_min_Some_iff: "iter_min xs = Some x \<longleftrightarrow> x \<in> set xs \<and> (\<forall>y\<in>set xs. x \<le> y)"
proof (induction xs arbitrary: x)
  case Nil
  then show ?case by simp
next
  case (Cons a xs)
  show ?case
  proof (cases "iter_min xs")
    case None
    then have "xs = []" by (cases xs) auto
    then show ?thesis by auto
  next
    case (Some b)
    with Cons.IH [of b] show ?thesis by (auto simp: min_def intro: order.antisym)
  qed
qed

text \<open>
  How a table loses rows: \<open>t'\<close> has the rows of \<open>t\<close> whose destinations are not among the removals, and each
  removal is of another destination of \<open>t\<close>.
\<close>

abbreviation row_destination :: "evidence_id \<times> persisted_route_row \<Rightarrow> destination_hash" where
  "row_destination r \<equiv> pr_destination (snd r)"

text \<open>
  Rows sink: a row of \<open>ys\<close> with the evidence id \<open>v\<close> was a row of \<open>xs\<close> with that id, for the same
  destination, at the same place or further up.
\<close>

definition rows_sink ::
  "evidence_id \<Rightarrow> (evidence_id \<times> persisted_route_row) list \<Rightarrow> (evidence_id \<times> persisted_route_row) list \<Rightarrow> bool" where
  "rows_sink v xs ys =
     (\<forall>j<length ys. fst (ys ! j) = v \<longrightarrow>
        (\<exists>i<length xs. j \<le> i \<and> fst (xs ! i) = v \<and> row_destination (xs ! i) = row_destination (ys ! j)))"

lemma rows_sink_refl [simp]: "rows_sink v xs xs"
  by (auto simp: rows_sink_def)

lemma rows_sink_trans: "rows_sink v xs ys \<Longrightarrow> rows_sink v ys zs \<Longrightarrow> rows_sink v xs zs"
  unfolding rows_sink_def
proof (intro allI impI)
  fix k assume xy: "\<forall>j<length ys. fst (ys ! j) = v \<longrightarrow>
      (\<exists>i<length xs. j \<le> i \<and> fst (xs ! i) = v \<and> row_destination (xs ! i) = row_destination (ys ! j))"
    and yz: "\<forall>j<length zs. fst (zs ! j) = v \<longrightarrow>
      (\<exists>i<length ys. j \<le> i \<and> fst (ys ! i) = v \<and> row_destination (ys ! i) = row_destination (zs ! j))"
    and k: "k < length zs" "fst (zs ! k) = v"
  from yz k obtain j where j: "j < length ys" "k \<le> j" "fst (ys ! j) = v" "row_destination (ys ! j) = row_destination (zs ! k)"
    by blast
  from xy j(1,3) obtain i where "i < length xs" "j \<le> i" "fst (xs ! i) = v" "row_destination (xs ! i) = row_destination (ys ! j)"
    by blast
  with j show "\<exists>i<length xs. k \<le> i \<and> fst (xs ! i) = v \<and> row_destination (xs ! i) = row_destination (zs ! k)"
    by (intro exI [of _ i]) simp
qed

lemma rows_sink_swap_remove: "i < length xs \<Longrightarrow> rows_sink v xs (vec_swap_remove i xs)"
  unfolding rows_sink_def
proof (intro allI impI)
  fix j assume *: "i < length xs" "j < length (vec_swap_remove i xs)" "fst (vec_swap_remove i xs ! j) = v"
  then have "xs \<noteq> []" by auto
  then have "vec_swap_remove i xs ! j = (if j = i then xs ! (length xs - 1) else xs ! j)"
    using * by (simp add: nth_vec_swap_remove last_conv_nth)
  with * show "\<exists>k<length xs. j \<le> k \<and> fst (xs ! k) = v \<and> row_destination (xs ! k) = row_destination (vec_swap_remove i xs ! j)"
    by (intro exI [of _ "if j = i then length xs - 1 else j"]) (auto split: if_splits)
qed

lemma rows_sink_append: "fst r \<noteq> v \<Longrightarrow> rows_sink v xs (xs @ [r])"
  by (auto simp: rows_sink_def nth_append less_Suc_eq)

lemma rows_sink_update:
  assumes "row_destination r = row_destination (xs ! i)" "fst r = fst (xs ! i) \<or> fst r \<noteq> v"
  shows "rows_sink v xs (xs[i := r])"
  unfolding rows_sink_def
proof (intro allI impI)
  fix j assume "j < length (xs[i := r])" "fst (xs[i := r] ! j) = v"
  with assms show "\<exists>k<length xs. j \<le> k \<and> fst (xs ! k) = v \<and> row_destination (xs ! k) = row_destination (xs[i := r] ! j)"
    by (cases "j = i") auto
qed

definition table_removes ::
  "('r, 'a, 'h, 'd) backends \<Rightarrow> ('r, 'a, 'h, 'd) contracts \<Rightarrow> ('r, 'a, 'h, 'd) routing_table
     \<Rightarrow> ('r, 'a, 'h, 'd) routing_table \<Rightarrow> removed_route list \<Rightarrow> bool" where
  "table_removes B C t t' removed =
     (table_ok B C t' \<and> destination_capacity B t' = destination_capacity B t
      \<and> mset (table_view B t') =
          filter_mset (\<lambda>r. row_destination r \<notin> set (map rm_destination removed)) (mset (table_view B t))
      \<and> (\<forall>v. rows_sink v (table_view B t) (table_view B t'))
      \<and> distinct (map rm_destination removed)
      \<and> set (map rm_destination removed) \<subseteq> row_destination ` set (table_view B t))"

text \<open>Each removal is of a row that is due, with the cause and the interface of that row.\<close>

definition removals_due ::
  "(evidence_id \<times> persisted_route_row \<Rightarrow> route_removal_cause option) \<Rightarrow> (evidence_id \<times> persisted_route_row) list
     \<Rightarrow> removed_route list \<Rightarrow> bool" where
  "removals_due f rows removed =
     (\<forall>x\<in>set removed. \<exists>r\<in>set rows. row_destination r = rm_destination x
        \<and> re_receiving_interface (pr_entry (snd r)) = rm_receiving_interface x \<and> f r = Some (rm_cause x))"

lemma removals_due_Nil [simp]: "removals_due f rows []"
  by (simp add: removals_due_def)

lemma removals_due_Cons:
  "r \<in> set rows \<Longrightarrow> row_destination r = rm_destination x \<Longrightarrow>
   re_receiving_interface (pr_entry (snd r)) = rm_receiving_interface x \<Longrightarrow> f r = Some (rm_cause x) \<Longrightarrow>
   removals_due f rows xs \<Longrightarrow> removals_due f rows (x # xs)"
  by (auto simp: removals_due_def)

lemma removals_due_mono: "removals_due f rows xs \<Longrightarrow> set rows \<subseteq> set rows' \<Longrightarrow> removals_due f rows' xs"
  unfolding removals_due_def by blast

lemma table_removes_none: "table_ok B C t \<Longrightarrow> table_removes B C t t []"
  by (simp add: table_removes_def)

lemma table_removes_set:
  assumes "table_removes B C t u removed"
  shows "set (table_view B u) = {r \<in> set (table_view B t). row_destination r \<notin> set (map rm_destination removed)}"
proof -
  have "set_mset (mset (table_view B u)) =
      set_mset (filter_mset (\<lambda>r. row_destination r \<notin> set (map rm_destination removed)) (mset (table_view B t)))"
    using assms by (simp only: table_removes_def)
  then show ?thesis by simp
qed

lemma table_removes_trans:
  assumes tu: "table_removes B C t u removed" and uw: "table_removes B C u w removed'"
  shows "table_removes B C t w (removed @ removed')"
proof -
  have sub: "set (map rm_destination removed') \<subseteq> row_destination ` set (table_view B u)"
    using uw by (simp add: table_removes_def)
  then have apart: "set (map rm_destination removed) \<inter> set (map rm_destination removed') = {}"
    and "set (map rm_destination removed') \<subseteq> row_destination ` set (table_view B t)"
    unfolding table_removes_set [OF tu] by blast+
  moreover have "mset (table_view B w) =
      filter_mset (\<lambda>r. row_destination r \<notin> set (map rm_destination (removed @ removed'))) (mset (table_view B t))"
    using tu uw by (simp add: table_removes_def filter_filter_mset conj_commute)
  moreover have "rows_sink v (table_view B t) (table_view B w)" for v
    using tu uw rows_sink_trans [of v "table_view B t" "table_view B u"] by (simp add: table_removes_def)
  ultimately show ?thesis using tu uw by (simp add: table_removes_def)
qed

section \<open>The table over lawful stores\<close>

locale routing_backends =
  rt: route_table "be_routes B" "ct_route_rows C" "ct_routes_valid C" +
  at: announce_record_table "be_records B" "ct_record_rows C" "ct_records_valid C" +
  ih: announce_id_history "be_history B" "ct_id_cap C" "ct_slot_ok C" "ct_ids_valid C" +
  ad: announce_app_data "ad_get (be_app_data B)" "ad_insert (be_app_data B)" "ad_replace (be_app_data B)"
    "ad_free (be_app_data B)" "ct_stored C" "ct_store_valid C" "ct_replaceable C"
  for B :: "('r, 'a, 'h, 'd) backends" and C :: "('r, 'a, 'h, 'd) contracts"
begin

lemma okD:
  assumes "table_ok B C t"
  shows "ct_routes_valid C (t_routes t)" "ct_records_valid C (t_announce_records t)"
    "ct_ids_valid C (t_announce_id_history t)" "ct_store_valid C (t_announce_app_data t)"
    "length (ct_record_rows C (t_announce_records t)) = length (ct_route_rows C (t_routes t))"
    "distinct (map rr_destination (ct_route_rows C (t_routes t)))"
    "length (ct_route_rows C (t_routes t)) \<le> destination_capacity B t"
    "j < destination_capacity B t \<Longrightarrow> ct_slot_ok C j"
    "ct_slot_ok C j \<Longrightarrow> length (ct_route_rows C (t_routes t)) \<le> j \<Longrightarrow>
      ih_history (be_history B) (t_announce_id_history t) j = []"
  using assms unfolding table_ok_def Let_def by blast+

lemma ok_handles:
  assumes "table_ok B C t"
  obtains hs where "map ar_app_data_handle (ct_record_rows C (t_announce_records t)) = map Some hs"
    "distinct hs" "set hs = {h. ct_stored C (t_announce_app_data t) h \<noteq> None}"
    "length hs = length (ct_route_rows C (t_routes t))"
    "\<And>i. i < length hs \<Longrightarrow> ar_app_data_handle (ct_record_rows C (t_announce_records t) ! i) = Some (hs ! i)"
proof -
  obtain hs where hs: "map ar_app_data_handle (ct_record_rows C (t_announce_records t)) = map Some hs"
    "distinct hs" "set hs = {h. ct_stored C (t_announce_app_data t) h \<noteq> None}"
    using assms unfolding table_ok_def Let_def by blast
  have len: "length hs = length (ct_route_rows C (t_routes t))"
    using arg_cong [OF hs(1), of length] okD(5) [OF assms] by simp
  have "ar_app_data_handle (ct_record_rows C (t_announce_records t) ! i) = Some (hs ! i)" if "i < length hs" for i
    using arg_cong [OF hs(1), of "\<lambda>xs. xs ! i"] that len okD(5) [OF assms] by simp
  with hs len show thesis by (rule that)
qed

lemma okI:
  assumes "ct_routes_valid C (t_routes t)" "ct_records_valid C (t_announce_records t)"
    "ct_ids_valid C (t_announce_id_history t)" "ct_store_valid C (t_announce_app_data t)"
    "length (ct_record_rows C (t_announce_records t)) = length (ct_route_rows C (t_routes t))"
    "distinct (map rr_destination (ct_route_rows C (t_routes t)))"
    "length (ct_route_rows C (t_routes t)) \<le> destination_capacity B t"
    "map ar_app_data_handle (ct_record_rows C (t_announce_records t)) = map Some hs" "distinct hs"
    "set hs = {h. ct_stored C (t_announce_app_data t) h \<noteq> None}"
    "\<And>j. j < destination_capacity B t \<Longrightarrow> ct_slot_ok C j"
    "\<And>j. ct_slot_ok C j \<Longrightarrow> length (ct_route_rows C (t_routes t)) \<le> j \<Longrightarrow>
      ih_history (be_history B) (t_announce_id_history t) j = []"
  shows "table_ok B C t"
  using assms unfolding table_ok_def Let_def by blast

lemma count: "table_ok B C t \<Longrightarrow> route_count B t = length (ct_route_rows C (t_routes t))"
  by (simp add: route_count_def rt.len okD)

lemma slot_ok: "table_ok B C t \<Longrightarrow> i < route_count B t \<Longrightarrow> ct_slot_ok C i"
  using okD(7,8) count by (metis order_less_le_trans)

lemma view_nth:
  assumes ok: "table_ok B C t" and i: "i < route_count B t"
  shows "table_view B t ! i = row_view (ct_route_rows C (t_routes t) ! i)
    (ct_record_rows C (t_announce_records t) ! i)
    (the (ct_stored C (t_announce_app_data t) (the (ar_app_data_handle (ct_record_rows C (t_announce_records t) ! i)))))
    (ih_history (be_history B) (t_announce_id_history t) i)"
proof -
  obtain hs where hs: "set hs = {h. ct_stored C (t_announce_app_data t) h \<noteq> None}"
    "length hs = length (ct_route_rows C (t_routes t))"
    "\<And>i. i < length hs \<Longrightarrow> ar_app_data_handle (ct_record_rows C (t_announce_records t) ! i) = Some (hs ! i)"
    using ok_handles [OF ok] by metis
  have n: "i < length (ct_route_rows C (t_routes t))" "i < length (ct_record_rows C (t_announce_records t))"
    using i count [OF ok] okD(5) [OF ok] by simp_all
  have "hs ! i \<in> {h. ct_stored C (t_announce_app_data t) h \<noteq> None}"
    using n(1) hs(1,2) by (metis nth_mem)
  then obtain bytes where bytes: "ct_stored C (t_announce_app_data t) (hs ! i) = Some bytes" by auto
  have "ad_get (be_app_data B) (t_announce_app_data t) (hs ! i) = bytes"
    by (rule ad.get_stored [OF okD(4) [OF ok] bytes])
  with bytes show ?thesis
    using i n hs(2) hs(3) [of i] okD(1,2) [OF ok]
    by (simp add: table_view_def persisted_row_at_def path_row_at_def row_view_def Let_def rt.columns at.columns)
qed

lemma view_destinations:
  assumes "table_ok B C t"
  shows "map (pr_destination \<circ> snd) (table_view B t) = map rr_destination (ct_route_rows C (t_routes t))"
  using assms count [OF assms] by (intro nth_equalityI) (simp_all add: view_nth row_view_def)

lemma view_entry:
  assumes "table_ok B C t" "i < route_count B t"
  shows "pr_entry (snd (table_view B t ! i)) = rr_entry (ct_route_rows C (t_routes t) ! i)"
    and "pr_destination (snd (table_view B t ! i)) = rr_destination (ct_route_rows C (t_routes t) ! i)"
    and "path_row_at B t i = pr_entry (snd (table_view B t ! i))"
    and "fst (table_view B t ! i) = rt_evidence_ids (be_routes B) (t_routes t) ! i"
proof -
  show "pr_entry (snd (table_view B t ! i)) = rr_entry (ct_route_rows C (t_routes t) ! i)"
    "pr_destination (snd (table_view B t ! i)) = rr_destination (ct_route_rows C (t_routes t) ! i)"
    using assms by (simp_all add: view_nth row_view_def)
  show "path_row_at B t i = pr_entry (snd (table_view B t ! i))"
    "fst (table_view B t ! i) = rt_evidence_ids (be_routes B) (t_routes t) ! i"
    using assms(2) by (simp_all add: table_view_def persisted_row_at_def Let_def)
qed

lemma index_of_view:
  assumes "table_ok B C t"
  shows "index_of B t d = position (\<lambda>r. pr_destination (snd r) = d) (table_view B t)"
proof -
  have "position (\<lambda>r. pr_destination (snd r) = d) (table_view B t)
      = position (\<lambda>c. c = d) (map (pr_destination \<circ> snd) (table_view B t))"
    by (simp add: position_map)
  also have "\<dots> = position (\<lambda>r. rr_destination r = d) (ct_route_rows C (t_routes t))"
    unfolding view_destinations [OF assms] by (simp add: position_map)
  finally show ?thesis
    using rt.index_of [OF okD(1) [OF assms]] by (simp add: index_of_def)
qed

lemma expiry_view:
  assumes "table_ok B C t" "i < route_count B t"
  defines "e \<equiv> pr_entry (snd (table_view B t ! i))"
  shows "expiry_from_anchor B t anchor i interfaces warmth = entry_expiry interfaces warmth anchor e"
    and "expiry_of_with_warmth B t i interfaces warmth = entry_expiry interfaces warmth (entry_last_active e) e"
  using assms(1,2) count [OF assms(1)] view_entry(1) [OF assms(1,2)] okD(1) [OF assms(1)]
  by (simp_all add: e_def expiry_of_with_warmth_def expiry_from_anchor_def last_active_at_def entry_expiry_def
      entry_last_active_def rt.columns Let_def split: option.split)

text \<open>Two tables with the same stores row by row have the same rows.\<close>

lemma view_eqI:
  assumes "table_ok B C t" "route_count B t = length xs"
    and "\<And>i. i < length xs \<Longrightarrow> row_view (ct_route_rows C (t_routes t) ! i)
      (ct_record_rows C (t_announce_records t) ! i)
      (the (ct_stored C (t_announce_app_data t) (the (ar_app_data_handle (ct_record_rows C (t_announce_records t) ! i)))))
      (ih_history (be_history B) (t_announce_id_history t) i) = xs ! i"
  shows "table_view B t = xs"
  using assms by (intro nth_equalityI) (simp_all add: view_nth)

lemma remove_route_at_fields:
  assumes ok: "table_ok B C t" and i: "i < route_count B t"
  obtains h where "ar_app_data_handle (ct_record_rows C (t_announce_records t) ! i) = Some h"
    "remove_route_at B i t = t\<lparr>t_routes := rt_swap_remove (be_routes B) i (route_count B t - 1) (t_routes t),
       t_announce_records := at_swap_remove (be_records B) i (route_count B t - 1) (t_announce_records t),
       t_announce_id_history := ih_swap_remove (be_history B) i (route_count B t - 1) (t_announce_id_history t),
       t_announce_app_data := ad_free (be_app_data B) h (t_announce_app_data t)\<rparr>"
proof -
  obtain hs where hs: "length hs = length (ct_route_rows C (t_routes t))"
    "\<And>i. i < length hs \<Longrightarrow> ar_app_data_handle (ct_record_rows C (t_announce_records t) ! i) = Some (hs ! i)"
    using ok_handles [OF ok] by metis
  then have "ar_app_data_handle (ct_record_rows C (t_announce_records t) ! i) = Some (hs ! i)"
    using i count [OF ok] by simp
  moreover have "at_app_data_handles (be_records B) (t_announce_records t) ! i
      = ar_app_data_handle (ct_record_rows C (t_announce_records t) ! i)"
    using i count [OF ok] okD(2,5) [OF ok] by (simp add: at.columns)
  ultimately show thesis
    by (intro that) (auto simp: remove_route_at_def linear_swap_remove_def Let_def)
qed

lemma remove_route_at_ok:
  assumes ok: "table_ok B C t" and i: "i < route_count B t"
  shows "table_ok B C (remove_route_at B i t)"
    and "table_view B (remove_route_at B i t) = vec_swap_remove i (table_view B t)"
    and "destination_capacity B (remove_route_at B i t) = destination_capacity B t"
proof -
  let ?rr = "ct_route_rows C (t_routes t)" and ?ar = "ct_record_rows C (t_announce_records t)"
  let ?t = "remove_route_at B i t" and ?n = "route_count B t"
  obtain hs where hs: "map ar_app_data_handle ?ar = map Some hs" "distinct hs"
    "set hs = {h. ct_stored C (t_announce_app_data t) h \<noteq> None}" "length hs = length ?rr"
    "\<And>i. i < length hs \<Longrightarrow> ar_app_data_handle (?ar ! i) = Some (hs ! i)"
    using ok_handles [OF ok] by metis
  have n: "length ?rr = ?n" "length ?ar = ?n" "length hs = ?n"
    using count [OF ok] okD(5) [OF ok] hs(4) by simp_all
  obtain h where h: "ar_app_data_handle (?ar ! i) = Some h"
    and f: "?t = t\<lparr>t_routes := rt_swap_remove (be_routes B) i (?n - 1) (t_routes t),
       t_announce_records := at_swap_remove (be_records B) i (?n - 1) (t_announce_records t),
       t_announce_id_history := ih_swap_remove (be_history B) i (?n - 1) (t_announce_id_history t),
       t_announce_app_data := ad_free (be_app_data B) h (t_announce_app_data t)\<rparr>"
    using remove_route_at_fields [OF ok i] by metis
  have hi: "h = hs ! i" using h hs(5) i n by simp
  then have "h \<in> set hs" using i n by simp
  then obtain old where old: "ct_stored C (t_announce_app_data t) h = Some old" using hs(3) by auto
  note R = rt.swap_remove [OF okD(1) [OF ok], of i, unfolded n, OF i]
  note A = at.swap_remove [OF okD(2) [OF ok], of i, unfolded n, OF i]
  have "ct_slot_ok C (?n - 1)" "i \<le> ?n - 1" using slot_ok [OF ok, of "?n - 1"] i by simp_all
  note H = ih.swap_remove [OF okD(3) [OF ok] this]
  note D = ad.free_stored [OF okD(4) [OF ok] old]
  have fields: "ct_route_rows C (t_routes ?t) = vec_swap_remove i ?rr"
    "ct_record_rows C (t_announce_records ?t) = vec_swap_remove i ?ar"
    "ct_stored C (t_announce_app_data ?t) = (ct_stored C (t_announce_app_data t))(h := None)"
    unfolding f using R A D by simp_all
  show cap: "destination_capacity B ?t = destination_capacity B t"
    unfolding f using R A by (simp add: destination_capacity_def)
  show ok': "table_ok B C ?t"
  proof (rule okI [where hs = "vec_swap_remove i hs"])
    show "ct_routes_valid C (t_routes ?t)" "ct_records_valid C (t_announce_records ?t)"
      "ct_ids_valid C (t_announce_id_history ?t)" "ct_store_valid C (t_announce_app_data ?t)"
      unfolding f using R A H D i by simp_all
    show "length (ct_record_rows C (t_announce_records ?t)) = length (ct_route_rows C (t_routes ?t))"
      "length (ct_route_rows C (t_routes ?t)) \<le> destination_capacity B ?t"
      using okD(7) [OF ok] n by (simp_all add: fields cap)
    show "distinct (map rr_destination (ct_route_rows C (t_routes ?t)))"
      unfolding fields using okD(6) [OF ok] i n by (intro set_vec_swap_remove(2)) simp_all
    show "map ar_app_data_handle (ct_record_rows C (t_announce_records ?t)) = map Some (vec_swap_remove i hs)"
      using i n hs(1) by (simp add: fields map_vec_swap_remove)
    have "set (vec_swap_remove i hs) = {x \<in> set hs. id x \<noteq> id (hs ! i)}" "distinct (map id (vec_swap_remove i hs))"
      using set_vec_swap_remove [of i hs id] i n hs(2) by simp_all
    then show "distinct (vec_swap_remove i hs)"
      "set (vec_swap_remove i hs) = {h. ct_stored C (t_announce_app_data ?t) h \<noteq> None}"
      unfolding fields using hs(3) by (auto simp: hi)
    show "ct_slot_ok C j" if "j < destination_capacity B ?t" for j
      using that okD(8) [OF ok] by (simp add: cap)
    show "ih_history (be_history B) (t_announce_id_history ?t) j = []"
      if "ct_slot_ok C j" "length (ct_route_rows C (t_routes ?t)) \<le> j" for j
    proof (cases "j = ?n - 1")
      case True
      then show ?thesis unfolding f using H i by simp
    next
      case False
      then have "?n - 1 < j" using that(2) n by (simp add: fields)
      moreover from this have "ih_history (be_history B) (t_announce_id_history t) j = []"
        using okD(9) [OF ok that(1)] n by simp
      ultimately show ?thesis
        unfolding f using H that(1) by fastforce
    qed
  qed
  show "table_view B ?t = vec_swap_remove i (table_view B t)"
  proof (rule view_eqI [OF ok'])
    show "route_count B ?t = length (vec_swap_remove i (table_view B t))"
      using count [OF ok'] n by (simp add: fields)
    fix j assume "j < length (vec_swap_remove i (table_view B t))"
    then have j: "j < ?n - 1" by simp
    define k where "k = (if j = i then ?n - 1 else j)"
    have k: "k < ?n" "k \<noteq> i" using j i by (auto simp: k_def)
    have rows: "vec_swap_remove i xs ! j = xs ! k" if "length xs = ?n" for xs :: "'x list"
    proof -
      have "xs \<noteq> []" using that i by auto
      with that i j show ?thesis by (simp add: nth_vec_swap_remove k_def last_conv_nth)
    qed
    have "ar_app_data_handle (?ar ! k) = Some (hs ! k)" using hs(5) k n by simp
    moreover have "hs ! k \<noteq> h" using k i n hs(2) by (simp add: hi nth_eq_iff_index_eq)
    moreover have "ih_history (be_history B) (t_announce_id_history ?t) j
        = ih_history (be_history B) (t_announce_id_history t) k"
      unfolding f using H i j by (simp add: k_def)
    ultimately show "row_view (ct_route_rows C (t_routes ?t) ! j) (ct_record_rows C (t_announce_records ?t) ! j)
        (the (ct_stored C (t_announce_app_data ?t) (the (ar_app_data_handle (ct_record_rows C (t_announce_records ?t) ! j)))))
        (ih_history (be_history B) (t_announce_id_history ?t) j) = vec_swap_remove i (table_view B t) ! j"
      using n k by (simp add: fields rows view_nth [OF ok])
  qed
qed

subsection \<open>Changing the route of a row\<close>

lemma replace_routes:
  assumes ok: "table_ok B C t" and valid: "ct_routes_valid C r'"
    and cap: "rt_capacity (be_routes B) r' = rt_capacity (be_routes B) (t_routes t)"
    and dests: "map rr_destination (ct_route_rows C r') = map rr_destination (ct_route_rows C (t_routes t))"
  defines "t' \<equiv> t\<lparr>t_routes := r'\<rparr>"
  shows "table_ok B C t'"
    and "table_view B t' = map2 (\<lambda>x r. (rr_evidence_id x, (snd r)\<lparr>pr_entry := rr_entry x\<rparr>)) (ct_route_rows C r') (table_view B t)"
    and "destination_capacity B t' = destination_capacity B t"
proof -
  let ?rr = "ct_route_rows C (t_routes t)"
  have n: "length ?rr = route_count B t" "length (ct_route_rows C r') = route_count B t"
    using count [OF ok] arg_cong [OF dests, of length] by simp_all
  show cap': "destination_capacity B t' = destination_capacity B t"
    using cap by (simp add: destination_capacity_def t'_def)
  obtain hs where hs: "map ar_app_data_handle (ct_record_rows C (t_announce_records t)) = map Some hs" "distinct hs"
    "set hs = {h. ct_stored C (t_announce_app_data t) h \<noteq> None}"
    using ok_handles [OF ok] by metis
  show ok': "table_ok B C t'"
    by (rule okI [where hs = hs]) (use okD [OF ok] hs valid cap' dests n in \<open>simp_all add: t'_def\<close>)
  have dest: "rr_destination (ct_route_rows C r' ! j) = rr_destination (?rr ! j)" if "j < route_count B t" for j
    using arg_cong [OF dests, of "\<lambda>xs. xs ! j"] that n by simp
  show "table_view B t' = map2 (\<lambda>x r. (rr_evidence_id x, (snd r)\<lparr>pr_entry := rr_entry x\<rparr>)) (ct_route_rows C r') (table_view B t)"
    by (rule view_eqI [OF ok']) (use count [OF ok'] n dest in \<open>simp_all add: t'_def view_nth [OF ok] row_view_def\<close>)
qed

lemma update_route:
  assumes ok: "table_ok B C t" and i: "i < route_count B t" and valid: "ct_routes_valid C r'"
    and cap: "rt_capacity (be_routes B) r' = rt_capacity (be_routes B) (t_routes t)"
    and rows: "ct_route_rows C r' = (ct_route_rows C (t_routes t))[i := x]"
    and dest: "rr_destination x = rr_destination (ct_route_rows C (t_routes t) ! i)"
  shows "table_ok B C (t\<lparr>t_routes := r'\<rparr>)"
    and "table_view B (t\<lparr>t_routes := r'\<rparr>) =
      (table_view B t)[i := (rr_evidence_id x, (snd (table_view B t ! i))\<lparr>pr_entry := rr_entry x\<rparr>)]"
    and "destination_capacity B (t\<lparr>t_routes := r'\<rparr>) = destination_capacity B t"
proof -
  let ?rr = "ct_route_rows C (t_routes t)"
  have n: "length ?rr = route_count B t" using count [OF ok] by simp
  have dests: "map rr_destination (ct_route_rows C r') = map rr_destination ?rr"
    using dest i n by (simp add: rows map_update) (simp add: list_update_same_conv)
  note R = replace_routes [OF ok valid cap dests]
  show "table_ok B C (t\<lparr>t_routes := r'\<rparr>)" "destination_capacity B (t\<lparr>t_routes := r'\<rparr>) = destination_capacity B t"
    by (rule R(1), rule R(3))
  show "table_view B (t\<lparr>t_routes := r'\<rparr>) =
      (table_view B t)[i := (rr_evidence_id x, (snd (table_view B t ! i))\<lparr>pr_entry := rr_entry x\<rparr>)]"
    unfolding R(2)
  proof (rule nth_equalityI)
    fix j assume "j < length (map2 (\<lambda>x r. (rr_evidence_id x, (snd r)\<lparr>pr_entry := rr_entry x\<rparr>)) (ct_route_rows C r') (table_view B t))"
    then show "map2 (\<lambda>x r. (rr_evidence_id x, (snd r)\<lparr>pr_entry := rr_entry x\<rparr>)) (ct_route_rows C r') (table_view B t) ! j
        = (table_view B t)[i := (rr_evidence_id x, (snd (table_view B t ! i))\<lparr>pr_entry := rr_entry x\<rparr>)] ! j"
      using i n by (cases "j = i") (simp_all add: rows view_nth [OF ok] row_view_def)
  qed (simp add: rows n)
qed

lemma set_entry:
  fixes e :: route_entry
  assumes ok: "table_ok B C t" and i: "i < route_count B t"
  defines "t' \<equiv> t\<lparr>t_routes := rt_set_row (be_routes B) i e (t_routes t)\<rparr>"
  shows "table_ok B C t'"
    and "table_view B t' = (table_view B t)[i := (fst (table_view B t ! i), (snd (table_view B t ! i))\<lparr>pr_entry := e\<rparr>)]"
    and "destination_capacity B t' = destination_capacity B t"
proof -
  let ?x = "(ct_route_rows C (t_routes t) ! i)\<lparr>rr_entry := e\<rparr>"
  have S: "ct_routes_valid C (rt_set_row (be_routes B) i e (t_routes t))"
    "rt_capacity (be_routes B) (rt_set_row (be_routes B) i e (t_routes t)) = rt_capacity (be_routes B) (t_routes t)"
    "ct_route_rows C (rt_set_row (be_routes B) i e (t_routes t)) = (ct_route_rows C (t_routes t))[i := ?x]"
    using rt.set_row [OF okD(1) [OF ok], of i e] i count [OF ok] by simp_all
  have ev: "fst (table_view B t ! i) = rr_evidence_id (ct_route_rows C (t_routes t) ! i)"
    using view_nth [OF ok i] by (simp add: row_view_def)
  show "table_ok B C t'" "destination_capacity B t' = destination_capacity B t"
    "table_view B t' = (table_view B t)[i := (fst (table_view B t ! i), (snd (table_view B t ! i))\<lparr>pr_entry := e\<rparr>)]"
    using update_route [OF ok i S] by (simp_all add: t'_def ev)
qed

lemma set_evidence:
  fixes v :: evidence_id
  assumes ok: "table_ok B C t" and i: "i < route_count B t"
  defines "t' \<equiv> t\<lparr>t_routes := rt_set_evidence_id (be_routes B) i v (t_routes t)\<rparr>"
  shows "table_ok B C t'" and "table_view B t' = (table_view B t)[i := (v, snd (table_view B t ! i))]"
    and "destination_capacity B t' = destination_capacity B t"
proof -
  let ?x = "(ct_route_rows C (t_routes t) ! i)\<lparr>rr_evidence_id := v\<rparr>"
  have S: "ct_routes_valid C (rt_set_evidence_id (be_routes B) i v (t_routes t))"
    "rt_capacity (be_routes B) (rt_set_evidence_id (be_routes B) i v (t_routes t)) = rt_capacity (be_routes B) (t_routes t)"
    "ct_route_rows C (rt_set_evidence_id (be_routes B) i v (t_routes t)) = (ct_route_rows C (t_routes t))[i := ?x]"
    using rt.set_evidence_id [OF okD(1) [OF ok], of i v] i count [OF ok] by simp_all
  have same: "(snd (table_view B t ! i))\<lparr>pr_entry := rr_entry (ct_route_rows C (t_routes t) ! i)\<rparr> = snd (table_view B t ! i)"
    using view_nth [OF ok i] by (simp add: row_view_def)
  show "table_ok B C t'" "destination_capacity B t' = destination_capacity B t"
    "table_view B t' = (table_view B t)[i := (v, snd (table_view B t ! i))]"
    using update_route [OF ok i S] by (simp_all add: t'_def same)
qed

subsection \<open>Adding a row\<close>

lemma find_pos: "index_of B t d = None \<Longrightarrow> table_ok B C t \<Longrightarrow> d \<notin> set (map rr_destination (ct_route_rows C (t_routes t)))"
  using rt.index_of [of "t_routes t" d] okD(1) [of t] by (auto simp: index_of_def position_None_iff)

text \<open>
  From a table whose store has just taken a payload: the row goes into all four stores, and the table
  is in step again.
\<close>

lemma add_row:
  assumes ok: "table_ok B C t" and room: "route_count B t < destination_capacity B t"
    and new: "index_of B t (rr_destination x) = None"
    and ins: "ad_insert (be_app_data B) bytes (t_announce_app_data t) = Inr (h, d)"
    and hy: "ar_app_data_handle y = Some h"
  shows "\<exists>r a. rt_push (be_routes B) (rr_destination x) (rr_evidence_id x) (rr_entry x) (t_routes t) = Inr (route_count B t, r)
    \<and> at_push (be_records B) y (t_announce_records t) = Inr (route_count B t, a)
    \<and> (\<forall>hist. ct_ids_valid C hist
        \<and> (\<forall>j. ct_slot_ok C j \<and> j \<noteq> route_count B t \<longrightarrow>
             ih_history (be_history B) hist j = ih_history (be_history B) (t_announce_id_history t) j) \<longrightarrow>
        (let t' = t\<lparr>t_announce_app_data := d, t_routes := r, t_announce_records := a, t_announce_id_history := hist\<rparr>
         in table_ok B C t'
            \<and> table_view B t' = table_view B t @ [row_view x y bytes (ih_history (be_history B) hist (route_count B t))]
            \<and> destination_capacity B t' = destination_capacity B t))"
proof -
  let ?rr = "ct_route_rows C (t_routes t)" and ?ar = "ct_record_rows C (t_announce_records t)" and ?n = "route_count B t"
  have n: "length ?rr = ?n" "length ?ar = ?n" using count [OF ok] okD(5) [OF ok] by simp_all
  have fits: "?n < rt_capacity (be_routes B) (t_routes t)" "?n < at_capacity (be_records B) (t_announce_records t)"
    using room by (simp_all add: destination_capacity_def)
  obtain r where r: "rt_push (be_routes B) (rr_destination x) (rr_evidence_id x) (rr_entry x) (t_routes t) = Inr (?n, r)"
    "ct_routes_valid C r" "rt_capacity (be_routes B) r = rt_capacity (be_routes B) (t_routes t)" "ct_route_rows C r = ?rr @ [x]"
    using rt.push_fits [OF okD(1) [OF ok], of "rr_destination x" "rr_evidence_id x" "rr_entry x"] fits n
      find_pos [OF new ok] by auto
  obtain a where a: "at_push (be_records B) y (t_announce_records t) = Inr (?n, a)" "ct_records_valid C a"
    "at_capacity (be_records B) a = at_capacity (be_records B) (t_announce_records t)" "ct_record_rows C a = ?ar @ [y]"
    using at.push_fits [OF okD(2) [OF ok], of y] fits n by auto
  note D = ad.insert_stored [OF okD(4) [OF ok] ins]
  obtain hs where hs: "map ar_app_data_handle ?ar = map Some hs" "distinct hs"
    "set hs = {h. ct_stored C (t_announce_app_data t) h \<noteq> None}" "length hs = length ?rr"
    "\<And>i. i < length hs \<Longrightarrow> ar_app_data_handle (?ar ! i) = Some (hs ! i)"
    using ok_handles [OF ok] by metis
  have main: "table_ok B C t' \<and> table_view B t' = table_view B t @ [row_view x y bytes ids]
       \<and> destination_capacity B t' = destination_capacity B t"
    if H: "ct_ids_valid C hist" "ih_history (be_history B) hist ?n = ids"
      "\<And>j. ct_slot_ok C j \<Longrightarrow> j \<noteq> ?n \<Longrightarrow>
          ih_history (be_history B) hist j = ih_history (be_history B) (t_announce_id_history t) j"
      and t': "t' = t\<lparr>t_announce_app_data := d, t_routes := r, t_announce_records := a, t_announce_id_history := hist\<rparr>"
    for hist ids t'
  proof -
    have cap: "destination_capacity B t' = destination_capacity B t"
      using r(3) a(3) by (simp add: t' destination_capacity_def)
    have ok': "table_ok B C t'"
    proof (rule okI [where hs = "hs @ [h]"])
      show "distinct (map rr_destination (ct_route_rows C (t_routes t')))"
        using okD(6) [OF ok] find_pos [OF new ok] by (simp add: t' r)
      show "distinct (hs @ [h])" "set (hs @ [h]) = {g. ct_stored C (t_announce_app_data t') g \<noteq> None}"
        using hs(2,3) D by (auto simp: t')
      show "ih_history (be_history B) (t_announce_id_history t') j = []"
        if "ct_slot_ok C j" "length (ct_route_rows C (t_routes t')) \<le> j" for j
        using that H(3) [of j] okD(9) [OF ok, of j] n by (simp add: t' r)
    qed (use r a D H(1) hs(1) hy n room okD(8) [OF ok] cap in \<open>simp_all add: t'\<close>)
    have "table_view B t' = table_view B t @ [row_view x y bytes ids]"
    proof (rule view_eqI [OF ok'])
      show "route_count B t' = length (table_view B t @ [row_view x y bytes ids])"
        using count [OF ok'] n by (simp add: t' r)
      fix j assume "j < length (table_view B t @ [row_view x y bytes ids])"
      then have j: "j < Suc ?n" by simp
      show "row_view (ct_route_rows C (t_routes t') ! j) (ct_record_rows C (t_announce_records t') ! j)
          (the (ct_stored C (t_announce_app_data t') (the (ar_app_data_handle (ct_record_rows C (t_announce_records t') ! j)))))
          (ih_history (be_history B) (t_announce_id_history t') j) = (table_view B t @ [row_view x y bytes ids]) ! j"
      proof (cases "j = ?n")
        case True
        then show ?thesis using n H(2) hy D by (simp add: t' r a nth_append)
      next
        case False
        with j have jn: "j < ?n" by simp
        have "hs ! j \<in> set hs" using jn hs(4) n by simp
        then have "hs ! j \<noteq> h" using D hs(3) by auto
        then show ?thesis
          using jn n hs(4,5) H(3) [of j] slot_ok [OF ok jn] D
          by (simp add: t' r a nth_append view_nth [OF ok])
      qed
    qed
    with ok' cap show ?thesis by blast
  qed
  show ?thesis
  proof (rule exI [of _ r], rule exI [of _ a], intro conjI allI impI, goal_cases)
    case (3 hist)
    show ?case unfolding Let_def by (rule main [OF _ refl _ refl]) (use 3 in auto)
  qed (rule r(1) a(1))+
qed

subsection \<open>Changing the announce of a row\<close>

lemma update_announce:
  assumes ok: "table_ok B C t" and i: "i < route_count B t"
    and h: "ar_app_data_handle (ct_record_rows C (t_announce_records t) ! i) = Some h" "ar_app_data_handle y = Some h"
    and d: "ct_store_valid C d" "ct_stored C d = (ct_stored C (t_announce_app_data t))(h := Some bytes)"
    and hist: "ct_ids_valid C hist" "ih_history (be_history B) hist i = ids"
      "\<And>j. ct_slot_ok C j \<Longrightarrow> j \<noteq> i \<Longrightarrow>
        ih_history (be_history B) hist j = ih_history (be_history B) (t_announce_id_history t) j"
  defines "t' \<equiv> t\<lparr>t_announce_app_data := d,
    t_announce_records := at_set_row (be_records B) i y (t_announce_records t), t_announce_id_history := hist\<rparr>"
  shows "table_ok B C t'"
    and "table_view B t' = (table_view B t)[i := row_view (ct_route_rows C (t_routes t) ! i) y bytes ids]"
    and "destination_capacity B t' = destination_capacity B t"
proof -
  let ?rr = "ct_route_rows C (t_routes t)" and ?ar = "ct_record_rows C (t_announce_records t)" and ?n = "route_count B t"
  have n: "length ?rr = ?n" "length ?ar = ?n" using count [OF ok] okD(5) [OF ok] by simp_all
  have A: "ct_records_valid C (at_set_row (be_records B) i y (t_announce_records t))"
    "at_capacity (be_records B) (at_set_row (be_records B) i y (t_announce_records t)) = at_capacity (be_records B) (t_announce_records t)"
    "ct_record_rows C (at_set_row (be_records B) i y (t_announce_records t)) = ?ar[i := y]"
    using at.set_row [OF okD(2) [OF ok], of i y] i n by simp_all
  obtain hs where hs: "map ar_app_data_handle ?ar = map Some hs" "distinct hs"
    "set hs = {h. ct_stored C (t_announce_app_data t) h \<noteq> None}" "length hs = length ?rr"
    "\<And>i. i < length hs \<Longrightarrow> ar_app_data_handle (?ar ! i) = Some (hs ! i)"
    using ok_handles [OF ok] by metis
  have hi: "h = hs ! i" using h(1) hs(4,5) i n by simp
  have "h \<in> set hs" using hs(4) i n by (simp add: hi)
  show cap: "destination_capacity B t' = destination_capacity B t"
    using A(2) by (simp add: t'_def destination_capacity_def)
  have handles: "map ar_app_data_handle (?ar[i := y]) = map Some hs"
    using h i n hs(1) by (simp add: map_update) (metis list_update_id nth_map n(2) hs(1))
  show ok': "table_ok B C t'"
  proof (rule okI [where hs = hs])
    show "set hs = {g. ct_stored C (t_announce_app_data t') g \<noteq> None}"
      using hs(3) \<open>h \<in> set hs\<close> by (auto simp: t'_def d(2))
    show "ih_history (be_history B) (t_announce_id_history t') j = []"
      if "ct_slot_ok C j" "length (ct_route_rows C (t_routes t')) \<le> j" for j
      using that hist(3) [of j] okD(9) [OF ok, of j] i n by (simp add: t'_def)
  qed (use okD [OF ok] A d hist(1) handles hs(2) n cap in \<open>simp_all add: t'_def\<close>)
  show "table_view B t' = (table_view B t)[i := row_view (?rr ! i) y bytes ids]"
  proof (rule view_eqI [OF ok'])
    show "route_count B t' = length ((table_view B t)[i := row_view (?rr ! i) y bytes ids])"
      using count [OF ok'] n by (simp add: t'_def)
    fix j assume "j < length ((table_view B t)[i := row_view (?rr ! i) y bytes ids])"
    then have j: "j < ?n" by simp
    show "row_view (ct_route_rows C (t_routes t') ! j) (ct_record_rows C (t_announce_records t') ! j)
        (the (ct_stored C (t_announce_app_data t') (the (ar_app_data_handle (ct_record_rows C (t_announce_records t') ! j)))))
        (ih_history (be_history B) (t_announce_id_history t') j)
      = (table_view B t)[i := row_view (?rr ! i) y bytes ids] ! j"
    proof (cases "j = i")
      case True
      then show ?thesis using j n h(2) hist(2) by (simp add: t'_def A d(2))
    next
      case False
      then have "hs ! j \<noteq> h" using hs(2,4) i j n by (simp add: hi nth_eq_iff_index_eq)
      with False j n hs(4,5) slot_ok [OF ok j] show ?thesis
        by (simp add: t'_def A d(2) hist(3) view_nth [OF ok])
    qed
  qed
qed

lemma refresh_existing_route_cases:
  assumes ok: "table_ok B C t" and i: "i < route_count B t"
    and dest: "an_destination (aa_announce arrival) = pr_destination (snd (table_view B t ! i))"
    and old: "ct_replaceable C (pr_app_data (snd (table_view B t ! i)))"
    and res: "refresh_existing_route B i arrival v retention interfaces warmth t = (out, t')"
  shows "out = DroppedAnnounce PayloadArenaFull \<and> t' = t
    \<or> out = Updated \<and> table_ok B C t' \<and> destination_capacity B t' = destination_capacity B t
      \<and> table_view B t' = (table_view B t)[i :=
          (let (old_id, old_row) = table_view B t ! i; e = pr_entry old_row
           in (if re_receiving_interface e \<noteq> aa_receiving_interface arrival \<or> re_next_hop e \<noteq> aa_next_hop arrival
               then v else old_id,
               arrival_view arrival retention
                 (snd (remember_id (ct_id_cap C) (ring_ids (pr_announce_id_ring old_row))
                    (an_announce_id (aa_announce arrival))))))]"
proof -
  let ?rr = "ct_route_rows C (t_routes t)" and ?ar = "ct_record_rows C (t_announce_records t)" and ?n = "route_count B t"
  let ?an = "aa_announce arrival"
  have n: "length ?rr = ?n" "length ?ar = ?n" using count [OF ok] okD(5) [OF ok] by simp_all
  obtain hs where hs: "set hs = {h. ct_stored C (t_announce_app_data t) h \<noteq> None}" "length hs = length ?rr"
    "\<And>i. i < length hs \<Longrightarrow> ar_app_data_handle (?ar ! i) = Some (hs ! i)"
    using ok_handles [OF ok] by metis
  define h where "h = hs ! i"
  have h: "ar_app_data_handle (?ar ! i) = Some h" using hs(2,3) i n by (simp add: h_def)
  have "h \<in> set hs" using hs(2) i n by (simp add: h_def)
  then obtain bytes where bytes: "ct_stored C (t_announce_app_data t) h = Some bytes" using hs(1) by auto
  have V: "table_view B t ! i = row_view (?rr ! i) (?ar ! i) bytes (ih_history (be_history B) (t_announce_id_history t) i)"
    using view_nth [OF ok i] h bytes by simp
  have repl: "ct_replaceable C bytes" using old by (simp add: V row_view_def)
  have handle: "at_app_data_handles (be_records B) (t_announce_records t) ! i = Some h"
    using okD(2) [OF ok] i n h by (simp add: at.columns)
  show ?thesis
  proof (cases "ad_replace (be_app_data B) h (an_app_data ?an) (t_announce_app_data t)")
    case (Inl e)
    then show ?thesis using res by (simp add: refresh_existing_route_def handle)
  next
    case (Inr d)
    note D = ad.replace_stored [OF okD(4) [OF ok] bytes repl Inr]
    obtain ro hist where rem: "ih_remember (be_history B) i (an_announce_id ?an) (t_announce_id_history t) = (ro, hist)"
      by fastforce
    note H = ih.remember [OF okD(3) [OF ok] slot_ok [OF ok i] rem]
    let ?y = "announce_record_of ?an h"
    let ?ids = "snd (remember_id (ct_id_cap C) (ih_history (be_history B) (t_announce_id_history t) i) (an_announce_id ?an))"
    let ?t1 = "t\<lparr>t_announce_app_data := d, t_announce_records := at_set_row (be_records B) i ?y (t_announce_records t),
      t_announce_id_history := hist\<rparr>"
    have "ih_history (be_history B) hist i = ?ids"
      using H by (metis snd_conv)
    note U = update_announce [OF ok i h _ conjunct1 [OF D] conjunct2 [OF D] conjunct1 [OF H] this, of ?y]
    have U: "table_ok B C ?t1" "table_view B ?t1 = (table_view B t)[i := row_view (?rr ! i) ?y (an_app_data ?an) ?ids]"
      "destination_capacity B ?t1 = destination_capacity B t"
      using U H by (simp_all add: announce_record_of_def)
    have n1: "i < route_count B ?t1" using arg_cong [OF U(2), of length] i by simp
    let ?t2 = "?t1\<lparr>t_routes := rt_set_row (be_routes B) i (arrival_entry arrival retention) (t_routes ?t1)\<rparr>"
    note E = set_entry [OF U(1) n1, of "arrival_entry arrival retention"]
    have n2: "i < route_count B ?t2" using arg_cong [OF E(2), of length] n1 by simp
    let ?t3 = "?t2\<lparr>t_routes := rt_set_evidence_id (be_routes B) i v (t_routes ?t2)\<rparr>"
    note F = set_evidence [OF E(1) n2, of v]
    let ?changed = "re_receiving_interface (rr_entry (?rr ! i)) \<noteq> aa_receiving_interface arrival
      \<or> re_next_hop (rr_entry (?rr ! i)) \<noteq> aa_next_hop arrival"
    have cols: "rt_receiving_interfaces (be_routes B) (t_routes t) ! i = re_receiving_interface (rr_entry (?rr ! i))"
      "rt_next_hops (be_routes B) (t_routes t) ! i = re_next_hop (rr_entry (?rr ! i))"
      using okD(1) [OF ok] i n by (simp_all add: rt.columns)
    have res': "out = Updated \<and> t' = (if ?changed then ?t3 else ?t2)"
      using res Inr rem
      by (cases "?changed") (auto simp: refresh_existing_route_def handle Let_def cols linear_update_def
          intro!: routing_table.equality)
    have row: "(arrival_view arrival retention ?ids) =
        (snd (row_view (?rr ! i) ?y (an_app_data ?an) ?ids))\<lparr>pr_entry := arrival_entry arrival retention\<rparr>"
      using dest by (simp add: V row_view_def arrival_view_def announce_record_of_def Let_def)
    show ?thesis
      using res' E F U(2,3) n1 n2 i by (cases "?changed") (simp_all add: V row row_view_def Let_def)
  qed
qed

subsection \<open>Learning\<close>

lemma push_new_route_ok:
  assumes ok: "table_ok B C t" and room: "route_count B t < destination_capacity B t"
    and new: "index_of B t (an_destination (aa_announce arrival)) = None"
    and ins: "ad_insert (be_app_data B) (an_app_data (aa_announce arrival)) (t_announce_app_data t) = Inr (h, d)"
  shows "\<exists>t'. push_new_route B arrival v retention interfaces warmth h (t\<lparr>t_announce_app_data := d\<rparr>) = (Inserted, t')
    \<and> table_ok B C t' \<and> destination_capacity B t' = destination_capacity B t
    \<and> table_view B t' = table_view B t @ [(v, arrival_view arrival retention [an_announce_id (aa_announce arrival)])]"
proof -
  let ?an = "aa_announce arrival" and ?n = "route_count B t"
  define x where "x = \<lparr>rr_destination = an_destination ?an, rr_evidence_id = v, rr_entry = arrival_entry arrival retention\<rparr>"
  let ?y = "announce_record_of ?an h"
  have nx: "index_of B t (rr_destination x) = None" using new by (simp add: x_def)
  have hy: "ar_app_data_handle ?y = Some h" by (simp add: announce_record_of_def)
  obtain ro hist where rem: "ih_remember (be_history B) ?n (an_announce_id ?an) (t_announce_id_history t) = (ro, hist)"
    by fastforce
  have slot: "ct_slot_ok C ?n" using okD(8) [OF ok] room by simp
  have empty: "ih_history (be_history B) (t_announce_id_history t) ?n = []"
    using okD(9) [OF ok slot] count [OF ok] by simp
  note H = ih.remember [OF okD(3) [OF ok] slot rem]
  have ids: "ih_history (be_history B) hist ?n = [an_announce_id ?an]"
    using H ih.cap [OF okD(3) [OF ok]] by (simp add: empty remember_id_def)
  obtain r a where r: "rt_push (be_routes B) (rr_destination x) (rr_evidence_id x) (rr_entry x) (t_routes t) = Inr (?n, r)"
    and a: "at_push (be_records B) ?y (t_announce_records t) = Inr (?n, a)"
    and t': "let t' = t\<lparr>t_announce_app_data := d, t_routes := r, t_announce_records := a, t_announce_id_history := hist\<rparr>
      in table_ok B C t' \<and> table_view B t' = table_view B t @ [row_view x ?y (an_app_data ?an) (ih_history (be_history B) hist ?n)]
        \<and> destination_capacity B t' = destination_capacity B t"
    using add_row [OF ok room nx ins hy] H by blast
  have "push_new_route B arrival v retention interfaces warmth h (t\<lparr>t_announce_app_data := d\<rparr>)
      = (Inserted, t\<lparr>t_announce_app_data := d, t_routes := r, t_announce_records := a, t_announce_id_history := hist\<rparr>)"
    using r a rem by (simp add: push_new_route_def x_def Let_def linear_insert_def)
  moreover have "row_view x ?y (an_app_data ?an) [an_announce_id ?an] = (v, arrival_view arrival retention [an_announce_id ?an])"
    by (simp add: row_view_def x_def arrival_view_def announce_record_of_def Let_def)
  ultimately show ?thesis using t' by (simp add: ids Let_def)
qed

lemma evict_cases:
  assumes ok: "table_ok B C t"
  shows "route_count B t = 0 \<and> evict_route_nearest_expiry B interfaces warmth t = (NothingToEvict, t, [])
    \<or> (\<exists>i<route_count B t. evict_route_nearest_expiry B interfaces warmth t =
          (EvictedRow, remove_route_at B i t, [route_removal_at B t i Evicted])
        \<and> (\<forall>j<route_count B t. expiry_of_with_warmth B t i interfaces warmth
             \<le> expiry_of_with_warmth B t j interfaces warmth))"
proof (cases "min_by_key (\<lambda>i. expiry_of_with_warmth B t i interfaces warmth) [0..<route_count B t]")
  case None
  then show ?thesis by (simp add: evict_route_nearest_expiry_def min_by_key_None)
next
  case (Some i)
  from min_by_key_Some [OF this] Some show ?thesis by (auto simp: evict_route_nearest_expiry_def)
qed

lemma index_of_None:
  assumes "table_ok B C t"
  shows "index_of B t d = None \<longleftrightarrow> d \<notin> set (map (pr_destination \<circ> snd) (table_view B t))"
  using index_of_view [OF assms] by (auto simp: position_None_iff)

lemma index_of_Some:
  assumes "table_ok B C t" "index_of B t d = Some i"
  shows "i < route_count B t" "pr_destination (snd (table_view B t ! i)) = d"
  using assms index_of_view [OF assms(1)] by (auto simp: position_Some_iff)

lemma view_distinct: "table_ok B C t \<Longrightarrow> distinct (map (pr_destination \<circ> snd) (table_view B t))"
  by (simp add: view_destinations okD)

lemma index_of_eqI:
  assumes ok: "table_ok B C t" and i: "i < route_count B t" "pr_destination (snd (table_view B t ! i)) = d"
  shows "index_of B t d = Some i"
proof -
  have "d \<in> set (map (pr_destination \<circ> snd) (table_view B t))"
    using i by (force simp: in_set_conv_nth)
  then obtain j where j: "index_of B t d = Some j" using index_of_None [OF ok] by blast
  with index_of_Some [OF ok j] i view_distinct [OF ok] show ?thesis
    by (auto simp: distinct_conv_nth)
qed

lemma removal_destination:
  assumes "table_ok B C t" "i < route_count B t"
  shows "rm_destination (route_removal_at B t i cause) = pr_destination (snd (table_view B t ! i))"
  using view_entry(2) [OF assms] okD(1) [OF assms(1)] assms(2) count [OF assms(1)]
  by (simp add: route_removal_at_def rt.columns)

lemma remove_removes:
  assumes ok: "table_ok B C t" and i: "i < route_count B t"
  shows "table_removes B C t (remove_route_at B i t) [route_removal_at B t i cause]"
proof -
  let ?d = "row_destination (table_view B t ! i)"
  have mem: "table_view B t ! i \<in> set (table_view B t)" using i by simp
  have "row_destination r \<noteq> ?d" if "r \<in> set (table_view B t)" "r \<noteq> table_view B t ! i" for r
    using that view_distinct [OF ok] mem by (auto simp: distinct_map inj_on_def)
  moreover have "distinct (table_view B t)" using view_distinct [OF ok] by (simp add: distinct_map)
  ultimately have "mset (table_view B t) - {#table_view B t ! i#} = filter_mset (\<lambda>r. row_destination r \<noteq> ?d) (mset (table_view B t))"
    using mem by (intro multiset_eqI) (auto simp: distinct_count_atmost_1 split: if_splits)
  with mem show ?thesis
    using remove_route_at_ok [OF ok i] removal_destination [OF ok i] i
    by (simp add: table_removes_def mset_vec_swap_remove rows_sink_swap_remove)
qed

text \<open>
  The removal loops. When a row is due depends on the row alone; the loop ends, removes exactly the due
  rows and reports each with its cause.
\<close>

lemma sweep_removes:
  assumes ok: "table_ok B C t" and i: "i \<le> route_count B t"
    and due: "\<And>t j. table_ok B C t \<Longrightarrow> j < route_count B t \<Longrightarrow> due t j = f (table_view B t ! j)"
    and passed: "\<forall>j<i. f (table_view B t ! j) = None"
  shows "\<exists>u rem. sweep_loop B due i t removed = Some (u, removed @ rem) \<and> table_removes B C t u rem
    \<and> (\<forall>r\<in>set (table_view B u). f r = None) \<and> removals_due f (table_view B t) rem"
  using ok i passed
proof (induction "route_count B t - i" arbitrary: t i removed rule: less_induct)
  case less
  let ?V = "table_view B t"
  show ?case
  proof (cases "i < route_count B t")
    case False
    then have "i = route_count B t" using less.prems(2) by simp
    then have all: "\<forall>r\<in>set ?V. f r = None" using less.prems(3) by (metis in_set_conv_nth length_table_view)
    have "sweep_loop B due i t removed = Some (t, removed)"
      using False by (subst sweep_loop.simps) simp
    then show ?thesis
      using table_removes_none [OF less.prems(1)] all by (intro exI [of _ t] exI [of _ "[]"]) simp
  next
    case True
    note d = due [OF less.prems(1) True]
    show ?thesis
    proof (cases "f (?V ! i)")
      case None
      have step: "sweep_loop B due i t removed = sweep_loop B due (i + 1) t removed"
        using True None d by (subst sweep_loop.simps) simp
      have pre: "\<forall>j<i + 1. f (?V ! j) = None"
        using less.prems(3) None by (auto simp: less_Suc_eq)
      have "route_count B t - (i + 1) < route_count B t - i" "i + 1 \<le> route_count B t" using True by linarith+
      from less.hyps [OF this(1) less.prems(1) this(2) pre, of removed] show ?thesis unfolding step .
    next
      case (Some cause)
      let ?t = "remove_route_at B i t" and ?x = "route_removal_at B t i cause"
      note rm = remove_route_at_ok [OF less.prems(1) True] and rc = remove_removes [OF less.prems(1) True, of cause]
      have step: "sweep_loop B due i t removed = sweep_loop B due i ?t (removed @ [?x])"
        using True Some d by (subst sweep_loop.simps) simp
      have n: "route_count B ?t = route_count B t - 1"
        using arg_cong [OF rm(2), of length] by simp
      have pre: "\<forall>j<i. f (table_view B ?t ! j) = None"
        using less.prems(3) True by (simp add: rm(2) nth_vec_swap_remove)
      have "route_count B ?t - i < route_count B t - i" "i \<le> route_count B ?t" using n True by linarith+
      from less.hyps [OF this(1) rm(1) this(2) pre, of "removed @ [?x]"] obtain u rem where
        u: "sweep_loop B due i ?t (removed @ [?x]) = Some (u, (removed @ [?x]) @ rem)"
          "table_removes B C ?t u rem" "\<forall>r\<in>set (table_view B u). f r = None" "removals_due f (table_view B ?t) rem"
        by (elim exE conjE)
      have "set (table_view B ?t) \<subseteq> set ?V" unfolding table_removes_set [OF rc] by blast
      then have "removals_due f ?V rem" by (rule removals_due_mono [OF u(4)])
      moreover have "row_destination (?V ! i) = rm_destination ?x"
        "re_receiving_interface (pr_entry (snd (?V ! i))) = rm_receiving_interface ?x" "rm_cause ?x = cause"
        using view_entry(1,2) [OF less.prems(1) True] okD(1) [OF less.prems(1)] True count [OF less.prems(1)]
        by (simp_all add: route_removal_at_def rt.columns)
      ultimately have "removals_due f ?V (?x # rem)"
        using True Some by (intro removals_due_Cons [of "?V ! i"]) simp_all
      moreover have "table_removes B C t u (?x # rem)" using table_removes_trans [OF rc u(2)] by simp
      moreover have "sweep_loop B due i t removed = Some (u, removed @ (?x # rem))" unfolding step u(1) by simp
      ultimately show ?thesis using u(3) by (intro exI [of _ u] exI [of _ "?x # rem"] conjI)
    qed
  qed
qed

lemma removes_index_of_None:
  assumes "table_ok B C t" "table_removes B C t u removed" "index_of B t d = None"
  shows "index_of B u d = None"
  using assms table_removes_set [OF assms(2)] by (auto simp: index_of_None table_removes_def)

lemma removes_count_le:
  assumes "table_removes B C t u removed"
  shows "route_count B u \<le> route_count B t"
proof -
  have "size (mset (table_view B u)) \<le> size (mset (table_view B t))"
    using assms by (simp only: table_removes_def size_filter_mset_lesseq)
  then show ?thesis by simp
qed

text \<open>
  \<open>insert_new_route\<close>: at most one eviction, then either the new row at the end of the table or nothing.
\<close>

lemma insert_new_route_cases:
  assumes ok: "table_ok B C t" and new: "index_of B t (an_destination (aa_announce arrival)) = None"
    and res: "insert_new_route B arrival v retention interfaces warmth t = (out, t', removed)"
  shows "\<exists>u. table_removes B C t u removed
    \<and> (out = Inserted \<and> table_ok B C t' \<and> destination_capacity B t' = destination_capacity B t
         \<and> table_view B t' = table_view B u @ [(v, arrival_view arrival retention [an_announce_id (aa_announce arrival)])]
       \<or> out = DroppedAnnounce PayloadArenaFull \<and> t' = u
       \<or> out = DroppedAnnounce RoutingTableFull \<and> t' = t \<and> destination_capacity B t \<le> route_count B t)"
proof (cases "route_count B t \<ge> destination_capacity B t")
  case True
  then have "out = DroppedAnnounce RoutingTableFull" "t' = t" "removed = []"
    using res by (simp_all add: insert_new_route_def)
  with True table_removes_none [OF ok] show ?thesis by auto
next
  case False
  then have room: "route_count B t < destination_capacity B t" by simp
  let ?ins = "\<lambda>t. ad_insert (be_app_data B) (an_app_data (aa_announce arrival)) (t_announce_app_data t)"
  let ?push = "\<lambda>h u d. push_new_route B arrival v retention interfaces warmth h (u\<lparr>t_announce_app_data := d\<rparr>)"
  show ?thesis
  proof (cases "?ins t")
    case (Inr hd)
    obtain h d where hd: "hd = (h, d)" by fastforce
    obtain u' where u': "?push h t d = (Inserted, u')" and P: "table_ok B C u'"
      "destination_capacity B u' = destination_capacity B t"
      "table_view B u' = table_view B t @ [(v, arrival_view arrival retention [an_announce_id (aa_announce arrival)])]"
      using push_new_route_ok [OF ok room new, of h d v retention interfaces warmth] Inr hd by auto
    then have "out = Inserted" "t' = u'" "removed = []"
      using res Inr hd False by (simp_all add: insert_new_route_def Let_def)
    with P table_removes_none [OF ok] show ?thesis by blast
  next
    case (Inl e)
    from evict_cases [OF ok, of interfaces warmth] show ?thesis
    proof (elim disjE conjE exE)
      assume "evict_route_nearest_expiry B interfaces warmth t = (NothingToEvict, t, [])"
      then have "out = DroppedAnnounce PayloadArenaFull" "t' = t" "removed = []"
        using res Inl False by (simp_all add: insert_new_route_def Let_def)
      with table_removes_none [OF ok] show ?thesis by blast
    next
      fix i
      let ?u = "remove_route_at B i t" and ?rm = "[route_removal_at B t i Evicted]"
      assume i: "i < route_count B t" and
        ev: "evict_route_nearest_expiry B interfaces warmth t = (EvictedRow, ?u, ?rm)"
      note rc = remove_removes [OF ok i, of Evicted] and ro = remove_route_at_ok [OF ok i]
      have ru: "route_count B ?u < destination_capacity B ?u"
        using removes_count_le [OF rc] ro(3) room by simp
      have nu: "index_of B ?u (an_destination (aa_announce arrival)) = None"
        by (rule removes_index_of_None [OF ok rc new])
      show ?thesis
      proof (cases "?ins ?u")
        case (Inl e')
        then have "out = DroppedAnnounce PayloadArenaFull" "t' = ?u" "removed = ?rm"
          using res \<open>?ins t = Inl e\<close> False ev by (simp_all add: insert_new_route_def Let_def)
        with rc show ?thesis by blast
      next
        case (Inr hd)
        obtain h d where hd: "hd = (h, d)" by fastforce
        obtain u' where u': "?push h ?u d = (Inserted, u')" and P: "table_ok B C u'"
          "destination_capacity B u' = destination_capacity B t"
          "table_view B u' = table_view B ?u @ [(v, arrival_view arrival retention [an_announce_id (aa_announce arrival)])]"
          using push_new_route_ok [OF ro(1) ru nu, of h d v retention interfaces warmth] Inr hd ro(3) by auto
        then have "out = Inserted" "t' = u'" "removed = ?rm"
          using res Inr hd \<open>?ins t = Inl e\<close> False ev by (simp_all add: insert_new_route_def Let_def)
        with P rc show ?thesis by blast
      qed
    qed
  qed
qed

end

end
