(* ===== verification/Routing_Table_Spec.thy ===== *)
theory Routing_Table_Spec
  imports Routing_Table_Laws
begin

text \<open>
  The routing table as a finite map from destinations to routes, and each operation of the table as an
  operation on that map, for any four stores that keep their contracts.
\<close>

section \<open>The table as a map\<close>

definition routes_map ::
  "('r, 'a, 'h, 'd) backends \<Rightarrow> ('r, 'a, 'h, 'd) routing_table \<Rightarrow> destination_hash \<rightharpoonup> evidence_id \<times> persisted_route_row" where
  "routes_map B t d = find (\<lambda>r. row_destination r = d) (table_view B t)"

text \<open>
  The route after another announce for its destination: it keeps its evidence id unless the path is
  another one, and remembers one more announce id.
\<close>

definition refreshed_row ::
  "nat \<Rightarrow> announce_arrival \<Rightarrow> route_retention \<Rightarrow> evidence_id \<Rightarrow> evidence_id \<times> persisted_route_row
     \<Rightarrow> evidence_id \<times> persisted_route_row" where
  "refreshed_row cap arrival retention v old =
     (let (old_id, old_row) = old; e = pr_entry old_row
      in (if re_receiving_interface e \<noteq> aa_receiving_interface arrival \<or> re_next_hop e \<noteq> aa_next_hop arrival
          then v else old_id,
          arrival_view arrival retention
            (snd (remember_id cap (ring_ids (pr_announce_id_ring old_row)) (an_announce_id (aa_announce arrival))))))"

text \<open>When a row is past its time, and why it goes then.\<close>

definition row_expired ::
  "instant_millis \<Rightarrow> interface_descriptor list \<Rightarrow> route_warmth \<Rightarrow> evidence_id \<times> persisted_route_row
     \<Rightarrow> route_removal_cause option" where
  "row_expired now interfaces warmth r =
     (let e = pr_entry (snd r)
      in if entry_expiry interfaces warmth (entry_last_active e) e \<le> now
         then Some (if descriptor_for interfaces (re_receiving_interface e) \<noteq> None then Expired else InterfaceGone)
         else None)"

definition row_via :: "transport_id \<Rightarrow> evidence_id \<times> persisted_route_row \<Rightarrow> route_removal_cause option" where
  "row_via transport r = (if re_next_hop (pr_entry (snd r)) = Via transport then Some Dropped else None)"

definition row_of_identity ::
  "(identity_public_keys \<Rightarrow> 'i) \<Rightarrow> 'i \<Rightarrow> evidence_id \<times> persisted_route_row \<Rightarrow> route_removal_cause option" where
  "row_of_identity identity_hash identity r =
     (if identity_hash (pr_public_keys (snd r)) = identity then Some Dropped else None)"

text \<open>The ids a history holds after it has been handed \<open>ids\<close> one by one, and the route a saved row becomes.\<close>

definition seeded_ids :: "nat \<Rightarrow> announce_id list \<Rightarrow> announce_id list" where
  "seeded_ids cap ids = foldl (\<lambda>acc i. snd (remember_id cap acc i)) [] ids"

definition seeded_row :: "nat \<Rightarrow> persisted_route_row \<Rightarrow> persisted_route_row" where
  "seeded_row cap row =
     row\<lparr>pr_entry := (pr_entry row)\<lparr>re_retention := Network\<rparr>,
         pr_announce_id_ring := RingTable (seeded_ids cap (ring_ids (pr_announce_id_ring row)))\<rparr>"

text \<open>The announce that is answered for a route, and what the acceptance of the next one looks at.\<close>

definition stored_of :: "persisted_route_row \<Rightarrow> stored_announce" where
  "stored_of row =
     \<lparr>st_hops = re_hops (pr_entry row), st_receiving_interface = re_receiving_interface (pr_entry row),
      st_next_hop = re_next_hop (pr_entry row),
      st_announce = \<lparr>an_destination = pr_destination row, an_public_keys = pr_public_keys row,
        an_dotted_name_hash = pr_dotted_name_hash row, an_announce_id = pr_announce_id row,
        an_ratchet = pr_ratchet row, an_signature = pr_signature row, an_app_data = pr_app_data row\<rparr>\<rparr>"

definition entry_gate_expiry :: "interface_descriptor list \<Rightarrow> route_entry \<Rightarrow> instant_millis" where
  "entry_gate_expiry interfaces e =
     entry_expiry interfaces no_warmth
       (if re_responsiveness e = Responsive then entry_last_active e else re_learned_at e) e"

definition existing_of :: "interface_descriptor list \<Rightarrow> persisted_route_row \<Rightarrow> existing_route" where
  "existing_of interfaces row =
     \<lparr>ex_hops = re_hops (pr_entry row), ex_expires_at = entry_gate_expiry interfaces (pr_entry row),
      ex_announce_id_history = ring_ids (pr_announce_id_ring row),
      ex_responsiveness = re_responsiveness (pr_entry row),
      ex_interface_gravity = map_option if_gravity (descriptor_for interfaces (re_receiving_interface (pr_entry row)))\<rparr>"

text \<open>One entry of the map changes.\<close>

definition map_entry ::
  "(route_entry \<Rightarrow> route_entry) \<Rightarrow> destination_hash
     \<Rightarrow> (destination_hash \<rightharpoonup> evidence_id \<times> persisted_route_row) \<Rightarrow> (destination_hash \<rightharpoonup> evidence_id \<times> persisted_route_row)" where
  "map_entry f d m =
     (case m d of None \<Rightarrow> m | Some (v, row) \<Rightarrow> m(d \<mapsto> (v, row\<lparr>pr_entry := f (pr_entry row)\<rparr>)))"

text \<open>What a removal loop with the test \<open>f\<close> does.\<close>

definition removes_exactly ::
  "('r, 'a, 'h, 'd) backends \<Rightarrow> ('r, 'a, 'h, 'd) contracts
     \<Rightarrow> (evidence_id \<times> persisted_route_row \<Rightarrow> route_removal_cause option) \<Rightarrow> ('r, 'a, 'h, 'd) routing_table
     \<Rightarrow> ('r, 'a, 'h, 'd) routing_table \<Rightarrow> removed_route list \<Rightarrow> bool" where
  "removes_exactly B C f t u removed =
     (table_removes B C t u removed \<and> removals_due f (table_view B t) removed
      \<and> (\<forall>d. routes_map B u d =
            (case routes_map B t d of Some r \<Rightarrow> if f r = None then Some r else None | None \<Rightarrow> None)))"

abbreviation removed_destinations :: "removed_route list \<Rightarrow> destination_hash set" where
  "removed_destinations removed \<equiv> set (map rm_destination removed)"

lemma arrival_view_sel [simp]:
  "pr_destination (arrival_view arrival retention ids) = an_destination (aa_announce arrival)"
  "pr_entry (arrival_view arrival retention ids) = arrival_entry arrival retention"
  "pr_app_data (arrival_view arrival retention ids) = an_app_data (aa_announce arrival)"
  "pr_announce_id_ring (arrival_view arrival retention ids) = RingTable ids"
  by (simp_all add: arrival_view_def Let_def)

lemma refreshed_row_destination [simp]:
  "row_destination (refreshed_row cap arrival retention v old) = an_destination (aa_announce arrival)"
  by (simp add: refreshed_row_def split_beta Let_def)

lemma refreshed_row_id: "fst (refreshed_row cap arrival retention v old) \<in> {fst old, v}"
  by (simp add: refreshed_row_def split_beta Let_def)

lemma seeded_ids_distinct:
  assumes "distinct ids" "length ids \<le> cap"
  shows "seeded_ids cap ids = ids"
  using assms
proof (induction ids rule: rev_induct)
  case (snoc i ids)
  then have "seeded_ids cap ids = ids" by simp
  with snoc.prems show ?case by (simp add: seeded_ids_def remember_id_def)
qed (simp add: seeded_ids_def)

text \<open>Ids that were written one after the other are read back.\<close>

lemma wire_ids_concat:
  "\<forall>i\<in>set ids. announce_id_wf i \<Longrightarrow> wire_ids (concat (map announce_id_to_wire_bytes ids)) = ids"
proof (induction ids)
  case Nil
  show ?case by (simp add: wire_ids.simps)
next
  case (Cons i ids)
  then have "announce_id_from_wire (announce_id_to_wire_bytes i) = i" "length (announce_id_to_wire_bytes i) = 10"
    using announce_id_wire [of i] by (simp_all add: ANNOUNCE_ID_WIRE_LEN_def)
  with Cons show ?case by (subst wire_ids.simps) simp
qed

lemma routes_map_append:
  assumes "table_view B t' = table_view B u @ [r]" "routes_map B u (row_destination r) = None"
  shows "routes_map B t' = (routes_map B u)(row_destination r \<mapsto> r)"
proof
  fix d
  have "find P (xs @ [r]) = (case find P xs of None \<Rightarrow> if P r then Some r else None | Some y \<Rightarrow> Some y)" for P xs
    by (induction xs) auto
  then show "routes_map B t' d = ((routes_map B u)(row_destination r \<mapsto> r)) d"
    using assms by (auto simp: routes_map_def split: option.split)
qed

context routing_backends
begin

lemma routes_map_Some:
  assumes "table_ok B C t"
  shows "routes_map B t d = Some r \<longleftrightarrow> r \<in> set (table_view B t) \<and> row_destination r = d"
proof
  assume "routes_map B t d = Some r"
  then show "r \<in> set (table_view B t) \<and> row_destination r = d"
    by (auto simp: routes_map_def find_Some_iff)
next
  assume r: "r \<in> set (table_view B t) \<and> row_destination r = d"
  then have "routes_map B t d \<noteq> None" unfolding routes_map_def find_None_iff by blast
  then obtain r' where r': "routes_map B t d = Some r'" by blast
  then have "r' \<in> set (table_view B t)" "row_destination r' = d"
    by (auto simp: routes_map_def find_Some_iff)
  with r view_distinct [OF assms] have "r' = r" by (auto simp: distinct_map inj_on_def)
  with r' show "routes_map B t d = Some r" by simp
qed

lemma routes_map_None:
  assumes "table_ok B C t"
  shows "routes_map B t d = None \<longleftrightarrow> index_of B t d = None"
  unfolding index_of_None [OF assms] routes_map_def find_None_iff set_map image_iff comp_def by blast

lemma routes_map_index:
  assumes "table_ok B C t" "index_of B t d = Some i"
  shows "routes_map B t d = Some (table_view B t ! i)"
  using index_of_Some [OF assms] by (simp add: routes_map_Some [OF assms(1)])

lemma removes_map:
  assumes "table_ok B C t" "table_removes B C t u removed"
  shows "routes_map B u = routes_map B t |` (- removed_destinations removed)"
proof
  fix d
  have ok: "table_ok B C u" using assms(2) by (simp add: table_removes_def)
  have "routes_map B u d = Some r \<longleftrightarrow> (routes_map B t |` (- removed_destinations removed)) d = Some r" for r
    using table_removes_set [OF assms(2)]
    by (auto simp: routes_map_Some [OF ok] routes_map_Some [OF assms(1)] restrict_map_def)
  then show "routes_map B u d = (routes_map B t |` (- removed_destinations removed)) d"
    by (metis option.exhaust)
qed

lemma update_map:
  assumes "table_ok B C t" "table_ok B C t'" "i < route_count B t"
    and view: "table_view B t' = (table_view B t)[i := r]" and dest: "row_destination r = row_destination (table_view B t ! i)"
  shows "routes_map B t' = (routes_map B t)(row_destination r \<mapsto> r)"
proof
  fix d
  let ?V = "table_view B t"
  have "distinct ?V" using view_distinct [OF assms(1)] by (simp add: distinct_map)
  then have set: "set (table_view B t') = insert r (set ?V - {?V ! i})"
    unfolding view using assms(3) by (intro set_update_distinct) simp_all
  show "routes_map B t' d = ((routes_map B t)(row_destination r \<mapsto> r)) d"
  proof (cases "d = row_destination r")
    case True
    then show ?thesis using routes_map_Some [OF assms(2), of d r] set by simp
  next
    case False
    have "x \<in> set (table_view B t') \<and> row_destination x = d \<longleftrightarrow> x \<in> set ?V \<and> row_destination x = d" for x
    proof (cases "row_destination x = d")
      case True
      then have "row_destination x \<noteq> row_destination r" "row_destination x \<noteq> row_destination (?V ! i)"
        using False dest by simp_all
      then have "x \<noteq> r" "x \<noteq> ?V ! i" by blast+
      then show ?thesis by (simp only: set insert_iff Diff_iff empty_iff simp_thms)
    qed simp
    then have "routes_map B t' d = Some x \<longleftrightarrow> routes_map B t d = Some x" for x
      by (simp only: routes_map_Some [OF assms(2)] routes_map_Some [OF assms(1)])
    then have "routes_map B t' d = routes_map B t d"
      by (metis option.exhaust)
    with False show ?thesis by simp
  qed
qed

section \<open>Removing\<close>

lemma drop_route_map:
  assumes ok: "table_ok B C t" and res: "drop_route B d t = (out, t')"
  shows "table_ok B C t'" "routes_map B t' = (routes_map B t)(d := None)"
    "out = map_option (\<lambda>r. \<lparr>rm_destination = d, rm_receiving_interface = re_receiving_interface (pr_entry (snd r)),
       rm_cause = Dropped\<rparr>) (routes_map B t d)"
proof -
  have "table_ok B C t' \<and> routes_map B t' = (routes_map B t)(d := None) \<and>
    out = map_option (\<lambda>r. \<lparr>rm_destination = d, rm_receiving_interface = re_receiving_interface (pr_entry (snd r)),
       rm_cause = Dropped\<rparr>) (routes_map B t d)"
  proof (cases "index_of B t d")
    case None
    then show ?thesis
      using res ok routes_map_None [OF ok, of d] by (auto simp: drop_route_def)
  next
    case (Some i)
    note i = index_of_Some [OF ok Some] and rr = remove_removes [OF ok index_of_Some(1) [OF ok Some], of Dropped]
    have t': "out = Some (route_removal_at B t i Dropped)" "t' = remove_route_at B i t"
      using res Some by (simp_all add: drop_route_def)
    have "rm_receiving_interface (route_removal_at B t i Dropped)
        = re_receiving_interface (pr_entry (snd (table_view B t ! i)))"
      using view_entry(1) [OF ok i(1)] okD(1) [OF ok] i(1) count [OF ok] by (simp add: route_removal_at_def rt.columns)
    moreover have "rm_cause (route_removal_at B t i Dropped) = Dropped" by (simp add: route_removal_at_def)
    ultimately show ?thesis
      using t' rr i(2) removes_map [OF ok rr] routes_map_index [OF ok Some] removal_destination [OF ok i(1), of Dropped]
      by (auto simp: table_removes_def restrict_complement_singleton_eq fun_upd_def)
  qed
  then show "table_ok B C t'" "routes_map B t' = (routes_map B t)(d := None)"
    "out = map_option (\<lambda>r. \<lparr>rm_destination = d, rm_receiving_interface = re_receiving_interface (pr_entry (snd r)),
       rm_cause = Dropped\<rparr>) (routes_map B t d)"
    by blast+
qed

text \<open>Every removal loop: the due routes leave the map, the others stay.\<close>

lemma sweep_map:
  assumes ok: "table_ok B C t"
    and due: "\<And>t j. table_ok B C t \<Longrightarrow> j < route_count B t \<Longrightarrow> due t j = f (table_view B t ! j)"
  shows "\<exists>u removed. sweep_loop B due 0 t [] = Some (u, removed) \<and> removes_exactly B C f t u removed"
proof -
  have "\<exists>u rem. sweep_loop B due 0 t [] = Some (u, [] @ rem) \<and> table_removes B C t u rem
    \<and> (\<forall>r\<in>set (table_view B u). f r = None) \<and> removals_due f (table_view B t) rem"
    by (rule sweep_removes [OF ok]) (simp_all add: due)
  then obtain u removed where
    u: "sweep_loop B due 0 t [] = Some (u, removed)" "table_removes B C t u removed"
      "\<forall>r\<in>set (table_view B u). f r = None" "removals_due f (table_view B t) removed"
    unfolding append_Nil by (elim exE conjE)
  have oku: "table_ok B C u" using u(2) by (simp add: table_removes_def)
  note set = table_removes_set [OF u(2)]
  have "routes_map B u d = (case routes_map B t d of Some r \<Rightarrow> if f r = None then Some r else None | None \<Rightarrow> None)" for d
  proof (cases "routes_map B t d")
    case None
    then show ?thesis using removes_map [OF ok u(2)] by (simp add: restrict_map_def)
  next
    case (Some r)
    then have r: "r \<in> set (table_view B t)" "row_destination r = d" using routes_map_Some [OF ok] by blast+
    have "d \<in> removed_destinations removed \<longleftrightarrow> f r \<noteq> None"
    proof
      assume "d \<in> removed_destinations removed"
      then obtain x r' where x: "x \<in> set removed" "rm_destination x = d" "r' \<in> set (table_view B t)"
        "row_destination r' = rm_destination x" "f r' = Some (rm_cause x)"
        using u(4) unfolding removals_due_def by force
      then have "r' = r" using r view_distinct [OF ok] by (auto simp: distinct_map inj_on_def)
      with x show "f r \<noteq> None" by simp
    next
      assume "f r \<noteq> None"
      then have "r \<notin> set (table_view B u)" using bspec [OF u(3), of r] by auto
      with r show "d \<in> removed_destinations removed" unfolding set by simp
    qed
    then show ?thesis using Some removes_map [OF ok u(2)] by (simp add: restrict_map_def)
  qed
  with u show ?thesis unfolding removes_exactly_def by blast
qed

lemma cull_map:
  assumes "table_ok B C t"
  shows "\<exists>u removed. cull_expired_routes_with_warmth B now interfaces warmth t = Some (u, removed)
    \<and> removes_exactly B C (row_expired now interfaces warmth) t u removed"
  unfolding cull_expired_routes_with_warmth_def
proof (rule sweep_map [OF assms])
  fix t j assume ok: "table_ok B C t" and j: "j < route_count B t"
  have "expired_cause B t j interfaces =
      (if descriptor_for interfaces (re_receiving_interface (pr_entry (snd (table_view B t ! j)))) \<noteq> None
       then Expired else InterfaceGone)"
    using view_entry(1) [OF ok j] okD(1) [OF ok] j count [OF ok] by (simp add: expired_cause_def rt.columns)
  then show "(if expiry_of_with_warmth B t j interfaces warmth \<le> now then Some (expired_cause B t j interfaces) else None)
      = row_expired now interfaces warmth (table_view B t ! j)"
    using expiry_view(2) [OF ok j] by (simp add: row_expired_def Let_def)
qed

lemma drop_via_map:
  assumes "table_ok B C t"
  shows "\<exists>u removed. drop_routes_via B transport t = Some (u, removed)
    \<and> removes_exactly B C (row_via transport) t u removed"
  unfolding drop_routes_via_def
proof (rule sweep_map [OF assms])
  fix t j assume ok: "table_ok B C t" and j: "j < route_count B t"
  then show "(if rt_next_hops (be_routes B) (t_routes t) ! j \<noteq> Via transport then None else Some Dropped)
      = row_via transport (table_view B t ! j)"
    using view_entry(1) [OF ok j] okD(1) [OF ok] count [OF ok] by (simp add: row_via_def rt.columns)
qed

lemma drop_identity_map:
  assumes "table_ok B C t"
  shows "\<exists>u removed. drop_routes_for_identity identity_hash B identity t = Some (u, removed)
    \<and> removes_exactly B C (row_of_identity identity_hash identity) t u removed"
  unfolding drop_routes_for_identity_def
proof (rule sweep_map [OF assms])
  fix t j assume ok: "table_ok B C t" and j: "j < route_count B t"
  have "pr_public_keys (snd (table_view B t ! j)) = at_public_keys (be_records B) (t_announce_records t) ! j"
    using j by (simp add: table_view_def persisted_row_at_def Let_def)
  then show "(if identity_hash (at_public_keys (be_records B) (t_announce_records t) ! j) \<noteq> identity then None
      else Some Dropped) = row_of_identity identity_hash identity (table_view B t ! j)"
    by (simp add: row_of_identity_def)
qed

section \<open>Learning\<close>

text \<open>
  \<open>upsert_route\<close> always returns. It refreshes the route of a known destination in place; for a new one it
  makes room by removing routes and puts the new route last, unless the payload does not fit.
\<close>

lemma upsert_known:
  assumes ok: "table_ok B C t" and i: "index_of B t (an_destination (aa_announce arrival)) = Some i"
    and old: "ct_replaceable C (pr_app_data (snd (table_view B t ! i)))"
  shows "\<exists>out t'. upsert_route_with_retention_and_warmth B arrival v retention interfaces warmth t = Some (out, t', [])
    \<and> (out = DroppedAnnounce PayloadArenaFull \<and> t' = t
       \<or> out = Updated \<and> table_ok B C t' \<and> destination_capacity B t' = destination_capacity B t
         \<and> table_view B t' = (table_view B t)[i := refreshed_row (ct_id_cap C) arrival retention v (table_view B t ! i)])"
proof -
  obtain out t' where res: "refresh_existing_route B i arrival v retention interfaces warmth t = (out, t')" by fastforce
  have "upsert_route_with_retention_and_warmth B arrival v retention interfaces warmth t = Some (out, t', [])"
    using i res by (simp add: upsert_route_with_retention_and_warmth_def)
  with refresh_existing_route_cases [OF ok index_of_Some(1) [OF ok i] index_of_Some(2) [OF ok i, symmetric] old res]
  show ?thesis by (simp add: refreshed_row_def)
qed

lemma upsert_new:
  assumes ok: "table_ok B C t" and new: "index_of B t (an_destination (aa_announce arrival)) = None"
  shows "\<exists>out t' removed u. upsert_route_with_retention_and_warmth B arrival v retention interfaces warmth t = Some (out, t', removed)
    \<and> table_removes B C t u removed
    \<and> (out = Inserted \<and> table_ok B C t' \<and> destination_capacity B t' = destination_capacity B t
         \<and> table_view B t' = table_view B u @ [(v, arrival_view arrival retention [an_announce_id (aa_announce arrival)])]
       \<or> out = DroppedAnnounce PayloadArenaFull \<and> t' = u
       \<or> out = DroppedAnnounce RoutingTableFull \<and> t' = u \<and> destination_capacity B t = 0)"
proof -
  let ?d = "an_destination (aa_announce arrival)" and ?up = "upsert_route_with_retention_and_warmth B arrival v retention interfaces warmth t"
  have finish: ?thesis
    if "table_removes B C t w before" "destination_capacity B w \<le> route_count B w \<longrightarrow> destination_capacity B t = 0"
      "?up = Some (case insert_new_route B arrival v retention interfaces warmth w of (out, t', removed) \<Rightarrow> (out, t', before @ removed))"
    for w before
  proof -
    have w: "table_ok B C w" "destination_capacity B w = destination_capacity B t"
      using that(1) by (simp_all add: table_removes_def)
    obtain out t' removed where res: "insert_new_route B arrival v retention interfaces warmth w = (out, t', removed)"
      by (cases "insert_new_route B arrival v retention interfaces warmth w") auto
    from insert_new_route_cases [OF w(1) removes_index_of_None [OF ok that(1) new] res] obtain u where
      u: "table_removes B C w u removed"
        "out = Inserted \<and> table_ok B C t' \<and> destination_capacity B t' = destination_capacity B t
         \<and> table_view B t' = table_view B u @ [(v, arrival_view arrival retention [an_announce_id (aa_announce arrival)])]
       \<or> out = DroppedAnnounce PayloadArenaFull \<and> t' = u
       \<or> out = DroppedAnnounce RoutingTableFull \<and> t' = w \<and> destination_capacity B w \<le> route_count B w"
      unfolding w(2) by blast
    note before = table_removes_trans [OF that(1) u(1)]
    have up: "?up = Some (out, t', before @ removed)" using that(3) res by simp
    show ?thesis
    proof (cases "out = DroppedAnnounce RoutingTableFull")
      case True
      then have "t' = w" "destination_capacity B t = 0" "removed = []"
        using u(2) that(2) res by (auto simp: insert_new_route_def)
      with True up that(1) show ?thesis by auto
    next
      case False
      with up u(2) before show ?thesis by blast
    qed
  qed
  show ?thesis
  proof (cases "destination_capacity B t \<le> route_count B t")
    case False
    show ?thesis
    proof (rule finish [OF table_removes_none [OF ok]])
      show "?up = Some (case insert_new_route B arrival v retention interfaces warmth t of (out, t', removed) \<Rightarrow> (out, t', [] @ removed))"
        using new False by (simp add: upsert_route_with_retention_and_warmth_def split: prod.split)
    qed (use False in simp)
  next
    case True
    obtain c culled where c: "cull_expired_routes_with_warmth B (aa_arrived_at arrival) interfaces warmth t = Some (c, culled)"
      "table_removes B C t c culled"
      using cull_map [OF ok, of "aa_arrived_at arrival" interfaces warmth] unfolding removes_exactly_def by blast
    have okc: "table_ok B C c" "destination_capacity B c = destination_capacity B t"
      using c(2) by (simp_all add: table_removes_def)
    show ?thesis
    proof (cases "destination_capacity B c \<le> route_count B c")
      case False
      show ?thesis
      proof (rule finish [OF c(2)])
        show "?up = Some (case insert_new_route B arrival v retention interfaces warmth c of (out, t', removed) \<Rightarrow> (out, t', culled @ removed))"
          using new True False c(1) by (simp add: upsert_route_with_retention_and_warmth_def)
      qed (use False in simp)
    next
      case full: True
      obtain e w evicted where ev: "evict_route_nearest_expiry B interfaces warmth c = (e, w, evicted)"
        by (cases "evict_route_nearest_expiry B interfaces warmth c") auto
      have up: "?up = Some (case insert_new_route B arrival v retention interfaces warmth w of
          (out, t', removed) \<Rightarrow> (out, t', (culled @ evicted) @ removed))"
        using new True full c(1) ev by (simp add: upsert_route_with_retention_and_warmth_def)
      from evict_cases [OF okc(1), of interfaces warmth] show ?thesis
      proof (elim disjE conjE exE)
        assume "route_count B c = 0" "evict_route_nearest_expiry B interfaces warmth c = (NothingToEvict, c, [])"
        then show ?thesis using finish [OF c(2)] up ev full okc(2) by simp
      next
        fix i assume i: "i < route_count B c" and "evict_route_nearest_expiry B interfaces warmth c =
            (EvictedRow, remove_route_at B i c, [route_removal_at B c i Evicted])"
        then have w: "w = remove_route_at B i c" "evicted = [route_removal_at B c i Evicted]" using ev by simp_all
        note rm = remove_route_at_ok [OF okc(1) i, folded w(1)]
        have "route_count B w < route_count B c" using arg_cong [OF rm(2), of length] i by simp
        moreover have "route_count B c \<le> destination_capacity B c" using okD(7) [OF okc(1)] count [OF okc(1)] by simp
        ultimately have room: "route_count B w < destination_capacity B w" using rm(3) by linarith
        have "table_removes B C c w evicted" unfolding w by (rule remove_removes [OF okc(1) i])
        then show ?thesis
          by (rule finish [OF table_removes_trans [OF c(2)] _ up]) (use room in simp)
      qed
    qed
  qed
qed

section \<open>Reading\<close>

lemma view_fields:
  assumes "table_ok B C t" "i < route_count B t"
  shows "pr_announce_id_ring (snd (table_view B t ! i)) = RingTable (ih_history (be_history B) (t_announce_id_history t) i)"
    "persisted_row_at B t i = snd (table_view B t ! i)"
    "rt_retentions (be_routes B) (t_routes t) ! i = re_retention (pr_entry (snd (table_view B t ! i)))"
  using assms(2) by (simp_all add: table_view_def persisted_row_at_def path_row_at_def Let_def)

lemma stored_announce_map:
  assumes ok: "table_ok B C t"
  shows "stored_announce_for B t d = map_option (stored_of \<circ> snd) (routes_map B t d)"
proof (cases "index_of B t d")
  case None
  then show ?thesis using routes_map_None [OF ok] by (simp add: stored_announce_for_def Let_def)
next
  case (Some i)
  note i = index_of_Some(1) [OF ok Some]
  obtain h where "ar_app_data_handle (ct_record_rows C (t_announce_records t) ! i) = Some h"
    using remove_route_at_fields [OF ok i] by metis
  then have h: "at_app_data_handles (be_records B) (t_announce_records t) ! i = Some h"
    using i count [OF ok] okD(2,5) [OF ok] by (simp add: at.columns)
  show ?thesis
    unfolding routes_map_index [OF ok Some] using Some h i
    by (simp add: stored_announce_for_def stored_of_def table_view_def persisted_row_at_def path_row_at_def Let_def)
qed

lemma existing_route_map:
  assumes ok: "table_ok B C t"
  shows "existing_route_for B t d interfaces = map_option (existing_of interfaces \<circ> snd) (routes_map B t d)"
proof (cases "index_of B t d")
  case None
  then show ?thesis using routes_map_None [OF ok] by (simp add: existing_route_for_def)
next
  case (Some i)
  note i = index_of_Some(1) [OF ok Some]
  have e: "pr_entry (snd (table_view B t ! i)) = path_row_at B t i" using view_entry(3) [OF ok i] by simp
  have "gate_expiry_of B t i interfaces = entry_gate_expiry interfaces (path_row_at B t i)"
    using expiry_view(1) [OF ok i, where interfaces = interfaces and warmth = no_warmth]
      expiry_view(2) [OF ok i, where interfaces = interfaces and warmth = no_warmth] unfolding e
    by (cases "rt_responsiveness (be_routes B) (t_routes t) ! i")
      (simp_all add: gate_expiry_of_def entry_gate_expiry_def expiry_of_def path_row_at_def Let_def)
  moreover have "ring_ids (pr_announce_id_ring (snd (table_view B t ! i))) = ih_history (be_history B) (t_announce_id_history t) i"
    using view_fields(1) [OF ok i] by simp
  ultimately show ?thesis
    unfolding routes_map_index [OF ok Some] using Some
    by (simp add: existing_route_for_def existing_of_def e) (simp add: path_row_at_def Let_def)
qed

lemma persisted_row_map:
  assumes ok: "table_ok B C t"
  shows "persisted_row B t d =
    (case routes_map B t d of
       Some (v, row) \<Rightarrow> if re_retention (pr_entry row) = Network then Some row else None
     | None \<Rightarrow> None)"
proof (cases "index_of B t d")
  case None
  then have "routes_map B t d = None" using routes_map_None [OF ok] by simp
  with None show ?thesis by (simp add: persisted_row_def index_of_def)
next
  case (Some i)
  note i = index_of_Some(1) [OF ok Some]
  have "rt_index_of (be_routes B) d (t_routes t) = Some i" using Some by (simp add: index_of_def)
  then show ?thesis
    using routes_map_index [OF ok Some] view_fields(2,3) [OF ok i]
    by (auto simp: persisted_row_def split_beta split: route_retention.splits)
qed

section \<open>Seeding\<close>

lemma remember_all_ids_history:
  assumes "ct_ids_valid C (t_announce_id_history t)" "ct_slot_ok C slot"
  shows "\<exists>hist. remember_all_ids B slot ids t = t\<lparr>t_announce_id_history := hist\<rparr> \<and> ct_ids_valid C hist
    \<and> ih_history (be_history B) hist slot
        = foldl (\<lambda>acc i. snd (remember_id (ct_id_cap C) acc i)) (ih_history (be_history B) (t_announce_id_history t) slot) ids
    \<and> (\<forall>j. ct_slot_ok C j \<and> j \<noteq> slot \<longrightarrow>
         ih_history (be_history B) hist j = ih_history (be_history B) (t_announce_id_history t) j)"
  using assms
proof (induction ids arbitrary: t)
  case Nil
  then show ?case by (intro exI [of _ "t_announce_id_history t"]) simp
next
  case (Cons i ids)
  obtain out h where rem: "ih_remember (be_history B) slot i (t_announce_id_history t) = (out, h)" by fastforce
  note H = ih.remember [OF Cons.prems rem]
  from Cons.IH [of "t\<lparr>t_announce_id_history := h\<rparr>"] H Cons.prems(2) obtain hist where
    "remember_all_ids B slot ids (t\<lparr>t_announce_id_history := h\<rparr>) = t\<lparr>t_announce_id_history := hist\<rparr>"
    "ct_ids_valid C hist"
    "ih_history (be_history B) hist slot
        = foldl (\<lambda>acc i. snd (remember_id (ct_id_cap C) acc i)) (ih_history (be_history B) h slot) ids"
    "\<forall>j. ct_slot_ok C j \<and> j \<noteq> slot \<longrightarrow> ih_history (be_history B) hist j = ih_history (be_history B) h j"
    by auto
  moreover have "ih_history (be_history B) h slot
      = snd (remember_id (ct_id_cap C) (ih_history (be_history B) (t_announce_id_history t) slot) i)"
    using H by (metis snd_conv)
  ultimately show ?case using rem H by (intro exI [of _ hist]) simp
qed

lemma seed_route_cases:
  assumes ok: "table_ok B C t" and res: "seed_route B row v t = (out, t')"
  shows "out = AlreadyPresent \<and> t' = t \<and> index_of B t (pr_destination row) \<noteq> None
    \<or> out = SeedTableFull \<and> t' = t \<and> destination_capacity B t \<le> route_count B t
    \<or> out = AppDataArenaFull \<and> t' = t
      \<and> (\<exists>e. ad_insert (be_app_data B) (pr_app_data row) (t_announce_app_data t) = Inl e)
    \<or> out = Seeded \<and> index_of B t (pr_destination row) = None \<and> table_ok B C t'
      \<and> destination_capacity B t' = destination_capacity B t
      \<and> table_view B t' = table_view B t @ [(v, seeded_row (ct_id_cap C) row)]"
proof (cases "index_of B t (pr_destination row) \<noteq> None \<or> destination_capacity B t \<le> route_count B t
    \<or> (\<exists>e. ad_insert (be_app_data B) (pr_app_data row) (t_announce_app_data t) = Inl e)")
  case True
  then show ?thesis using res by (auto simp: seed_route_def split: if_splits)
next
  case False
  then have new: "index_of B t (pr_destination row) = None" and room: "route_count B t < destination_capacity B t"
    and "\<not> (\<exists>e. ad_insert (be_app_data B) (pr_app_data row) (t_announce_app_data t) = Inl e)"
    by auto
  then obtain h d where ins: "ad_insert (be_app_data B) (pr_app_data row) (t_announce_app_data t) = Inr (h, d)"
    by (metis old.sum.exhaust surj_pair)
  let ?n = "route_count B t"
  define x where "x = \<lparr>rr_destination = pr_destination row, rr_evidence_id = v,
    rr_entry = (pr_entry row)\<lparr>re_retention := Network\<rparr>\<rparr>"
  define y where "y = \<lparr>ar_public_keys = pr_public_keys row, ar_dotted_name_hash = pr_dotted_name_hash row,
    ar_announce_id = pr_announce_id row, ar_signature = pr_signature row, ar_ratchet = pr_ratchet row,
    ar_app_data_handle = Some h\<rparr>"
  have nx: "index_of B t (rr_destination x) = None" using new by (simp add: x_def)
  have hy: "ar_app_data_handle y = Some h" by (simp add: y_def)
  have slot: "ct_slot_ok C ?n" using okD(8) [OF ok] room by simp
  have empty: "ih_history (be_history B) (t_announce_id_history t) ?n = []"
    using okD(9) [OF ok slot] count [OF ok] by simp
  obtain r a where r: "rt_push (be_routes B) (rr_destination x) (rr_evidence_id x) (rr_entry x) (t_routes t) = Inr (?n, r)"
    and a: "at_push (be_records B) y (t_announce_records t) = Inr (?n, a)"
    and add: "\<forall>hist. ct_ids_valid C hist
        \<and> (\<forall>j. ct_slot_ok C j \<and> j \<noteq> ?n \<longrightarrow>
             ih_history (be_history B) hist j = ih_history (be_history B) (t_announce_id_history t) j) \<longrightarrow>
        (let t' = t\<lparr>t_announce_app_data := d, t_routes := r, t_announce_records := a, t_announce_id_history := hist\<rparr>
         in table_ok B C t'
            \<and> table_view B t' = table_view B t @ [row_view x y (pr_app_data row) (ih_history (be_history B) hist ?n)]
            \<and> destination_capacity B t' = destination_capacity B t)"
    using add_row [OF ok room nx ins hy] by (elim exE conjE)
  let ?t = "t\<lparr>t_announce_app_data := d, t_routes := r, t_announce_records := a\<rparr>"
  obtain hist where hist: "remember_all_ids B ?n (ring_ids (pr_announce_id_ring row)) ?t = ?t\<lparr>t_announce_id_history := hist\<rparr>"
    "ct_ids_valid C hist" "ih_history (be_history B) hist ?n = seeded_ids (ct_id_cap C) (ring_ids (pr_announce_id_ring row))"
    "\<forall>j. ct_slot_ok C j \<and> j \<noteq> ?n \<longrightarrow> ih_history (be_history B) hist j = ih_history (be_history B) (t_announce_id_history t) j"
    using remember_all_ids_history [of ?t ?n "ring_ids (pr_announce_id_ring row)"] okD(3) [OF ok] slot empty
    by (auto simp: seeded_ids_def)
  have "out = Seeded" "t' = ?t\<lparr>t_announce_id_history := hist\<rparr>"
    using res new room ins r a hist(1) by (simp_all add: seed_route_def x_def y_def Let_def linear_invalidate_def)
  moreover have "row_view x y (pr_app_data row) (seeded_ids (ct_id_cap C) (ring_ids (pr_announce_id_ring row)))
      = (v, seeded_row (ct_id_cap C) row)"
    by (simp add: row_view_def x_def y_def seeded_row_def)
  ultimately show ?thesis
    using add [rule_format, OF conjI, OF hist(2,4)] new by (simp add: Let_def hist(3))
qed

section \<open>The operations on the map\<close>

lemma upsert_map:
  fixes arrival :: announce_arrival
  assumes ok: "table_ok B C t"
    and old: "\<forall>r\<in>set (table_view B t). ct_replaceable C (pr_app_data (snd r))"
  defines "d \<equiv> an_destination (aa_announce arrival)"
  shows "\<exists>out t' removed. upsert_route_with_retention_and_warmth B arrival v retention interfaces warmth t = Some (out, t', removed)
    \<and> table_ok B C t' \<and> destination_capacity B t' = destination_capacity B t
    \<and> (case out of
         Inserted \<Rightarrow> routes_map B t d = None
           \<and> routes_map B t' = (routes_map B t |` (- removed_destinations removed))
               (d \<mapsto> (v, arrival_view arrival retention [an_announce_id (aa_announce arrival)]))
       | Updated \<Rightarrow> removed = [] \<and> (\<exists>old. routes_map B t d = Some old
           \<and> routes_map B t' = (routes_map B t)(d \<mapsto> refreshed_row (ct_id_cap C) arrival retention v old))
       | DroppedAnnounce cause \<Rightarrow> routes_map B t' = routes_map B t |` (- removed_destinations removed)
           \<and> d \<notin> removed_destinations removed
           \<and> (cause = RoutingTableFull \<longrightarrow> destination_capacity B t = 0)
           \<and> (routes_map B t d \<noteq> None \<longrightarrow> removed = []))"
proof (cases "index_of B t d")
  case (Some i)
  note I = index_of_Some [OF ok Some]
  have "ct_replaceable C (pr_app_data (snd (table_view B t ! i)))" using old I(1) by simp
  from upsert_known [OF ok Some [unfolded d_def] this, of v retention interfaces warmth] obtain out t' where
    up: "upsert_route_with_retention_and_warmth B arrival v retention interfaces warmth t = Some (out, t', [])"
    and cases: "out = DroppedAnnounce PayloadArenaFull \<and> t' = t
       \<or> out = Updated \<and> table_ok B C t' \<and> destination_capacity B t' = destination_capacity B t
         \<and> table_view B t' = (table_view B t)[i := refreshed_row (ct_id_cap C) arrival retention v (table_view B t ! i)]"
    by blast
  from cases show ?thesis
  proof (elim disjE conjE)
    assume "out = DroppedAnnounce PayloadArenaFull" "t' = t"
    with up ok show ?thesis by (simp add: restrict_map_def)
  next
    assume u: "out = Updated" "table_ok B C t'" "destination_capacity B t' = destination_capacity B t"
      "table_view B t' = (table_view B t)[i := refreshed_row (ct_id_cap C) arrival retention v (table_view B t ! i)]"
    have "routes_map B t' = (routes_map B t)(d \<mapsto> refreshed_row (ct_id_cap C) arrival retention v (table_view B t ! i))"
      using update_map [OF ok u(2) I(1) u(4)] I(2) by (simp add: d_def)
    with up u routes_map_index [OF ok Some] show ?thesis by auto
  qed
next
  case None
  from upsert_new [OF ok None [unfolded d_def], of v retention interfaces warmth] obtain out t' removed u where
    up: "upsert_route_with_retention_and_warmth B arrival v retention interfaces warmth t = Some (out, t', removed)"
    and u: "table_removes B C t u removed"
    and cases: "out = Inserted \<and> table_ok B C t' \<and> destination_capacity B t' = destination_capacity B t
         \<and> table_view B t' = table_view B u @ [(v, arrival_view arrival retention [an_announce_id (aa_announce arrival)])]
       \<or> out = DroppedAnnounce PayloadArenaFull \<and> t' = u
       \<or> out = DroppedAnnounce RoutingTableFull \<and> t' = u \<and> destination_capacity B t = 0"
    by blast
  note m = removes_map [OF ok u]
  have none: "routes_map B t d = None" using None routes_map_None [OF ok] by simp
  have du: "routes_map B u d = None" using m none by (simp add: restrict_map_def)
  have ou: "table_ok B C u" "destination_capacity B u = destination_capacity B t" using u by (simp_all add: table_removes_def)
  have apart: "d \<notin> removed_destinations removed"
    using u None index_of_None [OF ok, of d] unfolding table_removes_def set_map comp_def by blast
  from cases show ?thesis
  proof (elim disjE conjE)
    assume w: "out = Inserted" "table_ok B C t'" "destination_capacity B t' = destination_capacity B t"
      "table_view B t' = table_view B u @ [(v, arrival_view arrival retention [an_announce_id (aa_announce arrival)])]"
    have "routes_map B t' = (routes_map B u)(d \<mapsto> (v, arrival_view arrival retention [an_announce_id (aa_announce arrival)]))"
      using routes_map_append [OF w(4)] du by (simp add: d_def)
    with up w none m show ?thesis by simp
  qed (use up ou none m apart in simp_all)
qed

text \<open>What was learned is what is answered.\<close>

lemma upsert_read_back:
  assumes ok: "table_ok B C t"
    and old: "\<forall>r\<in>set (table_view B t). ct_replaceable C (pr_app_data (snd r))"
    and res: "upsert_route_with_retention_and_warmth B arrival v retention interfaces warmth t = Some (out, t', removed)"
    and out: "out = Inserted \<or> out = Updated"
  shows "\<exists>u ids. routes_map B t' (an_destination (aa_announce arrival)) = Some (u, arrival_view arrival retention ids)
    \<and> an_announce_id (aa_announce arrival) \<in> set ids"
proof -
  let ?d = "an_destination (aa_announce arrival)" and ?id = "an_announce_id (aa_announce arrival)"
  from upsert_map [OF ok old, of arrival v retention interfaces warmth] res out
  have "routes_map B t' ?d = Some (v, arrival_view arrival retention [?id])
    \<or> (\<exists>old. routes_map B t ?d = Some old \<and> routes_map B t' ?d = Some (refreshed_row (ct_id_cap C) arrival retention v old))"
    by auto
  then show ?thesis
  proof (elim disjE exE conjE)
    assume "routes_map B t' ?d = Some (v, arrival_view arrival retention [?id])"
    then show ?thesis by auto
  next
    fix old assume old: "routes_map B t ?d = Some old"
      and new: "routes_map B t' ?d = Some (refreshed_row (ct_id_cap C) arrival retention v old)"
    obtain i where i: "index_of B t ?d = Some i"
      using routes_map_None [OF ok, of ?d] old by (cases "index_of B t ?d") auto
    note I = index_of_Some [OF ok i]
    let ?ids = "ring_ids (pr_announce_id_ring (snd old))"
    have ids: "?ids = ih_history (be_history B) (t_announce_id_history t) i"
      using view_fields(1) [OF ok I(1)] routes_map_index [OF ok i] old by simp
    have "length ?ids \<le> ct_id_cap C \<and> distinct ?ids"
      unfolding ids by (rule ih.bounded [OF okD(3) [OF ok] slot_ok [OF ok I(1)]])
    moreover obtain o' ids' where rem: "remember_id (ct_id_cap C) ?ids ?id = (o', ids')" by fastforce
    ultimately have "?id \<in> set ids'"
      using remember_id_keeps(3) [OF ih.cap [OF okD(3) [OF ok]]] by blast
    moreover have "refreshed_row (ct_id_cap C) arrival retention v old =
        (fst (refreshed_row (ct_id_cap C) arrival retention v old), arrival_view arrival retention ids')"
      using rem by (simp add: refreshed_row_def split_beta Let_def)
    ultimately show ?thesis using new by metis
  qed
qed

lemma upsert_answers:
  assumes ok: "table_ok B C t"
    and old: "\<forall>r\<in>set (table_view B t). ct_replaceable C (pr_app_data (snd r))"
    and res: "upsert_route_with_retention_and_warmth B arrival v retention interfaces warmth t = Some (out, t', removed)"
    and out: "out = Inserted \<or> out = Updated"
  shows "stored_announce_for B t' (an_destination (aa_announce arrival)) =
      Some \<lparr>st_hops = aa_hops arrival, st_receiving_interface = aa_receiving_interface arrival,
        st_next_hop = aa_next_hop arrival, st_announce = aa_announce arrival\<rparr>"
    and "\<exists>ex. existing_route_for B t' (an_destination (aa_announce arrival)) attached = Some ex
         \<and> an_announce_id (aa_announce arrival) \<in> set (ex_announce_id_history ex)
         \<and> ex_responsiveness ex = Unknown \<and> ex_hops ex = aa_hops arrival
         \<and> ex_interface_gravity ex = map_option if_gravity (descriptor_for attached (aa_receiving_interface arrival))"
proof -
  have ok': "table_ok B C t'"
    using upsert_map [OF ok old, of arrival v retention interfaces warmth] res by auto
  obtain u ids where m: "routes_map B t' (an_destination (aa_announce arrival)) = Some (u, arrival_view arrival retention ids)"
    "an_announce_id (aa_announce arrival) \<in> set ids"
    using upsert_read_back [OF ok old res out] by blast
  have "stored_of (arrival_view arrival retention ids) = \<lparr>st_hops = aa_hops arrival,
      st_receiving_interface = aa_receiving_interface arrival, st_next_hop = aa_next_hop arrival, st_announce = aa_announce arrival\<rparr>"
    by (cases "aa_announce arrival") (simp add: stored_of_def arrival_view_def arrival_entry_def Let_def)
  with m show "stored_announce_for B t' (an_destination (aa_announce arrival)) =
      Some \<lparr>st_hops = aa_hops arrival, st_receiving_interface = aa_receiving_interface arrival,
        st_next_hop = aa_next_hop arrival, st_announce = aa_announce arrival\<rparr>"
    unfolding stored_announce_map [OF ok'] by simp
  from m show "\<exists>ex. existing_route_for B t' (an_destination (aa_announce arrival)) attached = Some ex
         \<and> an_announce_id (aa_announce arrival) \<in> set (ex_announce_id_history ex)
         \<and> ex_responsiveness ex = Unknown \<and> ex_hops ex = aa_hops arrival
         \<and> ex_interface_gravity ex = map_option if_gravity (descriptor_for attached (aa_receiving_interface arrival))"
    unfolding existing_route_map [OF ok'] by (simp add: existing_of_def arrival_entry_def)
qed

lemma soonest_expiry_after:
  assumes ok: "table_ok B C u" and kept: "\<forall>r\<in>set (table_view B u). row_expired now interfaces warmth r = None"
    and soonest: "soonest_route_expiry_with_warmth B u interfaces warmth = Some e"
  shows "now < e"
proof -
  obtain i where i: "i < route_count B u" "e = expiry_of_with_warmth B u i interfaces warmth"
    using soonest by (auto simp: soonest_route_expiry_with_warmth_def iter_min_Some_iff)
  have "table_view B u ! i \<in> set (table_view B u)" using i(1) by simp
  then have "row_expired now interfaces warmth (table_view B u ! i) = None" using kept by (rule bspec [rotated])
  with i(2) expiry_view(2) [OF ok i(1)] show ?thesis
    by (auto simp: row_expired_def Let_def not_le split: if_splits)
qed

lemma removes_exactly_kept:
  assumes ok: "table_ok B C t" and r: "removes_exactly B C f t u removed"
  shows "\<forall>r\<in>set (table_view B u). f r = None"
proof
  fix r assume mem: "r \<in> set (table_view B u)"
  have oku: "table_ok B C u" using r by (simp add: removes_exactly_def table_removes_def)
  have "routes_map B u (row_destination r) = Some r" using routes_map_Some [OF oku] mem by simp
  with r show "f r = None"
    unfolding removes_exactly_def by (auto split: option.splits if_splits)
qed

text \<open>A saved row, its ids on the wire or not, seeds the route it was saved from.\<close>

lemma persisted_ids:
  assumes ok: "table_ok B C t" and row: "persisted_row B t d = Some row"
  shows "\<exists>ids. pr_announce_id_ring row = RingTable ids \<and> distinct ids \<and> length ids \<le> ct_id_cap C"
    and "pr_destination row = d" "re_retention (pr_entry row) = Network"
proof -
  obtain v where m: "routes_map B t d = Some (v, row)" and ret: "re_retention (pr_entry row) = Network"
    using row unfolding persisted_row_map [OF ok] by (auto split: option.splits if_splits)
  then obtain i where i: "index_of B t d = Some i" using routes_map_None [OF ok, of d] by (cases "index_of B t d") auto
  note I = index_of_Some [OF ok i]
  have view: "table_view B t ! i = (v, row)" using routes_map_index [OF ok i] m by simp
  have "length (ih_history (be_history B) (t_announce_id_history t) i) \<le> ct_id_cap C
      \<and> distinct (ih_history (be_history B) (t_announce_id_history t) i)"
    by (rule ih.bounded [OF okD(3) [OF ok] slot_ok [OF ok I(1)]])
  then show "\<exists>ids. pr_announce_id_ring row = RingTable ids \<and> distinct ids \<and> length ids \<le> ct_id_cap C"
    using view_fields(1) [OF ok I(1)] view by auto
  show "pr_destination row = d" "re_retention (pr_entry row) = Network"
    using I(2) view ret by simp_all
qed

lemma seed_map:
  assumes ok: "table_ok B C t" and res: "seed_route B row v t = (Seeded, t')"
    and ids: "distinct (ring_ids (pr_announce_id_ring row))" "length (ring_ids (pr_announce_id_ring row)) \<le> ct_id_cap C"
    and ret: "re_retention (pr_entry row) = Network"
  shows "table_ok B C t'"
    and "routes_map B t' = (routes_map B t)(pr_destination row \<mapsto>
      (v, row\<lparr>pr_announce_id_ring := RingTable (ring_ids (pr_announce_id_ring row))\<rparr>))"
proof -
  let ?row = "row\<lparr>pr_announce_id_ring := RingTable (ring_ids (pr_announce_id_ring row))\<rparr>"
  have "(pr_entry row)\<lparr>re_retention := Network\<rparr> = pr_entry row" using ret by (cases "pr_entry row") simp
  then have row: "seeded_row (ct_id_cap C) row = ?row"
    using seeded_ids_distinct [OF ids] by (cases row) (simp add: seeded_row_def)
  from seed_route_cases [OF ok res] have s: "index_of B t (pr_destination row) = None" "table_ok B C t'"
    "table_view B t' = table_view B t @ [(v, ?row)]"
    unfolding row by simp_all
  show "table_ok B C t'" by (rule s(2))
  show "routes_map B t' = (routes_map B t)(pr_destination row \<mapsto> (v, ?row))"
    using routes_map_append [OF s(3)] routes_map_None [OF ok] s(1) by simp
qed

end

end
