(* ===== verification/Routing_Table_Steps.thy ===== *)
theory Routing_Table_Steps
  imports Routing_Table_Spec
begin

text \<open>
  The routing table as a state machine: one step per operation, the invariant of the tables that are
  reached, and what evidence handles find in them.
\<close>

section \<open>Steps\<close>

text \<open>
  One call on a table. \<open>accepts\<close> says which payloads come in; \<open>issued\<close> is the evidence id the caller hands
  over with a new route, which the issuer takes from those the table does not hold.
\<close>

inductive table_step ::
  "('r, 'a, 'h, 'd) backends \<Rightarrow> (identity_public_keys \<Rightarrow> 'i) \<Rightarrow> (u8 list \<Rightarrow> bool) \<Rightarrow> evidence_id option
     \<Rightarrow> ('r, 'a, 'h, 'd) routing_table \<Rightarrow> ('r, 'a, 'h, 'd) routing_table \<Rightarrow> bool"
  for B :: "('r, 'a, 'h, 'd) backends" and identity_hash :: "identity_public_keys \<Rightarrow> 'i"
    and accepts :: "u8 list \<Rightarrow> bool" where
  learn: "upsert_route_with_retention_and_warmth B arrival v retention interfaces warmth t = Some (out, t', removed) \<Longrightarrow>
    accepts (an_app_data (aa_announce arrival)) \<Longrightarrow> v \<notin> set (rt_evidence_ids (be_routes B) (t_routes t)) \<Longrightarrow>
    table_step B identity_hash accepts (Some v) t t'"
| seed: "seed_route B row v t = (seeded, t') \<Longrightarrow> accepts (pr_app_data row) \<Longrightarrow>
    v \<notin> set (rt_evidence_ids (be_routes B) (t_routes t)) \<Longrightarrow> table_step B identity_hash accepts (Some v) t t'"
| cull: "cull_expired_routes_with_warmth B now interfaces warmth t = Some (t', removed) \<Longrightarrow>
    table_step B identity_hash accepts None t t'"
| drop: "drop_route B destination t = (dropped, t') \<Longrightarrow> table_step B identity_hash accepts None t t'"
| drop_via: "drop_routes_via B transport t = Some (t', removed) \<Longrightarrow> table_step B identity_hash accepts None t t'"
| drop_identity: "drop_routes_for_identity identity_hash B identity t = Some (t', removed) \<Longrightarrow>
    table_step B identity_hash accepts None t t'"
| evidence: "apply_route_evidence B handle observed_at t = (changed, handle', t') \<Longrightarrow>
    table_step B identity_hash accepts None t t'"
| unresponsive: "mark_unresponsive_if_not_active_since B handle started_at t = (changed, handle', t') \<Longrightarrow>
    table_step B identity_hash accepts None t t'"
| mark: "mark_responsiveness B destination responsiveness t = t' \<Longrightarrow> table_step B identity_hash accepts None t t'"
| rebalance: "rebalance_hops B destination hops t = t' \<Longrightarrow> table_step B identity_hash accepts None t t'"
| relayed: "note_relayed B destination now t = t' \<Longrightarrow> table_step B identity_hash accepts None t t'"
| relayed_warm: "note_relayed_with_warmth B destination now interfaces warmth t = t' \<Longrightarrow>
    table_step B identity_hash accepts None t t'"
| repoint: "repoint_routes B previous current now t = (moved, t') \<Longrightarrow> table_step B identity_hash accepts None t t'"

text \<open>Any number of calls, none of which hands over the id \<open>v\<close>.\<close>

inductive table_steps_without ::
  "('r, 'a, 'h, 'd) backends \<Rightarrow> (identity_public_keys \<Rightarrow> 'i) \<Rightarrow> (u8 list \<Rightarrow> bool) \<Rightarrow> evidence_id
     \<Rightarrow> ('r, 'a, 'h, 'd) routing_table \<Rightarrow> ('r, 'a, 'h, 'd) routing_table \<Rightarrow> bool"
  for B :: "('r, 'a, 'h, 'd) backends" and identity_hash :: "identity_public_keys \<Rightarrow> 'i"
    and accepts :: "u8 list \<Rightarrow> bool" and v :: evidence_id where
  stay: "table_steps_without B identity_hash accepts v t t"
| move: "table_steps_without B identity_hash accepts v t u \<Longrightarrow> table_step B identity_hash accepts issued u w \<Longrightarrow>
    issued \<noteq> Some v \<Longrightarrow> table_steps_without B identity_hash accepts v t w"

text \<open>Any number of calls.\<close>

inductive table_reach ::
  "('r, 'a, 'h, 'd) backends \<Rightarrow> (identity_public_keys \<Rightarrow> 'i) \<Rightarrow> (u8 list \<Rightarrow> bool)
     \<Rightarrow> ('r, 'a, 'h, 'd) routing_table \<Rightarrow> ('r, 'a, 'h, 'd) routing_table \<Rightarrow> bool"
  for B :: "('r, 'a, 'h, 'd) backends" and identity_hash :: "identity_public_keys \<Rightarrow> 'i"
    and accepts :: "u8 list \<Rightarrow> bool" where
  start: "table_reach B identity_hash accepts t t"
| step: "table_reach B identity_hash accepts t u \<Longrightarrow> table_step B identity_hash accepts issued u w \<Longrightarrow>
    table_reach B identity_hash accepts t w"

section \<open>The invariant\<close>

text \<open>A sound table: the stores are in step, no evidence id is held twice, every payload can be replaced.\<close>

definition table_sound ::
  "('r, 'a, 'h, 'd) backends \<Rightarrow> ('r, 'a, 'h, 'd) contracts \<Rightarrow> ('r, 'a, 'h, 'd) routing_table \<Rightarrow> bool" where
  "table_sound B C t =
     (table_ok B C t \<and> distinct (map fst (table_view B t))
      \<and> (\<forall>r\<in>set (table_view B t). ct_replaceable C (pr_app_data (snd r))))"

definition table_evolves ::
  "('r, 'a, 'h, 'd) backends \<Rightarrow> ('r, 'a, 'h, 'd) contracts \<Rightarrow> evidence_id option \<Rightarrow> ('r, 'a, 'h, 'd) routing_table
     \<Rightarrow> ('r, 'a, 'h, 'd) routing_table \<Rightarrow> bool" where
  "table_evolves B C issued t t' =
     (table_sound B C t' \<and> destination_capacity B t' = destination_capacity B t
      \<and> (\<forall>v. issued \<noteq> Some v \<longrightarrow> rows_sink v (table_view B t) (table_view B t')))"

lemma table_evolves_refl: "table_sound B C t \<Longrightarrow> table_evolves B C issued t t"
  by (simp add: table_evolves_def)

lemma table_evolves_expiries [simp]:
  "table_evolves B C issued t (t'\<lparr>t_route_expiries := x\<rparr>) = table_evolves B C issued t t'"
  by (simp add: table_evolves_def table_sound_def)

lemma table_evolves_trans:
  assumes "table_evolves B C None t u" "table_evolves B C issued u w"
  shows "table_evolves B C issued t w"
  unfolding table_evolves_def
proof (intro conjI allI impI)
  fix v assume "issued \<noteq> Some v"
  then have "rows_sink v (table_view B t) (table_view B u)" "rows_sink v (table_view B u) (table_view B w)"
    using assms by (simp_all add: table_evolves_def)
  then show "rows_sink v (table_view B t) (table_view B w)" by (rule rows_sink_trans)
qed (use assms in \<open>simp_all add: table_evolves_def\<close>)

text \<open>
  A handle tracks a destination: a row with the handle's id is the route of that destination and is not
  above the hint, so the scan down from the hint meets it.
\<close>

definition handle_tracks ::
  "('r, 'a, 'h, 'd) backends \<Rightarrow> evidence_handle \<Rightarrow> destination_hash \<Rightarrow> ('r, 'a, 'h, 'd) routing_table \<Rightarrow> bool" where
  "handle_tracks B h d t =
     (\<forall>j<route_count B t. fst (table_view B t ! j) = eh_id h \<longrightarrow>
        row_destination (table_view B t ! j) = d \<and> (eh_row_hint h = - 1 \<or> j \<le> unat (eh_row_hint h)))"

lemma row_hint_covers: "j \<le> i \<Longrightarrow> route_evidence_row_hint i = - 1 \<or> j \<le> unat (route_evidence_row_hint i)"
  by (auto simp: route_evidence_row_hint_def unat_of_nat take_bit_nat_eq_self)

lemma scan_start_covers:
  "j < len \<Longrightarrow> hint = - 1 \<or> j \<le> unat hint \<Longrightarrow> j \<le> route_evidence_scan_start hint len"
  by (auto simp: route_evidence_scan_start_def)

text \<open>The scan of \<open>resolve_route_evidence\<close>.\<close>

lemma evidence_scan_down_None: "evidence_scan_down ids v n = None \<Longrightarrow> \<forall>j\<le>n. ids ! j \<noteq> v"
  by (induction n) (auto simp: le_Suc_eq split: if_splits)

lemma evidence_scan_down_Some:
  assumes "evidence_scan_down ids v n = Some j"
  shows "j \<le> n" "ids ! j = v"
  using assms by (induction n) (auto split: if_splits)

context routing_backends
begin

lemma view_ids:
  assumes "table_ok B C t"
  shows "map fst (table_view B t) = rt_evidence_ids (be_routes B) (t_routes t)"
proof (rule nth_equalityI)
  show "length (map fst (table_view B t)) = length (rt_evidence_ids (be_routes B) (t_routes t))"
    using okD(1) [OF assms] count [OF assms] by (simp add: rt.columns)
  fix j assume "j < length (map fst (table_view B t))"
  then show "map fst (table_view B t) ! j = rt_evidence_ids (be_routes B) (t_routes t) ! j"
    using view_entry(4) [OF assms] by simp
qed

lemma removes_evolves:
  assumes "table_sound B C t" "table_removes B C t u removed"
  shows "table_evolves B C None t u"
proof -
  have ok: "table_ok B C u" and sink: "\<forall>v. rows_sink v (table_view B t) (table_view B u)"
    and cap: "destination_capacity B u = destination_capacity B t"
    using assms(2) by (simp_all add: table_removes_def)
  have sub: "set (table_view B u) \<subseteq> set (table_view B t)" unfolding table_removes_set [OF assms(2)] by simp
  have "distinct (table_view B u)" using view_distinct [OF ok] by (simp add: distinct_map)
  moreover have "inj_on fst (set (table_view B t))" using assms(1) by (simp add: table_sound_def distinct_map)
  ultimately have "distinct (map fst (table_view B u))"
    using inj_on_subset [OF _ sub] by (simp add: distinct_map)
  moreover have "\<forall>r\<in>set (table_view B u). ct_replaceable C (pr_app_data (snd r))"
    using assms(1) subsetD [OF sub] by (simp add: table_sound_def)
  ultimately show ?thesis using ok sink cap by (simp add: table_evolves_def table_sound_def)
qed

lemma append_evolves:
  assumes "table_sound B C u" "table_ok B C t'" "destination_capacity B t' = destination_capacity B u"
    and view: "table_view B t' = table_view B u @ [(v, row)]"
    and fresh: "v \<notin> fst ` set (table_view B u)" and payload: "ct_replaceable C (pr_app_data row)"
  shows "table_evolves B C (Some v) u t'"
proof -
  have "rows_sink w (table_view B u) (table_view B t')" if "Some v \<noteq> Some w" for w
    unfolding view using that by (intro rows_sink_append) simp
  with assms show ?thesis by (simp add: table_evolves_def table_sound_def)
qed

lemma update_evolves:
  assumes sound: "table_sound B C t" and "table_ok B C t'" "destination_capacity B t' = destination_capacity B t"
    and i: "i < route_count B t" and view: "table_view B t' = (table_view B t)[i := r]"
    and dest: "row_destination r = row_destination (table_view B t ! i)"
    and ids: "fst r = fst (table_view B t ! i) \<or> issued = Some (fst r) \<and> fst r \<notin> fst ` set (table_view B t)"
    and payload: "ct_replaceable C (pr_app_data (snd r))"
  shows "table_evolves B C issued t t'"
proof -
  let ?V = "table_view B t"
  have "rows_sink w ?V (table_view B t')" if "issued \<noteq> Some w" for w
    unfolding view using that ids dest by (intro rows_sink_update) auto
  moreover have "distinct (map fst (table_view B t'))"
  proof (cases "fst r = fst (?V ! i)")
    case True
    have "map fst (table_view B t') = map fst ?V"
      unfolding view map_update True using i by (intro list_update_same_conv [THEN iffD2]) simp_all
    then show ?thesis using sound by (simp add: table_sound_def)
  next
    case False
    then show ?thesis
      using ids sound unfolding view map_update by (intro distinct_list_update) (auto simp: table_sound_def)
  qed
  moreover have "set (table_view B t') \<subseteq> insert r (set ?V)" unfolding view by (rule set_update_subset_insert)
  then have "\<forall>x\<in>set (table_view B t'). ct_replaceable C (pr_app_data (snd x))"
    using sound payload by (auto simp: table_sound_def)
  ultimately show ?thesis using assms(2,3) by (simp add: table_evolves_def table_sound_def)
qed

lemma upsert_evolves:
  assumes sound: "table_sound B C t" and fresh: "v \<notin> set (rt_evidence_ids (be_routes B) (t_routes t))"
    and payload: "ct_replaceable C (an_app_data (aa_announce arrival))"
    and res: "upsert_route_with_retention_and_warmth B arrival v retention interfaces warmth t = Some (out, t', removed)"
  shows "table_evolves B C (Some v) t t'"
proof -
  have ok: "table_ok B C t" using sound by (simp add: table_sound_def)
  have fresh': "v \<notin> fst ` set (table_view B t)" using fresh view_ids [OF ok] by (metis image_set)
  show ?thesis
  proof (cases "index_of B t (an_destination (aa_announce arrival))")
    case (Some i)
    note i = index_of_Some [OF ok Some]
    have "ct_replaceable C (pr_app_data (snd (table_view B t ! i)))"
      using sound i(1) by (simp add: table_sound_def)
    from upsert_known [OF ok Some this, of v retention interfaces warmth] res
    have "t' = t \<or> table_ok B C t' \<and> destination_capacity B t' = destination_capacity B t
        \<and> table_view B t' = (table_view B t)[i := refreshed_row (ct_id_cap C) arrival retention v (table_view B t ! i)]"
      by auto
    then show ?thesis
    proof (elim disjE conjE)
      assume u: "table_ok B C t'" "destination_capacity B t' = destination_capacity B t"
        "table_view B t' = (table_view B t)[i := refreshed_row (ct_id_cap C) arrival retention v (table_view B t ! i)]"
      show ?thesis
      proof (rule update_evolves [OF sound u(1,2) i(1) u(3)])
        show "fst (refreshed_row (ct_id_cap C) arrival retention v (table_view B t ! i)) = fst (table_view B t ! i)
          \<or> Some v = Some (fst (refreshed_row (ct_id_cap C) arrival retention v (table_view B t ! i)))
            \<and> fst (refreshed_row (ct_id_cap C) arrival retention v (table_view B t ! i)) \<notin> fst ` set (table_view B t)"
          using refreshed_row_id [of "ct_id_cap C" arrival retention v "table_view B t ! i"] fresh'
          by (simp, metis)
      qed (use i(2) payload in \<open>simp_all add: refreshed_row_def split_beta Let_def\<close>)
    qed (simp add: table_evolves_refl [OF sound])
  next
    case None
    from upsert_new [OF ok None, of v retention interfaces warmth] res obtain u where
      u: "table_removes B C t u removed"
        "out = Inserted \<and> table_ok B C t' \<and> destination_capacity B t' = destination_capacity B t
         \<and> table_view B t' = table_view B u @ [(v, arrival_view arrival retention [an_announce_id (aa_announce arrival)])]
        \<or> t' = u"
      by auto
    note ev = removes_evolves [OF sound u(1)]
    then have su: "table_sound B C u" "destination_capacity B u = destination_capacity B t"
      by (simp_all add: table_evolves_def)
    from u(2) show ?thesis
    proof (elim disjE conjE)
      assume w: "table_ok B C t'" "destination_capacity B t' = destination_capacity B t"
        "table_view B t' = table_view B u @ [(v, arrival_view arrival retention [an_announce_id (aa_announce arrival)])]"
      have "v \<notin> fst ` set (table_view B u)" using fresh' unfolding table_removes_set [OF u(1)] by auto
      then have "table_evolves B C (Some v) u t'"
        using su w payload by (intro append_evolves [OF su(1) w(1) _ w(3)]) simp_all
      then show ?thesis by (rule table_evolves_trans [OF ev])
    next
      assume "t' = u"
      with ev show ?thesis by (simp add: table_evolves_def)
    qed
  qed
qed

lemma seed_evolves:
  assumes sound: "table_sound B C t" and fresh: "v \<notin> set (rt_evidence_ids (be_routes B) (t_routes t))"
    and payload: "ct_replaceable C (pr_app_data row)" and res: "seed_route B row v t = (out, t')"
  shows "table_evolves B C (Some v) t t'"
proof -
  have ok: "table_ok B C t" using sound by (simp add: table_sound_def)
  have fresh': "v \<notin> fst ` set (table_view B t)" using fresh view_ids [OF ok] by (metis image_set)
  from seed_route_cases [OF ok res] consider "t' = t" | "table_ok B C t'" "destination_capacity B t' = destination_capacity B t"
      "table_view B t' = table_view B t @ [(v, seeded_row (ct_id_cap C) row)]"
    by blast
  then show ?thesis
  proof cases
    case 1
    then show ?thesis by (simp add: table_evolves_refl [OF sound])
  next
    case 2
    then show ?thesis
      using fresh' payload by (intro append_evolves [OF sound 2(1,2,3)]) (simp_all add: seeded_row_def)
  qed
qed

lemma drop_evolves:
  assumes sound: "table_sound B C t" and res: "drop_route B destination t = (dropped, t')"
  shows "table_evolves B C issued t t'"
proof (cases "index_of B t destination")
  case None
  with res have "t' = t" by (simp add: drop_route_def)
  then show ?thesis using table_evolves_refl [OF sound] by simp
next
  case (Some i)
  have ok: "table_ok B C t" using sound by (simp add: table_sound_def)
  have "t' = remove_route_at B i t" using res Some by (simp add: drop_route_def)
  with removes_evolves [OF sound remove_removes [OF ok index_of_Some(1) [OF ok Some]]]
  show ?thesis by (simp add: table_evolves_def)
qed

lemma entry_evolves:
  assumes sound: "table_sound B C t" and i: "i < route_count B t"
  shows "table_evolves B C issued t (t\<lparr>t_routes := rt_set_row (be_routes B) i e (t_routes t)\<rparr>)"
proof -
  have ok: "table_ok B C t" using sound by (simp add: table_sound_def)
  show ?thesis
    by (rule update_evolves [OF sound set_entry(1,3) [OF ok i] i set_entry(2) [OF ok i]])
      (use sound i in \<open>simp_all add: table_sound_def\<close>)
qed

lemma entry_at_evolves:
  assumes "table_sound B C t"
  shows "table_evolves B C issued t
    (case index_of B t d of None \<Rightarrow> t | Some i \<Rightarrow> t\<lparr>t_routes := rt_set_row (be_routes B) i (f i) (t_routes t)\<rparr>)"
  using assms index_of_Some(1) [of t d] entry_evolves [OF assms]
  by (cases "index_of B t d") (simp_all add: table_evolves_refl table_sound_def)

section \<open>Evidence\<close>

lemma resolve_cases:
  assumes ok: "table_ok B C t" and res: "resolve_route_evidence B t handle = (found, handle')"
  defines "start \<equiv> route_evidence_scan_start (eh_row_hint handle) (route_count B t)"
  shows "(found = None \<and> handle' = handle \<and> (\<forall>j<route_count B t. j \<le> start \<longrightarrow> fst (table_view B t ! j) \<noteq> eh_id handle))
    \<or> (\<exists>j<route_count B t. found = Some j \<and> handle' = handle\<lparr>eh_row_hint := route_evidence_row_hint j\<rparr>
        \<and> fst (table_view B t ! j) = eh_id handle)"
proof (cases "route_count B t = 0")
  case True
  then show ?thesis using res by (simp add: resolve_route_evidence_def)
next
  case False
  let ?ids = "rt_evidence_ids (be_routes B) (t_routes t)"
  have start: "start < route_count B t" using False by (auto simp: start_def route_evidence_scan_start_def)
  have nth: "?ids ! j = fst (table_view B t ! j)" if "j < route_count B t" for j
    using view_entry(4) [OF ok that] by simp
  show ?thesis
  proof (cases "evidence_scan_down ?ids (eh_id handle) start")
    case None
    then have "\<forall>j\<le> start. ?ids ! j \<noteq> eh_id handle" by (rule evidence_scan_down_None)
    with nth have "\<forall>j<route_count B t. j \<le> start \<longrightarrow> fst (table_view B t ! j) \<noteq> eh_id handle" by metis
    moreover have "found = None \<and> handle' = handle"
      using None res False by (simp add: resolve_route_evidence_def start_def Let_def)
    ultimately show ?thesis by blast
  next
    case (Some j)
    then have "j \<le> start" "?ids ! j = eh_id handle" by (rule evidence_scan_down_Some)+
    with start nth [of j] have "j < route_count B t" "fst (table_view B t ! j) = eh_id handle" by simp_all
    moreover have "found = Some j \<and> handle' = handle\<lparr>eh_row_hint := route_evidence_row_hint j\<rparr>"
      using Some res False by (simp add: resolve_route_evidence_def start_def Let_def)
    ultimately show ?thesis by blast
  qed
qed

lemma apply_evidence_evolves:
  assumes sound: "table_sound B C t" and res: "apply_route_evidence B handle observed_at t = (changed, handle', t')"
  shows "table_evolves B C issued t t'"
proof -
  obtain found h where r: "resolve_route_evidence B t handle = (found, h)" by fastforce
  have "table_ok B C t" using sound by (simp add: table_sound_def)
  from resolve_cases [OF this r] res r entry_evolves [OF sound] table_evolves_refl [OF sound] show ?thesis
    by (auto simp: apply_route_evidence_def Let_def split: option.splits if_splits)
qed

lemma mark_unresponsive_evolves:
  assumes sound: "table_sound B C t"
    and res: "mark_unresponsive_if_not_active_since B handle started_at t = (changed, handle', t')"
  shows "table_evolves B C issued t t'"
proof -
  obtain found h where r: "resolve_route_evidence B t handle = (found, h)" by fastforce
  have "table_ok B C t" using sound by (simp add: table_sound_def)
  from resolve_cases [OF this r] res r entry_evolves [OF sound] table_evolves_refl [OF sound] show ?thesis
    by (auto simp: mark_unresponsive_if_not_active_since_def Let_def split: option.splits if_splits)
qed

lemma repoint_view:
  assumes ok: "table_ok B C t" and res: "repoint_routes B previous current now t = (moved, t')"
  defines "g \<equiv> \<lambda>e. if re_receiving_interface e = previous
    then e\<lparr>re_receiving_interface := current, re_last_route_activity_at := now\<rparr> else e"
  shows "table_ok B C t'" "destination_capacity B t' = destination_capacity B t"
    "table_view B t' = map (\<lambda>(v, row). (v, row\<lparr>pr_entry := g (pr_entry row)\<rparr>)) (table_view B t)"
    "moved = length (filter (\<lambda>r. re_receiving_interface (pr_entry (snd r)) = previous) (table_view B t))"
proof -
  let ?rr = "ct_route_rows C (t_routes t)"
  obtain r where r: "rt_repoint_receiving_interface (be_routes B) previous current now (t_routes t) = (moved, r)"
    and t': "t' = t\<lparr>t_routes := r\<rparr>"
    using res by (auto simp: repoint_routes_def linear_invalidate_def Let_def split: prod.splits)
  note R = rt.repoint [OF okD(1) [OF ok] r]
  have dests: "map rr_destination (ct_route_rows C r) = map rr_destination ?rr"
    using R by (simp add: repoint_row_def)
  note V = replace_routes [OF ok _ _ dests]
  show "table_ok B C t'" "destination_capacity B t' = destination_capacity B t" using V R by (simp_all add: t')
  have n: "length ?rr = route_count B t" using count [OF ok] by simp
  show "table_view B t' = map (\<lambda>(v, row). (v, row\<lparr>pr_entry := g (pr_entry row)\<rparr>)) (table_view B t)"
  proof (rule nth_equalityI)
    fix j assume "j < length (table_view B t')"
    then have j: "j < route_count B t" using V(2) R n by (simp add: t')
    have "table_view B t' ! j = (rr_evidence_id (repoint_row previous current now (?rr ! j)),
        (snd (table_view B t ! j))\<lparr>pr_entry := rr_entry (repoint_row previous current now (?rr ! j))\<rparr>)"
      using V(2) R j n by (simp add: t')
    then show "table_view B t' ! j = map (\<lambda>(v, row). (v, row\<lparr>pr_entry := g (pr_entry row)\<rparr>)) (table_view B t) ! j"
      using j view_nth [OF ok j] by (simp add: row_view_def repoint_row_def g_def)
  qed (use V(2) R n in \<open>simp add: t'\<close>)
  have "map (re_receiving_interface \<circ> rr_entry) ?rr = map (\<lambda>r. re_receiving_interface (pr_entry (snd r))) (table_view B t)"
    using n view_entry(1) [OF ok] by (intro nth_equalityI) simp_all
  then have "length (filter (\<lambda>i. i = previous) (map (re_receiving_interface \<circ> rr_entry) ?rr)) =
      length (filter (\<lambda>i. i = previous) (map (\<lambda>r. re_receiving_interface (pr_entry (snd r))) (table_view B t)))"
    by (rule arg_cong)
  then show "moved = length (filter (\<lambda>r. re_receiving_interface (pr_entry (snd r)) = previous) (table_view B t))"
    using R by (simp add: filter_map o_def)
qed

lemma repoint_evolves:
  assumes sound: "table_sound B C t" and res: "repoint_routes B previous current now t = (moved, t')"
  shows "table_evolves B C issued t t'"
proof -
  have "table_ok B C t" using sound by (simp add: table_sound_def)
  note V = repoint_view [OF this res]
  have nth: "fst (table_view B t' ! j) = fst (table_view B t ! j)"
    "row_destination (table_view B t' ! j) = row_destination (table_view B t ! j)" if "j < route_count B t" for j
    using that by (simp_all add: V(3) split_beta)
  have len: "route_count B t' = route_count B t" using arg_cong [OF V(3), of length] by simp
  have "rows_sink v (table_view B t) (table_view B t')" for v
    unfolding rows_sink_def
  proof (intro allI impI)
    fix j assume "j < length (table_view B t')" "fst (table_view B t' ! j) = v"
    then show "\<exists>i<length (table_view B t). j \<le> i \<and> fst (table_view B t ! i) = v
        \<and> row_destination (table_view B t ! i) = row_destination (table_view B t' ! j)"
      using nth [of j] len by (intro exI [of _ j]) simp
  qed
  moreover have "map fst (table_view B t') = map fst (table_view B t)"
    unfolding V(3) by (simp add: split_beta o_def)
  moreover have "\<forall>r\<in>set (table_view B t'). ct_replaceable C (pr_app_data (snd r))"
    unfolding V(3) using sound by (auto simp: table_sound_def)
  ultimately show ?thesis using V(1,2) sound by (simp add: table_evolves_def table_sound_def)
qed

text \<open>Every call keeps a table sound.\<close>

theorem step_evolves:
  assumes "table_step B identity_hash (ct_replaceable C) issued t t'" "table_sound B C t"
  shows "table_evolves B C issued t t'"
  using assms
proof (induction rule: table_step.induct)
  case learn
  then show ?case by (intro upsert_evolves)
next
  case seed
  then show ?case by (intro seed_evolves)
next
  case (cull now interfaces warmth t t' removed)
  then show ?case
    using cull_map [of t now interfaces warmth] removes_evolves [of t t' removed]
    by (auto simp: table_sound_def removes_exactly_def)
next
  case drop
  then show ?case by (intro drop_evolves)
next
  case (drop_via transport t t' removed)
  then show ?case
    using drop_via_map [of t transport] removes_evolves [of t t' removed]
    by (auto simp: table_sound_def removes_exactly_def)
next
  case (drop_identity identity t t' removed)
  then show ?case
    using drop_identity_map [of t identity_hash identity] removes_evolves [of t t' removed]
    by (auto simp: table_sound_def removes_exactly_def)
next
  case evidence
  then show ?case by (intro apply_evidence_evolves)
next
  case unresponsive
  then show ?case by (intro mark_unresponsive_evolves)
next
  case (mark destination responsiveness t t')
  then show ?case
    using entry_at_evolves [of t None, where d = destination and f = "\<lambda>i. (path_row_at B t i)\<lparr>re_responsiveness := responsiveness\<rparr>"]
    by (simp add: mark_responsiveness_def)
next
  case (rebalance destination hops t t')
  then show ?case
    using entry_at_evolves [of t None, where d = destination and f = "\<lambda>i. (path_row_at B t i)\<lparr>re_hops := hops\<rparr>"]
    by (simp add: rebalance_hops_def)
next
  case (relayed destination now t t')
  then show ?case
    using entry_at_evolves [of t None, where d = destination and f = "\<lambda>i. (path_row_at B t i)\<lparr>re_last_route_activity_at := now\<rparr>"]
    by (auto simp: note_relayed_def split: option.splits)
next
  case (relayed_warm destination now interfaces warmth t t')
  then show ?case
    using entry_at_evolves [of t None, where d = destination and f = "\<lambda>i. (path_row_at B t i)\<lparr>re_last_route_activity_at := now\<rparr>"]
    by (auto simp: note_relayed_with_warmth_def Let_def split: option.splits)
next
  case repoint
  then show ?case by (intro repoint_evolves)
qed

lemma reach_sound:
  assumes "table_reach B identity_hash (ct_replaceable C) t t'" "table_sound B C t"
  shows "table_sound B C t' \<and> destination_capacity B t' = destination_capacity B t"
  using assms
proof (induction rule: table_reach.induct)
  case (step t u issued w)
  then show ?case using step_evolves [OF step.hyps(2)] by (simp add: table_evolves_def)
qed simp

text \<open>The first announce of an empty table with room for it.\<close>

lemma first_route:
  fixes arrival :: announce_arrival
  assumes sound: "table_sound B C t" and empty: "table_view B t = []" and cap: "destination_capacity B t > 0"
    and ins: "ad_insert (be_app_data B) (an_app_data (aa_announce arrival)) (t_announce_app_data t) = Inr (h, d)"
    and payload: "ct_replaceable C (an_app_data (aa_announce arrival))"
  shows "\<exists>t'. upsert_route_with_retention_and_warmth B arrival v retention interfaces warmth t = Some (Inserted, t', [])
    \<and> table_reach B identity_hash (ct_replaceable C) t t' \<and> table_sound B C t'
    \<and> routes_map B t' = [an_destination (aa_announce arrival) \<mapsto> (v, arrival_view arrival retention [an_announce_id (aa_announce arrival)])]"
proof -
  have ok: "table_ok B C t" using sound by (simp add: table_sound_def)
  have m: "routes_map B t = Map.empty" by (auto simp: routes_map_def empty)
  have none: "index_of B t (an_destination (aa_announce arrival)) = None" using routes_map_None [OF ok] m by simp
  have room: "route_count B t < destination_capacity B t" using cap arg_cong [OF empty, of length] by simp
  from push_new_route_ok [OF ok room none ins, of v retention interfaces warmth] obtain t' where
    "push_new_route B arrival v retention interfaces warmth h (t\<lparr>t_announce_app_data := d\<rparr>) = (Inserted, t')" by blast
  then have t': "upsert_route_with_retention_and_warmth B arrival v retention interfaces warmth t = Some (Inserted, t', [])"
    using none room ins by (simp add: upsert_route_with_retention_and_warmth_def insert_new_route_def Let_def)
  have "table_step B identity_hash (ct_replaceable C) (Some v) t t'"
    using t' payload arg_cong [OF view_ids [OF ok], of set] by (intro table_step.learn) (simp_all add: empty)
  then have reach: "table_reach B identity_hash (ct_replaceable C) t t'" by (rule table_reach.step [OF table_reach.start])
  have "routes_map B t' = (routes_map B t |` (- {}))
      (an_destination (aa_announce arrival) \<mapsto> (v, arrival_view arrival retention [an_announce_id (aa_announce arrival)]))"
    using upsert_map [OF ok, of arrival v retention interfaces warmth] t' by (auto simp: empty)
  with t' reach reach_sound [OF reach sound] m show ?thesis by (auto simp: restrict_map_def)
qed

lemma steps_without_sink:
  assumes "table_steps_without B identity_hash (ct_replaceable C) v t t'" "table_sound B C t"
  shows "table_sound B C t' \<and> rows_sink v (table_view B t) (table_view B t')"
  using assms
proof (induction rule: table_steps_without.induct)
  case (move t u issued w)
  then have "table_sound B C u" "rows_sink v (table_view B t) (table_view B u)" by simp_all
  with step_evolves [OF move.hyps(2)] move.hyps(3) show ?case
    by (auto simp: table_evolves_def intro: rows_sink_trans)
qed simp

lemma id_unique:
  assumes "table_sound B C t" "i < route_count B t" "j < route_count B t" "fst (table_view B t ! i) = fst (table_view B t ! j)"
  shows "i = j"
  using assms nth_eq_iff_index_eq [of "map fst (table_view B t)" i j] by (simp add: table_sound_def)

lemma handle_for_tracks:
  assumes sound: "table_sound B C t" and h: "route_evidence_handle_for B t d = Some h"
  shows "handle_tracks B h d t"
proof -
  have ok: "table_ok B C t" using sound by (simp add: table_sound_def)
  obtain i where i: "index_of B t d = Some i" and
    eh: "h = \<lparr>eh_id = rt_evidence_ids (be_routes B) (t_routes t) ! i, eh_row_hint = route_evidence_row_hint i\<rparr>"
    using h by (auto simp: route_evidence_handle_for_def)
  note I = index_of_Some [OF ok i]
  have "j = i" if "j < route_count B t" "fst (table_view B t ! j) = eh_id h" for j
    using that view_entry(4) [OF ok I(1)] by (intro id_unique [OF sound _ I(1)]) (simp_all add: eh)
  then show ?thesis
    unfolding handle_tracks_def using I row_hint_covers [of i i] by (auto simp: eh)
qed

lemma tracks_sink:
  assumes "handle_tracks B h d t" "rows_sink (eh_id h) (table_view B t) (table_view B t')"
  shows "handle_tracks B h d t'"
  unfolding handle_tracks_def
proof (intro allI impI)
  fix j assume j: "j < route_count B t'" "fst (table_view B t' ! j) = eh_id h"
  then obtain i where i: "i < route_count B t" "j \<le> i" "fst (table_view B t ! i) = eh_id h"
    "row_destination (table_view B t ! i) = row_destination (table_view B t' ! j)"
    using assms(2) unfolding rows_sink_def length_table_view by blast
  with assms(1) have "row_destination (table_view B t ! i) = d" "eh_row_hint h = - 1 \<or> i \<le> unat (eh_row_hint h)"
    unfolding handle_tracks_def by blast+
  with i show "row_destination (table_view B t' ! j) = d \<and> (eh_row_hint h = - 1 \<or> j \<le> unat (eh_row_hint h))"
    by auto
qed

text \<open>A handle that tracks its destination finds the route it was made for, or nothing.\<close>

lemma resolve_tracked:
  assumes sound: "table_sound B C t" and tracks: "handle_tracks B h d t"
    and res: "resolve_route_evidence B t h = (found, h')"
  shows "found = (case routes_map B t d of
      Some (v, row) \<Rightarrow> if v = eh_id h then index_of B t d else None | None \<Rightarrow> None)"
    and "handle_tracks B h' d t" "eh_id h' = eh_id h"
proof -
  have ok: "table_ok B C t" using sound by (simp add: table_sound_def)
  have all: "found = (case routes_map B t d of
      Some (v, row) \<Rightarrow> if v = eh_id h then index_of B t d else None | None \<Rightarrow> None)
    \<and> handle_tracks B h' d t \<and> eh_id h' = eh_id h"
    using resolve_cases [OF ok res]
  proof (elim disjE conjE exE)
    assume none: "found = None" "h' = h" "\<forall>j<route_count B t.
      j \<le> route_evidence_scan_start (eh_row_hint h) (route_count B t) \<longrightarrow> fst (table_view B t ! j) \<noteq> eh_id h"
    have no: "fst (table_view B t ! j) \<noteq> eh_id h" if "j < route_count B t" for j
      using that tracks none(3) scan_start_covers [OF that] unfolding handle_tracks_def by blast
    have "fst r \<noteq> eh_id h" if "routes_map B t d = Some r" for r
      using that no routes_map_Some [OF ok, of d r] by (metis in_set_conv_nth length_table_view)
    with none tracks show ?thesis by (auto split: option.split)
  next
    fix j assume j: "j < route_count B t" and some: "found = Some j" "h' = h\<lparr>eh_row_hint := route_evidence_row_hint j\<rparr>"
      "fst (table_view B t ! j) = eh_id h"
    then have dest: "row_destination (table_view B t ! j) = d" using tracks unfolding handle_tracks_def by blast
    have idx: "index_of B t d = Some j" by (rule index_of_eqI [OF ok j dest])
    have "k = j" if "k < route_count B t" "fst (table_view B t ! k) = eh_id h" for k
      using that some(3) by (intro id_unique [OF sound _ j]) simp_all
    then have "handle_tracks B h' d t"
      unfolding handle_tracks_def using dest row_hint_covers [of j j] by (auto simp: some(2))
    moreover have "routes_map B t d = Some (table_view B t ! j)" by (rule routes_map_index [OF ok idx])
    ultimately show ?thesis using idx some by (simp add: split_beta)
  qed
  show "found = (case routes_map B t d of
      Some (v, row) \<Rightarrow> if v = eh_id h then index_of B t d else None | None \<Rightarrow> None)"
    "handle_tracks B h' d t" "eh_id h' = eh_id h"
    using all by blast+
qed

lemma set_entry_map:
  assumes ok: "table_ok B C t" and i: "index_of B t d = Some i"
  shows "routes_map B (t\<lparr>t_routes := rt_set_row (be_routes B) i (f (path_row_at B t i)) (t_routes t)\<rparr>)
    = map_entry f d (routes_map B t)"
proof -
  note I = index_of_Some [OF ok i]
  note S = set_entry [OF ok I(1), of "f (path_row_at B t i)"]
  from update_map [OF ok S(1) I(1) S(2)] show ?thesis
    using I(2) routes_map_index [OF ok i] view_entry(3) [OF ok I(1)]
    by (simp add: map_entry_def split_beta)
qed

lemma map_entry_same: "(\<And>v row. m d = Some (v, row) \<Longrightarrow> f (pr_entry row) = pr_entry row) \<Longrightarrow> map_entry f d m = m"
  by (auto simp: map_entry_def split: option.split)

text \<open>Evidence refreshes the route its handle was made for, and no other.\<close>

lemma apply_evidence_map:
  assumes sound: "table_sound B C t" and tracks: "handle_tracks B h d t"
    and res: "apply_route_evidence B h observed_at t = (changed, h', t')"
  shows "routes_map B t' =
    (case routes_map B t d of
       Some (v, row) \<Rightarrow>
         if v = eh_id h
         then map_entry (\<lambda>e. e\<lparr>re_last_route_activity_at := max (re_last_route_activity_at e) observed_at,
                re_responsiveness := Responsive\<rparr>) d (routes_map B t)
         else routes_map B t
     | None \<Rightarrow> routes_map B t)"
proof -
  have ok: "table_ok B C t" using sound by (simp add: table_sound_def)
  let ?f = "\<lambda>e. e\<lparr>re_last_route_activity_at := max (re_last_route_activity_at e) observed_at, re_responsiveness := Responsive\<rparr>"
  obtain found g where r: "resolve_route_evidence B t h = (found, g)" by fastforce
  note F = resolve_tracked(1) [OF sound tracks r]
  show ?thesis
  proof (cases found)
    case None
    then have "t' = t" using res r by (simp add: apply_route_evidence_def)
    moreover have "v \<noteq> eh_id h" if "routes_map B t d = Some (v, row)" for v row
      using F None that routes_map_None [OF ok, of d] by auto
    ultimately show ?thesis by (auto split: option.split)
  next
    case (Some i)
    with F obtain v row where row: "routes_map B t d = Some (v, row)" "v = eh_id h" and i: "index_of B t d = Some i"
      by (auto split: option.splits if_splits)
    have e: "path_row_at B t i = pr_entry row"
      using routes_map_index [OF ok i] row(1) view_entry(3) [OF ok index_of_Some(1) [OF ok i]]
      by (metis option.inject snd_conv)
    have sel: "rt_last_route_activity_at (be_routes B) (t_routes t) ! i = re_last_route_activity_at (pr_entry row)"
      "rt_responsiveness (be_routes B) (t_routes t) ! i = re_responsiveness (pr_entry row)"
      using arg_cong [OF e, of re_last_route_activity_at] arg_cong [OF e, of re_responsiveness]
      by (simp_all add: path_row_at_def Let_def)
    show ?thesis
    proof (cases "?f (pr_entry row) = pr_entry row")
      case True
      then have "max (re_last_route_activity_at (pr_entry row)) observed_at = re_last_route_activity_at (pr_entry row)"
        "re_responsiveness (pr_entry row) = Responsive"
        using arg_cong [OF True, of re_last_route_activity_at] arg_cong [OF True, of re_responsiveness] by simp_all
      then have "t' = t" using res r Some sel by (simp add: apply_route_evidence_def Let_def)
      moreover have "map_entry ?f d (routes_map B t) = routes_map B t"
        using True row by (intro map_entry_same) simp
      ultimately show ?thesis using row by simp
    next
      case False
      then have "max (re_last_route_activity_at (pr_entry row)) observed_at \<noteq> re_last_route_activity_at (pr_entry row)
          \<or> re_responsiveness (pr_entry row) \<noteq> Responsive"
        by (cases "pr_entry row") auto
      then have t': "t' = t\<lparr>t_routes := rt_set_row (be_routes B) i (?f (path_row_at B t i)) (t_routes t)\<rparr>"
        using res r Some sel e by (auto simp: apply_route_evidence_def linear_invalidate_def Let_def)
      show ?thesis unfolding t' set_entry_map [OF ok i, of ?f] using row by simp
    qed
  qed
qed

text \<open>A table with empty stores.\<close>

lemma empty_table_sound:
  assumes "ct_routes_valid C (t_routes t)" "ct_route_rows C (t_routes t) = []"
    and "ct_records_valid C (t_announce_records t)" "ct_record_rows C (t_announce_records t) = []"
    and "ct_ids_valid C (t_announce_id_history t)" "ct_store_valid C (t_announce_app_data t)"
    and "\<And>h. ct_stored C (t_announce_app_data t) h = None"
    and "\<And>j. j < destination_capacity B t \<Longrightarrow> ct_slot_ok C j"
    and "\<And>j. ct_slot_ok C j \<Longrightarrow> ih_history (be_history B) (t_announce_id_history t) j = []"
  shows "table_sound B C t" "routes_map B t = Map.empty"
proof -
  have ok: "table_ok B C t" by (rule okI [where hs = "[]"]) (use assms in simp_all)
  have "table_view B t = []" using count [OF ok] assms(2) length_table_view [of B t] by (metis list.size(3) length_0_conv)
  then show "table_sound B C t" "routes_map B t = Map.empty"
    using ok by (auto simp: table_sound_def routes_map_def)
qed

end

end
