(* ===== verification/Indexed_Routes.thy ===== *)
theory Indexed_Routes
  imports Route_Table Lemire_Index
begin

text \<open>
  The route tables with a side index by destination: \<open>HeapRouteTableWithInterfaceIndex\<close> over the linear
  interface index (\<^verbatim>\<open>prns-core/src/routing/routes/impls/heap.rs\<close>, \<^verbatim>\<open>interface_index/impls/linear.rs\<close>) and
  \<open>FixedIndexedRouteTable\<close> (\<^verbatim>\<open>routes/impls/fixed_indexed.rs\<close>). The probing loops of the index may not end,
  so \<open>index_of\<close>, \<open>push\<close> and \<open>swap_remove\<close> return an option here, \<open>None\<close> for a loop that never ends; on a
  well-formed table they always return.
\<close>

section \<open>Indexing destinations\<close>

definition destination_rows :: "(destination_hash, destination_hash) index_row" where
  "destination_rows = \<lparr>index_key = (\<lambda>d. d), lemire_key = (\<lambda>d. lemire_key_from_prefix (destination_bytes d))\<rparr>"

definition HEAP_LEMIRE_MAX_ROWS :: nat where
  "HEAP_LEMIRE_MAX_ROWS = 2 ^ 32 - 1"

definition route_index_buckets :: "nat \<Rightarrow> nat" where
  "route_index_buckets destinations = buckets_for_two_thirds_load destinations"

section \<open>The linear interface index\<close>

datatype linear_interface_index = LinearRouteInterfaceIndex

definition linear_if_insert :: "nat \<Rightarrow> interface_id \<Rightarrow> linear_interface_index \<Rightarrow> linear_interface_index" where
  "linear_if_insert row interface x = x"

definition linear_if_update ::
  "nat \<Rightarrow> interface_id \<Rightarrow> interface_id \<Rightarrow> linear_interface_index \<Rightarrow> linear_interface_index" where
  "linear_if_update row previous current x = x"

definition linear_if_swap_remove ::
  "nat \<Rightarrow> nat \<Rightarrow> interface_id list \<Rightarrow> linear_interface_index \<Rightarrow> linear_interface_index" where
  "linear_if_swap_remove removed lst receiving_interfaces x = x"

definition linear_if_route_count_via :: "interface_id \<Rightarrow> interface_id list \<Rightarrow> nat" where
  "linear_if_route_count_via interface receiving_interfaces =
     length (filter (\<lambda>candidate. candidate = interface) receiving_interfaces)"

text \<open>The loop over the rows, with the rows still to visit and the number moved.\<close>

fun linear_if_repoint_rows ::
  "interface_id \<Rightarrow> interface_id \<Rightarrow> instant_millis \<Rightarrow> nat list \<Rightarrow> interface_id list \<Rightarrow> instant_millis list \<Rightarrow> nat
     \<Rightarrow> nat \<times> interface_id list \<times> instant_millis list" where
  "linear_if_repoint_rows previous current now [] interfaces activity moved = (moved, interfaces, activity)"
| "linear_if_repoint_rows previous current now (row # rest) interfaces activity moved =
     (if interfaces ! row \<noteq> previous
      then linear_if_repoint_rows previous current now rest interfaces activity moved
      else linear_if_repoint_rows previous current now rest (interfaces[row := current]) (activity[row := now])
             (moved + 1))"

definition linear_if_repoint ::
  "interface_id \<Rightarrow> interface_id \<Rightarrow> instant_millis \<Rightarrow> interface_id list \<Rightarrow> instant_millis list
     \<Rightarrow> nat \<times> interface_id list \<times> instant_millis list" where
  "linear_if_repoint previous current now interfaces activity =
     linear_if_repoint_rows previous current now [0..<length interfaces] interfaces activity 0"

section \<open>The growable table\<close>

record heap_route_table =
  hr_destination :: "destination_hash list"
  hr_hops :: "u8 list"
  hr_learned_at :: "instant_millis list"
  hr_last_route_activity_at :: "instant_millis list"
  hr_responsiveness :: "route_responsiveness list"
  hr_receiving_interface :: "interface_id list"
  hr_next_hop :: "next_hop list"
  hr_retention :: "route_retention list"
  hr_evidence_id :: "evidence_id list"
  hr_index :: "u32 list"
  hr_interface_index :: linear_interface_index

definition heap_routes_default :: heap_route_table where
  "heap_routes_default =
     \<lparr>hr_destination = [], hr_hops = [], hr_learned_at = [], hr_last_route_activity_at = [],
      hr_responsiveness = [], hr_receiving_interface = [], hr_next_hop = [], hr_retention = [],
      hr_evidence_id = [], hr_index = heap_lemire_default, hr_interface_index = LinearRouteInterfaceIndex\<rparr>"

definition heap_routes_capacity :: "heap_route_table \<Rightarrow> nat" where
  "heap_routes_capacity r = HEAP_LEMIRE_MAX_ROWS"

definition heap_routes_len :: "heap_route_table \<Rightarrow> nat" where
  "heap_routes_len r = length (hr_destination r)"

definition heap_routes_index_of :: "destination_hash \<Rightarrow> heap_route_table \<Rightarrow> nat option option" where
  "heap_routes_index_of destination r = heap_lemire_get destination_rows (hr_index r) destination (hr_destination r)"

definition heap_routes_count_via :: "interface_id \<Rightarrow> heap_route_table \<Rightarrow> nat" where
  "heap_routes_count_via interface r = linear_if_route_count_via interface (hr_receiving_interface r)"

definition heap_routes_repoint ::
  "interface_id \<Rightarrow> interface_id \<Rightarrow> instant_millis \<Rightarrow> heap_route_table \<Rightarrow> nat \<times> heap_route_table" where
  "heap_routes_repoint previous current now r =
     (case linear_if_repoint previous current now (hr_receiving_interface r) (hr_last_route_activity_at r) of
        (moved, interfaces, activity) \<Rightarrow>
          (moved, r\<lparr>hr_receiving_interface := interfaces, hr_last_route_activity_at := activity\<rparr>))"

definition heap_routes_set_row :: "nat \<Rightarrow> route_entry \<Rightarrow> heap_route_table \<Rightarrow> heap_route_table" where
  "heap_routes_set_row i row r =
     r\<lparr>hr_interface_index :=
         linear_if_update i (hr_receiving_interface r ! i) (re_receiving_interface row) (hr_interface_index r),
       hr_hops := (hr_hops r)[i := re_hops row],
       hr_learned_at := (hr_learned_at r)[i := re_learned_at row],
       hr_last_route_activity_at := (hr_last_route_activity_at r)[i := re_last_route_activity_at row],
       hr_responsiveness := (hr_responsiveness r)[i := re_responsiveness row],
       hr_receiving_interface := (hr_receiving_interface r)[i := re_receiving_interface row],
       hr_next_hop := (hr_next_hop r)[i := re_next_hop row],
       hr_retention := (hr_retention r)[i := re_retention row]\<rparr>"

definition heap_routes_set_evidence_id :: "nat \<Rightarrow> evidence_id \<Rightarrow> heap_route_table \<Rightarrow> heap_route_table" where
  "heap_routes_set_evidence_id i v r = r\<lparr>hr_evidence_id := (hr_evidence_id r)[i := v]\<rparr>"

text \<open>The nine \<open>push\<close> calls on the columns.\<close>

definition heap_routes_push_columns ::
  "destination_hash \<Rightarrow> evidence_id \<Rightarrow> route_entry \<Rightarrow> heap_route_table \<Rightarrow> heap_route_table" where
  "heap_routes_push_columns destination v row r =
     r\<lparr>hr_destination := hr_destination r @ [destination],
       hr_evidence_id := hr_evidence_id r @ [v],
       hr_hops := hr_hops r @ [re_hops row],
       hr_learned_at := hr_learned_at r @ [re_learned_at row],
       hr_last_route_activity_at := hr_last_route_activity_at r @ [re_last_route_activity_at row],
       hr_responsiveness := hr_responsiveness r @ [re_responsiveness row],
       hr_receiving_interface := hr_receiving_interface r @ [re_receiving_interface row],
       hr_next_hop := hr_next_hop r @ [re_next_hop row],
       hr_retention := hr_retention r @ [re_retention row]\<rparr>"

definition heap_routes_push ::
  "destination_hash \<Rightarrow> evidence_id \<Rightarrow> route_entry \<Rightarrow> heap_route_table
     \<Rightarrow> (table_push_error + nat \<times> heap_route_table) option" where
  "heap_routes_push destination v row r =
     (if length (hr_destination r) \<ge> heap_routes_capacity r then Some (Inl TableFull)
      else
        let i = length (hr_destination r);
            r = heap_routes_push_columns destination v row r
        in case heap_lemire_insert destination_rows (hr_index r) i (hr_destination r) of
             None \<Rightarrow> None
           | Some index \<Rightarrow>
               Some (Inr (i, r\<lparr>hr_index := index,
                 hr_interface_index := linear_if_insert i (re_receiving_interface row) (hr_interface_index r)\<rparr>)))"

text \<open>The nine \<open>swap_remove\<close> calls on the columns.\<close>

definition heap_routes_swap_remove_columns :: "nat \<Rightarrow> heap_route_table \<Rightarrow> heap_route_table" where
  "heap_routes_swap_remove_columns i r =
     r\<lparr>hr_destination := vec_swap_remove i (hr_destination r),
       hr_hops := vec_swap_remove i (hr_hops r),
       hr_learned_at := vec_swap_remove i (hr_learned_at r),
       hr_last_route_activity_at := vec_swap_remove i (hr_last_route_activity_at r),
       hr_responsiveness := vec_swap_remove i (hr_responsiveness r),
       hr_receiving_interface := vec_swap_remove i (hr_receiving_interface r),
       hr_next_hop := vec_swap_remove i (hr_next_hop r),
       hr_retention := vec_swap_remove i (hr_retention r),
       hr_evidence_id := vec_swap_remove i (hr_evidence_id r)\<rparr>"

definition heap_routes_swap_remove :: "nat \<Rightarrow> nat \<Rightarrow> heap_route_table \<Rightarrow> heap_route_table option" where
  "heap_routes_swap_remove i lst r =
     (let removed = hr_destination r ! i;
          r = r\<lparr>hr_interface_index := linear_if_swap_remove i lst (hr_receiving_interface r) (hr_interface_index r)\<rparr>
      in case heap_lemire_remove destination_rows (hr_index r) removed (hr_destination r) of
           None \<Rightarrow> None
         | Some index \<Rightarrow>
             (case (if i \<noteq> lst
                    then heap_lemire_repoint destination_rows index (hr_destination r ! lst) i (hr_destination r)
                    else Some index) of
                None \<Rightarrow> None
              | Some index \<Rightarrow> Some (heap_routes_swap_remove_columns i (r\<lparr>hr_index := index\<rparr>))))"

text \<open>
  The trait object. Where a probing loop would never end there is no result; the record puts an arbitrary
  one there, which no well-formed table meets.
\<close>

definition heap_routes :: "heap_route_table route_table_methods" where
  "heap_routes =
     \<lparr>rt_capacity = heap_routes_capacity, rt_len = heap_routes_len, rt_destinations = hr_destination,
      rt_hops = hr_hops, rt_learned_at = hr_learned_at, rt_last_route_activity_at = hr_last_route_activity_at,
      rt_responsiveness = hr_responsiveness, rt_receiving_interfaces = hr_receiving_interface,
      rt_next_hops = hr_next_hop, rt_retentions = hr_retention, rt_evidence_ids = hr_evidence_id,
      rt_set_row = heap_routes_set_row, rt_set_evidence_id = heap_routes_set_evidence_id,
      rt_push = (\<lambda>d v e r. case heap_routes_push d v e r of Some res \<Rightarrow> res | None \<Rightarrow> Inl TableFull),
      rt_swap_remove = (\<lambda>i lst r. case heap_routes_swap_remove i lst r of Some r \<Rightarrow> r | None \<Rightarrow> r),
      rt_index_of = (\<lambda>d r. case heap_routes_index_of d r of Some found \<Rightarrow> found | None \<Rightarrow> None),
      rt_route_count_via = heap_routes_count_via,
      rt_repoint_receiving_interface = heap_routes_repoint\<rparr>"

section \<open>The fixed-size table with an index\<close>

text \<open>The Rust struct has the columns of \<open>FixedArrayRouteTable\<close> and the index side by side.\<close>

record fixed_indexed_route_table =
  fx_columns :: fixed_route_table
  fx_index :: "u16 list"

definition fixed_indexed_default :: "nat \<Rightarrow> nat \<Rightarrow> fixed_indexed_route_table" where
  "fixed_indexed_default n buckets =
     \<lparr>fx_columns = fixed_routes_default n, fx_index = lemire_new buckets\<rparr>"

definition fixed_indexed_index_of :: "destination_hash \<Rightarrow> fixed_indexed_route_table \<Rightarrow> nat option option" where
  "fixed_indexed_index_of destination r =
     lemire_get destination_rows (fx_index r) destination (fr_destination (fx_columns r))"

definition fixed_indexed_set_row :: "nat \<Rightarrow> route_entry \<Rightarrow> fixed_indexed_route_table \<Rightarrow> fixed_indexed_route_table" where
  "fixed_indexed_set_row i row r = r\<lparr>fx_columns := fixed_routes_set_row i row (fx_columns r)\<rparr>"

definition fixed_indexed_set_evidence_id ::
  "nat \<Rightarrow> evidence_id \<Rightarrow> fixed_indexed_route_table \<Rightarrow> fixed_indexed_route_table" where
  "fixed_indexed_set_evidence_id i v r = r\<lparr>fx_columns := fixed_routes_set_evidence_id i v (fx_columns r)\<rparr>"

definition fixed_indexed_push ::
  "destination_hash \<Rightarrow> evidence_id \<Rightarrow> route_entry \<Rightarrow> fixed_indexed_route_table
     \<Rightarrow> (table_push_error + nat \<times> fixed_indexed_route_table) option" where
  "fixed_indexed_push destination v row r =
     (case fixed_routes_push destination v row (fx_columns r) of
        Inl e \<Rightarrow> Some (Inl e)
      | Inr (i, columns) \<Rightarrow>
          map_option (\<lambda>index. Inr (i, \<lparr>fx_columns = columns, fx_index = index\<rparr>))
            (lemire_insert destination_rows (fx_index r) i (fr_destination columns)))"

definition fixed_indexed_swap_remove ::
  "nat \<Rightarrow> nat \<Rightarrow> fixed_indexed_route_table \<Rightarrow> fixed_indexed_route_table option" where
  "fixed_indexed_swap_remove i lst r =
     (let destination = fr_destination (fx_columns r); removed = destination ! i
      in case lemire_remove destination_rows (fx_index r) removed destination of
           None \<Rightarrow> None
         | Some index \<Rightarrow>
             (case (if i \<noteq> lst then lemire_repoint destination_rows index (destination ! lst) i destination
                    else Some index) of
                None \<Rightarrow> None
              | Some index \<Rightarrow>
                  Some \<lparr>fx_columns = fixed_routes_swap_remove i lst (fx_columns r), fx_index = index\<rparr>))"

definition fixed_indexed_ops :: "fixed_indexed_route_table route_table_ops" where
  "fixed_indexed_ops =
     \<lparr>rt_capacity = fixed_routes_capacity \<circ> fx_columns, rt_len = fr_len \<circ> fx_columns,
      rt_destinations = fixed_routes_column fr_destination \<circ> fx_columns,
      rt_hops = fixed_routes_column fr_hops \<circ> fx_columns,
      rt_learned_at = fixed_routes_column fr_learned_at \<circ> fx_columns,
      rt_last_route_activity_at = fixed_routes_column fr_last_route_activity_at \<circ> fx_columns,
      rt_responsiveness = fixed_routes_column fr_responsiveness \<circ> fx_columns,
      rt_receiving_interfaces = fixed_routes_column fr_receiving_interface \<circ> fx_columns,
      rt_next_hops = fixed_routes_column fr_next_hop \<circ> fx_columns,
      rt_retentions = fixed_routes_column fr_retention \<circ> fx_columns,
      rt_evidence_ids = fixed_routes_column fr_evidence_id \<circ> fx_columns,
      rt_set_row = fixed_indexed_set_row, rt_set_evidence_id = fixed_indexed_set_evidence_id,
      rt_push = (\<lambda>d v e r. case fixed_indexed_push d v e r of Some res \<Rightarrow> res | None \<Rightarrow> Inl TableFull),
      rt_swap_remove = (\<lambda>i lst r. case fixed_indexed_swap_remove i lst r of Some r \<Rightarrow> r | None \<Rightarrow> r)\<rparr>"

definition fixed_indexed_routes :: "fixed_indexed_route_table route_table_methods" where
  "fixed_indexed_routes =
     (with_default_methods fixed_indexed_ops)
       \<lparr>rt_index_of := \<lambda>d r. case fixed_indexed_index_of d r of Some found \<Rightarrow> found | None \<Rightarrow> None\<rparr>"

section \<open>The index follows the table\<close>

lemma destination_rows_sel [simp]: "index_key destination_rows = (\<lambda>d. d)"
  by (simp add: destination_rows_def)

lemma distinct_prefix_inj: "distinct (take n ds) \<Longrightarrow> n \<le> length ds \<Longrightarrow> inj_on ((!) ds) {..<n}"
  by (auto simp: inj_on_def distinct_conv_nth)

text \<open>Both tables search the rows below \<open>n\<close>, of which no two have the same destination.\<close>

lemma index_lookup:
  assumes ok: "lemire_ok destination_rows slots ds {..<n}" and dist: "distinct (take n ds)"
  shows "lemire_get destination_rows slots d ds = Some (position (\<lambda>c. c = d) (take n ds))"
proof -
  have n: "n \<le> length ds" using ok by (simp add: lemire_ok_def)
  have inj: "inj_on (\<lambda>s. index_key destination_rows (ds ! s)) {..<n}"
    using distinct_prefix_inj [OF dist n] by simp
  show ?thesis
  proof (cases "position (\<lambda>c. c = d) (take n ds)")
    case None
    then have "\<forall>s\<in>{..<n}. ds ! s \<noteq> d" using n by (fastforce simp: position_None_iff set_conv_nth)
    with None lemire_get_correct(2) [OF ok inj, of d] show ?thesis by simp
  next
    case (Some s)
    then have "s \<in> {..<n}" "ds ! s = d" by (auto simp: position_Some_iff)
    with Some lemire_get_correct(1) [OF ok inj, of s d] show ?thesis by simp
  qed
qed

lemma index_swap_remove:
  fixes slots :: "'w::len word list"
  assumes key: "\<And>d. index_key K d = d" and ok: "lemire_ok K slots ds {..<Suc lst}" and dist: "distinct (take (Suc lst) ds)"
    and i: "i \<le> lst" and fits: "lst \<le> length ds'" "length ds' \<le> 2 ^ LENGTH('w) - 1"
    and ds': "\<And>j. j < lst \<Longrightarrow> ds' ! j = (if j = i then ds ! lst else ds ! j)"
  shows "\<exists>index index'. lemire_remove K slots (ds ! i) ds = Some index
    \<and> (if i \<noteq> lst then lemire_repoint K index (ds ! lst) i ds else Some index) = Some index'
    \<and> length index' = length slots \<and> lemire_ok K index' ds' {..<lst}"
proof -
  have n: "Suc lst \<le> length ds" using ok by (simp add: lemire_ok_def)
  have inj: "inj_on (\<lambda>s. index_key K (ds ! s)) {..<Suc lst}"
    using distinct_prefix_inj [OF dist n] by (simp add: key)
  then have live: "{s \<in> {..<Suc lst}. index_key K (ds ! s) \<noteq> ds ! i} = {..<Suc lst} - {i}"
    using i by (auto simp: inj_on_def key)
  obtain index where index: "lemire_remove K slots (ds ! i) ds = Some index"
    "length index = length slots" "lemire_ok K index ds ({..<Suc lst} - {i})"
    using lemire_remove_correct [OF ok inj, of "ds ! i"] live by auto
  show ?thesis
  proof (cases "i = lst")
    case True
    have "lemire_ok K index ds' {..<lst}"
    proof (rule lemire_ok_rows)
      show "lemire_ok K index ds {..<lst}" using index(3) True by (simp add: lessThan_Suc)
    qed (use True fits ds' in auto)
    with index True show ?thesis by simp
  next
    case False
    have "\<exists>index'. lemire_repoint K index (index_key K (ds ! lst)) i ds = Some index'
        \<and> length index' = length index \<and> lemire_ok K index' ds' (insert i ({..<Suc lst} - {i} - {lst}))"
      by (rule lemire_repoint_correct [OF index(3)])
        (use False i fits ds' inj in \<open>auto simp: key intro: inj_on_subset\<close>)
    moreover have "insert i ({..<Suc lst} - {i} - {lst}) = {..<lst}" using False i by auto
    ultimately show ?thesis using index False by (auto simp: key)
  qed
qed

section \<open>The growable table keeps the contract\<close>

definition heap_routes_columns_ok :: "heap_route_table \<Rightarrow> bool" where
  "heap_routes_columns_ok r =
     (let n = length (hr_destination r)
      in length (hr_hops r) = n \<and> length (hr_learned_at r) = n \<and> length (hr_last_route_activity_at r) = n
         \<and> length (hr_responsiveness r) = n \<and> length (hr_receiving_interface r) = n
         \<and> length (hr_next_hop r) = n \<and> length (hr_retention r) = n \<and> length (hr_evidence_id r) = n)"

definition heap_routes_ok :: "heap_route_table \<Rightarrow> bool" where
  "heap_routes_ok r =
     (heap_routes_columns_ok r \<and> distinct (hr_destination r) \<and> length (hr_index r) \<le> USIZE_MAX
      \<and> lemire_ok destination_rows (hr_index r) (hr_destination r) {..<heap_routes_len r})"

definition heap_routes_row_at :: "heap_route_table \<Rightarrow> nat \<Rightarrow> route_row" where
  "heap_routes_row_at r i =
     \<lparr>rr_destination = hr_destination r ! i, rr_evidence_id = hr_evidence_id r ! i,
      rr_entry = \<lparr>re_hops = hr_hops r ! i, re_learned_at = hr_learned_at r ! i,
        re_last_route_activity_at = hr_last_route_activity_at r ! i,
        re_responsiveness = hr_responsiveness r ! i, re_receiving_interface = hr_receiving_interface r ! i,
        re_next_hop = hr_next_hop r ! i, re_retention = hr_retention r ! i\<rparr>\<rparr>"

definition heap_routes_rows :: "heap_route_table \<Rightarrow> route_row list" where
  "heap_routes_rows r = map (heap_routes_row_at r) [0..<heap_routes_len r]"

lemma length_heap_routes_rows [simp]: "length (heap_routes_rows r) = heap_routes_len r"
  by (simp add: heap_routes_rows_def)

lemma nth_heap_routes_rows [simp]: "i < heap_routes_len r \<Longrightarrow> heap_routes_rows r ! i = heap_routes_row_at r i"
  by (simp add: heap_routes_rows_def)

lemma heap_routes_columns:
  assumes "heap_routes_columns_ok r"
  shows "map rr_destination (heap_routes_rows r) = hr_destination r"
    "map (re_hops \<circ> rr_entry) (heap_routes_rows r) = hr_hops r"
    "map (re_learned_at \<circ> rr_entry) (heap_routes_rows r) = hr_learned_at r"
    "map (re_last_route_activity_at \<circ> rr_entry) (heap_routes_rows r) = hr_last_route_activity_at r"
    "map (re_responsiveness \<circ> rr_entry) (heap_routes_rows r) = hr_responsiveness r"
    "map (re_receiving_interface \<circ> rr_entry) (heap_routes_rows r) = hr_receiving_interface r"
    "map (re_next_hop \<circ> rr_entry) (heap_routes_rows r) = hr_next_hop r"
    "map (re_retention \<circ> rr_entry) (heap_routes_rows r) = hr_retention r"
    "map rr_evidence_id (heap_routes_rows r) = hr_evidence_id r"
  using assms
  by (auto simp: heap_routes_columns_ok_def heap_routes_len_def heap_routes_row_at_def Let_def intro!: nth_equalityI)

lemma heap_routes_len_le: "heap_routes_ok r \<Longrightarrow> heap_routes_len r \<le> HEAP_LEMIRE_MAX_ROWS"
  by (simp add: heap_routes_ok_def heap_routes_len_def lemire_ok_def HEAP_LEMIRE_MAX_ROWS_def)

lemma heap_routes_default_ok: "heap_routes_ok heap_routes_default"
proof -
  have "lemire_ok destination_rows heap_lemire_default [] {}"
    unfolding heap_lemire_default_def by (rule lemire_ok_new) (simp_all add: MIN_BUCKETS_def)
  then show ?thesis
    by (simp add: heap_routes_ok_def heap_routes_columns_ok_def heap_routes_default_def heap_routes_len_def
        heap_lemire_default_def MIN_BUCKETS_def USIZE_MAX_def)
qed

lemma heap_routes_index_of_correct:
  assumes "heap_routes_ok r"
  shows "heap_routes_index_of d r = Some (position (\<lambda>row. rr_destination row = d) (heap_routes_rows r))"
proof -
  have "position (\<lambda>row. rr_destination row = d) (heap_routes_rows r) = position (\<lambda>c. c = d) (map rr_destination (heap_routes_rows r))"
    by (simp add: position_map)
  also have "map rr_destination (heap_routes_rows r) = take (heap_routes_len r) (hr_destination r)"
    using assms heap_routes_columns(1) [of r] by (simp add: heap_routes_ok_def heap_routes_len_def)
  finally show ?thesis
    using assms index_lookup [of "hr_index r" "hr_destination r" "heap_routes_len r" d]
    by (simp add: heap_routes_index_of_def heap_routes_ok_def heap_lemire_shared heap_routes_len_def)
qed

lemma heap_routes_set_row_rows:
  assumes "heap_routes_ok r" "i < heap_routes_len r"
  shows "heap_routes_ok (heap_routes_set_row i e r)"
    and "heap_routes_rows (heap_routes_set_row i e r) = (heap_routes_rows r)[i := (heap_routes_row_at r i)\<lparr>rr_entry := e\<rparr>]"
proof -
  have cols: "heap_routes_columns_ok r" using assms(1) by (simp add: heap_routes_ok_def)
  show "heap_routes_ok (heap_routes_set_row i e r)"
    using assms(1) by (simp add: heap_routes_ok_def heap_routes_columns_ok_def heap_routes_set_row_def heap_routes_len_def Let_def)
  have len: "heap_routes_len (heap_routes_set_row i e r) = heap_routes_len r"
    by (simp add: heap_routes_len_def heap_routes_set_row_def)
  have row: "heap_routes_row_at (heap_routes_set_row i e r) j =
      (if j = i then (heap_routes_row_at r i)\<lparr>rr_entry := e\<rparr> else heap_routes_row_at r j)" for j
    using assms(2) cols
    by (cases e) (simp add: heap_routes_row_at_def heap_routes_set_row_def heap_routes_columns_ok_def heap_routes_len_def Let_def)
  show "heap_routes_rows (heap_routes_set_row i e r) = (heap_routes_rows r)[i := (heap_routes_row_at r i)\<lparr>rr_entry := e\<rparr>]"
    using assms(2) by (intro nth_equalityI) (simp_all add: len row nth_list_update)
qed

lemma heap_routes_set_evidence_id_rows:
  assumes "heap_routes_ok r" "i < heap_routes_len r"
  shows "heap_routes_ok (heap_routes_set_evidence_id i v r)"
    and "heap_routes_rows (heap_routes_set_evidence_id i v r) =
      (heap_routes_rows r)[i := (heap_routes_row_at r i)\<lparr>rr_evidence_id := v\<rparr>]"
proof -
  have cols: "heap_routes_columns_ok r" using assms(1) by (simp add: heap_routes_ok_def)
  show "heap_routes_ok (heap_routes_set_evidence_id i v r)"
    using assms(1)
    by (simp add: heap_routes_ok_def heap_routes_columns_ok_def heap_routes_set_evidence_id_def heap_routes_len_def Let_def)
  have len: "heap_routes_len (heap_routes_set_evidence_id i v r) = heap_routes_len r"
    by (simp add: heap_routes_len_def heap_routes_set_evidence_id_def)
  have row: "heap_routes_row_at (heap_routes_set_evidence_id i v r) j =
      (if j = i then (heap_routes_row_at r i)\<lparr>rr_evidence_id := v\<rparr> else heap_routes_row_at r j)" for j
    using assms(2) cols
    by (simp add: heap_routes_row_at_def heap_routes_set_evidence_id_def heap_routes_columns_ok_def heap_routes_len_def Let_def)
  show "heap_routes_rows (heap_routes_set_evidence_id i v r) =
      (heap_routes_rows r)[i := (heap_routes_row_at r i)\<lparr>rr_evidence_id := v\<rparr>]"
    using assms(2) by (intro nth_equalityI) (simp_all add: len row nth_list_update)
qed

lemma heap_routes_push_rows:
  assumes ok: "heap_routes_ok r" and room: "heap_routes_len r < HEAP_LEMIRE_MAX_ROWS"
    and new: "d \<notin> set (hr_destination r)"
  shows "\<exists>r'. heap_routes_push d v e r = Some (Inr (heap_routes_len r, r')) \<and> heap_routes_ok r'
    \<and> heap_routes_rows r' = heap_routes_rows r @ [\<lparr>rr_destination = d, rr_evidence_id = v, rr_entry = e\<rparr>]"
proof -
  let ?n = "heap_routes_len r" and ?q = "heap_routes_push_columns d v e r"
  let ?new = "\<lparr>rr_destination = d, rr_evidence_id = v, rr_entry = e\<rparr>"
  have cols: "heap_routes_columns_ok r" using ok by (simp add: heap_routes_ok_def)
  have "lemire_ok destination_rows (hr_index r) (hr_destination r @ [d]) {..<?n}"
    using ok room by (intro lemire_ok_push) (simp_all add: heap_routes_ok_def heap_routes_len_def HEAP_LEMIRE_MAX_ROWS_def)
  from heap_lemire_insert_correct [OF this] ok obtain index where
    index: "heap_lemire_insert destination_rows (hr_index r) ?n (hr_destination r @ [d]) = Some index"
      "lemire_ok destination_rows index (hr_destination r @ [d]) {..<Suc ?n}"
    by (auto simp: heap_routes_ok_def heap_routes_len_def)
  define r' where "r' = ?q\<lparr>hr_index := index,
    hr_interface_index := linear_if_insert ?n (re_receiving_interface e) (hr_interface_index ?q)\<rparr>"
  have push: "heap_routes_push d v e r = Some (Inr (?n, r'))"
    using index(1) room
    by (simp add: heap_routes_push_def heap_routes_capacity_def r'_def heap_routes_len_def heap_routes_push_columns_def Let_def)
  have "length index \<le> USIZE_MAX"
    using heap_lemire_insert_length [OF index(1)] ok by (simp add: heap_routes_ok_def)
  then have ok': "heap_routes_ok r'"
    using ok index(2) new
    by (simp add: heap_routes_ok_def heap_routes_columns_ok_def heap_routes_len_def r'_def heap_routes_push_columns_def Let_def)
  have len: "heap_routes_len r' = Suc ?n"
    by (simp add: heap_routes_len_def r'_def heap_routes_push_columns_def)
  have row: "heap_routes_row_at r' j = (if j = ?n then ?new else heap_routes_row_at r j)" if "j \<le> ?n" for j
    using that cols
    by (cases e) (auto simp: heap_routes_row_at_def r'_def heap_routes_push_columns_def heap_routes_columns_ok_def
        heap_routes_len_def nth_append Let_def)
  have "heap_routes_rows r' = heap_routes_rows r @ [?new]"
    by (intro nth_equalityI) (auto simp: len row nth_append less_Suc_eq)
  with push ok' show ?thesis by blast
qed

lemma heap_routes_swap_remove_rows:
  assumes ok: "heap_routes_ok r" and i: "i < heap_routes_len r"
  shows "\<exists>r'. heap_routes_swap_remove i (heap_routes_len r - 1) r = Some r' \<and> heap_routes_ok r'
    \<and> heap_routes_rows r' = vec_swap_remove i (heap_routes_rows r)"
proof -
  let ?n = "heap_routes_len r" and ?ds = "hr_destination r"
  have n: "Suc (?n - 1) = ?n" "length ?ds = ?n" using i by (simp_all add: heap_routes_len_def)
  have ne: "xs \<noteq> []" if "length xs = ?n" for xs :: "'c list" using that i by auto
  have nth: "vec_swap_remove i xs ! j = (if j = i then xs ! (?n - 1) else xs ! j)"
    if "length xs = ?n" "j < ?n - 1" for xs :: "'c list" and j
    using that i ne [OF that(1)] by (simp add: nth_vec_swap_remove last_conv_nth)
  have fits: "length (vec_swap_remove i ?ds) \<le> 2 ^ LENGTH(32) - 1"
    using heap_routes_len_le [OF ok] n by (simp add: HEAP_LEMIRE_MAX_ROWS_def)
  have "\<exists>index index'. lemire_remove destination_rows (hr_index r) (?ds ! i) ?ds = Some index
    \<and> (if i \<noteq> ?n - 1 then lemire_repoint destination_rows index (?ds ! (?n - 1)) i ?ds else Some index) = Some index'
    \<and> length index' = length (hr_index r) \<and> lemire_ok destination_rows index' (vec_swap_remove i ?ds) {..<?n - 1}"
  proof (rule index_swap_remove)
    show "lemire_ok destination_rows (hr_index r) ?ds {..<Suc (?n - 1)}" "distinct (take (Suc (?n - 1)) ?ds)"
      using ok n by (simp_all only: heap_routes_ok_def take_all order.refl)
    show "vec_swap_remove i ?ds ! j = (if j = i then ?ds ! (?n - 1) else ?ds ! j)" if "j < ?n - 1" for j
      by (rule nth [OF n(2) that])
  qed (use i n fits in simp_all)
  then obtain index index' where index: "lemire_remove destination_rows (hr_index r) (?ds ! i) ?ds = Some index"
    "(if i \<noteq> ?n - 1 then lemire_repoint destination_rows index (?ds ! (?n - 1)) i ?ds else Some index) = Some index'"
    "length index' = length (hr_index r)" "lemire_ok destination_rows index' (vec_swap_remove i ?ds) {..<?n - 1}"
    by blast
  define r' where "r' = heap_routes_swap_remove_columns i (r\<lparr>hr_interface_index :=
      linear_if_swap_remove i (?n - 1) (hr_receiving_interface r) (hr_interface_index r), hr_index := index'\<rparr>)"
  have res: "heap_routes_swap_remove i (?n - 1) r = Some r'"
    using index(1,2) by (auto simp: heap_routes_swap_remove_def heap_lemire_shared r'_def Let_def split: if_splits)
  have cols: "heap_routes_columns_ok r" "heap_routes_columns_ok r'" and len: "heap_routes_len r' = ?n - 1"
    using ok by (simp_all add: heap_routes_ok_def heap_routes_columns_ok_def r'_def heap_routes_swap_remove_columns_def
        heap_routes_len_def Let_def)
  have "distinct (vec_swap_remove i ?ds)"
    using set_vec_swap_remove(2) [of i ?ds "\<lambda>d. d"] ok i n(2) by (simp add: heap_routes_ok_def)
  then have ok': "heap_routes_ok r'"
    using ok index(3,4) cols(2) len by (simp add: heap_routes_ok_def r'_def heap_routes_swap_remove_columns_def)
  have row: "heap_routes_row_at r' j = (if j = i then heap_routes_row_at r (?n - 1) else heap_routes_row_at r j)"
    if "j < ?n - 1" for j
    using that cols(1)
    by (simp add: heap_routes_row_at_def r'_def heap_routes_swap_remove_columns_def nth heap_routes_columns_ok_def
        heap_routes_len_def Let_def)
  have "last (heap_routes_rows r) = heap_routes_row_at r (?n - 1)"
    using i ne [of "heap_routes_rows r"] by (simp add: last_conv_nth)
  then have "heap_routes_rows r' = vec_swap_remove i (heap_routes_rows r)"
    using i by (intro nth_equalityI) (simp_all add: len row nth_vec_swap_remove)
  with res ok' show ?thesis by blast
qed

lemma linear_if_repoint_rows_correct:
  assumes "distinct todo" "set todo \<subseteq> {..<length interfaces}" "length activity = length interfaces"
    and "linear_if_repoint_rows previous current now todo interfaces activity moved = (m, interfaces', activity')"
  shows "length interfaces' = length interfaces \<and> length activity' = length interfaces
    \<and> (\<forall>j<length interfaces.
        interfaces' ! j = (if j \<in> set todo \<and> interfaces ! j = previous then current else interfaces ! j)
        \<and> activity' ! j = (if j \<in> set todo \<and> interfaces ! j = previous then now else activity ! j))
    \<and> m = moved + length (filter (\<lambda>j. interfaces ! j = previous) todo)"
  using assms
proof (induction todo arbitrary: interfaces activity moved)
  case Nil
  then show ?case by simp
next
  case (Cons row rest)
  show ?case
  proof (cases "interfaces ! row = previous")
    case False
    with Cons show ?thesis by auto
  next
    case True
    have same: "filter (\<lambda>j. interfaces[row := current] ! j = previous) rest = filter (\<lambda>j. interfaces ! j = previous) rest"
      using Cons.prems(1) by (intro filter_cong) (simp, metis distinct.simps(2) nth_list_update_neq)
    have step: "linear_if_repoint_rows previous current now rest (interfaces[row := current]) (activity[row := now])
        (moved + 1) = (m, interfaces', activity')"
      using Cons.prems(4) True by simp
    have "set rest \<subseteq> {..<length (interfaces[row := current])}" "row < length interfaces"
      using Cons.prems(2) by simp_all
    from Cons.IH [OF _ this(1) _ step] this(2) Cons.prems(1,3) True show ?thesis
      unfolding same by (auto simp: nth_list_update)
  qed
qed

lemma heap_routes_repoint_rows:
  assumes ok: "heap_routes_ok r" and res: "heap_routes_repoint previous current now r = (m, r')"
  shows "heap_routes_ok r' \<and> heap_routes_rows r' = map (repoint_row previous current now) (heap_routes_rows r)
    \<and> m = length (filter (\<lambda>row. re_receiving_interface (rr_entry row) = previous) (heap_routes_rows r))"
proof -
  let ?n = "heap_routes_len r" and ?is = "hr_receiving_interface r"
  have cols: "heap_routes_columns_ok r" using ok by (simp add: heap_routes_ok_def)
  have n: "length ?is = ?n" "length (hr_last_route_activity_at r) = ?n"
    using cols by (simp_all add: heap_routes_columns_ok_def heap_routes_len_def Let_def)
  obtain is' as' where rp: "linear_if_repoint_rows previous current now [0..<?n] ?is (hr_last_route_activity_at r) 0 = (m, is', as')"
    and r': "r' = r\<lparr>hr_receiving_interface := is', hr_last_route_activity_at := as'\<rparr>"
    using res n by (auto simp: heap_routes_repoint_def linear_if_repoint_def split: prod.splits)
  from linear_if_repoint_rows_correct [OF _ _ _ rp] n
  have c: "length is' = ?n" "length as' = ?n"
    "\<And>j. j < ?n \<Longrightarrow> is' ! j = (if ?is ! j = previous then current else ?is ! j)"
    "\<And>j. j < ?n \<Longrightarrow> as' ! j = (if ?is ! j = previous then now else hr_last_route_activity_at r ! j)"
    "m = length (filter (\<lambda>j. ?is ! j = previous) [0..<?n])"
    by (simp_all add: atLeast0LessThan)
  have "heap_routes_ok r'" "heap_routes_len r' = ?n"
    using ok c(1,2) by (simp_all add: r' heap_routes_ok_def heap_routes_columns_ok_def heap_routes_len_def Let_def)
  moreover have "heap_routes_row_at r' j = repoint_row previous current now (heap_routes_row_at r j)" if "j < ?n" for j
    using c(3,4) [OF that] by (simp add: r' heap_routes_row_at_def repoint_row_def)
  then have "heap_routes_rows r' = map (repoint_row previous current now) (heap_routes_rows r)"
    using \<open>heap_routes_len r' = ?n\<close> by (intro nth_equalityI) simp_all
  moreover have "length (filter (\<lambda>row. re_receiving_interface (rr_entry row) = previous) (heap_routes_rows r)) = m"
    unfolding c(5) heap_routes_rows_def filter_map by (simp add: o_def heap_routes_row_at_def)
  ultimately show ?thesis by simp
qed

lemma heap_routes_count_via_rows:
  assumes "heap_routes_ok r"
  shows "heap_routes_count_via i r = length (filter (\<lambda>row. re_receiving_interface (rr_entry row) = i) (heap_routes_rows r))"
proof -
  have "hr_receiving_interface r = map (re_receiving_interface \<circ> rr_entry) (heap_routes_rows r)"
    using assms heap_routes_columns(6) [of r] by (simp add: heap_routes_ok_def)
  then show ?thesis
    by (simp add: heap_routes_count_via_def linear_if_route_count_via_def filter_map o_def)
qed

lemma heap_routes_sel:
  "rt_capacity heap_routes = heap_routes_capacity" "rt_len heap_routes = heap_routes_len"
  "rt_destinations heap_routes = hr_destination" "rt_hops heap_routes = hr_hops"
  "rt_learned_at heap_routes = hr_learned_at"
  "rt_last_route_activity_at heap_routes = hr_last_route_activity_at"
  "rt_responsiveness heap_routes = hr_responsiveness"
  "rt_receiving_interfaces heap_routes = hr_receiving_interface" "rt_next_hops heap_routes = hr_next_hop"
  "rt_retentions heap_routes = hr_retention" "rt_evidence_ids heap_routes = hr_evidence_id"
  "rt_set_row heap_routes = heap_routes_set_row" "rt_set_evidence_id heap_routes = heap_routes_set_evidence_id"
  "rt_route_count_via heap_routes = heap_routes_count_via"
  "rt_repoint_receiving_interface heap_routes = heap_routes_repoint"
  by (simp_all add: heap_routes_def)

interpretation heap_rt: route_table heap_routes heap_routes_rows heap_routes_ok
proof (unfold_locales, unfold heap_routes_sel, goal_cases)
  case (1 r)
  then show ?case by simp
next
  case (11 r)
  then show ?case using heap_routes_len_le [OF 11] by (simp add: heap_routes_capacity_def)
next
  case (12 r i e)
  then show ?case using heap_routes_set_row_rows [of r i e] by (simp add: heap_routes_capacity_def)
next
  case (13 r i v)
  then show ?case using heap_routes_set_evidence_id_rows [of r i v] by (simp add: heap_routes_capacity_def)
next
  case (14 r d v e)
  then show ?case by (simp add: heap_routes_def heap_routes_push_def heap_routes_len_def)
next
  case (15 r d v e)
  then have "d \<notin> set (hr_destination r)"
    using heap_routes_columns(1) [of r] by (metis heap_routes_ok_def image_set)
  then show ?case
    using 15 heap_routes_push_rows [of r d v e] by (auto simp: heap_routes_capacity_def heap_routes_def)
next
  case (16 r i)
  then show ?case
    using heap_routes_swap_remove_rows [of r i] by (auto simp: heap_routes_capacity_def heap_routes_def)
next
  case (17 r d)
  then show ?case by (simp add: heap_routes_def heap_routes_index_of_correct)
next
  case (18 r i)
  then show ?case by (rule heap_routes_count_via_rows)
next
  case (19 r previous current now m r')
  then show ?case using heap_routes_repoint_rows [of r previous current now m r'] by (simp add: heap_routes_capacity_def)
qed (simp_all add: heap_routes_columns heap_routes_ok_def)

section \<open>The fixed-size table with an index keeps the contract\<close>

text \<open>\<open>N < u16::MAX\<close> and \<open>BUCKETS >= route_index_buckets(N)\<close> are asserted at compile time.\<close>

definition fixed_indexed_ok :: "fixed_indexed_route_table \<Rightarrow> bool" where
  "fixed_indexed_ok r =
     (let columns = fx_columns r
      in fixed_routes_ok columns \<and> fixed_routes_capacity columns < 2 ^ 16 - 1
         \<and> fixed_routes_capacity columns < length (fx_index r)
         \<and> distinct (take (fr_len columns) (fr_destination columns))
         \<and> lemire_ok destination_rows (fx_index r) (fr_destination columns) {..<fr_len columns})"

lemma fixed_indexed_okD:
  assumes "fixed_indexed_ok r"
  shows "fixed_routes_ok (fx_columns r)" "fixed_routes_capacity (fx_columns r) < 2 ^ 16 - 1"
    "fixed_routes_capacity (fx_columns r) < length (fx_index r)"
    "distinct (take (fr_len (fx_columns r)) (fr_destination (fx_columns r)))"
    "lemire_ok destination_rows (fx_index r) (fr_destination (fx_columns r)) {..<fr_len (fx_columns r)}"
  using assms by (simp_all add: fixed_indexed_ok_def Let_def)

lemma fixed_indexed_default_ok:
  assumes "n < 2 ^ 16 - 1" "route_index_buckets n \<le> buckets"
  shows "fixed_indexed_ok (fixed_indexed_default n buckets)"
proof -
  have "n < buckets"
    using assms
    by (auto simp: route_index_buckets_def buckets_for_two_thirds_load_def div_ceil_def USIZE_MAX_def split: if_splits)
  moreover have "lemire_ok destination_rows (lemire_new buckets :: u16 list) (fr_destination (fixed_routes_default n)) {}"
    unfolding lemire_new_def using assms \<open>n < buckets\<close>
    by (intro lemire_ok_new) (simp_all add: fixed_routes_default_def)
  ultimately show ?thesis
    using assms(1) fixed_routes_default_ok [of n]
    by (simp add: fixed_indexed_ok_def fixed_indexed_default_def lemire_new_def Let_def fixed_routes_capacity_def)
      (simp add: fixed_routes_default_def)
qed

lemma fixed_indexed_index_of_correct:
  assumes "fixed_indexed_ok r"
  shows "fixed_indexed_index_of d r = Some (position (\<lambda>row. rr_destination row = d) (fixed_routes_rows (fx_columns r)))"
proof -
  have "position (\<lambda>row. rr_destination row = d) (fixed_routes_rows (fx_columns r))
      = position (\<lambda>c. c = d) (map rr_destination (fixed_routes_rows (fx_columns r)))"
    by (simp add: position_map)
  also have "map rr_destination (fixed_routes_rows (fx_columns r))
      = take (fr_len (fx_columns r)) (fr_destination (fx_columns r))"
    using fixed_routes_columns(1) [OF fixed_indexed_okD(1) [OF assms]] by (simp add: fixed_routes_column_def)
  finally show ?thesis
    using index_lookup [OF fixed_indexed_okD(5,4) [OF assms]] by (simp add: fixed_indexed_index_of_def)
qed

lemma fixed_indexed_push_rows:
  assumes ok: "fixed_indexed_ok r" and room: "fr_len (fx_columns r) < fixed_routes_capacity (fx_columns r)"
    and new: "d \<notin> rr_destination ` set (fixed_routes_rows (fx_columns r))"
  shows "\<exists>r'. fixed_indexed_push d v e r = Some (Inr (fr_len (fx_columns r), r')) \<and> fixed_indexed_ok r'
    \<and> fixed_routes_capacity (fx_columns r') = fixed_routes_capacity (fx_columns r)
    \<and> fixed_routes_rows (fx_columns r') = fixed_routes_rows (fx_columns r)
        @ [\<lparr>rr_destination = d, rr_evidence_id = v, rr_entry = e\<rparr>]"
proof -
  let ?c = "fx_columns r" and ?n = "fr_len (fx_columns r)"
  note D = fixed_indexed_okD [OF ok]
  obtain c where c: "fixed_routes_push d v e ?c = Inr (?n, c)" "fixed_routes_ok c"
    "fixed_routes_capacity c = fixed_routes_capacity ?c"
    "fixed_routes_rows c = fixed_routes_rows ?c @ [\<lparr>rr_destination = d, rr_evidence_id = v, rr_entry = e\<rparr>]"
    using fixed_routes_push_fits [OF D(1) room] by blast
  have len: "length (fr_destination ?c) = fixed_routes_capacity ?c" by (simp add: fixed_routes_capacity_def)
  have dest: "fr_destination c = (fr_destination ?c)[?n := d]" "fr_len c = Suc ?n"
    using c(1) room by (auto simp: fixed_routes_push_def fixed_routes_set_row_def Let_def split: if_splits)
  have "lemire_ok destination_rows (fx_index r) (fr_destination c) {..<?n}"
    by (rule lemire_ok_rows [OF D(5)]) (use dest len room D(2) in auto)
  from lemire_insert_correct [OF this, of ?n] dest(1) len room D(3) obtain index where
    index: "lemire_insert destination_rows (fx_index r) ?n (fr_destination c) = Some index"
      "length index = length (fx_index r)" "lemire_ok destination_rows index (fr_destination c) (insert ?n {..<?n})"
    by auto
  have "take (Suc ?n) (fr_destination c) = take ?n (fr_destination ?c) @ [d]"
    using dest(1) room len by (simp add: take_column_push)
  moreover have "take ?n (fr_destination ?c) = map rr_destination (fixed_routes_rows ?c)"
    using fixed_routes_columns(1) [OF D(1)] by (simp add: fixed_routes_column_def)
  ultimately have "distinct (take (Suc ?n) (fr_destination c))" using D(4) new by simp
  then have "fixed_indexed_ok \<lparr>fx_columns = c, fx_index = index\<rparr>"
    using D(2,3) c(2,3) index(2,3) dest(2) by (simp add: fixed_indexed_ok_def Let_def lessThan_Suc)
  with c index(1) show ?thesis by (simp add: fixed_indexed_push_def)
qed

lemma fixed_indexed_swap_remove_rows:
  assumes ok: "fixed_indexed_ok r" and i: "i < fr_len (fx_columns r)"
  shows "\<exists>r'. fixed_indexed_swap_remove i (fr_len (fx_columns r) - 1) r = Some r' \<and> fixed_indexed_ok r'
    \<and> fixed_routes_capacity (fx_columns r') = fixed_routes_capacity (fx_columns r)
    \<and> fixed_routes_rows (fx_columns r') = vec_swap_remove i (fixed_routes_rows (fx_columns r))"
proof -
  let ?c = "fx_columns r" and ?n = "fr_len (fx_columns r)" and ?ds = "fr_destination (fx_columns r)"
  define c where "c = fixed_routes_swap_remove i (?n - 1) ?c"
  note D = fixed_indexed_okD [OF ok] and S = fixed_routes_swap_remove_ok [OF fixed_indexed_okD(1) [OF ok] i, folded c_def]
  have n: "Suc (?n - 1) = ?n" "?n \<le> length ?ds" "length ?ds \<le> 2 ^ LENGTH(16) - 1"
    using i fixed_routes_ok_len [OF D(1)] D(2) by (simp_all add: fixed_routes_capacity_def)
  have dest: "fr_destination c = ?ds[i := ?ds ! (?n - 1)]" "fr_len c = ?n - 1"
    by (simp_all add: c_def fixed_routes_swap_remove_def)
  have "\<exists>index index'. lemire_remove destination_rows (fx_index r) (?ds ! i) ?ds = Some index
    \<and> (if i \<noteq> ?n - 1 then lemire_repoint destination_rows index (?ds ! (?n - 1)) i ?ds else Some index) = Some index'
    \<and> length index' = length (fx_index r) \<and> lemire_ok destination_rows index' (fr_destination c) {..<?n - 1}"
  proof (rule index_swap_remove)
    show "lemire_ok destination_rows (fx_index r) ?ds {..<Suc (?n - 1)}" "distinct (take (Suc (?n - 1)) ?ds)"
      unfolding n(1) by (fact D(5), fact D(4))
    show "fr_destination c ! j = (if j = i then ?ds ! (?n - 1) else ?ds ! j)" if "j < ?n - 1" for j
      using i n(2) by (simp add: dest(1))
  qed (use i n dest in simp_all)
  then obtain index index' where index: "lemire_remove destination_rows (fx_index r) (?ds ! i) ?ds = Some index"
    "(if i \<noteq> ?n - 1 then lemire_repoint destination_rows index (?ds ! (?n - 1)) i ?ds else Some index) = Some index'"
    "length index' = length (fx_index r)" "lemire_ok destination_rows index' (fr_destination c) {..<?n - 1}"
    by blast
  have res: "fixed_indexed_swap_remove i (?n - 1) r = Some \<lparr>fx_columns = c, fx_index = index'\<rparr>"
    using index(1,2) by (simp add: fixed_indexed_swap_remove_def c_def Let_def split: if_splits)
  have "take (?n - 1) (fr_destination c) = vec_swap_remove i (take ?n ?ds)"
    unfolding dest(1) using i n(2) by (rule take_column_swap_remove)
  then have "distinct (take (?n - 1) (fr_destination c))"
    using set_vec_swap_remove(2) [of i "take ?n ?ds" "\<lambda>d. d"] D(4) i n(2) by simp
  then have "fixed_indexed_ok \<lparr>fx_columns = c, fx_index = index'\<rparr>"
    using D(2,3) S(1,2) index(3,4) dest(2) by (simp add: fixed_indexed_ok_def Let_def)
  with res S(2,3) show ?thesis by simp
qed

lemma fixed_indexed_sel:
  "rt_capacity fixed_indexed_ops = fixed_routes_capacity \<circ> fx_columns"
  "rt_len fixed_indexed_ops = fr_len \<circ> fx_columns"
  "rt_destinations fixed_indexed_ops = fixed_routes_column fr_destination \<circ> fx_columns"
  "rt_hops fixed_indexed_ops = fixed_routes_column fr_hops \<circ> fx_columns"
  "rt_learned_at fixed_indexed_ops = fixed_routes_column fr_learned_at \<circ> fx_columns"
  "rt_last_route_activity_at fixed_indexed_ops = fixed_routes_column fr_last_route_activity_at \<circ> fx_columns"
  "rt_responsiveness fixed_indexed_ops = fixed_routes_column fr_responsiveness \<circ> fx_columns"
  "rt_receiving_interfaces fixed_indexed_ops = fixed_routes_column fr_receiving_interface \<circ> fx_columns"
  "rt_next_hops fixed_indexed_ops = fixed_routes_column fr_next_hop \<circ> fx_columns"
  "rt_retentions fixed_indexed_ops = fixed_routes_column fr_retention \<circ> fx_columns"
  "rt_evidence_ids fixed_indexed_ops = fixed_routes_column fr_evidence_id \<circ> fx_columns"
  "rt_set_row fixed_indexed_ops = fixed_indexed_set_row"
  "rt_set_evidence_id fixed_indexed_ops = fixed_indexed_set_evidence_id"
  "rt_push fixed_indexed_ops =
     (\<lambda>d v e r. case fixed_indexed_push d v e r of Some res \<Rightarrow> res | None \<Rightarrow> Inl TableFull)"
  "rt_swap_remove fixed_indexed_ops =
     (\<lambda>i lst r. case fixed_indexed_swap_remove i lst r of Some r \<Rightarrow> r | None \<Rightarrow> r)"
  by (simp_all add: fixed_indexed_ops_def)

interpretation fixed_indexed_rr: route_rows fixed_indexed_ops "fixed_routes_rows \<circ> fx_columns" fixed_indexed_ok
proof (unfold_locales, unfold fixed_indexed_sel, goal_cases)
  case (12 r i e)
  then show ?case
    using fixed_routes_set_row_rows [of "fx_columns r" i e]
    by (simp add: fixed_indexed_ok_def fixed_indexed_set_row_def Let_def) (simp add: fixed_routes_set_row_def)
next
  case (13 r i v)
  then show ?case
    using fixed_routes_set_evidence_id_rows [of "fx_columns r" i v]
    by (simp add: fixed_indexed_ok_def fixed_indexed_set_evidence_id_def Let_def)
      (simp add: fixed_routes_set_evidence_id_def)
next
  case (14 r d v e)
  then show ?case by (simp add: fixed_indexed_push_def fixed_routes_push_def)
next
  case (15 r d v e)
  then show ?case using fixed_indexed_push_rows [of r d v e] by auto
next
  case (16 r i)
  then show ?case using fixed_indexed_swap_remove_rows [of r i] by auto
qed (auto dest: fixed_indexed_okD(1) fixed_routes_ok_len simp: fixed_routes_columns)

interpretation fixed_indexed_rt: route_table fixed_indexed_routes "fixed_routes_rows \<circ> fx_columns" fixed_indexed_ok
proof (intro route_table.intro route_table_axioms.intro)
  show "route_rows fixed_indexed_routes (fixed_routes_rows \<circ> fx_columns) fixed_indexed_ok"
    using fixed_indexed_rr.route_rows_axioms unfolding route_rows_def fixed_indexed_routes_def by simp
qed (simp_all add: fixed_indexed_routes_def fixed_indexed_index_of_correct
    fixed_indexed_rr.default_count_via [unfolded o_def] fixed_indexed_rr.default_repoint [unfolded o_def])

section \<open>Properties\<close>

text \<open>
  C12. Indexed lookup. In a well-formed table of either kind the index answers as a scan of the destination
  column would, and no probing loop runs forever: not in a lookup, not when a new destination is pushed
  (the growable index rebuilds itself when it has to), and not when a row is removed and the last one
  takes its place. Pushing and removing keep the table well-formed.
\<close>

theorem indexed_routes_match_scan:
  assumes h: "heap_routes_ok h" and x: "fixed_indexed_ok x"
  shows "heap_routes_index_of d h = Some (position (\<lambda>c. c = d) (hr_destination h))
    \<and> (heap_routes_len h < HEAP_LEMIRE_MAX_ROWS \<and> d \<notin> set (hr_destination h) \<longrightarrow>
        (\<exists>h'. heap_routes_push d v e h = Some (Inr (heap_routes_len h, h')) \<and> heap_routes_ok h'
           \<and> hr_destination h' = hr_destination h @ [d]))
    \<and> (i < heap_routes_len h \<longrightarrow>
        (\<exists>h'. heap_routes_swap_remove i (heap_routes_len h - 1) h = Some h' \<and> heap_routes_ok h'
           \<and> hr_destination h' = vec_swap_remove i (hr_destination h)))
    \<and> fixed_indexed_index_of d x = Some (position (\<lambda>c. c = d) (rt_destinations fixed_indexed_ops x))
    \<and> (rt_len fixed_indexed_ops x < rt_capacity fixed_indexed_ops x \<and> d \<notin> set (rt_destinations fixed_indexed_ops x) \<longrightarrow>
        (\<exists>x'. fixed_indexed_push d v e x = Some (Inr (rt_len fixed_indexed_ops x, x')) \<and> fixed_indexed_ok x'
           \<and> rt_destinations fixed_indexed_ops x' = rt_destinations fixed_indexed_ops x @ [d]))
    \<and> (i < rt_len fixed_indexed_ops x \<longrightarrow>
        (\<exists>x'. fixed_indexed_swap_remove i (rt_len fixed_indexed_ops x - 1) x = Some x' \<and> fixed_indexed_ok x'
           \<and> rt_destinations fixed_indexed_ops x' = vec_swap_remove i (rt_destinations fixed_indexed_ops x)))"
proof -
  have hd: "hr_destination r = map rr_destination (heap_routes_rows r)" if "heap_routes_ok r" for r
    using heap_routes_columns(1) [of r] that by (simp add: heap_routes_ok_def)
  have xd: "rt_destinations fixed_indexed_ops r = map rr_destination (fixed_routes_rows (fx_columns r))"
    if "fixed_indexed_ok r" for r
    using fixed_indexed_rr.columns(1) [OF that] by simp
  have push: "\<exists>h'. heap_routes_push d v e h = Some (Inr (heap_routes_len h, h')) \<and> heap_routes_ok h'
      \<and> hr_destination h' = hr_destination h @ [d]"
    if "heap_routes_len h < HEAP_LEMIRE_MAX_ROWS" "d \<notin> set (hr_destination h)"
    using heap_routes_push_rows [OF h that, of v e] hd h by fastforce
  have remove: "\<exists>h'. heap_routes_swap_remove i (heap_routes_len h - 1) h = Some h' \<and> heap_routes_ok h'
      \<and> hr_destination h' = vec_swap_remove i (hr_destination h)" if "i < heap_routes_len h"
    using heap_routes_swap_remove_rows [OF h that] hd h map_vec_swap_remove [of i "heap_routes_rows h" rr_destination] that
    by fastforce
  have xpush: "\<exists>x'. fixed_indexed_push d v e x = Some (Inr (rt_len fixed_indexed_ops x, x')) \<and> fixed_indexed_ok x'
      \<and> rt_destinations fixed_indexed_ops x' = rt_destinations fixed_indexed_ops x @ [d]"
    if "rt_len fixed_indexed_ops x < rt_capacity fixed_indexed_ops x" "d \<notin> set (rt_destinations fixed_indexed_ops x)"
    using fixed_indexed_push_rows [OF x, of d v e] that xd x by (fastforce simp: fixed_indexed_sel(1,2))
  have xremove: "\<exists>x'. fixed_indexed_swap_remove i (rt_len fixed_indexed_ops x - 1) x = Some x' \<and> fixed_indexed_ok x'
      \<and> rt_destinations fixed_indexed_ops x' = vec_swap_remove i (rt_destinations fixed_indexed_ops x)"
    if "i < rt_len fixed_indexed_ops x"
    using fixed_indexed_swap_remove_rows [OF x, of i] that xd x
      map_vec_swap_remove [of i "fixed_routes_rows (fx_columns x)" rr_destination]
    by (fastforce simp: fixed_indexed_sel(1,2))
  show ?thesis
    using push remove xpush xremove heap_routes_index_of_correct [OF h, of d] hd [OF h]
      fixed_indexed_index_of_correct [OF x, of d] xd [OF x]
    by (simp add: position_map)
qed

theorem indexed_routes_match_scan_witness:
  "heap_routes_index_of (DestinationHash [1]) heap_routes_default = Some None
   \<and> (\<exists>h'. heap_routes_push (DestinationHash [1]) 1 \<lparr>re_hops = 1, re_learned_at = 0, re_last_route_activity_at = 0,
        re_responsiveness = Unknown, re_receiving_interface = InterfaceId [], re_next_hop = Direct, re_retention = Network\<rparr>
        heap_routes_default = Some (Inr (0, h')) \<and> hr_destination h' = [DestinationHash [1]])
   \<and> fixed_indexed_index_of (DestinationHash [1]) (fixed_indexed_default 4 6) = Some None"
proof -
  have "fixed_indexed_ok (fixed_indexed_default 4 6)"
    by (rule fixed_indexed_default_ok)
      (simp_all add: route_index_buckets_def buckets_for_two_thirds_load_def div_ceil_def USIZE_MAX_def)
  from indexed_routes_match_scan [OF heap_routes_default_ok this, of "DestinationHash [1]" 1
      "\<lparr>re_hops = 1, re_learned_at = 0, re_last_route_activity_at = 0, re_responsiveness = Unknown,
        re_receiving_interface = InterfaceId [], re_next_hop = Direct, re_retention = Network\<rparr>"]
  show ?thesis
    by (auto simp: heap_routes_default_def heap_routes_len_def HEAP_LEMIRE_MAX_ROWS_def fixed_indexed_ops_def
        fixed_indexed_default_def fixed_routes_column_def fixed_routes_default_def)
qed

end
