(* ===== verification/Route_Evidence.thy ===== *)
theory Route_Evidence
  imports Route_Types
begin

text \<open>
  The issuer of route evidence ids, \<^verbatim>\<open>prns-core/src/routing/routes/evidence.rs\<close>: a counter that
  wraps at \<open>u32\<close> and must not issue an id that some holder still keeps. The caller's bounded holder scan
  is modelled on the list of ids in use.
\<close>

section \<open>The scan\<close>

record evidence_scan =
  es_current_in_use :: bool
  es_next_in_use :: "evidence_id option"

fun scan_ids :: "evidence_id \<Rightarrow> evidence_id list \<Rightarrow> evidence_scan \<Rightarrow> evidence_scan" where
  "scan_ids candidate [] s = s"
| "scan_ids candidate (i # ids) s =
     scan_ids candidate ids
       (if i < candidate then s
        else if i = candidate then s\<lparr>es_current_in_use := True\<rparr>
        else s\<lparr>es_next_in_use := Some (case es_next_in_use s of None \<Rightarrow> i | Some nxt \<Rightarrow> min nxt i)\<rparr>)"

definition scan_over :: "evidence_id \<Rightarrow> evidence_id list \<Rightarrow> evidence_scan" where
  "scan_over candidate ids = scan_ids candidate ids \<lparr>es_current_in_use = False, es_next_in_use = None\<rparr>"

section \<open>The issuer\<close>

record issuer =
  is_next :: evidence_id
  is_reuse_barrier :: "evidence_id option"

definition issuer_default :: issuer where
  "issuer_default = \<lparr>is_next = FIRST_EVIDENCE_ID, is_reuse_barrier = None\<rparr>"

definition advance :: "issuer \<Rightarrow> bool \<times> issuer" where
  "advance s =
     (case evidence_id_new (is_next s + 1) of
        Some nxt \<Rightarrow> (False, s\<lparr>is_next := nxt\<rparr>)
      | None \<Rightarrow> (True, s\<lparr>is_next := FIRST_EVIDENCE_ID\<rparr>))"

text \<open>The tail of the loop body, \<open>Some\<close> of the issued id and the state it leaves.\<close>

definition issue_next :: "issuer \<Rightarrow> evidence_id \<times> issuer" where
  "issue_next s =
     (let issued = is_next s; (wrapped, s) = advance s
      in (issued, if wrapped then s\<lparr>is_reuse_barrier := Some (is_next s)\<rparr> else s))"

text \<open>The \<open>loop\<close>: \<open>None\<close> is an issuance that never returns.\<close>

partial_function (option) issue ::
  "(evidence_id \<Rightarrow> evidence_scan) \<Rightarrow> issuer \<Rightarrow> (evidence_id \<times> issuer) option" where
  [code]: "issue scan s =
     (if is_reuse_barrier s = Some (is_next s) then
        let occupied = scan (is_next s)
        in if es_current_in_use occupied then
             let (wrapped, s) = advance s
             in issue scan (s\<lparr>is_reuse_barrier := if wrapped then Some (is_next s) else es_next_in_use occupied\<rparr>)
           else Some (issue_next (s\<lparr>is_reuse_barrier := es_next_in_use occupied\<rparr>))
      else Some (issue_next s))"

section \<open>What the scan sees\<close>

text \<open>Whether the candidate is in use, and the least id in use above it.\<close>

definition scan_sound :: "evidence_id \<Rightarrow> evidence_id set \<Rightarrow> evidence_scan \<Rightarrow> bool" where
  "scan_sound c used s =
     ((es_current_in_use s \<longleftrightarrow> c \<in> used)
      \<and> (case es_next_in_use s of
           None \<Rightarrow> \<forall>i\<in>used. i \<le> c
         | Some b \<Rightarrow> b \<in> used \<and> c < b \<and> (\<forall>i\<in>used. c < i \<longrightarrow> b \<le> i)))"

lemma scan_ids_sound: "scan_sound c used s \<Longrightarrow> scan_sound c (used \<union> set ids) (scan_ids c ids s)"
proof (induction ids arbitrary: used s)
  case Nil
  then show ?case by simp
next
  case (Cons i ids)
  let ?s = "if i < c then s else if i = c then s\<lparr>es_current_in_use := True\<rparr>
    else s\<lparr>es_next_in_use := Some (case es_next_in_use s of None \<Rightarrow> i | Some nxt \<Rightarrow> min nxt i)\<rparr>"
  have "scan_sound c (insert i used) ?s"
  proof (cases "es_next_in_use s")
    case None
    with Cons.prems show ?thesis by (auto simp: scan_sound_def split: option.splits)
  next
    case (Some b)
    with Cons.prems show ?thesis by (auto simp: scan_sound_def min_def)
  qed
  from Cons.IH [OF this] show ?case by simp
qed

lemma scan_over_sound: "scan_sound c (set ids) (scan_over c ids)"
  using scan_ids_sound [of c "{}" "\<lparr>es_current_in_use = False, es_next_in_use = None\<rparr>" ids]
  by (simp add: scan_over_def scan_sound_def)

section \<open>The issuer never repeats an id in use\<close>

text \<open>
  Every id in use at or ahead of the cursor is at or ahead of the barrier; without a barrier there is
  none. Zero is no id.
\<close>

definition issuer_ok :: "evidence_id set \<Rightarrow> issuer \<Rightarrow> bool" where
  "issuer_ok used s =
     (is_next s \<noteq> 0 \<and> 0 \<notin> used
      \<and> (case is_reuse_barrier s of
           None \<Rightarrow> \<forall>i\<in>used. i < is_next s
         | Some b \<Rightarrow> is_next s \<le> b \<and> (\<forall>i\<in>used. is_next s \<le> i \<longrightarrow> b \<le> i)))"

lemma issuer_default_ok: "issuer_ok {} issuer_default"
  by (simp add: issuer_ok_def issuer_default_def FIRST_EVIDENCE_ID_def)

lemma issuer_ok_retire: "issuer_ok used s \<Longrightarrow> used' \<subseteq> used \<Longrightarrow> issuer_ok used' s"
  by (auto simp: issuer_ok_def split: option.splits)

lemma one_le_word: "(x :: 'a::len word) \<noteq> 0 \<Longrightarrow> 1 \<le> x"
  by (simp add: word_le_nat_alt unat_gt_0 Suc_le_eq)

lemma unat_succ: "(x :: 'a::len word) + 1 \<noteq> 0 \<Longrightarrow> unat (x + 1) = Suc (unat x)"
  using unatSuc [of x] by (simp add: add.commute)

lemma word_succ_le_iff: "(x :: 'a::len word) + 1 \<noteq> 0 \<Longrightarrow> x + 1 \<le> y \<longleftrightarrow> x < y"
  by (simp add: word_le_nat_alt word_less_nat_alt unat_succ Suc_le_eq)

lemma word_less_succ: "(x :: 'a::len word) + 1 \<noteq> 0 \<Longrightarrow> y < x + 1 \<longleftrightarrow> y \<le> x"
  by (simp add: word_le_nat_alt word_less_nat_alt unat_succ less_Suc_eq_le)

lemma advance_cases:
  obtains "is_next s + 1 = 0" "advance s = (True, s\<lparr>is_next := 1\<rparr>)"
  | "is_next s + 1 \<noteq> 0" "advance s = (False, s\<lparr>is_next := is_next s + 1\<rparr>)"
  by (cases "is_next s + 1 = 0") (auto simp: advance_def evidence_id_new_def FIRST_EVIDENCE_ID_def)

lemma issue_next_ok:
  assumes ok: "issuer_ok used s" and free: "is_reuse_barrier s \<noteq> Some (is_next s)"
  shows "fst (issue_next s) = is_next s" "is_next s \<notin> used"
    and "issuer_ok (insert (is_next s) used) (snd (issue_next s))"
proof -
  show "fst (issue_next s) = is_next s" by (simp add: issue_next_def Let_def split: prod.splits)
  show new: "is_next s \<notin> used"
    using ok free by (auto simp: issuer_ok_def split: option.splits)
  show "issuer_ok (insert (is_next s) used) (snd (issue_next s))"
  proof (cases rule: advance_cases [of s])
    case 1
    with ok show ?thesis by (auto simp: issue_next_def issuer_ok_def one_le_word)
  next
    case 2
    show ?thesis
    proof (cases "is_reuse_barrier s")
      case None
      with ok 2 show ?thesis
        by (auto simp: issue_next_def issuer_ok_def word_less_succ less_imp_le)
    next
      case (Some b)
      with ok 2 free show ?thesis
        by (auto simp: issue_next_def issuer_ok_def word_succ_le_iff less_le)
    qed
  qed
qed

text \<open>
  One turn of the loop at a barrier whose id is in use keeps the invariant and moves the cursor by
  one place on the circle of ids.
\<close>

lemma issue_skip_ok:
  assumes ok: "issuer_ok used s" and sound: "scan_sound (is_next s) used occ" and adv: "advance s = (wrapped, t)"
  shows "issuer_ok used (t\<lparr>is_reuse_barrier := if wrapped then Some (is_next t) else es_next_in_use occ\<rparr>)"
proof (cases rule: advance_cases [of s])
  case 1
  with ok adv show ?thesis by (auto simp: issuer_ok_def one_le_word)
next
  case 2
  with ok adv sound show ?thesis
    by (cases "es_next_in_use occ") (auto simp: issuer_ok_def scan_sound_def word_succ_le_iff word_less_succ)
qed

lemma issue_free_ok:
  assumes ok: "issuer_ok used s" and sound: "scan_sound (is_next s) used occ" and free: "\<not> es_current_in_use occ"
  shows "issuer_ok used (s\<lparr>is_reuse_barrier := es_next_in_use occ\<rparr>)"
    and "es_next_in_use occ \<noteq> Some (is_next s)"
proof -
  have new: "is_next s \<notin> used" using sound free by (simp add: scan_sound_def)
  show "issuer_ok used (s\<lparr>is_reuse_barrier := es_next_in_use occ\<rparr>)"
  proof (cases "es_next_in_use occ")
    case None
    with ok sound new show ?thesis by (auto simp: issuer_ok_def scan_sound_def less_le)
  next
    case (Some b)
    with ok sound new show ?thesis by (auto simp: issuer_ok_def scan_sound_def less_le)
  qed
  show "es_next_in_use occ \<noteq> Some (is_next s)"
    using sound by (auto simp: scan_sound_def)
qed

text \<open>The id \<open>k\<close> places ahead on the circle \<open>1, 2, \<dots>, 2 ^ 32 - 1, 1, \<dots>\<close>.\<close>

fun ahead :: "nat \<Rightarrow> evidence_id \<Rightarrow> evidence_id" where
  "ahead 0 i = i"
| "ahead (Suc k) i = ahead k (if i + 1 = 0 then 1 else i + 1)"

lemma issue_returns:
  assumes "issuer_ok used s" "ahead k (is_next s) \<notin> used"
    and "\<And>c. scan_sound c used (scan c)"
  shows "\<exists>i t. issue scan s = Some (i, t) \<and> i \<notin> used \<and> i \<noteq> 0 \<and> issuer_ok (insert i used) t"
  using assms(1,2)
proof (induction k arbitrary: s)
  case 0
  note ok = 0(1)
  have sound: "scan_sound (is_next s) used (scan (is_next s))" by (rule assms(3))
  have free: "\<not> es_current_in_use (scan (is_next s))" using 0(2) sound by (simp add: scan_sound_def)
  have nz: "is_next s \<noteq> 0" using ok by (simp add: issuer_ok_def)
  show ?case
  proof (cases "is_reuse_barrier s = Some (is_next s)")
    case True
    note f = issue_free_ok [OF ok sound free]
    from issue_next_ok [OF f(1)] f(2) True free nz show ?thesis
      by (subst issue.simps) (simp add: Let_def, metis prod.collapse)
  next
    case False
    from issue_next_ok [OF ok False] False nz show ?thesis
      by (subst issue.simps) (simp, metis prod.collapse)
  qed
next
  case (Suc k)
  note ok = Suc.prems(1)
  have sound: "scan_sound (is_next s) used (scan (is_next s))" by (rule assms(3))
  have nz: "is_next s \<noteq> 0" using ok by (simp add: issuer_ok_def)
  consider "is_reuse_barrier s \<noteq> Some (is_next s)"
    | "is_reuse_barrier s = Some (is_next s)" "\<not> es_current_in_use (scan (is_next s))"
    | "is_reuse_barrier s = Some (is_next s)" "es_current_in_use (scan (is_next s))"
    by blast
  then show ?case
  proof cases
    case 1
    from issue_next_ok [OF ok 1] 1 nz show ?thesis
      by (subst issue.simps) (simp, metis prod.collapse)
  next
    case 2
    note f = issue_free_ok [OF ok sound 2(2)]
    from issue_next_ok [OF f(1)] f(2) 2 nz show ?thesis
      by (subst issue.simps) (simp add: Let_def, metis prod.collapse)
  next
    case 3
    obtain wrapped t where adv: "advance s = (wrapped, t)" by fastforce
    have "is_next t = (if is_next s + 1 = 0 then 1 else is_next s + 1)"
      using adv by (cases rule: advance_cases [of s]) auto
    then have "ahead k (is_next t) \<notin> used" using Suc.prems(2) by simp
    with Suc.IH [OF issue_skip_ok [OF ok sound adv]] 3 adv show ?thesis
      by (subst issue.simps) (simp add: Let_def)
  qed
qed

lemma ahead_eq:
  assumes "i \<noteq> 0" "j \<noteq> 0"
  shows "\<exists>k. ahead k i = j"
proof -
  have up: "\<exists>k. ahead k i = j" if "i \<noteq> 0" "unat i \<le> unat j" for i
    using that
  proof (induction "unat j - unat i" arbitrary: i)
    case 0
    then have "i = j" by (simp add: word_unat_eq_iff)
    then have "ahead 0 i = j" by simp
    then show ?case ..
  next
    case (Suc d)
    have "i + 1 \<noteq> 0"
    proof
      assume "i + 1 = 0"
      then have "i = - 1" by (simp add: eq_neg_iff_add_eq_0)
      with Suc unat_less_pow [of j] show False by (simp add: unat_minus_one_word_max)
    qed
    then have "unat (i + 1) = Suc (unat i)" by (rule unat_succ)
    then have "d = unat j - unat (i + 1)" "unat (i + 1) \<le> unat j" using Suc.hyps(2) by simp_all
    with Suc.hyps(1) [of "i + 1"] \<open>i + 1 \<noteq> 0\<close> obtain k where "ahead k (i + 1) = j" by blast
    then have "ahead (Suc k) i = j" using \<open>i + 1 \<noteq> 0\<close> by simp
    then show ?case ..
  qed
  have wrap: "\<exists>k. ahead k i = 1" if "i \<noteq> 0" for i :: evidence_id
    using that
  proof (induction "2 ^ 32 - unat i" arbitrary: i rule: less_induct)
    case less
    show ?case
    proof (cases "i + 1 = 0")
      case True
      then have "ahead 1 i = 1" by simp
      then show ?thesis ..
    next
      case False
      then have "unat (i + 1) = Suc (unat i)" by (rule unat_succ)
      then have "2 ^ 32 - unat (i + 1) < 2 ^ 32 - unat i" using unat_less_pow [of i] by simp
      with less(1) False obtain k where "ahead k (i + 1) = 1" by blast
      then have "ahead (Suc k) i = 1" using False by simp
      then show ?thesis ..
    qed
  qed
  have add: "ahead (k + l) i = ahead l (ahead k i)" for k l i by (induction k arbitrary: i) simp_all
  obtain k where "ahead k i = 1" using wrap [OF assms(1)] by blast
  moreover obtain l where "ahead l 1 = j"
    using up [of 1] assms(2) by (auto simp: Suc_le_eq unat_gt_0)
  ultimately have "ahead (k + l) i = j" by (simp add: add)
  then show ?thesis ..
qed

section \<open>Properties\<close>

text \<open>
  C39. Issuance always returns and is always fresh. As long as some id is not in use, the loop ends,
  and the id it returns is non-zero and not in use, after any number of laps around the 32-bit counter;
  the issuer is then ready to go on with that id in use too. Retiring ids at any time is harmless.
\<close>

theorem issue_fresh:
  assumes "issuer_ok (set held) s" "set ids \<subseteq> set held" "free \<noteq> 0" "free \<notin> set ids"
  shows "\<exists>i t. issue (\<lambda>candidate. scan_over candidate ids) s = Some (i, t)
    \<and> i \<notin> set ids \<and> i \<noteq> 0 \<and> issuer_ok (set (i # ids)) t"
proof -
  have ok: "issuer_ok (set ids) s" using assms(1,2) by (rule issuer_ok_retire)
  obtain k where "ahead k (is_next s) = free"
    using ahead_eq [of "is_next s" free] ok assms(3) by (auto simp: issuer_ok_def)
  then show ?thesis
    using issue_returns [OF ok, of k "\<lambda>c. scan_over c ids"] assms(4) scan_over_sound by simp
qed

theorem issue_fresh_witness:
  "\<exists>i t. issue (\<lambda>candidate. scan_over candidate [1, 2, - 1]) \<lparr>is_next = 1, is_reuse_barrier = Some 1\<rparr> = Some (i, t)
     \<and> i \<notin> set [1, 2, - 1] \<and> i \<noteq> 0 \<and> issuer_ok (set (i # [1, 2, - 1])) t"
  by (rule issue_fresh [where held = "[1, 2, - 1]" and free = 3])
    (auto simp: issuer_ok_def one_le_word)

end
