(* ===== verification/Routing_Profiles.thy ===== *)
theory Routing_Profiles
  imports Routing_Table_Steps Indexed_Routes Route_Evidence
begin

text \<open>
  The routing tables of the storage layouts (\<^verbatim>\<open>prns-core/src/storage/impls/\<close>): the growable one, with the
  linear indexes of a build without \<^verbatim>\<open>std\<close>, the fixed-size one of the tests, and a fixed-size one with an
  index by destination. The ESP32-S3 layout has the last one's shape: its \<^verbatim>\<open>FixedHeap...\<close> stores are the
  fixed-size stores with each array behind a box. For each of them the stores keep the contracts the
  table relies on, so everything proved of tables holds of these three. The properties of the routing
  table close the theory.
\<close>

section \<open>The layouts\<close>

definition growable_backends :: "(heap_route_table, heap_record_table, heap_id_history, heap_app_data) backends" where
  "growable_backends =
     \<lparr>be_routes = heap_routes, be_records = heap_records, be_history = heap_ids, be_app_data = heap_app_data_ops\<rparr>"

definition fixed_backends :: "nat \<Rightarrow> (fixed_route_table, fixed_record_table, fixed_id_history, packed_arena) backends" where
  "fixed_backends max_ids =
     \<lparr>be_routes = fixed_routes, be_records = fixed_records, be_history = fixed_ids max_ids, be_app_data = packed_app_data\<rparr>"

definition indexed_backends ::
  "nat \<Rightarrow> (fixed_indexed_route_table, fixed_record_table, fixed_id_history, packed_arena) backends" where
  "indexed_backends max_ids =
     \<lparr>be_routes = fixed_indexed_routes, be_records = fixed_records, be_history = fixed_ids max_ids,
      be_app_data = packed_app_data\<rparr>"

text \<open>The empty tables, \<open>RoutingTable::default\<close>.\<close>

definition growable_table :: "(heap_route_table, heap_record_table, heap_id_history, heap_app_data) routing_table" where
  "growable_table =
     \<lparr>t_routes = heap_routes_default, t_route_expiries = LinearRouteExpiryIndex, t_announce_records = heap_records_default,
      t_announce_id_history = heap_ids_default, t_announce_app_data = heap_app_data_default\<rparr>"

definition fixed_table ::
  "nat \<Rightarrow> nat \<Rightarrow> nat \<Rightarrow> (fixed_route_table, fixed_record_table, fixed_id_history, packed_arena) routing_table" where
  "fixed_table max_destinations max_ids arena_bytes =
     \<lparr>t_routes = fixed_routes_default max_destinations, t_route_expiries = LinearRouteExpiryIndex,
      t_announce_records = fixed_records_default max_destinations,
      t_announce_id_history = fixed_ids_default max_destinations max_ids,
      t_announce_app_data = packed_arena_new arena_bytes max_destinations\<rparr>"

definition indexed_table ::
  "nat \<Rightarrow> nat \<Rightarrow> nat \<Rightarrow> nat \<Rightarrow> (fixed_indexed_route_table, fixed_record_table, fixed_id_history, packed_arena) routing_table" where
  "indexed_table max_destinations buckets max_ids arena_bytes =
     \<lparr>t_routes = fixed_indexed_default max_destinations buckets, t_route_expiries = LinearRouteExpiryIndex,
      t_announce_records = fixed_records_default max_destinations,
      t_announce_id_history = fixed_ids_default max_destinations max_ids,
      t_announce_app_data = packed_arena_new arena_bytes max_destinations\<rparr>"

section \<open>Their stores keep the contracts\<close>

definition growable_contracts :: "(heap_route_table, heap_record_table, heap_id_history, heap_app_data) contracts" where
  "growable_contracts =
     \<lparr>ct_route_rows = heap_routes_rows, ct_routes_valid = heap_routes_ok,
      ct_record_rows = heap_records_rows, ct_records_valid = heap_records_ok,
      ct_id_cap = MAX_ANNOUNCE_IDS_PER_DESTINATION, ct_slot_ok = (\<lambda>_. True), ct_ids_valid = heap_ids_ok,
      ct_stored = heap_app_data_stored, ct_store_valid = heap_app_data_ok, ct_replaceable = (\<lambda>_. True)\<rparr>"

definition fixed_contracts ::
  "nat \<Rightarrow> nat \<Rightarrow> (fixed_route_table, fixed_record_table, fixed_id_history, packed_arena) contracts" where
  "fixed_contracts max_destinations max_ids =
     \<lparr>ct_route_rows = fixed_routes_rows, ct_routes_valid = fixed_routes_ok,
      ct_record_rows = fixed_records_rows, ct_records_valid = fixed_records_ok,
      ct_id_cap = max_ids, ct_slot_ok = (\<lambda>s. s < max_destinations), ct_ids_valid = fixed_ids_ok max_destinations max_ids,
      ct_stored = packed_stored, ct_store_valid = packed_ok, ct_replaceable = (\<lambda>old. old \<noteq> [])\<rparr>"

definition indexed_contracts ::
  "nat \<Rightarrow> nat \<Rightarrow> (fixed_indexed_route_table, fixed_record_table, fixed_id_history, packed_arena) contracts" where
  "indexed_contracts max_destinations max_ids =
     \<lparr>ct_route_rows = fixed_routes_rows \<circ> fx_columns, ct_routes_valid = fixed_indexed_ok,
      ct_record_rows = fixed_records_rows, ct_records_valid = fixed_records_ok,
      ct_id_cap = max_ids, ct_slot_ok = (\<lambda>s. s < max_destinations), ct_ids_valid = fixed_ids_ok max_destinations max_ids,
      ct_stored = packed_stored, ct_store_valid = packed_ok, ct_replaceable = (\<lambda>old. old \<noteq> [])\<rparr>"

interpretation growable: routing_backends growable_backends growable_contracts
  unfolding routing_backends_def growable_backends_def growable_contracts_def heap_app_data_ops_def
  using heap_rt.route_table_axioms heap_at.announce_record_table_axioms heap_ih.announce_id_history_axioms
    heap_app.announce_app_data_axioms by simp

interpretation fixed: routing_backends "fixed_backends max_ids" "fixed_contracts max_destinations max_ids"
  for max_destinations max_ids
  unfolding routing_backends_def fixed_backends_def fixed_contracts_def packed_app_data_def
  using fixed_rt.route_table_axioms fixed_at.announce_record_table_axioms fixed_ih.announce_id_history_axioms
    packed_app.announce_app_data_axioms by simp

interpretation indexed: routing_backends "indexed_backends max_ids" "indexed_contracts max_destinations max_ids"
  for max_destinations max_ids
  unfolding routing_backends_def indexed_backends_def indexed_contracts_def packed_app_data_def
  using fixed_indexed_rt.route_table_axioms fixed_at.announce_record_table_axioms fixed_ih.announce_id_history_axioms
    packed_app.announce_app_data_axioms by simp

lemma growable_table_sound: "table_sound growable_backends growable_contracts growable_table"
  by (rule growable.empty_table_sound(1))
    (simp_all add: growable_contracts_def growable_table_def growable_backends_def
      heap_routes_default_ok [unfolded heap_routes_default_def]
      heap_routes_rows_def heap_routes_len_def heap_routes_default_def heap_records_ok_def heap_records_rows_def
      heap_records_len_def heap_records_default_def heap_ids_ok_def heap_ids_default_def heap_ids_def heap_ids_history_def
      heap_app_data_ok_def heap_app_data_default_def free_list_ok_def heap_app_data_stored_def live_slot_def)

lemma fixed_table_sound:
  assumes "0 < max_ids" "max_ids < 256"
  shows "table_sound (fixed_backends max_ids) (fixed_contracts max_destinations max_ids)
    (fixed_table max_destinations max_ids arena_bytes)"
proof (rule fixed.empty_table_sound(1))
  fix j assume "j < destination_capacity (fixed_backends max_ids) (fixed_table max_destinations max_ids arena_bytes)"
  then show "ct_slot_ok (fixed_contracts max_destinations max_ids) j"
    by (simp add: destination_capacity_def fixed_backends_def fixed_table_def fixed_contracts_def fixed_routes_def
        fixed_routes_ops_def fixed_routes_capacity_def fixed_routes_default_def)
qed (use assms fixed_routes_default_ok fixed_records_default_ok fixed_ids_default_ok packed_arena_new_ok in
    \<open>simp_all add: fixed_contracts_def fixed_table_def fixed_backends_def fixed_routes_rows_def fixed_records_rows_def
      fixed_ids_def fixed_ids_history_def packed_stored_def live_slot_def\<close>,
    simp_all add: fixed_routes_default_def fixed_records_default_def fixed_ids_default_def packed_arena_new_def Let_def)

lemma indexed_table_sound:
  assumes "0 < max_ids" "max_ids < 256" "max_destinations < 2 ^ 16 - 1" "route_index_buckets max_destinations \<le> buckets"
  shows "table_sound (indexed_backends max_ids) (indexed_contracts max_destinations max_ids)
    (indexed_table max_destinations buckets max_ids arena_bytes)"
proof (rule indexed.empty_table_sound(1))
  fix j assume "j < destination_capacity (indexed_backends max_ids) (indexed_table max_destinations buckets max_ids arena_bytes)"
  then show "ct_slot_ok (indexed_contracts max_destinations max_ids) j"
    by (simp add: destination_capacity_def indexed_backends_def indexed_table_def indexed_contracts_def
        fixed_indexed_routes_def fixed_indexed_ops_def fixed_indexed_default_def
        fixed_routes_capacity_def fixed_routes_default_def)
qed (use assms fixed_indexed_default_ok fixed_records_default_ok fixed_ids_default_ok packed_arena_new_ok in
    \<open>simp_all add: indexed_contracts_def indexed_table_def indexed_backends_def fixed_routes_rows_def fixed_records_rows_def
      fixed_ids_def fixed_ids_history_def packed_stored_def live_slot_def\<close>,
    simp_all add: fixed_indexed_default_def fixed_routes_default_def fixed_records_default_def fixed_ids_default_def
      packed_arena_new_def Let_def)

section \<open>Properties\<close>

text \<open>An announce as it arrives, for the examples.\<close>

definition sample_arrival :: announce_arrival where
  "sample_arrival =
     \<lparr>aa_announce = \<lparr>an_destination = DestinationHash (replicate 16 7),
        an_public_keys = \<lparr>encryption_key = replicate 32 1, signing_key = replicate 32 2\<rparr>,
        an_dotted_name_hash = DottedNameHash (replicate 10 3), an_announce_id = sample_id, an_ratchet = None,
        an_signature = replicate 64 4, an_app_data = [1, 2, 3]\<rparr>,
      aa_hops = 2, aa_arrived_at = 1000, aa_receiving_interface = InterfaceId (replicate 8 5),
      aa_next_hop = Direct, aa_is_path_response = False\<rparr>"

text \<open>The tables after the first announce.\<close>

lemma growable_first_route:
  "\<exists>out t'. upsert_route_with_retention_and_warmth growable_backends sample_arrival 1 Network [] no_warmth growable_table
       = Some (out, t', []) \<and> table_reach growable_backends identity_hash (\<lambda>_. True) growable_table t'
     \<and> table_sound growable_backends growable_contracts t' \<and> out = Inserted
     \<and> routes_map growable_backends t' = [DestinationHash (replicate 16 7) \<mapsto> (1, arrival_view sample_arrival Network [sample_id])]"
proof -
  have empty: "table_view growable_backends growable_table = []"
    by (simp add: table_view_def route_count_def growable_backends_def growable_table_def
        heap_routes_sel heap_routes_len_def heap_routes_default_def)
  have cap: "destination_capacity growable_backends growable_table > 0"
    by (simp add: destination_capacity_def growable_backends_def growable_table_def heap_routes_sel
        heap_routes_capacity_def HEAP_LEMIRE_MAX_ROWS_def heap_records_def USIZE_MAX_def)
  obtain h d where "heap_app_data_insert [1, 2, 3] heap_app_data_default = Inr (h, d)"
    by (simp add: heap_app_data_insert_def heap_app_data_default_def Let_def)
  then have ins: "ad_insert (be_app_data growable_backends) (an_app_data (aa_announce sample_arrival))
      (t_announce_app_data growable_table) = Inr (h, d)"
    by (simp add: growable_backends_def heap_app_data_ops_def growable_table_def sample_arrival_def)
  from growable.first_route [OF growable_table_sound empty cap ins, of 1 Network "[]" no_warmth identity_hash] show ?thesis
    by (simp add: growable_contracts_def sample_arrival_def)
qed

lemma packed_sample_insert: "\<exists>h d. packed_insert [1, 2, 3] (packed_arena_new 64 8) = Inr (h, d)"
  by (simp add: packed_insert_def packed_arena_new_def Let_def)

lemma fixed_first_route:
  "\<exists>t'. upsert_route_with_retention_and_warmth (fixed_backends 4) sample_arrival 1 Network [] no_warmth (fixed_table 8 4 64)
       = Some (Inserted, t', []) \<and> table_reach (fixed_backends 4) identity_hash (\<lambda>bytes. bytes \<noteq> []) (fixed_table 8 4 64) t'
     \<and> routes_map (fixed_backends 4) t' = [DestinationHash (replicate 16 7) \<mapsto> (1, arrival_view sample_arrival Network [sample_id])]"
proof -
  have sound: "table_sound (fixed_backends 4) (fixed_contracts 8 4) (fixed_table 8 4 64)"
    by (rule fixed_table_sound) simp_all
  have empty: "table_view (fixed_backends 4) (fixed_table 8 4 64) = []"
    by (simp add: table_view_def route_count_def fixed_backends_def fixed_table_def fixed_routes_def fixed_routes_ops_def
        fixed_routes_default_def)
  have cap: "destination_capacity (fixed_backends 4) (fixed_table 8 4 64) > 0"
    by (simp add: destination_capacity_def fixed_backends_def fixed_table_def fixed_routes_def fixed_routes_ops_def
        fixed_routes_capacity_def fixed_routes_default_def fixed_records_def fixed_records_capacity_def fixed_records_default_def)
  obtain h d where ins: "ad_insert (be_app_data (fixed_backends 4)) (an_app_data (aa_announce sample_arrival))
      (t_announce_app_data (fixed_table 8 4 64)) = Inr (h, d)"
    using packed_sample_insert by (auto simp: fixed_backends_def packed_app_data_def fixed_table_def sample_arrival_def)
  from fixed.first_route [OF sound empty cap ins, of 1 Network "[]" no_warmth identity_hash] show ?thesis
    by (auto simp: fixed_contracts_def sample_arrival_def)
qed

lemma indexed_first_route:
  "\<exists>t'. upsert_route_with_retention_and_warmth (indexed_backends 4) sample_arrival 1 Network [] no_warmth (indexed_table 8 12 4 64)
       = Some (Inserted, t', []) \<and> table_reach (indexed_backends 4) identity_hash (\<lambda>bytes. bytes \<noteq> []) (indexed_table 8 12 4 64) t'
     \<and> routes_map (indexed_backends 4) t' = [DestinationHash (replicate 16 7) \<mapsto> (1, arrival_view sample_arrival Network [sample_id])]"
proof -
  have "route_index_buckets 8 \<le> 12"
    by (simp add: route_index_buckets_def buckets_for_two_thirds_load_def div_ceil_def USIZE_MAX_def)
  then have sound: "table_sound (indexed_backends 4) (indexed_contracts 8 4) (indexed_table 8 12 4 64)"
    by (intro indexed_table_sound) simp_all
  have empty: "table_view (indexed_backends 4) (indexed_table 8 12 4 64) = []"
    by (simp add: table_view_def route_count_def indexed_backends_def indexed_table_def fixed_indexed_routes_def
        fixed_indexed_ops_def fixed_indexed_default_def fixed_routes_default_def)
  have cap: "destination_capacity (indexed_backends 4) (indexed_table 8 12 4 64) > 0"
    by (simp add: destination_capacity_def indexed_backends_def indexed_table_def fixed_indexed_routes_def
        fixed_indexed_ops_def fixed_indexed_default_def fixed_routes_capacity_def fixed_routes_default_def
        fixed_records_def fixed_records_capacity_def fixed_records_default_def)
  obtain h d where ins: "ad_insert (be_app_data (indexed_backends 4)) (an_app_data (aa_announce sample_arrival))
      (t_announce_app_data (indexed_table 8 12 4 64)) = Inr (h, d)"
    using packed_sample_insert by (auto simp: indexed_backends_def packed_app_data_def indexed_table_def sample_arrival_def)
  from indexed.first_route [OF sound empty cap ins, of 1 Network "[]" no_warmth identity_hash] show ?thesis
    by (auto simp: indexed_contracts_def sample_arrival_def)
qed

text \<open>
  C2. The invariant. Take any sequence of calls from the empty table: of any calls in the growable layout, and
  in the fixed and the ESP32-S3 layout of calls in which every announce learned and every row seeded carries
  app data. In the table it reaches, the columns and stores are in step, each destination and each evidence
  id has one route, every payload is owned by exactly one route (nothing leaks), and the history slots past
  the last route are empty. The two fixed layouts need the restriction, since their arena does not replace
  an empty payload correctly.
\<close>

theorem routing_tables_stay_sound:
  assumes "0 < max_ids" "max_ids < 256" "max_destinations < 2 ^ 16 - 1" "route_index_buckets max_destinations \<le> buckets"
    and "table_reach growable_backends identity_hash (\<lambda>_. True) growable_table g"
    and "table_reach (fixed_backends max_ids) identity_hash (\<lambda>bytes. bytes \<noteq> []) (fixed_table max_destinations max_ids arena_bytes) f"
    and "table_reach (indexed_backends max_ids) identity_hash (\<lambda>bytes. bytes \<noteq> [])
      (indexed_table max_destinations buckets max_ids arena_bytes) x"
  shows "table_sound growable_backends growable_contracts g
    \<and> table_sound (fixed_backends max_ids) (fixed_contracts max_destinations max_ids) f
    \<and> table_sound (indexed_backends max_ids) (indexed_contracts max_destinations max_ids) x"
  using growable.reach_sound [of identity_hash growable_table g] assms(5) growable_table_sound
    fixed.reach_sound [of max_ids identity_hash max_destinations "fixed_table max_destinations max_ids arena_bytes" f]
    assms(6) fixed_table_sound [OF assms(1,2)]
    indexed.reach_sound [of max_ids identity_hash max_destinations "indexed_table max_destinations buckets max_ids arena_bytes" x]
    assms(7) indexed_table_sound [OF assms(1-4)]
  by (simp add: growable_contracts_def fixed_contracts_def indexed_contracts_def)

theorem routing_tables_stay_sound_witness:
  "\<exists>g f x d. table_sound growable_backends growable_contracts g
     \<and> table_sound (fixed_backends 4) (fixed_contracts 8 4) f \<and> table_sound (indexed_backends 4) (indexed_contracts 8 4) x
     \<and> d \<in> dom (routes_map growable_backends g) \<and> d \<in> dom (routes_map (fixed_backends 4) f)
     \<and> d \<in> dom (routes_map (indexed_backends 4) x)"
proof -
  obtain g f x where reach: "table_reach growable_backends signing_key (\<lambda>_. True) growable_table g"
      "table_reach (fixed_backends 4) signing_key (\<lambda>bytes. bytes \<noteq> []) (fixed_table 8 4 64) f"
      "table_reach (indexed_backends 4) signing_key (\<lambda>bytes. bytes \<noteq> []) (indexed_table 8 12 4 64) x"
    and routes: "DestinationHash (replicate 16 7) \<in> dom (routes_map growable_backends g)"
      "DestinationHash (replicate 16 7) \<in> dom (routes_map (fixed_backends 4) f)"
      "DestinationHash (replicate 16 7) \<in> dom (routes_map (indexed_backends 4) x)"
    using growable_first_route [of signing_key] fixed_first_route [of signing_key] indexed_first_route [of signing_key] by auto
  have b: "route_index_buckets 8 \<le> 12"
    by (simp add: route_index_buckets_def buckets_for_two_thirds_load_def div_ceil_def USIZE_MAX_def)
  have "table_sound growable_backends growable_contracts g
      \<and> table_sound (fixed_backends 4) (fixed_contracts 8 4) f \<and> table_sound (indexed_backends 4) (indexed_contracts 8 4) x"
    by (rule routing_tables_stay_sound [OF _ _ _ b reach]) simp_all
  with routes show ?thesis by blast
qed

text \<open>
  C1. Learning. For stores that keep their contracts, an announce is always dealt with, and the table does
  to the map of its routes what the outcome says. A new destination is entered with a fresh history; the
  only other changes are the removals reported. A known one is refreshed in place, with the id remembered
  and the evidence id kept unless the path is another one. A dropped announce leaves everything but the
  removals; it is dropped for want of a row only when the table has none at all.
\<close>

theorem upsert_refines_map:
  fixes arrival :: announce_arrival
  assumes "routing_backends B C" "table_sound B C t"
  defines "d \<equiv> an_destination (aa_announce arrival)"
  shows "\<exists>out t' removed. upsert_route_with_retention_and_warmth B arrival v retention interfaces warmth t = Some (out, t', removed)
    \<and> (case out of
         Inserted \<Rightarrow> routes_map B t d = None
           \<and> routes_map B t' = (routes_map B t |` (- removed_destinations removed))
               (d \<mapsto> (v, arrival_view arrival retention [an_announce_id (aa_announce arrival)]))
       | Updated \<Rightarrow> removed = [] \<and> (\<exists>old. routes_map B t d = Some old
           \<and> routes_map B t' = (routes_map B t)(d \<mapsto> refreshed_row (ct_id_cap C) arrival retention v old))
       | DroppedAnnounce cause \<Rightarrow> routes_map B t' = routes_map B t |` (- removed_destinations removed)
           \<and> d \<notin> removed_destinations removed
           \<and> (cause = RoutingTableFull \<longrightarrow> destination_capacity B t = 0)
           \<and> (routes_map B t d \<noteq> None \<longrightarrow> removed = []))"
proof -
  have "table_ok B C t" "\<forall>r\<in>set (table_view B t). ct_replaceable C (pr_app_data (snd r))"
    using assms(2) by (simp_all add: table_sound_def)
  from routing_backends.upsert_map [OF assms(1) this, of arrival v retention interfaces warmth]
  show ?thesis unfolding d_def by blast
qed

theorem upsert_refines_map_witness:
  "\<exists>out t' removed. upsert_route_with_retention_and_warmth growable_backends sample_arrival 1 Network [] no_warmth growable_table
     = Some (out, t', removed)
   \<and> (case out of
        Inserted \<Rightarrow> routes_map growable_backends t' = (routes_map growable_backends growable_table |` (- removed_destinations removed))
          (DestinationHash (replicate 16 7) \<mapsto> (1, arrival_view sample_arrival Network [sample_id]))
      | Updated \<Rightarrow> False
      | DroppedAnnounce cause \<Rightarrow> cause = PayloadArenaFull)"
proof -
  have m: "routes_map growable_backends growable_table = Map.empty" and cap: "destination_capacity growable_backends growable_table \<noteq> 0"
    by (auto simp: routes_map_def table_view_def route_count_def growable_backends_def growable_table_def heap_routes_sel
        heap_routes_len_def heap_routes_default_def destination_capacity_def heap_routes_capacity_def
        HEAP_LEMIRE_MAX_ROWS_def heap_records_def USIZE_MAX_def)
  from upsert_refines_map [OF growable.routing_backends_axioms growable_table_sound, of sample_arrival 1 Network "[]" no_warmth]
  obtain out t' removed where r: "upsert_route_with_retention_and_warmth growable_backends sample_arrival 1 Network [] no_warmth growable_table
      = Some (out, t', removed)"
    "case out of
         Inserted \<Rightarrow> routes_map growable_backends growable_table (an_destination (aa_announce sample_arrival)) = None
           \<and> routes_map growable_backends t' = (routes_map growable_backends growable_table |` (- removed_destinations removed))
               (an_destination (aa_announce sample_arrival) \<mapsto>
                 (1, arrival_view sample_arrival Network [an_announce_id (aa_announce sample_arrival)]))
       | Updated \<Rightarrow> removed = [] \<and> (\<exists>old. routes_map growable_backends growable_table (an_destination (aa_announce sample_arrival)) = Some old
           \<and> routes_map growable_backends t' = (routes_map growable_backends growable_table)(an_destination (aa_announce sample_arrival) \<mapsto>
               refreshed_row (ct_id_cap growable_contracts) sample_arrival Network 1 old))
       | DroppedAnnounce cause \<Rightarrow> routes_map growable_backends t' = routes_map growable_backends growable_table |` (- removed_destinations removed)
           \<and> an_destination (aa_announce sample_arrival) \<notin> removed_destinations removed
           \<and> (cause = RoutingTableFull \<longrightarrow> destination_capacity growable_backends growable_table = 0)
           \<and> (routes_map growable_backends growable_table (an_destination (aa_announce sample_arrival)) \<noteq> None \<longrightarrow> removed = [])"
    by blast
  have "c = PayloadArenaFull" if "c \<noteq> RoutingTableFull" for c using that by (cases c) simp_all
  with r cap m show ?thesis
    by (intro exI [of _ out] exI [of _ t'] exI [of _ removed])
      (auto simp: sample_arrival_def split: upsert_route_outcome.splits)
qed

text \<open>
  C10. What was learned is answered. After an announce has been entered or has refreshed its route, the
  table answers for its destination with that announce, byte for byte, and with the hops, interface and
  next hop it came with; and its id is in the history the next announce is judged by.
\<close>

theorem learned_announce_is_answered:
  assumes "routing_backends B C" "table_sound B C t"
    and "upsert_route_with_retention_and_warmth B arrival v retention interfaces warmth t = Some (out, t', removed)"
    and "out = Inserted \<or> out = Updated"
  shows "stored_announce_for B t' (an_destination (aa_announce arrival)) =
      Some \<lparr>st_hops = aa_hops arrival, st_receiving_interface = aa_receiving_interface arrival,
        st_next_hop = aa_next_hop arrival, st_announce = aa_announce arrival\<rparr>
    \<and> (\<exists>ex. existing_route_for B t' (an_destination (aa_announce arrival)) attached = Some ex
         \<and> an_announce_id (aa_announce arrival) \<in> set (ex_announce_id_history ex)
         \<and> ex_responsiveness ex = Unknown \<and> ex_hops ex = aa_hops arrival
         \<and> ex_interface_gravity ex = map_option if_gravity (descriptor_for attached (aa_receiving_interface arrival)))"
proof -
  have "table_ok B C t" "\<forall>r\<in>set (table_view B t). ct_replaceable C (pr_app_data (snd r))"
    using assms(2) by (simp_all add: table_sound_def)
  note A = routing_backends.upsert_answers [OF assms(1) this assms(3,4)]
  from A(1) A(2) [of attached] show ?thesis by blast
qed

theorem learned_announce_is_answered_witness:
  "\<exists>t'. upsert_route_with_retention_and_warmth growable_backends sample_arrival 1 Network [] no_warmth growable_table = Some (Inserted, t', [])
     \<and> stored_announce_for growable_backends t' (DestinationHash (replicate 16 7)) =
         Some \<lparr>st_hops = 2, st_receiving_interface = InterfaceId (replicate 8 5), st_next_hop = Direct,
           st_announce = aa_announce sample_arrival\<rparr>"
proof -
  obtain t' where t': "upsert_route_with_retention_and_warmth growable_backends sample_arrival 1 Network [] no_warmth growable_table
      = Some (Inserted, t', [])"
    using growable_first_route by blast
  from learned_announce_is_answered [OF growable.routing_backends_axioms growable_table_sound t'] t' show ?thesis
    by (simp add: sample_arrival_def)
qed

text \<open>
  C4. Culling. The sweep over the table always ends. It removes exactly the routes whose time is up, each
  with the right cause and reported once, and leaves the others as they were; no route that is left expires
  before a moment after now.
\<close>

theorem cull_removes_exactly_expired:
  assumes "routing_backends B C" "table_sound B C t"
  shows "\<exists>u removed. cull_expired_routes_with_warmth B now interfaces warmth t = Some (u, removed)
    \<and> removes_exactly B C (row_expired now interfaces warmth) t u removed
    \<and> (\<forall>e. soonest_route_expiry_with_warmth B u interfaces warmth = Some e \<longrightarrow> now < e)"
proof -
  have ok: "table_ok B C t" using assms(2) by (simp add: table_sound_def)
  obtain u removed where u: "cull_expired_routes_with_warmth B now interfaces warmth t = Some (u, removed)"
    "removes_exactly B C (row_expired now interfaces warmth) t u removed"
    using routing_backends.cull_map [OF assms(1) ok] by blast
  have oku: "table_ok B C u" using u(2) by (simp add: removes_exactly_def table_removes_def)
  from u routing_backends.soonest_expiry_after [OF assms(1) oku routing_backends.removes_exactly_kept [OF assms(1) ok u(2)]]
  show ?thesis by blast
qed

theorem cull_removes_exactly_expired_witness:
  "\<exists>t' u removed. upsert_route_with_retention_and_warmth growable_backends sample_arrival 1 Network [] no_warmth growable_table = Some (Inserted, t', [])
     \<and> cull_expired_routes_with_warmth growable_backends 1000 [] no_warmth t' = Some (u, removed)
     \<and> routes_map growable_backends t' (DestinationHash (replicate 16 7)) \<noteq> None
     \<and> routes_map growable_backends u (DestinationHash (replicate 16 7)) = None"
proof -
  obtain t' where t': "upsert_route_with_retention_and_warmth growable_backends sample_arrival 1 Network [] no_warmth growable_table
      = Some (Inserted, t', [])" and sound: "table_sound growable_backends growable_contracts t'"
    and m: "routes_map growable_backends t' = [DestinationHash (replicate 16 7) \<mapsto> (1, arrival_view sample_arrival Network [sample_id])]"
    using growable_first_route by blast
  from cull_removes_exactly_expired [OF growable.routing_backends_axioms sound, of 1000 "[]" no_warmth]
  obtain u removed where u: "cull_expired_routes_with_warmth growable_backends 1000 [] no_warmth t' = Some (u, removed)"
    "removes_exactly growable_backends growable_contracts (row_expired 1000 [] no_warmth) t' u removed" by blast
  have "row_expired 1000 [] no_warmth (1, arrival_view sample_arrival Network [sample_id]) \<noteq> None"
    by (simp add: row_expired_def entry_expiry_def entry_last_active_def arrival_entry_def sample_arrival_def
        descriptor_for_def no_warmth_def Let_def max_def)
  with u(2) m have "routes_map growable_backends u (DestinationHash (replicate 16 7)) = None"
    by (simp add: removes_exactly_def)
  moreover have "routes_map growable_backends t' (DestinationHash (replicate 16 7)) \<noteq> None" using m by simp
  ultimately show ?thesis using t' u(1) by blast
qed

text \<open>
  C11. Dropping. Dropping one destination, all routes through a transport or all routes of an identity
  always ends, takes exactly those routes out of the map and leaves every other as it was.
\<close>

theorem drops_remove_exactly:
  assumes "routing_backends B C" "table_sound B C t"
  shows "routes_map B (snd (drop_route B d t)) = (routes_map B t)(d := None)
    \<and> fst (drop_route B d t) = map_option (\<lambda>r. \<lparr>rm_destination = d,
        rm_receiving_interface = re_receiving_interface (pr_entry (snd r)), rm_cause = Dropped\<rparr>) (routes_map B t d)
    \<and> (\<exists>u removed. drop_routes_via B transport t = Some (u, removed) \<and> removes_exactly B C (row_via transport) t u removed)
    \<and> (\<exists>u removed. drop_routes_for_identity identity_hash B identity t = Some (u, removed)
         \<and> removes_exactly B C (row_of_identity identity_hash identity) t u removed)"
proof -
  have ok: "table_ok B C t" using assms(2) by (simp add: table_sound_def)
  obtain out t' where d: "drop_route B d t = (out, t')" by fastforce
  from routing_backends.drop_route_map(2,3) [OF assms(1) ok d] d routing_backends.drop_via_map [OF assms(1) ok]
    routing_backends.drop_identity_map [OF assms(1) ok]
  show ?thesis by simp
qed

theorem drops_remove_exactly_witness:
  "\<exists>t'. upsert_route_with_retention_and_warmth growable_backends sample_arrival 1 Network [] no_warmth growable_table = Some (Inserted, t', [])
     \<and> routes_map growable_backends (snd (drop_route growable_backends (DestinationHash (replicate 16 7)) t')) = Map.empty
     \<and> fst (drop_route growable_backends (DestinationHash (replicate 16 7)) t') \<noteq> None"
proof -
  obtain t' where t': "upsert_route_with_retention_and_warmth growable_backends sample_arrival 1 Network [] no_warmth growable_table
      = Some (Inserted, t', [])" and sound: "table_sound growable_backends growable_contracts t'"
    and m: "routes_map growable_backends t' = [DestinationHash (replicate 16 7) \<mapsto> (1, arrival_view sample_arrival Network [sample_id])]"
    using growable_first_route by blast
  from drops_remove_exactly [OF growable.routing_backends_axioms sound, of "DestinationHash (replicate 16 7)" _ signing_key]
  have "routes_map growable_backends (snd (drop_route growable_backends (DestinationHash (replicate 16 7)) t')) = Map.empty"
    "fst (drop_route growable_backends (DestinationHash (replicate 16 7)) t') \<noteq> None"
    by (simp_all add: m)
  with t' show ?thesis by blast
qed

text \<open>
  C7. Saving and restoring. A route saved from one table, with its announce ids written out as bytes, and
  seeded into another one comes back as it was: the same row is saved from there again and the same
  announce is answered; the other routes of that table are untouched. The other table may be of another
  layout, as long as its histories are as long.
\<close>

theorem saved_route_is_restored:
  assumes "routing_backends B C" "table_sound B C t" "persisted_row B t d = Some row"
    and "routing_backends B' C'" "table_sound B' C' s" "ct_id_cap C \<le> ct_id_cap C'"
    and ids: "pr_announce_id_ring row = RingTable ids" "\<forall>i\<in>set ids. announce_id_wf i"
    and seed: "seed_route B' (row\<lparr>pr_announce_id_ring := RingWire (concat (map announce_id_to_wire_bytes ids))\<rparr>) v s
      = (Seeded, s')"
  shows "persisted_row B' s' d = Some row \<and> routes_map B' s' = (routes_map B' s)(d \<mapsto> (v, row))
    \<and> stored_announce_for B' s' d = stored_announce_for B t d"
proof -
  have ok: "table_ok B C t" "table_ok B' C' s" using assms(2,5) by (simp_all add: table_sound_def)
  note P = routing_backends.persisted_ids [OF assms(1) ok(1) assms(3)]
  let ?saved = "row\<lparr>pr_announce_id_ring := RingWire (concat (map announce_id_to_wire_bytes ids))\<rparr>"
  have wire: "ring_ids (pr_announce_id_ring ?saved) = ids" by (simp add: wire_ids_concat [OF ids(2)])
  have "distinct ids" "length ids \<le> ct_id_cap C'" using P(1) ids(1) assms(6) by auto
  note S = routing_backends.seed_map [OF assms(4) ok(2) seed, unfolded wire, OF this]
  have same: "?saved\<lparr>pr_announce_id_ring := RingTable ids\<rparr> = row" using ids(1) by (cases row) simp
  have m: "routes_map B' s' = (routes_map B' s)(d \<mapsto> (v, row))" and ok': "table_ok B' C' s'"
    using S P(2,3) same by simp_all
  have "persisted_row B' s' d = Some row"
    unfolding routing_backends.persisted_row_map [OF assms(4) ok'] m by (simp add: P(3))
  moreover obtain u where "routes_map B t d = Some (u, row)"
    using assms(3) unfolding routing_backends.persisted_row_map [OF assms(1) ok(1)] by (auto split: option.splits if_splits)
  ultimately show ?thesis
    using m routing_backends.stored_announce_map [OF assms(1) ok(1)] routing_backends.stored_announce_map [OF assms(4) ok']
    by simp
qed

theorem saved_route_is_restored_witness:
  "\<exists>t' s'. upsert_route_with_retention_and_warmth growable_backends sample_arrival 1 Network [] no_warmth growable_table = Some (Inserted, t', [])
     \<and> persisted_row growable_backends s' (DestinationHash (replicate 16 7))
         = persisted_row growable_backends t' (DestinationHash (replicate 16 7))
     \<and> stored_announce_for growable_backends s' (DestinationHash (replicate 16 7))
         = stored_announce_for growable_backends t' (DestinationHash (replicate 16 7))
     \<and> routes_map growable_backends s' (DestinationHash (replicate 16 7)) \<noteq> None"
proof -
  let ?d = "DestinationHash (replicate 16 7)" and ?row = "arrival_view sample_arrival Network [sample_id]"
  let ?saved = "?row\<lparr>pr_announce_id_ring := RingWire (concat (map announce_id_to_wire_bytes [sample_id]))\<rparr>"
  obtain t' where t': "upsert_route_with_retention_and_warmth growable_backends sample_arrival 1 Network [] no_warmth growable_table
      = Some (Inserted, t', [])" and sound: "table_sound growable_backends growable_contracts t'"
    and m: "routes_map growable_backends t' = [?d \<mapsto> (1, ?row)]"
    using growable_first_route by blast
  have ok: "table_ok growable_backends growable_contracts t'" "table_ok growable_backends growable_contracts growable_table"
    using sound growable_table_sound by (simp_all add: table_sound_def)
  have row: "persisted_row growable_backends t' ?d = Some ?row"
    unfolding growable.persisted_row_map [OF ok(1)] m by (simp add: arrival_entry_def)
  obtain out s' where seed: "seed_route growable_backends ?saved 2 growable_table = (out, s')" by fastforce
  have "routes_map growable_backends growable_table = Map.empty"
    by (auto simp: routes_map_def table_view_def route_count_def growable_backends_def growable_table_def heap_routes_sel
        heap_routes_len_def heap_routes_default_def)
  then have "index_of growable_backends growable_table ?d = None" using growable.routes_map_None [OF ok(2)] by simp
  moreover have "route_count growable_backends growable_table < destination_capacity growable_backends growable_table"
    by (simp add: route_count_def growable_backends_def growable_table_def heap_routes_sel heap_routes_len_def heap_routes_default_def
        destination_capacity_def heap_routes_capacity_def HEAP_LEMIRE_MAX_ROWS_def heap_records_def USIZE_MAX_def)
  moreover have "ad_insert (be_app_data growable_backends) [1, 2, 3] (t_announce_app_data growable_table) \<noteq> Inl e" for e
    by (simp add: growable_backends_def growable_table_def heap_app_data_ops_def heap_app_data_insert_def heap_app_data_default_def Let_def)
  ultimately have "out = Seeded"
    using growable.seed_route_cases [OF ok(2) seed] by (auto simp: sample_arrival_def)
  have wf: "\<forall>i\<in>set [sample_id]. announce_id_wf i"
    by (simp add: sample_id_def announce_id_wf_def announce_id_from_wire_def NONCE_LEN_def TIMEBASE_LEN_def)
  from saved_route_is_restored [OF growable.routing_backends_axioms sound row growable.routing_backends_axioms
      growable_table_sound order.refl _ wf seed [unfolded \<open>out = Seeded\<close>]] t' row
  show ?thesis by auto
qed

end
