(* ===== verification/Snapshot_Envelope.thy ===== *)
theory Snapshot_Envelope
  imports Le_Bytes
begin

text \<open>
  The sealed frame every snapshot travels in, \<^verbatim>\<open>prns-core/src/persistence/envelope.rs\<close>: magic, version,
  region tag, payload length, payload and checksum. The checksum function is an argument: builds with the
  standard library take it from a crate, the others use \<open>crc32_portable\<close>, which is modelled here. A
  \<open>usize\<close> sum that would overflow is longer than any slice, so the two refusals of a length coincide.
\<close>

section \<open>Regions and errors\<close>

datatype snapshot_region =
  RegionTimebase
  | RegionRoutingTable
  | RegionTunnels
  | RegionSelfRatchets
  | RegionDestinationIdentities
  | RegionRemoteControlControllerGrants
  | RegionRemoteControlTargetAccesses

fun region_tag :: "snapshot_region \<Rightarrow> u8" where
  "region_tag RegionTimebase = 0x01"
| "region_tag RegionRoutingTable = 0x02"
| "region_tag RegionTunnels = 0x03"
| "region_tag RegionSelfRatchets = 0x04"
| "region_tag RegionDestinationIdentities = 0x05"
| "region_tag RegionRemoteControlControllerGrants = 0x06"
| "region_tag RegionRemoteControlTargetAccesses = 0x07"

datatype snapshot_seal_error = SealBufferTooShort

datatype snapshot_open_error =
  SnapshotTruncated
  | BadMagic
  | UnsupportedVersion u8
  | WrongRegion u8
  | ChecksumMismatch

datatype snapshot_read_error = Envelope snapshot_open_error | MalformedPayload

section \<open>The frame\<close>

definition SNAPSHOT_MAGIC :: "u8 list" where
  "SNAPSHOT_MAGIC = [0x50, 0x52, 0x4E, 0x53]"

definition SNAPSHOT_VERSION :: u8 where
  "SNAPSHOT_VERSION = 1"

definition SNAPSHOT_HEADER_LEN :: nat where
  "SNAPSHOT_HEADER_LEN = length SNAPSHOT_MAGIC + 1 + 1 + 4"

definition SNAPSHOT_CHECKSUM_LEN :: nat where
  "SNAPSHOT_CHECKSUM_LEN = 4"

definition SNAPSHOT_OVERHEAD_LEN :: nat where
  "SNAPSHOT_OVERHEAD_LEN = SNAPSHOT_HEADER_LEN + SNAPSHOT_CHECKSUM_LEN"

type_synonym checksum = "u8 list \<Rightarrow> u32"

definition seal_snapshot_in_place ::
  "checksum \<Rightarrow> snapshot_region \<Rightarrow> nat \<Rightarrow> u8 list \<Rightarrow> (snapshot_seal_error + nat) \<times> u8 list" where
  "seal_snapshot_in_place crc32 region payload_len out =
     (let total_len = SNAPSHOT_OVERHEAD_LEN + payload_len
      in if length out < total_len then (Inl SealBufferTooShort, out)
         else
           let out = copy_into out 0 SNAPSHOT_MAGIC;
               out = out[4 := SNAPSHOT_VERSION];
               out = out[5 := region_tag region];
               out = copy_into out 6 (to_le_bytes (of_nat payload_len :: u32));
               checksum = crc32 (take (SNAPSHOT_HEADER_LEN + payload_len) out);
               out = copy_into out (SNAPSHOT_HEADER_LEN + payload_len) (to_le_bytes checksum)
           in (Inr total_len, out))"

definition seal_snapshot ::
  "checksum \<Rightarrow> snapshot_region \<Rightarrow> u8 list \<Rightarrow> u8 list \<Rightarrow> (snapshot_seal_error + nat) \<times> u8 list" where
  "seal_snapshot crc32 region payload out =
     (let total_len = SNAPSHOT_OVERHEAD_LEN + length payload
      in if length out < total_len then (Inl SealBufferTooShort, out)
         else seal_snapshot_in_place crc32 region (length payload) (copy_into out SNAPSHOT_HEADER_LEN payload))"

definition open_snapshot ::
  "checksum \<Rightarrow> snapshot_region \<Rightarrow> u8 list \<Rightarrow> snapshot_open_error + u8 list" where
  "open_snapshot crc32 region bytes =
     (if length bytes < SNAPSHOT_OVERHEAD_LEN then Inl SnapshotTruncated
      else if take (length SNAPSHOT_MAGIC) bytes \<noteq> SNAPSHOT_MAGIC then Inl BadMagic
      else if bytes ! 4 \<noteq> SNAPSHOT_VERSION then Inl (UnsupportedVersion (bytes ! 4))
      else if bytes ! 5 \<noteq> region_tag region then Inl (WrongRegion (bytes ! 5))
      else
        let payload_len = unat (from_le_bytes [bytes ! 6, bytes ! 7, bytes ! 8, bytes ! 9] :: u32);
            total_len = SNAPSHOT_OVERHEAD_LEN + payload_len
        in if length bytes < total_len then Inl SnapshotTruncated
           else
             let checksum_at = SNAPSHOT_HEADER_LEN + payload_len;
                 found = from_le_bytes [bytes ! checksum_at, bytes ! (checksum_at + 1),
                   bytes ! (checksum_at + 2), bytes ! (checksum_at + 3)]
             in if found \<noteq> crc32 (take checksum_at bytes) then Inl ChecksumMismatch
                else Inr (slice bytes SNAPSHOT_HEADER_LEN (checksum_at - SNAPSHOT_HEADER_LEN)))"

definition snapshot_fingerprint :: "u8 list \<Rightarrow> u8 list option" where
  "snapshot_fingerprint sealed =
     (if length sealed < SNAPSHOT_OVERHEAD_LEN then None
      else
        let payload_len = unat (from_le_bytes [sealed ! 6, sealed ! 7, sealed ! 8, sealed ! 9] :: u32);
            checksum_at = SNAPSHOT_HEADER_LEN + payload_len
        in if length sealed < checksum_at + SNAPSHOT_CHECKSUM_LEN then None
           else Some (slice sealed checksum_at SNAPSHOT_CHECKSUM_LEN))"

section \<open>The portable checksum\<close>

definition crc_shift :: "u32 \<Rightarrow> u32" where
  "crc_shift crc =
     (let low_bit_set = - (crc AND 1)
      in drop_bit 1 crc XOR (0xEDB88320 AND low_bit_set))"

fun crc_loop :: "u32 \<Rightarrow> u8 list \<Rightarrow> u32" where
  "crc_loop crc [] = crc"
| "crc_loop crc (byte # bytes) = crc_loop ((crc_shift ^^ 8) (crc XOR ucast byte)) bytes"

definition crc32_portable :: checksum where
  "crc32_portable bytes = NOT (crc_loop 0xFFFFFFFF bytes)"

section \<open>The clock snapshot\<close>

definition TIMEBASE_PAYLOAD_LEN :: nat where
  "TIMEBASE_PAYLOAD_LEN = 8"

definition TIMEBASE_SNAPSHOT_LEN :: nat where
  "TIMEBASE_SNAPSHOT_LEN = SNAPSHOT_OVERHEAD_LEN + TIMEBASE_PAYLOAD_LEN"

definition write_timebase_snapshot ::
  "checksum \<Rightarrow> u64 \<Rightarrow> u8 list \<Rightarrow> (snapshot_seal_error + nat) \<times> u8 list" where
  "write_timebase_snapshot crc32 high_water out = seal_snapshot crc32 RegionTimebase (to_le_bytes high_water) out"

definition read_timebase_snapshot :: "checksum \<Rightarrow> u8 list \<Rightarrow> snapshot_read_error + u64" where
  "read_timebase_snapshot crc32 bytes =
     (case open_snapshot crc32 RegionTimebase bytes of
        Inl e \<Rightarrow> Inl (Envelope e)
      | Inr payload \<Rightarrow>
          if length payload \<noteq> TIMEBASE_PAYLOAD_LEN then Inl MalformedPayload
          else Inr (from_le_bytes payload))"

section \<open>Sealing and opening\<close>

text \<open>The covered bytes of a sealed frame, and the frame.\<close>

definition sealed_head :: "snapshot_region \<Rightarrow> u8 list \<Rightarrow> u8 list" where
  "sealed_head region payload =
     SNAPSHOT_MAGIC @ [SNAPSHOT_VERSION, region_tag region] @ to_le_bytes (of_nat (length payload) :: u32) @ payload"

definition sealed_frame :: "checksum \<Rightarrow> snapshot_region \<Rightarrow> u8 list \<Rightarrow> u8 list" where
  "sealed_frame crc32 region payload =
     sealed_head region payload @ to_le_bytes (crc32 (sealed_head region payload))"

lemmas snapshot_lens = SNAPSHOT_HEADER_LEN_def SNAPSHOT_OVERHEAD_LEN_def SNAPSHOT_CHECKSUM_LEN_def

lemma length_SNAPSHOT_MAGIC [simp]: "length SNAPSHOT_MAGIC = 4"
  by (simp add: SNAPSHOT_MAGIC_def)

lemma SNAPSHOT_HEADER_LEN_eq: "SNAPSHOT_HEADER_LEN = 10"
  by (simp add: SNAPSHOT_HEADER_LEN_def)

lemma region_tag_inject [simp]: "region_tag a = region_tag b \<longleftrightarrow> a = b"
  by (cases a; cases b) simp_all

lemma length_sealed_head [simp]: "length (sealed_head region payload) = SNAPSHOT_HEADER_LEN + length payload"
  by (simp add: sealed_head_def snapshot_lens)

lemma length_sealed_frame [simp]: "length (sealed_frame crc32 region payload) = SNAPSHOT_OVERHEAD_LEN + length payload"
  by (simp add: sealed_frame_def snapshot_lens)

lemma seal_in_place_frame:
  assumes len: "SNAPSHOT_OVERHEAD_LEN + length payload \<le> length out"
    and payload: "slice out SNAPSHOT_HEADER_LEN (length payload) = payload"
  shows "seal_snapshot_in_place crc32 region (length payload) out =
    (Inr (SNAPSHOT_OVERHEAD_LEN + length payload), copy_into out 0 (sealed_frame crc32 region payload))"
proof -
  define hd where "hd = SNAPSHOT_MAGIC @ [SNAPSHOT_VERSION, region_tag region] @ to_le_bytes (of_nat (length payload) :: u32)"
  have l: "length hd = 10" by (simp add: hd_def)
  let ?out = "copy_into ((copy_into out 0 SNAPSHOT_MAGIC)[4 := SNAPSHOT_VERSION, 5 := region_tag region]) 6
    (to_le_bytes (of_nat (length payload) :: u32))"
  have n: "14 + length payload \<le> length out" using len by (simp add: snapshot_lens)
  have "(copy_into out 0 SNAPSHOT_MAGIC)[4 := SNAPSHOT_VERSION] = copy_into out 0 (SNAPSHOT_MAGIC @ [SNAPSHOT_VERSION])"
    using update_copy_into [of 0 SNAPSHOT_MAGIC out SNAPSHOT_VERSION] n by simp
  moreover have "(copy_into out 0 (SNAPSHOT_MAGIC @ [SNAPSHOT_VERSION]))[5 := region_tag region]
      = copy_into out 0 (SNAPSHOT_MAGIC @ [SNAPSHOT_VERSION, region_tag region])"
    using update_copy_into [of 0 "SNAPSHOT_MAGIC @ [SNAPSHOT_VERSION]" out "region_tag region"] n
    by simp
  ultimately have "?out = copy_into out 0 hd"
    using copy_into_append [of 0 "SNAPSHOT_MAGIC @ [SNAPSHOT_VERSION, region_tag region]" out] n
    by (simp add: hd_def)
  then have out: "?out = hd @ drop 10 out"
    using n by (simp add: copy_into_def l)
  have head: "take (10 + length payload) ?out = sealed_head region payload"
    unfolding out using payload by (simp add: l slice_def snapshot_lens) (simp add: hd_def sealed_head_def)
  have tail: "drop (14 + length payload) ?out = drop (14 + length payload) out"
    unfolding out by (simp add: l)
  show ?thesis
    using len head tail by (simp add: seal_snapshot_in_place_def Let_def snapshot_lens copy_into_def [of _ "10 + length payload"]
      copy_into_def [of _ 0 "sealed_head _ _ @ _"] sealed_frame_def)
qed

lemma seal_snapshot_frame:
  assumes "SNAPSHOT_OVERHEAD_LEN + length payload \<le> length out"
  shows "seal_snapshot crc32 region payload out =
    (Inr (SNAPSHOT_OVERHEAD_LEN + length payload), copy_into out 0 (sealed_frame crc32 region payload))"
proof -
  let ?out = "copy_into out SNAPSHOT_HEADER_LEN payload"
  have l: "length ?out = length out" using assms by (simp add: snapshot_lens)
  have "slice ?out SNAPSHOT_HEADER_LEN (length payload) = payload"
    using assms by (simp add: slice_def copy_into_def snapshot_lens)
  from seal_in_place_frame [OF _ this] assms l
  have "seal_snapshot crc32 region payload out =
    (Inr (SNAPSHOT_OVERHEAD_LEN + length payload), copy_into ?out 0 (sealed_frame crc32 region payload))"
    by (simp add: seal_snapshot_def)
  moreover have "copy_into ?out 0 (sealed_frame crc32 region payload) = copy_into out 0 (sealed_frame crc32 region payload)"
    using assms by (simp add: copy_into_def [of _ 0] snapshot_lens)
  ultimately show ?thesis by simp
qed

text \<open>The fields \<open>open_snapshot\<close> reads, from the front of a list of known length.\<close>

lemma le_word_at:
  assumes "i + 4 \<le> length bytes"
  shows "[bytes ! i, bytes ! (i + 1), bytes ! (i + 2), bytes ! (i + 3)] = slice bytes i 4"
  using assms by (intro nth_equalityI) (auto simp: slice_def less_Suc_eq numeral_eq_Suc)

lemma open_snapshot_fields:
  assumes "SNAPSHOT_OVERHEAD_LEN \<le> length bytes"
  shows "open_snapshot crc32 region bytes =
    (let n = unat (from_le_bytes (slice bytes 6 4) :: u32)
     in if take 4 bytes \<noteq> SNAPSHOT_MAGIC then Inl BadMagic
        else if bytes ! 4 \<noteq> SNAPSHOT_VERSION then Inl (UnsupportedVersion (bytes ! 4))
        else if bytes ! 5 \<noteq> region_tag region then Inl (WrongRegion (bytes ! 5))
        else if length bytes < 14 + n then Inl SnapshotTruncated
        else if from_le_bytes (slice bytes (10 + n) 4) \<noteq> crc32 (take (10 + n) bytes) then Inl ChecksumMismatch
        else Inr (slice bytes 10 n))"
proof -
  have "[bytes ! 6, bytes ! 7, bytes ! 8, bytes ! 9] = slice bytes 6 4"
    using le_word_at [of 6 bytes] assms by (simp add: snapshot_lens)
  moreover have "14 + n \<le> length bytes \<Longrightarrow>
      [bytes ! (10 + n), bytes ! (10 + n + 1), bytes ! (10 + n + 2), bytes ! (10 + n + 3)] = slice bytes (10 + n) 4" for n
    by (rule le_word_at) simp
  ultimately show ?thesis using assms by (simp add: open_snapshot_def Let_def snapshot_lens not_less cong: if_cong del: from_le_bytes.simps)
qed

lemma frame_fields:
  fixes crc32 :: checksum and payload rest :: "u8 list"
  assumes "length payload < 2 ^ 32"
    and f_def: "f = sealed_frame crc32 region payload @ rest"
  shows "take 4 f = SNAPSHOT_MAGIC" "f ! 4 = SNAPSHOT_VERSION" "f ! 5 = region_tag region"
    and "unat (from_le_bytes (slice f 6 4) :: u32) = length payload"
    and "take (10 + length payload) f = sealed_head region payload"
    and "slice f (10 + length payload) 4 = to_le_bytes (crc32 (sealed_head region payload))"
    and "slice f 10 (length payload) = payload"
proof -
  have f: "f = SNAPSHOT_MAGIC @ [SNAPSHOT_VERSION, region_tag region] @ to_le_bytes (of_nat (length payload) :: u32)
      @ payload @ to_le_bytes (crc32 (sealed_head region payload)) @ rest"
    by (simp add: f_def sealed_frame_def sealed_head_def)
  show "take 4 f = SNAPSHOT_MAGIC" "f ! 4 = SNAPSHOT_VERSION" "f ! 5 = region_tag region"
    by (simp_all add: f nth_append)
  have "slice f 6 4 = to_le_bytes (of_nat (length payload) :: u32)"
    by (simp add: f slice_def)
  then show "unat (from_le_bytes (slice f 6 4) :: u32) = length payload"
    using assms(1) by (simp add: from_to_le_bytes unat_of_nat)
  have f': "f = sealed_head region payload @ to_le_bytes (crc32 (sealed_head region payload)) @ rest"
    by (simp add: f_def sealed_frame_def)
  show "take (10 + length payload) f = sealed_head region payload"
    "slice f (10 + length payload) 4 = to_le_bytes (crc32 (sealed_head region payload))"
    by (simp_all add: f' slice_def snapshot_lens)
  show "slice f 10 (length payload) = payload"
    by (simp add: f slice_def)
qed

lemma open_sealed_frame:
  assumes "length payload < 2 ^ 32"
  shows "open_snapshot crc32 region' (sealed_frame crc32 region payload @ rest) =
    (if region' = region then Inr payload else Inl (WrongRegion (region_tag region)))"
  using frame_fields [OF assms refl, of crc32 region rest]
  by (simp add: open_snapshot_fields Let_def from_to_le_bytes) (simp add: snapshot_lens)

lemma drop_slice: "i + k \<le> length xs \<Longrightarrow> drop i xs = slice xs i k @ drop (i + k) xs"
  unfolding slice_def by (metis add.commute append_take_drop_id drop_drop)

lemma open_snapshot_frame:
  assumes "open_snapshot crc32 region bytes = Inr payload"
  shows "length payload < 2 ^ 32 \<and> (\<exists>rest. bytes = sealed_frame crc32 region payload @ rest)"
proof -
  define n where "n = unat (from_le_bytes (slice bytes 6 4) :: u32)"
  have big: "SNAPSHOT_OVERHEAD_LEN \<le> length bytes"
    using assms by (auto simp: open_snapshot_def split: if_splits)
  have A: "take 4 bytes = SNAPSHOT_MAGIC" "bytes ! 4 = SNAPSHOT_VERSION" "bytes ! 5 = region_tag region"
    "14 + n \<le> length bytes" "from_le_bytes (slice bytes (10 + n) 4) = crc32 (take (10 + n) bytes)"
    "payload = slice bytes 10 n"
    using assms unfolding open_snapshot_fields [OF big] n_def [symmetric] by (auto simp: Let_def split: if_splits)
  have n: "n < 2 ^ 32" using unat_less_pow [of "from_le_bytes (slice bytes 6 4) :: u32"] by (simp add: n_def)
  have len: "length payload = n" using A(4,6) by simp
  have le: "slice bytes 6 4 = to_le_bytes (of_nat n :: u32)"
    using A(4) by (simp add: n_def to_from_le_bytes)
  have vt: "slice bytes 4 2 = [SNAPSHOT_VERSION, region_tag region]"
    using A(2-4) by (intro nth_equalityI) (auto simp: less_Suc_eq numeral_2_eq_2)
  have d4: "drop 4 bytes = slice bytes 4 2 @ drop 6 bytes" using drop_slice [of 4 2 bytes] A(4) by simp
  have d6: "drop 6 bytes = slice bytes 6 4 @ drop 10 bytes" using drop_slice [of 6 4 bytes] A(4) by simp
  have d10: "drop 10 bytes = payload @ drop (10 + n) bytes" using drop_slice [of 10 n bytes] A(4,6) by simp
  have c: "drop (10 + n) bytes = slice bytes (10 + n) 4 @ drop (14 + n) bytes"
    using drop_slice [of "10 + n" 4 bytes] A(4) by simp
  have "bytes = take 4 bytes @ drop 4 bytes" by simp
  then have split: "bytes = sealed_head region payload @ drop (10 + n) bytes"
    unfolding d4 d6 d10 vt le A(1) by (simp add: sealed_head_def len)
  then have head: "take (10 + n) bytes = sealed_head region payload"
    by (metis append_eq_conv_conj length_sealed_head len SNAPSHOT_HEADER_LEN_eq)
  have "slice bytes (10 + n) 4 = to_le_bytes (crc32 (sealed_head region payload))"
    using A(4) by (simp add: A(5) [symmetric] head [symmetric] to_from_le_bytes)
  with split c have "bytes = sealed_frame crc32 region payload @ drop (14 + n) bytes"
    by (simp add: sealed_frame_def)
  with n len show ?thesis by blast
qed

lemma fingerprint_of_frame:
  assumes "length payload < 2 ^ 32"
  shows "snapshot_fingerprint (sealed_frame crc32 region payload @ rest) =
    Some (to_le_bytes (crc32 (sealed_head region payload)))"
proof -
  let ?f = "sealed_frame crc32 region payload @ rest"
  have "[?f ! 6, ?f ! 7, ?f ! 8, ?f ! 9] = slice ?f 6 4"
    using le_word_at [of 6 ?f] by (simp add: snapshot_lens)
  then show ?thesis
    using frame_fields(4,6) [OF assms refl, of crc32 region rest]
    by (simp add: snapshot_fingerprint_def Let_def snapshot_lens del: from_le_bytes.simps)
qed

lemma timebase_round_trip:
  assumes "TIMEBASE_SNAPSHOT_LEN \<le> length out"
  shows "fst (write_timebase_snapshot crc32 high_water out) = Inr TIMEBASE_SNAPSHOT_LEN"
    and "read_timebase_snapshot crc32 (snd (write_timebase_snapshot crc32 high_water out)) = Inr high_water"
proof -
  have w: "write_timebase_snapshot crc32 high_water out = (Inr TIMEBASE_SNAPSHOT_LEN,
      sealed_frame crc32 RegionTimebase (to_le_bytes high_water) @ drop TIMEBASE_SNAPSHOT_LEN out)"
    using assms seal_snapshot_frame [of "to_le_bytes high_water" out crc32 RegionTimebase]
    by (simp add: write_timebase_snapshot_def TIMEBASE_SNAPSHOT_LEN_def TIMEBASE_PAYLOAD_LEN_def copy_into_def [of _ 0])
  then show "fst (write_timebase_snapshot crc32 high_water out) = Inr TIMEBASE_SNAPSHOT_LEN"
    "read_timebase_snapshot crc32 (snd (write_timebase_snapshot crc32 high_water out)) = Inr high_water"
    by (simp_all add: read_timebase_snapshot_def open_sealed_frame TIMEBASE_PAYLOAD_LEN_def from_to_le_bytes)
qed

section \<open>The checksum as a linear map\<close>

lemma crc_shift_alt: "crc_shift s = drop_bit 1 s XOR (if odd s then 0xEDB88320 else 0)"
  by (simp add: crc_shift_def and_one_eq odd_iff_mod_2_eq_one)

lemma crc_shift_xor: "crc_shift (a XOR b) = crc_shift a XOR crc_shift b"
  by (simp add: crc_shift_alt even_xor_iff ac_simps)

lemma crc_shift_eq_0: "crc_shift s = 0 \<Longrightarrow> s = 0"
proof -
  assume s: "crc_shift s = 0"
  have "\<not> bit s 32" using bit_imp_le_length [of s 32] by auto
  then have "bit (crc_shift s) 31 = odd s"
    by (simp add: crc_shift_alt bit_simps)
  with s have "even s" by simp
  with s have half: "drop_bit 1 s = 0" by (simp add: crc_shift_alt)
  have "\<not> bit s n" for n
  proof (cases n)
    case 0
    with \<open>even s\<close> show ?thesis by (simp add: bit_0)
  next
    case (Suc m)
    have "bit (drop_bit 1 s) m = bit s n" by (simp add: bit_drop_bit_eq Suc)
    with half show ?thesis by simp
  qed
  then show "s = 0" by (simp add: bit_word_eqI)
qed

lemma xor_right_inject: "a XOR c = b XOR c \<longleftrightarrow> a = b" for a b c :: "'a::len word"
proof
  assume "a XOR c = b XOR c"
  then have "(a XOR c) XOR c = (b XOR c) XOR c" by simp
  then show "a = b" by (simp only: xor.assoc xor_self_eq xor.right_neutral)
qed simp

lemma crc_shifts_xor: "(crc_shift ^^ k) (a XOR b) = (crc_shift ^^ k) a XOR (crc_shift ^^ k) b"
  by (induction k) (simp_all add: crc_shift_xor)

lemma crc_shift_inject: "crc_shift x = crc_shift y \<longleftrightarrow> x = y"
proof
  assume "crc_shift x = crc_shift y"
  then have "crc_shift (x XOR y) = 0" by (simp only: crc_shift_xor xor_self_eq)
  then have "x XOR y = y XOR y" by (simp only: crc_shift_eq_0 xor_self_eq)
  then show "x = y" by (simp only: xor_right_inject)
qed simp

lemma crc_shifts_inject: "(crc_shift ^^ k) a = (crc_shift ^^ k) b \<longleftrightarrow> a = b"
  by (induction k) (simp_all only: funpow.simps o_apply id_apply crc_shift_inject)

text \<open>Shifting out zero bits only moves the rest down.\<close>

lemma crc_shifts_push:
  assumes "\<forall>n. bit x n \<longrightarrow> n + k < 32"
  shows "(crc_shift ^^ k) (push_bit k x) = x"
  using assms
proof (induction k)
  case (Suc k)
  have "crc_shift (push_bit (Suc k) x) = push_bit k x"
    by (rule bit_word_eqI) (use Suc.prems in \<open>auto simp: crc_shift_alt bit_simps even_push_bit_iff Suc_diff_le simp del: push_bit_Suc\<close>)
  moreover have "(crc_shift ^^ k) (push_bit k x) = x"
    using Suc.prems by (intro Suc.IH) auto
  ultimately show ?case by (simp only: funpow_Suc_right o_apply)
qed simp

lemma crc_loop_append: "crc_loop s (xs @ ys) = crc_loop (crc_loop s xs) ys"
  by (induction xs arbitrary: s) auto

lemma crc_loop_word:
  assumes "length w \<le> 4"
  shows "crc_loop s w = (crc_shift ^^ (8 * length w)) (s XOR from_le_bytes w)"
  using assms
proof (induction w arbitrary: s)
  case (Cons b w)
  let ?r = "from_le_bytes w :: u32"
  have "n div 8 < length w" if "bit ?r n" for n using that by (simp add: bit_from_le_bytes)
  then have "\<forall>n. bit ?r n \<longrightarrow> n + 8 < 32" using Cons.prems by fastforce
  then have r: "(crc_shift ^^ 8) (push_bit 8 ?r) = ?r" by (rule crc_shifts_push)
  have "s XOR from_le_bytes (b # w) = (s XOR ucast b) XOR push_bit 8 ?r"
    by (rule bit_word_eqI) (auto simp: bit_simps dest: bit_imp_le_length)
  then have "(crc_shift ^^ 8) (s XOR from_le_bytes (b # w)) = (crc_shift ^^ 8) (s XOR ucast b) XOR ?r"
    by (simp only: crc_shifts_xor r)
  moreover have "(crc_shift ^^ (8 * length (b # w))) x = (crc_shift ^^ (8 * length w)) ((crc_shift ^^ 8) x)" for x
    by (simp only: list.size mult_Suc_right funpow_add o_apply add.commute [of 8] plus_nat.add_0 add_Suc_right)
      (simp add: mult.commute funpow_add)
  ultimately show ?case using Cons by (simp del: from_le_bytes.simps)
qed simp

lemma crc_loop_inject [simp]: "crc_loop a bs = crc_loop b bs \<longleftrightarrow> a = b"
proof (induction bs arbitrary: a b)
  case (Cons c bs)
  then show ?case by (simp only: crc_loop.simps crc_shifts_inject xor_right_inject)
qed simp

text \<open>A frame is intact when running the checksum over it, checksum included, leaves the residue.\<close>

definition crc_residue :: u32 where
  "crc_residue = (crc_shift ^^ 32) 0xFFFFFFFF"

lemma crc_residue_iff:
  assumes "length c = 4"
  shows "from_le_bytes c = crc32_portable bs \<longleftrightarrow> crc_loop 0xFFFFFFFF (bs @ c) = crc_residue"
proof -
  have e: "8 * length c = 32" "length c \<le> 4" using assms by simp_all
  have "crc_loop 0xFFFFFFFF (bs @ c) = (crc_shift ^^ 32) (crc_loop 0xFFFFFFFF bs XOR from_le_bytes c)"
    unfolding crc_loop_append crc_loop_word [OF e(2)] e(1) ..
  then have "crc_loop 0xFFFFFFFF (bs @ c) = crc_residue \<longleftrightarrow> crc_loop 0xFFFFFFFF bs XOR from_le_bytes c = 0xFFFFFFFF"
    unfolding crc_residue_def by (metis crc_shifts_inject)
  moreover have "x XOR y = 0xFFFFFFFF \<longleftrightarrow> y = NOT x" for x y :: u32
  proof -
    have m: "(0xFFFFFFFF :: u32) = NOT 0" by simp
    have n: "NOT x = x XOR 0xFFFFFFFF" unfolding m by simp
    have "y = x XOR (x XOR y)" by (simp only: xor.assoc [symmetric] xor_self_eq xor.left_neutral)
    moreover have "x XOR (x XOR 0xFFFFFFFF) = 0xFFFFFFFF" by (simp only: xor.assoc [symmetric] xor_self_eq xor.left_neutral)
    ultimately show ?thesis unfolding n by metis
  qed
  ultimately show ?thesis unfolding crc32_portable_def by metis
qed

text \<open>Bytes that differ in a window of four have different states after it, and the state keeps the difference.\<close>

lemma crc_burst:
  assumes "length w' = length w" "length w \<le> 4" "w' \<noteq> w"
  shows "crc_loop s (xs @ w' @ ys) \<noteq> crc_loop s (xs @ w @ ys)"
proof
  assume "crc_loop s (xs @ w' @ ys) = crc_loop s (xs @ w @ ys)"
  then have "crc_loop (crc_loop s xs) w' = crc_loop (crc_loop s xs) w"
    by (simp only: crc_loop_append crc_loop_inject)
  then have "from_le_bytes w' XOR crc_loop s xs = from_le_bytes w XOR crc_loop s xs"
    using assms(1,2) by (simp add: crc_loop_word crc_shifts_inject xor.commute)
  then have "(from_le_bytes w' :: u32) = from_le_bytes w" by (simp only: xor_right_inject)
  with from_le_bytes_inject [of w' w, where 'a = 32] assms show False by simp
qed

lemma frame_residue: "crc_loop 0xFFFFFFFF (sealed_frame crc32_portable region payload) = crc_residue"
  unfolding sealed_frame_def
  by (subst crc_residue_iff [symmetric]) (simp_all add: from_to_le_bytes)

section \<open>Properties of the frame\<close>

text \<open>
  C15. Sealing and opening. A sealed payload opens to itself, in its own region only, whatever the checksum
  function, the bytes after the frame are left alone, and what opens is a sealed frame: sealing the
  payload again over accepted bytes changes none of them.
\<close>

theorem sealed_snapshot_round_trip:
  assumes "length payload < 2 ^ 32" "SNAPSHOT_OVERHEAD_LEN + length payload \<le> length out"
    and "seal_snapshot crc32 region payload out = (r, sealed)"
  shows "r = Inr (SNAPSHOT_OVERHEAD_LEN + length payload) \<and> length sealed = length out
    \<and> drop (SNAPSHOT_OVERHEAD_LEN + length payload) sealed = drop (SNAPSHOT_OVERHEAD_LEN + length payload) out
    \<and> open_snapshot crc32 region' sealed = (if region' = region then Inr payload else Inl (WrongRegion (region_tag region)))
    \<and> (open_snapshot crc32 region' bytes = Inr p \<longrightarrow>
        seal_snapshot crc32 region' p bytes = (Inr (SNAPSHOT_OVERHEAD_LEN + length p), bytes))"
proof -
  have s: "r = Inr (SNAPSHOT_OVERHEAD_LEN + length payload)" "sealed = copy_into out 0 (sealed_frame crc32 region payload)"
    using assms(3) unfolding seal_snapshot_frame [OF assms(2)] by simp_all
  have "sealed = sealed_frame crc32 region payload @ drop (SNAPSHOT_OVERHEAD_LEN + length payload) out"
    by (simp add: s(2) copy_into_def)
  moreover have "seal_snapshot crc32 region' p bytes = (Inr (SNAPSHOT_OVERHEAD_LEN + length p), bytes)"
    if accepted: "open_snapshot crc32 region' bytes = Inr p"
  proof -
    obtain rest where "bytes = sealed_frame crc32 region' p @ rest" using open_snapshot_frame [OF accepted] by blast
    then show ?thesis by (simp add: seal_snapshot_frame copy_into_def)
  qed
  ultimately show ?thesis using assms(2) by (simp add: s(1) open_sealed_frame [OF assms(1)])
qed

theorem sealed_snapshot_round_trip_witness:
  "\<exists>sealed. seal_snapshot crc32_portable RegionTimebase [1, 2, 3] (replicate 20 0) = (Inr 17, sealed)
     \<and> open_snapshot crc32_portable RegionTimebase sealed = Inr [1, 2, 3]
     \<and> open_snapshot crc32_portable RegionTunnels sealed = Inl (WrongRegion 1)"
proof -
  obtain r sealed where s: "seal_snapshot crc32_portable RegionTimebase [1, 2, 3] (replicate 20 0) = (r, sealed)" by fastforce
  show ?thesis
    using sealed_snapshot_round_trip [OF _ _ s, of RegionTimebase] sealed_snapshot_round_trip [OF _ _ s, of RegionTunnels] s
    by (simp add: snapshot_lens)
qed

text \<open>
  C14. Bit rot. Accepted bytes that are then damaged in up to four neighbouring bytes of the frame, magic,
  version, tag, payload and checksum alike, are refused, as long as the damage spares the length field.
\<close>

theorem damaged_snapshot_is_refused:
  assumes "open_snapshot crc32_portable region (before @ old @ behind) = Inr payload"
    and "length before + length old \<le> SNAPSHOT_OVERHEAD_LEN + length payload"
    and "length damage = length old" "length old \<le> 4" "damage \<noteq> old"
    and "slice (before @ damage @ behind) 6 4 = slice (before @ old @ behind) 6 4"
  shows "\<exists>e. open_snapshot crc32_portable region (before @ damage @ behind) = Inl e"
proof (rule ccontr)
  assume "\<not> ?thesis"
  then obtain p where p: "open_snapshot crc32_portable region (before @ damage @ behind) = Inr p"
    by (cases "open_snapshot crc32_portable region (before @ damage @ behind)") auto
  obtain rest where old: "length payload < 2 ^ 32" "before @ old @ behind = sealed_frame crc32_portable region payload @ rest"
    using open_snapshot_frame [OF assms(1)] by blast
  obtain rest' where new: "length p < 2 ^ 32" "before @ damage @ behind = sealed_frame crc32_portable region p @ rest'"
    using open_snapshot_frame [OF p] by blast
  have len: "length p = length payload"
    using frame_fields(4) [OF old] frame_fields(4) [OF new] assms(6) by simp
  let ?n = "SNAPSHOT_OVERHEAD_LEN + length payload"
  let ?behind = "take (?n - length before - length old) behind"
  have "take ?n (before @ old @ behind) = before @ old @ ?behind" "take ?n (before @ damage @ behind) = before @ damage @ ?behind"
    using assms(2,3) by simp_all
  then have "sealed_frame crc32_portable region payload = before @ old @ ?behind"
    "sealed_frame crc32_portable region p = before @ damage @ ?behind"
    unfolding old(2) new(2) by (simp_all add: len)
  with crc_burst [OF assms(3-5), where s = "0xFFFFFFFF" and xs = before and ys = ?behind] frame_residue show False by metis
qed

theorem damaged_snapshot_is_refused_witness:
  "\<exists>before behind e. sealed_frame crc32_portable RegionTimebase [1, 2, 3] = before @ [2] @ behind
     \<and> open_snapshot crc32_portable RegionTimebase (before @ [2] @ behind) = Inr [1, 2, 3]
     \<and> open_snapshot crc32_portable RegionTimebase (before @ [7] @ behind) = Inl e"
proof -
  let ?before = "SNAPSHOT_MAGIC @ [SNAPSHOT_VERSION, region_tag RegionTimebase] @ to_le_bytes (3 :: u32) @ [1]"
  let ?behind = "3 # to_le_bytes (crc32_portable (sealed_head RegionTimebase [1, 2, 3]))"
  have f: "sealed_frame crc32_portable RegionTimebase [1, 2, 3] = ?before @ [2] @ ?behind"
    by (simp add: sealed_frame_def sealed_head_def)
  have o: "open_snapshot crc32_portable RegionTimebase (?before @ [2] @ ?behind) = Inr [1, 2, 3]"
    using open_sealed_frame [of "[1, 2, 3]" crc32_portable RegionTimebase RegionTimebase "[]"] f by simp
  have "\<exists>e. open_snapshot crc32_portable RegionTimebase (?before @ [7] @ ?behind) = Inl e"
    by (rule damaged_snapshot_is_refused [OF o]) (simp_all add: snapshot_lens slice_def)
  with f o show ?thesis by blast
qed

end
