(* ===== verification/Route_Snapshot.thy ===== *)
theory Route_Snapshot
  imports Snapshot_Envelope Routing_Table_Spec "HOL-Library.Monad_Syntax"
begin

text \<open>
  The routing-table region of a snapshot, \<^verbatim>\<open>prns-core/src/persistence/routing_table.rs\<close>: the rows that
  \<open>persisted_rows\<close> yields, written one after another behind a row count, by one thread or by several, and
  the iterator that reads them back. How many threads there are is an argument; a build without the
  \<^verbatim>\<open>parallel-persistence\<close> feature is the one with a single thread.
\<close>

section \<open>Sizes and tags\<close>

definition INTERFACE_ID_LEN :: nat where
  "INTERFACE_ID_LEN = 1 + 7"

definition DOTTED_NAME_HASH_BYTE_LEN :: nat where
  "DOTTED_NAME_HASH_BYTE_LEN = 10"

definition RATCHET_BYTE_LEN :: nat where
  "RATCHET_BYTE_LEN = 32"

definition SIGNATURE_BYTE_LEN :: nat where
  "SIGNATURE_BYTE_LEN = 64"

text \<open>\<open>X25519PublicKey::LEN\<close> and \<open>Ed25519PublicKey::LEN\<close>.\<close>

definition PUBLIC_KEY_LEN :: nat where
  "PUBLIC_KEY_LEN = 32"

definition ROW_COUNT_LEN :: nat where
  "ROW_COUNT_LEN = 4"

definition INSTANT_LEN :: nat where
  "INSTANT_LEN = 8"

definition TAG_LEN :: nat where
  "TAG_LEN = 1"

definition HOPS_LEN :: nat where
  "HOPS_LEN = 1"

definition APP_DATA_LEN_PREFIX_LEN :: nat where
  "APP_DATA_LEN_PREFIX_LEN = 2"

definition RING_COUNT_PREFIX_LEN :: nat where
  "RING_COUNT_PREFIX_LEN = 1"

definition MIN_PERSISTED_ROUTE_ROW_WIRE_LEN :: nat where
  "MIN_PERSISTED_ROUTE_ROW_WIRE_LEN =
     TRUNCATED_HASH_BYTE_LEN + HOPS_LEN + INSTANT_LEN + INSTANT_LEN + TAG_LEN + INTERFACE_ID_LEN + TAG_LEN
     + PUBLIC_KEY_LEN + PUBLIC_KEY_LEN + DOTTED_NAME_HASH_BYTE_LEN + ANNOUNCE_ID_WIRE_LEN + TAG_LEN
     + SIGNATURE_BYTE_LEN + APP_DATA_LEN_PREFIX_LEN + RING_COUNT_PREFIX_LEN"

fun responsiveness_tag :: "route_responsiveness \<Rightarrow> u8" where
  "responsiveness_tag Unknown = 0"
| "responsiveness_tag Responsive = 1"
| "responsiveness_tag Unresponsive = 2"

definition responsiveness_of_tag :: "u8 \<Rightarrow> route_responsiveness option" where
  "responsiveness_of_tag tag =
     (if tag = 0 then Some Unknown else if tag = 1 then Some Responsive
      else if tag = 2 then Some Unresponsive else None)"

definition NEXT_HOP_DIRECT_TAG :: u8 where "NEXT_HOP_DIRECT_TAG = 0"
definition NEXT_HOP_VIA_TAG :: u8 where "NEXT_HOP_VIA_TAG = 1"
definition RATCHET_ABSENT_TAG :: u8 where "RATCHET_ABSENT_TAG = 0"
definition RATCHET_PRESENT_TAG :: u8 where "RATCHET_PRESENT_TAG = 1"

definition RING_MAX_PERSISTED_IDS :: nat where
  "RING_MAX_PERSISTED_IDS = 255"

datatype snapshot_write_error = WriteBufferTooShort | AppDataOutgrewLengthPrefix

definition persisted_route_row_wire_len :: "persisted_route_row \<Rightarrow> nat" where
  "persisted_route_row_wire_len row =
     MIN_PERSISTED_ROUTE_ROW_WIRE_LEN
     + (case re_next_hop (pr_entry row) of Direct \<Rightarrow> 0 | Via _ \<Rightarrow> TRUNCATED_HASH_BYTE_LEN)
     + (case pr_ratchet row of None \<Rightarrow> 0 | Some _ \<Rightarrow> RATCHET_BYTE_LEN)
     + length (pr_app_data row)
     + min (ring_len (pr_announce_id_ring row)) RING_MAX_PERSISTED_IDS * ANNOUNCE_ID_WIRE_LEN"

definition maximum_persisted_route_row_wire_len :: "nat \<Rightarrow> nat \<Rightarrow> nat" where
  "maximum_persisted_route_row_wire_len app_data_len announce_history_depth =
     (let persisted_history_depth =
            (if announce_history_depth < RING_MAX_PERSISTED_IDS then announce_history_depth else RING_MAX_PERSISTED_IDS)
      in MIN_PERSISTED_ROUTE_ROW_WIRE_LEN + TRUNCATED_HASH_BYTE_LEN + RATCHET_BYTE_LEN + app_data_len
         + persisted_history_depth * ANNOUNCE_ID_WIRE_LEN)"

definition maximum_route_upsert_payload_len :: "nat \<Rightarrow> nat \<Rightarrow> nat" where
  "maximum_route_upsert_payload_len app_data_len announce_history_depth =
     SNAPSHOT_OVERHEAD_LEN + ROW_COUNT_LEN
     + maximum_persisted_route_row_wire_len app_data_len announce_history_depth"

definition routing_table_snapshot_len :: "persisted_route_row list \<Rightarrow> nat" where
  "routing_table_snapshot_len rows =
     SNAPSHOT_OVERHEAD_LEN + ROW_COUNT_LEN + sum_list (map persisted_route_row_wire_len rows)"

section \<open>Writing\<close>

text \<open>The closure of \<open>write_row\<close>: the buffer and the position in it.\<close>

definition put :: "u8 list \<Rightarrow> u8 list \<times> nat \<Rightarrow> u8 list \<times> nat" where
  "put bytes = (\<lambda>(buf, at). (copy_into buf at bytes, at + length bytes))"

definition write_row :: "persisted_route_row \<Rightarrow> u8 list \<Rightarrow> u8 list \<times> nat" where
  "write_row row buf =
     (let entry = pr_entry row; s = (buf, 0);
          s = put (destination_bytes (pr_destination row)) s;
          s = put [re_hops entry] s;
          s = put (to_le_bytes (re_learned_at entry)) s;
          s = put (to_le_bytes (re_last_route_activity_at entry)) s;
          s = put [responsiveness_tag (re_responsiveness entry)] s;
          s = put (interface_id_bytes (re_receiving_interface entry)) s;
          s = (case re_next_hop entry of
                 Direct \<Rightarrow> put [NEXT_HOP_DIRECT_TAG] s
               | Via transport_id \<Rightarrow> put (transport_id_bytes transport_id) (put [NEXT_HOP_VIA_TAG] s));
          s = put (encryption_key (pr_public_keys row)) s;
          s = put (signing_key (pr_public_keys row)) s;
          s = put (dotted_name_bytes (pr_dotted_name_hash row)) s;
          s = put (announce_id_to_wire_bytes (pr_announce_id row)) s;
          s = (case pr_ratchet row of
                 None \<Rightarrow> put [RATCHET_ABSENT_TAG] s
               | Some ratchet \<Rightarrow> put (ratchet_bytes ratchet) (put [RATCHET_PRESENT_TAG] s));
          s = put (pr_signature row) s;
          s = put (to_le_bytes (of_nat (length (pr_app_data row)) :: u16)) s;
          s = put (pr_app_data row) s;
          ring_length = ring_len (pr_announce_id_ring row);
          persisted_ids = min ring_length RING_MAX_PERSISTED_IDS;
          s = put [of_nat persisted_ids] s
      in fold (\<lambda>i. put (announce_id_to_wire_bytes i)) (drop (ring_length - persisted_ids) (ring_ids (pr_announce_id_ring row))) s)"

text \<open>The loop over the rows: where it stopped and how many it wrote.\<close>

fun write_rows ::
  "persisted_route_row list \<Rightarrow> u8 list \<Rightarrow> nat \<Rightarrow> u32 \<Rightarrow> (snapshot_write_error + nat \<times> u32) \<times> u8 list" where
  "write_rows [] out at row_count = (Inr (at, row_count), out)"
| "write_rows (row # rows) out at row_count =
     (if length (pr_app_data row) > 65535 then (Inl AppDataOutgrewLengthPrefix, out)
      else
        let row_len = persisted_route_row_wire_len row
        in if length out < at + row_len then (Inl WriteBufferTooShort, out)
           else
             let (row_out, written) = write_row row (slice out at row_len)
             in write_rows rows (copy_into out at row_out) (at + written) (row_count + 1))"

definition seal_written ::
  "checksum \<Rightarrow> nat \<Rightarrow> u8 list \<Rightarrow> (snapshot_write_error + nat) \<times> u8 list" where
  "seal_written crc32 payload_len out =
     (case seal_snapshot_in_place crc32 RegionRoutingTable payload_len out of
        (Inl SealBufferTooShort, out) \<Rightarrow> (Inl WriteBufferTooShort, out)
      | (Inr len, out) \<Rightarrow> (Inr len, out))"

definition write_routing_table_snapshot_serial ::
  "checksum \<Rightarrow> persisted_route_row list \<Rightarrow> u8 list \<Rightarrow> (snapshot_write_error + nat) \<times> u8 list" where
  "write_routing_table_snapshot_serial crc32 rows out =
     (let payload_start = SNAPSHOT_HEADER_LEN + ROW_COUNT_LEN
      in if length out < payload_start then (Inl WriteBufferTooShort, out)
         else case write_rows rows out payload_start 0 of
           (Inl e, out) \<Rightarrow> (Inl e, out)
         | (Inr (at, row_count), out) \<Rightarrow>
             seal_written crc32 (at - SNAPSHOT_HEADER_LEN) (copy_into out SNAPSHOT_HEADER_LEN (to_le_bytes row_count)))"

text \<open>
  The parallel writer: lengths first, then one job per row over its own piece of the buffer. The jobs share
  nothing, so their order does not matter.
\<close>

fun row_lengths :: "persisted_route_row list \<Rightarrow> nat \<Rightarrow> snapshot_write_error + nat \<times> nat list" where
  "row_lengths [] at = Inr (at, [])"
| "row_lengths (row # rows) at =
     (if length (pr_app_data row) > 65535 then Inl AppDataOutgrewLengthPrefix
      else
        let row_len = persisted_route_row_wire_len row
        in case row_lengths rows (at + row_len) of
             Inl e \<Rightarrow> Inl e
           | Inr (at, lengths) \<Rightarrow> Inr (at, row_len # lengths))"

fun write_jobs :: "(persisted_route_row \<times> nat) list \<Rightarrow> u8 list \<Rightarrow> (persisted_route_row \<times> u8 list) list" where
  "write_jobs [] rest = []"
| "write_jobs ((row, row_len) # rows) rest = (row, take row_len rest) # write_jobs rows (drop row_len rest)"

definition write_routing_table_snapshot_parallel ::
  "checksum \<Rightarrow> persisted_route_row list \<Rightarrow> u8 list \<Rightarrow> (snapshot_write_error + nat) \<times> u8 list" where
  "write_routing_table_snapshot_parallel crc32 rows out =
     (let payload_start = SNAPSHOT_HEADER_LEN + ROW_COUNT_LEN
      in case row_lengths rows payload_start of
           Inl e \<Rightarrow> (Inl e, out)
         | Inr (at, lengths) \<Rightarrow>
             if length out < at then (Inl WriteBufferTooShort, out)
             else if length rows \<ge> 2 ^ 32 then (Inl WriteBufferTooShort, out)
             else
               let out = copy_into out SNAPSHOT_HEADER_LEN (to_le_bytes (of_nat (length rows) :: u32));
                   jobs = write_jobs (zip rows lengths) (slice out payload_start (at - payload_start));
                   written = map (\<lambda>(row, row_out). fst (write_row row row_out)) jobs
               in seal_written crc32 (at - SNAPSHOT_HEADER_LEN) (copy_into out payload_start (concat written)))"

definition PARALLEL_PERSISTENCE_MIN_BYTES :: nat where
  "PARALLEL_PERSISTENCE_MIN_BYTES = 512 * 1024"

definition should_parallelize_persistence :: "nat \<Rightarrow> nat \<Rightarrow> bool" where
  "should_parallelize_persistence threads snapshot_len \<longleftrightarrow>
     snapshot_len \<ge> PARALLEL_PERSISTENCE_MIN_BYTES \<and> threads > 1"

definition write_routing_table_snapshot ::
  "checksum \<Rightarrow> nat \<Rightarrow> persisted_route_row list \<Rightarrow> u8 list \<Rightarrow> (snapshot_write_error + nat) \<times> u8 list" where
  "write_routing_table_snapshot crc32 threads rows out =
     (if should_parallelize_persistence threads (length out)
      then write_routing_table_snapshot_parallel crc32 rows out
      else write_routing_table_snapshot_serial crc32 rows out)"

section \<open>Reading\<close>

record persisted_route_rows =
  rows_rest :: "u8 list"
  rows_remaining :: u32
  rows_poisoned :: bool

definition read_routing_table_snapshot ::
  "checksum \<Rightarrow> u8 list \<Rightarrow> snapshot_read_error + persisted_route_rows" where
  "read_routing_table_snapshot crc32 bytes =
     (case open_snapshot crc32 RegionRoutingTable bytes of
        Inl e \<Rightarrow> Inl (Envelope e)
      | Inr payload \<Rightarrow>
          (case split_first_chunk ROW_COUNT_LEN payload of
             None \<Rightarrow> Inl MalformedPayload
           | Some (row_count_bytes, rows) \<Rightarrow>
               let remaining_rows = from_le_bytes row_count_bytes :: u32
               in if unat remaining_rows > length rows div MIN_PERSISTED_ROUTE_ROW_WIRE_LEN then Inl MalformedPayload
                  else Inr \<lparr>rows_rest = rows, rows_remaining = remaining_rows, rows_poisoned = False\<rparr>))"

definition parse_next_hop :: "u8 \<Rightarrow> u8 list \<Rightarrow> (next_hop \<times> u8 list) option" where
  "parse_next_hop tag rest =
     (if tag = NEXT_HOP_DIRECT_TAG then Some (Direct, rest)
      else if tag = NEXT_HOP_VIA_TAG then
        do { (transport_id, rest) \<leftarrow> split_first_chunk TRUNCATED_HASH_BYTE_LEN rest;
             Some (Via (TransportId transport_id), rest) }
      else None)"

definition parse_ratchet :: "u8 \<Rightarrow> u8 list \<Rightarrow> (ratchet_key option \<times> u8 list) option" where
  "parse_ratchet tag rest =
     (if tag = RATCHET_ABSENT_TAG then Some (None, rest)
      else if tag = RATCHET_PRESENT_TAG then
        do { (ratchet, rest) \<leftarrow> split_first_chunk RATCHET_BYTE_LEN rest;
             Some (Some (RatchetKey ratchet), rest) }
      else None)"

definition parse_row :: "u8 list \<Rightarrow> (persisted_route_row \<times> u8 list) option" where
  "parse_row bytes =
     do { (destination, rest) \<leftarrow> split_first_chunk TRUNCATED_HASH_BYTE_LEN bytes;
          (hops, rest) \<leftarrow> split_first_chunk HOPS_LEN rest;
          (learned_at, rest) \<leftarrow> split_first_chunk INSTANT_LEN rest;
          (last_route_activity_at, rest) \<leftarrow> split_first_chunk INSTANT_LEN rest;
          (tag, rest) \<leftarrow> split_first_chunk TAG_LEN rest;
          responsiveness \<leftarrow> responsiveness_of_tag (tag ! 0);
          (receiving_interface, rest) \<leftarrow> split_first_chunk INTERFACE_ID_LEN rest;
          (next_hop_tag, rest) \<leftarrow> split_first_chunk TAG_LEN rest;
          (next_hop, rest) \<leftarrow> parse_next_hop (next_hop_tag ! 0) rest;
          (encryption, rest) \<leftarrow> split_first_chunk PUBLIC_KEY_LEN rest;
          (signing, rest) \<leftarrow> split_first_chunk PUBLIC_KEY_LEN rest;
          (dotted_name_hash, rest) \<leftarrow> split_first_chunk DOTTED_NAME_HASH_BYTE_LEN rest;
          (announce_id, rest) \<leftarrow> split_first_chunk ANNOUNCE_ID_WIRE_LEN rest;
          (ratchet_tag, rest) \<leftarrow> split_first_chunk TAG_LEN rest;
          (ratchet, rest) \<leftarrow> parse_ratchet (ratchet_tag ! 0) rest;
          (signature, rest) \<leftarrow> split_first_chunk SIGNATURE_BYTE_LEN rest;
          (app_data_bytes, rest) \<leftarrow> split_first_chunk APP_DATA_LEN_PREFIX_LEN rest;
          (app_data, rest) \<leftarrow> split_first_chunk (unat (from_le_bytes app_data_bytes :: u16)) rest;
          (ring_count, rest) \<leftarrow> split_first_chunk RING_COUNT_PREFIX_LEN rest;
          (ring_bytes, rest) \<leftarrow> split_first_chunk (unat (ring_count ! 0) * ANNOUNCE_ID_WIRE_LEN) rest;
          Some (\<lparr>pr_destination = DestinationHash destination,
             pr_entry = \<lparr>re_hops = hops ! 0, re_learned_at = from_le_bytes learned_at,
               re_last_route_activity_at = from_le_bytes last_route_activity_at,
               re_responsiveness = responsiveness, re_receiving_interface = InterfaceId receiving_interface,
               re_next_hop = next_hop, re_retention = Network\<rparr>,
             pr_public_keys = \<lparr>encryption_key = encryption, signing_key = signing\<rparr>,
             pr_dotted_name_hash = DottedNameHash dotted_name_hash,
             pr_announce_id = announce_id_from_wire announce_id, pr_ratchet = ratchet,
             pr_signature = signature, pr_app_data = app_data,
             pr_announce_id_ring = RingWire ring_bytes\<rparr>, rest) }"

definition rows_next ::
  "persisted_route_rows \<Rightarrow> (snapshot_read_error + persisted_route_row) option \<times> persisted_route_rows" where
  "rows_next s =
     (if rows_poisoned s then (None, s)
      else if rows_remaining s = 0 then
        if rows_rest s = [] then (None, s)
        else (Some (Inl MalformedPayload), s\<lparr>rows_poisoned := True\<rparr>)
      else case parse_row (rows_rest s) of
        Some (row, rest) \<Rightarrow>
          (Some (Inr row), s\<lparr>rows_rest := rest, rows_remaining := rows_remaining s - 1\<rparr>)
      | None \<Rightarrow> (Some (Inl MalformedPayload), s\<lparr>rows_poisoned := True, rows_remaining := 0\<rparr>))"

text \<open>What a \<open>for\<close> loop over the iterator sees: \<open>next\<close> until it yields nothing.\<close>

lemma rows_next_progress:
  assumes "rows_next s = (Some item, s')"
  shows "(rows_poisoned s' \<and> \<not> rows_poisoned s)
    \<or> (rows_poisoned s' = rows_poisoned s \<and> unat (rows_remaining s') < unat (rows_remaining s))"
  using assms
  by (auto simp: rows_next_def unat_minus_one unat_gt_0 split: if_splits option.splits)

function collect_rows :: "persisted_route_rows \<Rightarrow> (snapshot_read_error + persisted_route_row) list" where
  "collect_rows s =
     (case rows_next s of
        (None, s') \<Rightarrow> []
      | (Some item, s') \<Rightarrow> item # collect_rows s')"
  by pat_completeness auto
termination
  by (relation "measures [\<lambda>s. if rows_poisoned s then 0 else 1, \<lambda>s. unat (rows_remaining s)]")
    (auto dest: rows_next_progress [OF sym])

declare collect_rows.simps [simp del]

section \<open>The bytes of a row\<close>

definition next_hop_wire :: "next_hop \<Rightarrow> u8 list" where
  "next_hop_wire h = (case h of Direct \<Rightarrow> [NEXT_HOP_DIRECT_TAG] | Via transport_id \<Rightarrow> NEXT_HOP_VIA_TAG # transport_id_bytes transport_id)"

definition ratchet_wire :: "ratchet_key option \<Rightarrow> u8 list" where
  "ratchet_wire r = (case r of None \<Rightarrow> [RATCHET_ABSENT_TAG] | Some ratchet \<Rightarrow> RATCHET_PRESENT_TAG # ratchet_bytes ratchet)"

text \<open>The newest ids of the ring, as many as the count prefix can tell.\<close>

definition kept_ids :: "persisted_route_row \<Rightarrow> announce_id list" where
  "kept_ids row = (let n = ring_len (pr_announce_id_ring row)
     in drop (n - min n RING_MAX_PERSISTED_IDS) (ring_ids (pr_announce_id_ring row)))"

definition ring_wire :: "persisted_route_row \<Rightarrow> u8 list" where
  "ring_wire row = concat (map announce_id_to_wire_bytes (kept_ids row))"

definition row_bytes :: "persisted_route_row \<Rightarrow> u8 list" where
  "row_bytes row =
     destination_bytes (pr_destination row) @ [re_hops (pr_entry row)] @ to_le_bytes (re_learned_at (pr_entry row))
     @ to_le_bytes (re_last_route_activity_at (pr_entry row)) @ [responsiveness_tag (re_responsiveness (pr_entry row))]
     @ interface_id_bytes (re_receiving_interface (pr_entry row)) @ next_hop_wire (re_next_hop (pr_entry row))
     @ encryption_key (pr_public_keys row) @ signing_key (pr_public_keys row) @ dotted_name_bytes (pr_dotted_name_hash row)
     @ announce_id_to_wire_bytes (pr_announce_id row) @ ratchet_wire (pr_ratchet row) @ pr_signature row
     @ to_le_bytes (of_nat (length (pr_app_data row)) :: u16) @ pr_app_data row
     @ [of_nat (length (kept_ids row))] @ ring_wire row"

text \<open>What the types of the source guarantee of a row, and the payload the length prefix can tell.\<close>

definition row_wf :: "persisted_route_row \<Rightarrow> bool" where
  "row_wf row =
     (length (destination_bytes (pr_destination row)) = TRUNCATED_HASH_BYTE_LEN
      \<and> length (interface_id_bytes (re_receiving_interface (pr_entry row))) = INTERFACE_ID_LEN
      \<and> (case re_next_hop (pr_entry row) of Direct \<Rightarrow> True | Via h \<Rightarrow> length (transport_id_bytes h) = TRUNCATED_HASH_BYTE_LEN)
      \<and> length (encryption_key (pr_public_keys row)) = PUBLIC_KEY_LEN
      \<and> length (signing_key (pr_public_keys row)) = PUBLIC_KEY_LEN
      \<and> length (dotted_name_bytes (pr_dotted_name_hash row)) = DOTTED_NAME_HASH_BYTE_LEN
      \<and> announce_id_wf (pr_announce_id row)
      \<and> (case pr_ratchet row of None \<Rightarrow> True | Some r \<Rightarrow> length (ratchet_bytes r) = RATCHET_BYTE_LEN)
      \<and> length (pr_signature row) = SIGNATURE_BYTE_LEN
      \<and> length (pr_app_data row) \<le> 65535
      \<and> (\<forall>i\<in>set (ring_ids (pr_announce_id_ring row)). announce_id_wf i))"

text \<open>The row that is read back: its history as bytes, its retention the network's.\<close>

definition restored_row :: "persisted_route_row \<Rightarrow> persisted_route_row" where
  "restored_row row =
     row\<lparr>pr_entry := (pr_entry row)\<lparr>re_retention := Network\<rparr>, pr_announce_id_ring := RingWire (ring_wire row)\<rparr>"

lemmas row_lens = HOPS_LEN_def INSTANT_LEN_def TAG_LEN_def INTERFACE_ID_LEN_def PUBLIC_KEY_LEN_def DOTTED_NAME_HASH_BYTE_LEN_def
  ANNOUNCE_ID_WIRE_LEN_def SIGNATURE_BYTE_LEN_def APP_DATA_LEN_PREFIX_LEN_def RING_COUNT_PREFIX_LEN_def RATCHET_BYTE_LEN_def
  TRUNCATED_HASH_BYTE_LEN_def

lemma length_wire_ids: "length (wire_ids bytes) = length bytes div ANNOUNCE_ID_WIRE_LEN"
proof (induction bytes rule: wire_ids.induct)
  case (1 bytes)
  then show ?case
    by (subst wire_ids.simps) (auto simp: ANNOUNCE_ID_WIRE_LEN_def not_less le_div_geq)
qed

lemma ring_len_ids: "ring_len r = length (ring_ids r)"
  by (cases r) (simp_all add: length_wire_ids)

lemma length_kept_ids: "length (kept_ids row) = min (ring_len (pr_announce_id_ring row)) RING_MAX_PERSISTED_IDS"
  by (simp add: kept_ids_def ring_len_ids Let_def)

lemma length_concat_ids:
  "\<forall>i\<in>set ids. announce_id_wf i \<Longrightarrow> length (concat (map announce_id_to_wire_bytes ids)) = length ids * ANNOUNCE_ID_WIRE_LEN"
  by (induction ids) (simp_all add: announce_id_wire)

lemma kept_ids_wf: "row_wf row \<Longrightarrow> \<forall>i\<in>set (kept_ids row). announce_id_wf i"
  by (auto simp: row_wf_def kept_ids_def Let_def dest: in_set_dropD)

lemma length_ring_wire: "row_wf row \<Longrightarrow> length (ring_wire row) = length (kept_ids row) * ANNOUNCE_ID_WIRE_LEN"
  unfolding ring_wire_def by (rule length_concat_ids [OF kept_ids_wf])

lemma length_row_bytes: "row_wf row \<Longrightarrow> length (row_bytes row) = persisted_route_row_wire_len row"
  using length_ring_wire [of row]
  by (auto simp: row_wf_def row_bytes_def persisted_route_row_wire_len_def MIN_PERSISTED_ROUTE_ROW_WIRE_LEN_def
    length_kept_ids next_hop_wire_def ratchet_wire_def announce_id_wire row_lens split: next_hop.splits option.splits)

section \<open>Writing writes the bytes\<close>

definition wrote :: "u8 list \<Rightarrow> u8 list \<Rightarrow> u8 list \<times> nat" where
  "wrote buf bytes = (copy_into buf 0 bytes, length bytes)"

lemma put_wrote: "put b (wrote buf a) = wrote buf (a @ b)"
  by (simp add: put_def wrote_def copy_into_def add.commute)

lemma fold_put_wrote: "fold (\<lambda>i. put (f i)) is (wrote buf a) = wrote buf (a @ concat (map f is))"
  by (induction "is" arbitrary: a) (simp_all add: put_wrote)

lemma write_row_bytes: "write_row row buf = (copy_into buf 0 (row_bytes row), length (row_bytes row))"
proof -
  have "(buf, 0) = wrote buf []" by (simp add: wrote_def copy_into_def)
  moreover have "write_row row buf = wrote buf (row_bytes row)"
    unfolding write_row_def calculation
    by (cases "re_next_hop (pr_entry row)"; cases "pr_ratchet row")
      (simp_all add: Let_def put_wrote fold_put_wrote row_bytes_def next_hop_wire_def ratchet_wire_def
        ring_wire_def kept_ids_def ring_len_ids)
  ultimately show ?thesis by (simp add: wrote_def)
qed

section \<open>Reading reads them\<close>

lemma split_chunk_append: "length xs = n \<Longrightarrow> split_first_chunk n (xs @ ys) = Some (xs, ys)"
  by (simp add: split_first_chunk_Some_iff)

lemma split_chunk_Cons: "split_first_chunk (Suc 0) (x # ys) = Some ([x], ys)"
  by (simp add: split_first_chunk_Some_iff)

lemma responsiveness_of_tag [simp]: "responsiveness_of_tag (responsiveness_tag r) = Some r"
  by (cases r) (simp_all add: responsiveness_of_tag_def)

lemma parse_next_hop_wire:
  assumes "case h of Direct \<Rightarrow> True | Via t \<Rightarrow> length (transport_id_bytes t) = TRUNCATED_HASH_BYTE_LEN"
  obtains tag mid where "next_hop_wire h = tag # mid" "\<And>rest. parse_next_hop tag (mid @ rest) = Some (h, rest)"
  using assms by (cases h) (auto simp: next_hop_wire_def parse_next_hop_def NEXT_HOP_DIRECT_TAG_def NEXT_HOP_VIA_TAG_def split_chunk_append)

lemma parse_ratchet_wire:
  assumes "case r of None \<Rightarrow> True | Some k \<Rightarrow> length (ratchet_bytes k) = RATCHET_BYTE_LEN"
  obtains tag mid where "ratchet_wire r = tag # mid" "\<And>rest. parse_ratchet tag (mid @ rest) = Some (r, rest)"
  using assms by (cases r) (auto simp: ratchet_wire_def parse_ratchet_def RATCHET_ABSENT_TAG_def RATCHET_PRESENT_TAG_def split_chunk_append)

lemma parse_row_bytes:
  assumes wf: "row_wf row"
  shows "parse_row (row_bytes row @ rest) = Some (restored_row row, rest)"
proof -
  obtain tag mid where hop: "next_hop_wire (re_next_hop (pr_entry row)) = tag # mid"
    "\<And>rest. parse_next_hop tag (mid @ rest) = Some (re_next_hop (pr_entry row), rest)"
    using parse_next_hop_wire [of "re_next_hop (pr_entry row)"] wf by (auto simp: row_wf_def)
  obtain rtag rmid where ratchet: "ratchet_wire (pr_ratchet row) = rtag # rmid"
    "\<And>rest. parse_ratchet rtag (rmid @ rest) = Some (pr_ratchet row, rest)"
    using parse_ratchet_wire [of "pr_ratchet row"] wf by (auto simp: row_wf_def)
  have app: "unat (of_nat (length (pr_app_data row)) :: u16) = length (pr_app_data row)"
    using wf by (simp add: row_wf_def unat_of_nat)
  have ring: "unat (of_nat (length (kept_ids row)) :: u8) = length (kept_ids row)"
    by (simp add: length_kept_ids RING_MAX_PERSISTED_IDS_def unat_of_nat min_def)
  have len: "length (announce_id_to_wire_bytes (pr_announce_id row)) = ANNOUNCE_ID_WIRE_LEN"
    "announce_id_from_wire (announce_id_to_wire_bytes (pr_announce_id row)) = pr_announce_id row"
    using wf by (simp_all add: row_wf_def announce_id_wire)
  show ?thesis
    using wf length_ring_wire [OF wf]
    by (simp add: parse_row_def row_bytes_def row_wf_def split_chunk_append split_chunk_Cons hop ratchet app ring len
      HOPS_LEN_def TAG_LEN_def RING_COUNT_PREFIX_LEN_def INSTANT_LEN_def APP_DATA_LEN_PREFIX_LEN_def
      from_to_le_bytes restored_row_def)
qed

lemma wire_len_min: "MIN_PERSISTED_ROUTE_ROW_WIRE_LEN \<le> persisted_route_row_wire_len row"
  by (simp add: persisted_route_row_wire_len_def)

lemma rows_len_min: "length rows * MIN_PERSISTED_ROUTE_ROW_WIRE_LEN \<le> sum_list (map persisted_route_row_wire_len rows)"
  by (induction rows) (auto intro: add_mono wire_len_min)

lemma length_rows_bytes:
  "\<forall>row\<in>set rows. row_wf row \<Longrightarrow>
     length (concat (map row_bytes rows)) = sum_list (map persisted_route_row_wire_len rows)"
  by (induction rows) (simp_all add: length_row_bytes)

lemma collect_rows_bytes:
  assumes "\<forall>row\<in>set rows. row_wf row" "length rows < 2 ^ 32"
  shows "collect_rows \<lparr>rows_rest = concat (map row_bytes rows), rows_remaining = of_nat (length rows), rows_poisoned = False\<rparr>
    = map (Inr \<circ> restored_row) rows"
  using assms
proof (induction rows)
  case Nil
  then show ?case by (subst collect_rows.simps) (simp add: rows_next_def)
next
  case (Cons row rows)
  let ?n = "of_nat (length (row # rows)) :: u32"
  have "unat ?n = length (row # rows)" using Cons.prems(2) by (simp only: unat_of_nat) simp
  then have n: "?n \<noteq> 0" "?n - 1 = of_nat (length rows)" by auto
  have "parse_row (row_bytes row @ concat (map row_bytes rows)) = Some (restored_row row, concat (map row_bytes rows))"
    using Cons.prems(1) by (intro parse_row_bytes) simp
  then have "rows_next \<lparr>rows_rest = concat (map row_bytes (row # rows)), rows_remaining = ?n, rows_poisoned = False\<rparr>
      = (Some (Inr (restored_row row)),
         \<lparr>rows_rest = concat (map row_bytes rows), rows_remaining = of_nat (length rows), rows_poisoned = False\<rparr>)"
    using n by (simp add: rows_next_def del: of_nat_Suc length_Cons)
  with Cons show ?case by (subst collect_rows.simps) simp
qed

lemma write_rows_bytes:
  assumes "\<forall>row\<in>set rows. row_wf row" "at + sum_list (map persisted_route_row_wire_len rows) \<le> length out"
  shows "write_rows rows out at row_count =
    (Inr (at + sum_list (map persisted_route_row_wire_len rows), row_count + of_nat (length rows)),
     copy_into out at (concat (map row_bytes rows)))"
  using assms
proof (induction rows arbitrary: out at row_count)
  case Nil
  then show ?case by (simp add: copy_into_def)
next
  case (Cons row rows)
  let ?n = "persisted_route_row_wire_len row"
  have wf: "row_wf row" and fits: "at + ?n \<le> length out" using Cons.prems by simp_all
  have l: "length (row_bytes row) = ?n" by (rule length_row_bytes [OF wf])
  have "length (slice out at ?n) = ?n" using fits by simp
  then have w: "write_row row (slice out at ?n) = (row_bytes row, ?n)"
    by (simp add: write_row_bytes l copy_into_def)
  have "length (pr_app_data row) \<le> 65535" using wf by (simp add: row_wf_def)
  with fits w have "write_rows (row # rows) out at row_count = write_rows rows (copy_into out at (row_bytes row)) (at + ?n) (row_count + 1)"
    by simp
  also have "\<dots> = (Inr (at + ?n + sum_list (map persisted_route_row_wire_len rows), row_count + 1 + of_nat (length rows)),
     copy_into (copy_into out at (row_bytes row)) (at + length (row_bytes row)) (concat (map row_bytes rows)))"
    using Cons.prems fits by (subst Cons.IH) (simp_all add: l)
  also have "copy_into (copy_into out at (row_bytes row)) (at + length (row_bytes row)) (concat (map row_bytes rows))
      = copy_into out at (concat (map row_bytes (row # rows)))"
    using copy_into_append [of at "row_bytes row" out] fits by (simp add: l)
  finally show ?case by (simp only: list.size list.map sum_list.Cons) (simp add: add.assoc)
qed

lemma row_lengths_sum:
  "\<forall>row\<in>set rows. row_wf row \<Longrightarrow> row_lengths rows at =
     Inr (at + sum_list (map persisted_route_row_wire_len rows), map persisted_route_row_wire_len rows)"
  by (induction rows arbitrary: at) (auto simp: row_wf_def Let_def)

lemma write_jobs_bytes:
  assumes "\<forall>row\<in>set rows. row_wf row" "sum_list (map persisted_route_row_wire_len rows) \<le> length rest"
  shows "map (\<lambda>(row, row_out). fst (write_row row row_out)) (write_jobs (zip rows (map persisted_route_row_wire_len rows)) rest)
    = map row_bytes rows"
  using assms
  by (induction rows arbitrary: rest) (simp_all add: write_row_bytes length_row_bytes copy_into_def)

section \<open>The snapshot\<close>

definition snapshot_payload :: "persisted_route_row list \<Rightarrow> u8 list" where
  "snapshot_payload rows = to_le_bytes (of_nat (length rows) :: u32) @ concat (map row_bytes rows)"

lemma length_snapshot_payload:
  "\<forall>row\<in>set rows. row_wf row \<Longrightarrow>
     routing_table_snapshot_len rows = SNAPSHOT_OVERHEAD_LEN + length (snapshot_payload rows)"
  by (simp add: routing_table_snapshot_len_def snapshot_payload_def length_rows_bytes ROW_COUNT_LEN_def)

lemma seal_written_payload:
  assumes "SNAPSHOT_OVERHEAD_LEN + length payload \<le> length out"
  shows "seal_written crc32 (length payload) (copy_into out SNAPSHOT_HEADER_LEN payload) =
    (Inr (SNAPSHOT_OVERHEAD_LEN + length payload), copy_into out 0 (sealed_frame crc32 RegionRoutingTable payload))"
  using seal_snapshot_frame [OF assms, of crc32 RegionRoutingTable] assms
  by (simp add: seal_written_def seal_snapshot_def)

lemma snapshot_len_rows: "length rows * 195 \<le> routing_table_snapshot_len rows"
  using rows_len_min [of rows]
  by (simp add: routing_table_snapshot_len_def MIN_PERSISTED_ROUTE_ROW_WIRE_LEN_def row_lens)

lemma write_serial_frame:
  assumes wf: "\<forall>row\<in>set rows. row_wf row" and fits: "routing_table_snapshot_len rows \<le> length out"
  shows "write_routing_table_snapshot_serial crc32 rows out =
    (Inr (routing_table_snapshot_len rows), copy_into out 0 (sealed_frame crc32 RegionRoutingTable (snapshot_payload rows)))"
proof -
  let ?sum = "sum_list (map persisted_route_row_wire_len rows)"
  have fit: "18 + ?sum \<le> length out" using fits by (simp add: routing_table_snapshot_len_def snapshot_lens ROW_COUNT_LEN_def)
  have "write_rows rows out 14 0 = (Inr (14 + ?sum, of_nat (length rows)), copy_into out 14 (concat (map row_bytes rows)))"
    using write_rows_bytes [OF wf, of 14 out 0] fit by simp
  moreover have "copy_into (copy_into out 14 (concat (map row_bytes rows))) 10 (to_le_bytes (of_nat (length rows) :: u32))
      = copy_into out SNAPSHOT_HEADER_LEN (snapshot_payload rows)"
    using fit by (simp add: copy_into_def snapshot_payload_def snapshot_lens length_rows_bytes [OF wf] min_def)
  moreover have "length (snapshot_payload rows) = 4 + ?sum"
    by (simp add: snapshot_payload_def length_rows_bytes [OF wf])
  ultimately show ?thesis
    using seal_written_payload [of "snapshot_payload rows" out crc32] fits fit
    by (simp add: write_routing_table_snapshot_serial_def ROW_COUNT_LEN_def SNAPSHOT_HEADER_LEN_eq length_snapshot_payload [OF wf])
qed

lemma write_parallel_frame:
  assumes wf: "\<forall>row\<in>set rows. row_wf row" and fits: "routing_table_snapshot_len rows \<le> length out" and few: "length rows < 2 ^ 32"
  shows "write_routing_table_snapshot_parallel crc32 rows out =
    (Inr (routing_table_snapshot_len rows), copy_into out 0 (sealed_frame crc32 RegionRoutingTable (snapshot_payload rows)))"
proof -
  let ?sum = "sum_list (map persisted_route_row_wire_len rows)"
  let ?out = "copy_into out 10 (to_le_bytes (of_nat (length rows) :: u32))"
  have fit: "18 + ?sum \<le> length out" using fits by (simp add: routing_table_snapshot_len_def snapshot_lens ROW_COUNT_LEN_def)
  have "?sum \<le> length (slice ?out 14 ?sum)" using fit by simp
  from write_jobs_bytes [OF wf this]
  have jobs: "map (\<lambda>(row, row_out). fst (write_row row row_out))
      (write_jobs (zip rows (map persisted_route_row_wire_len rows)) (slice ?out 14 ?sum)) = map row_bytes rows" .
  have "copy_into ?out 14 (concat (map row_bytes rows)) = copy_into out SNAPSHOT_HEADER_LEN (snapshot_payload rows)"
    using copy_into_append [of 10 "to_le_bytes (of_nat (length rows) :: u32)" out] fit
    by (simp add: snapshot_payload_def SNAPSHOT_HEADER_LEN_eq)
  moreover have "length (snapshot_payload rows) = 4 + ?sum"
    by (simp add: snapshot_payload_def length_rows_bytes [OF wf])
  ultimately show ?thesis
    using seal_written_payload [of "snapshot_payload rows" out crc32] fits fit few jobs
    by (simp add: write_routing_table_snapshot_parallel_def ROW_COUNT_LEN_def SNAPSHOT_HEADER_LEN_eq
      length_snapshot_payload [OF wf] row_lengths_sum [OF wf])
qed

lemma write_snapshot_frame:
  assumes "\<forall>row\<in>set rows. row_wf row" "routing_table_snapshot_len rows \<le> length out" "length rows < 2 ^ 32"
  shows "write_routing_table_snapshot crc32 threads rows out =
    (Inr (routing_table_snapshot_len rows), copy_into out 0 (sealed_frame crc32 RegionRoutingTable (snapshot_payload rows)))"
  using assms by (simp add: write_routing_table_snapshot_def write_serial_frame write_parallel_frame)

lemma read_snapshot_frame:
  assumes wf: "\<forall>row\<in>set rows. row_wf row" and few: "length rows < 2 ^ 32" and small: "length (snapshot_payload rows) < 2 ^ 32"
  shows "read_routing_table_snapshot crc32 (sealed_frame crc32 RegionRoutingTable (snapshot_payload rows) @ rest) =
    Inr \<lparr>rows_rest = concat (map row_bytes rows), rows_remaining = of_nat (length rows), rows_poisoned = False\<rparr>"
proof -
  have "split_first_chunk ROW_COUNT_LEN (snapshot_payload rows)
      = Some (to_le_bytes (of_nat (length rows) :: u32), concat (map row_bytes rows))"
    by (simp add: snapshot_payload_def split_chunk_append ROW_COUNT_LEN_def)
  moreover have "unat (of_nat (length rows) :: u32) = length rows" using few by (simp add: unat_of_nat)
  moreover have "length rows \<le> length (concat (map row_bytes rows)) div MIN_PERSISTED_ROUTE_ROW_WIRE_LEN"
    using rows_len_min [of rows] unfolding length_rows_bytes [OF wf]
    by (simp add: MIN_PERSISTED_ROUTE_ROW_WIRE_LEN_def row_lens less_eq_div_iff_mult_less_eq)
  ultimately show ?thesis
    by (simp add: read_routing_table_snapshot_def open_sealed_frame [OF small] from_to_le_bytes not_less)
qed

lemma restored_ids:
  assumes "row_wf row" "ring_len (pr_announce_id_ring row) \<le> RING_MAX_PERSISTED_IDS"
  shows "ring_ids (pr_announce_id_ring (restored_row row)) = ring_ids (pr_announce_id_ring row)"
  using wire_ids_concat [OF kept_ids_wf [OF assms(1)]] assms(2)
  by (simp add: restored_row_def ring_wire_def kept_ids_def)

text \<open>
  C13. Snapshots of the table. Rows that fit the buffer are written, by one thread or by many, to the very same
  sealed bytes; reading those yields every row in order, byte for byte and with its announce history,
  as a route the network taught.
\<close>

theorem routing_snapshot_round_trip:
  assumes "\<forall>row\<in>set rows. row_wf row" "routing_table_snapshot_len rows < 2 ^ 32"
    and "routing_table_snapshot_len rows \<le> length out"
  shows "\<exists>sealed reader. (\<forall>threads. write_routing_table_snapshot crc32 threads rows out = (Inr (routing_table_snapshot_len rows), sealed))
    \<and> read_routing_table_snapshot crc32 sealed = Inr reader \<and> unat (rows_remaining reader) = length rows
    \<and> collect_rows reader = map (Inr \<circ> restored_row) rows
    \<and> (\<forall>row\<in>set rows. ring_len (pr_announce_id_ring row) \<le> RING_MAX_PERSISTED_IDS \<longrightarrow>
        ring_ids (pr_announce_id_ring (restored_row row)) = ring_ids (pr_announce_id_ring row))"
proof -
  have few: "length rows < 2 ^ 32" using snapshot_len_rows [of rows] assms(2) by simp
  have small: "length (snapshot_payload rows) < 2 ^ 32" using length_snapshot_payload [OF assms(1)] assms(2) by simp
  let ?sealed = "copy_into out 0 (sealed_frame crc32 RegionRoutingTable (snapshot_payload rows))"
  have "?sealed = sealed_frame crc32 RegionRoutingTable (snapshot_payload rows) @ drop (routing_table_snapshot_len rows) out"
    by (simp add: copy_into_def length_snapshot_payload [OF assms(1)])
  moreover have "unat (of_nat (length rows) :: u32) = length rows" using few by (simp add: unat_of_nat)
  ultimately show ?thesis
    using write_snapshot_frame [OF assms(1,3) few] read_snapshot_frame [OF assms(1) few small]
      collect_rows_bytes [OF assms(1) few] restored_ids assms(1)
    by (intro exI [of _ ?sealed] exI [of _ "\<lparr>rows_rest = concat (map row_bytes rows), rows_remaining = of_nat (length rows), rows_poisoned = False\<rparr>"])
      simp
qed

definition sample_row :: persisted_route_row where
  "sample_row =
     \<lparr>pr_destination = DestinationHash (replicate 16 7),
      pr_entry = \<lparr>re_hops = 3, re_learned_at = 1000, re_last_route_activity_at = 2000, re_responsiveness = Responsive,
        re_receiving_interface = InterfaceId (replicate 8 1), re_next_hop = Via (TransportId (replicate 16 9)), re_retention = Network\<rparr>,
      pr_public_keys = \<lparr>encryption_key = replicate 32 2, signing_key = replicate 32 3\<rparr>,
      pr_dotted_name_hash = DottedNameHash (replicate 10 4),
      pr_announce_id = \<lparr>ai_nonce = AnnounceNonce (replicate 5 5), ai_timebase = MonotonicTimebase (replicate 5 6)\<rparr>,
      pr_ratchet = None, pr_signature = replicate 64 8, pr_app_data = [1, 2, 3],
      pr_announce_id_ring = RingTable [\<lparr>ai_nonce = AnnounceNonce (replicate 5 5), ai_timebase = MonotonicTimebase (replicate 5 6)\<rparr>]\<rparr>"

theorem routing_snapshot_round_trip_witness:
  "\<exists>sealed reader row. write_routing_table_snapshot crc32_portable 1 [sample_row] (replicate 300 0) = (Inr 242, sealed)
     \<and> read_routing_table_snapshot crc32_portable sealed = Inr reader \<and> collect_rows reader = [Inr row]
     \<and> pr_app_data row = [1, 2, 3] \<and> ring_ids (pr_announce_id_ring row) = [pr_announce_id sample_row]"
proof -
  have wf: "\<forall>row\<in>set [sample_row]. row_wf row"
    by (simp add: sample_row_def row_wf_def row_lens announce_id_wf_def NONCE_LEN_def TIMEBASE_LEN_def)
  have len: "routing_table_snapshot_len [sample_row] = 242"
    by (simp add: routing_table_snapshot_len_def persisted_route_row_wire_len_def sample_row_def snapshot_lens ROW_COUNT_LEN_def
      MIN_PERSISTED_ROUTE_ROW_WIRE_LEN_def row_lens RING_MAX_PERSISTED_IDS_def)
  from routing_snapshot_round_trip [OF wf, of "replicate 300 0" crc32_portable] len
  obtain sealed reader where
    "\<forall>threads. write_routing_table_snapshot crc32_portable threads [sample_row] (replicate 300 0) = (Inr 242, sealed)"
    "read_routing_table_snapshot crc32_portable sealed = Inr reader" "collect_rows reader = [Inr (restored_row sample_row)]"
    and "ring_len (pr_announce_id_ring sample_row) \<le> RING_MAX_PERSISTED_IDS \<longrightarrow>
      ring_ids (pr_announce_id_ring (restored_row sample_row)) = ring_ids (pr_announce_id_ring sample_row)" by auto
  moreover have "pr_app_data (restored_row sample_row) = [1, 2, 3]" "ring_len (pr_announce_id_ring sample_row) \<le> RING_MAX_PERSISTED_IDS"
    "ring_ids (pr_announce_id_ring sample_row) = [pr_announce_id sample_row]"
    by (simp_all add: restored_row_def sample_row_def RING_MAX_PERSISTED_IDS_def)
  ultimately show ?thesis
    by (intro exI [of _ sealed] exI [of _ reader] exI [of _ "restored_row sample_row"]) simp
qed

end
