(* ===== verification/Deadline_Heap.thy ===== *)
theory Deadline_Heap
  imports Route_Types "HOL-Library.Multiset"
begin

text \<open>
  The deadline index of the growable tables, \<^verbatim>\<open>prns-core/src/routing/temporal_index/deadline_heap.rs\<close>: a binary
  heap of row numbers, ordered by a deadline that the caller computes from the row, and for every row the
  place it has in the heap. The closure \<open>deadline_of\<close> is a function argument; it is shown that every
  operation keeps the heap in order and its two vectors inverse to each other, and that the queries
  answer as a scan over the rows would.
\<close>

section \<open>The index\<close>

definition LINEAR_CULL_MIN_CANDIDATES :: u64 where
  "LINEAR_CULL_MIN_CANDIDATES = 4096"

definition HEAP_LINEAR_CULL_DENSITY_DENOMINATOR :: nat where
  "HEAP_LINEAR_CULL_DENSITY_DENOMINATOR = 25"

datatype index_readiness = IndexReady | IndexInvalid | LinearFallback

record deadline_index =
  dx_readiness :: index_readiness
  dx_heap :: "u32 list"
  dx_positions :: "u32 list"

type_synonym deadlines = "nat \<Rightarrow> instant_millis option"

definition ABSENT :: u32 where
  "ABSENT = -1"

definition deadline_index_default :: deadline_index where
  "deadline_index_default = \<lparr>dx_readiness = IndexReady, dx_heap = [], dx_positions = []\<rparr>"

definition dx_invalidate :: "deadline_index \<Rightarrow> deadline_index" where
  "dx_invalidate s = s\<lparr>dx_readiness := IndexInvalid\<rparr>"

definition dx_use_linear_fallback :: "deadline_index \<Rightarrow> deadline_index" where
  "dx_use_linear_fallback s = s\<lparr>dx_heap := [], dx_positions := [], dx_readiness := LinearFallback\<rparr>"

definition dx_needs_rebuild :: "nat \<Rightarrow> deadline_index \<Rightarrow> bool" where
  "dx_needs_rebuild row_count s =
     (case dx_readiness s of
        IndexReady \<Rightarrow> length (dx_positions s) \<noteq> row_count
      | IndexInvalid \<Rightarrow> True
      | LinearFallback \<Rightarrow> False)"

definition dx_deadline :: "deadlines \<Rightarrow> u32 \<Rightarrow> instant_millis" where
  "dx_deadline deadline_of row = (case deadline_of (unat row) of None \<Rightarrow> -1 | Some at \<Rightarrow> at)"

definition dx_swap :: "nat \<Rightarrow> nat \<Rightarrow> deadline_index \<Rightarrow> deadline_index" where
  "dx_swap a b s =
     (let heap = (dx_heap s)[a := dx_heap s ! b, b := dx_heap s ! a];
          positions = (dx_positions s)[unat (heap ! a) := of_nat a];
          positions = positions[unat (heap ! b) := of_nat b]
      in s\<lparr>dx_heap := heap, dx_positions := positions\<rparr>)"

lemma dx_swap_sel [simp]:
  "dx_readiness (dx_swap a b s) = dx_readiness s"
  "dx_heap (dx_swap a b s) = (dx_heap s)[a := dx_heap s ! b, b := dx_heap s ! a]"
  by (simp_all add: dx_swap_def Let_def)

function sift_up :: "deadlines \<Rightarrow> nat \<Rightarrow> deadline_index \<Rightarrow> deadline_index" where
  "sift_up deadline_of pos s =
     (if pos > 0 then
        let parent = (pos - 1) div 2
        in if dx_deadline deadline_of (dx_heap s ! parent) \<le> dx_deadline deadline_of (dx_heap s ! pos) then s
           else sift_up deadline_of parent (dx_swap parent pos s)
      else s)"
  by pat_completeness auto
termination
  by (relation "measure (\<lambda>(_, pos, _). pos)") auto

function sift_down :: "deadlines \<Rightarrow> nat \<Rightarrow> deadline_index \<Rightarrow> deadline_index" where
  "sift_down deadline_of pos s =
     (let left = pos * 2 + 1
      in if left \<ge> length (dx_heap s) then s
         else
           let right = left + 1;
               child =
                 (if right < length (dx_heap s)
                     \<and> dx_deadline deadline_of (dx_heap s ! right) < dx_deadline deadline_of (dx_heap s ! left)
                  then right else left)
           in if dx_deadline deadline_of (dx_heap s ! pos) \<le> dx_deadline deadline_of (dx_heap s ! child) then s
              else sift_down deadline_of child (dx_swap pos child s))"
  by pat_completeness auto
termination
  by (relation "measure (\<lambda>(_, pos, s). length (dx_heap s) - pos)") (auto simp: Let_def split: if_splits)

declare sift_up.simps [simp del] sift_down.simps [simp del]

definition dx_repair :: "deadlines \<Rightarrow> nat \<Rightarrow> deadline_index \<Rightarrow> deadline_index" where
  "dx_repair deadline_of pos s =
     (let parent = (pos - 1) div 2
      in if pos > 0 \<and> dx_deadline deadline_of (dx_heap s ! pos) < dx_deadline deadline_of (dx_heap s ! parent)
         then sift_up deadline_of pos s
         else sift_down deadline_of pos s)"

definition dx_enlist :: "nat \<Rightarrow> deadline_index \<Rightarrow> deadline_index" where
  "dx_enlist row s =
     s\<lparr>dx_positions := (dx_positions s)[row := of_nat (length (dx_heap s))], dx_heap := dx_heap s @ [of_nat row]\<rparr>"

definition dx_rebuild :: "deadlines \<Rightarrow> nat \<Rightarrow> deadline_index \<Rightarrow> deadline_index" where
  "dx_rebuild deadline_of row_count s =
     (if row_count > unat ABSENT then dx_use_linear_fallback s
      else
        let s = s\<lparr>dx_heap := [], dx_positions := replicate row_count ABSENT\<rparr>;
            s = fold (\<lambda>row s. if deadline_of row \<noteq> None then dx_enlist row s else s) [0..<row_count] s;
            s = fold (sift_down deadline_of) (rev [0..<length (dx_heap s) div 2]) s
        in s\<lparr>dx_readiness := IndexReady\<rparr>)"

definition dx_prepare :: "deadlines \<Rightarrow> nat \<Rightarrow> deadline_index \<Rightarrow> deadline_index" where
  "dx_prepare deadline_of row_count s =
     (if dx_needs_rebuild row_count s then dx_rebuild deadline_of row_count s else s)"

definition dx_insert :: "deadlines \<Rightarrow> nat \<Rightarrow> instant_millis option \<Rightarrow> deadline_index \<Rightarrow> deadline_index" where
  "dx_insert deadline_of row deadline s =
     (if dx_readiness s \<noteq> IndexReady \<or> row \<noteq> length (dx_positions s) then dx_invalidate s
      else if row \<ge> unat ABSENT then dx_use_linear_fallback s
      else
        let s = s\<lparr>dx_positions := dx_positions s @ [ABSENT]\<rparr>
        in if deadline \<noteq> None
           then let s = dx_enlist row s in sift_up deadline_of (length (dx_heap s) - 1) s
           else s)"

definition dx_remove :: "deadlines \<Rightarrow> nat \<Rightarrow> deadline_index \<Rightarrow> deadline_index" where
  "dx_remove deadline_of row s =
     (let pos = dx_positions s ! row
      in if pos = ABSENT then s
         else
           let pos = unat pos;
               lst = length (dx_heap s) - 1;
               s = s\<lparr>dx_positions := (dx_positions s)[row := ABSENT]\<rparr>
           in if pos = lst then s\<lparr>dx_heap := butlast (dx_heap s)\<rparr>
              else
                let moved = dx_heap s ! lst;
                    s = s\<lparr>dx_heap := (dx_heap s)[pos := moved]\<rparr>;
                    s = s\<lparr>dx_positions := (dx_positions s)[unat moved := of_nat pos]\<rparr>;
                    s = s\<lparr>dx_heap := butlast (dx_heap s)\<rparr>
                in dx_repair deadline_of pos s)"

definition dx_update :: "deadlines \<Rightarrow> nat \<Rightarrow> instant_millis option \<Rightarrow> deadline_index \<Rightarrow> deadline_index" where
  "dx_update deadline_of row deadline s =
     (if dx_readiness s \<noteq> IndexReady \<or> row \<ge> length (dx_positions s) then dx_invalidate s
      else
        let pos = dx_positions s ! row
        in case (pos = ABSENT, deadline \<noteq> None) of
             (True, True) \<Rightarrow> let s = dx_enlist row s in sift_up deadline_of (length (dx_heap s) - 1) s
           | (False, False) \<Rightarrow> dx_remove deadline_of row s
           | (False, True) \<Rightarrow> dx_repair deadline_of (unat pos) s
           | (True, False) \<Rightarrow> s)"

definition dx_swap_remove :: "deadlines \<Rightarrow> nat \<Rightarrow> nat \<Rightarrow> deadline_index \<Rightarrow> deadline_index" where
  "dx_swap_remove deadline_of removed lst s =
     (if dx_readiness s \<noteq> IndexReady \<or> lst \<ge> length (dx_positions s) \<or> removed > lst then dx_invalidate s
      else
        let s = dx_remove deadline_of removed s;
            s = (if removed \<noteq> lst
                 then
                   let pos = dx_positions s ! lst;
                       s = s\<lparr>dx_positions := (dx_positions s)[removed := pos]\<rparr>
                   in if pos \<noteq> ABSENT then s\<lparr>dx_heap := (dx_heap s)[unat pos := of_nat removed]\<rparr> else s
                 else s)
        in s\<lparr>dx_positions := butlast (dx_positions s)\<rparr>)"

section \<open>Queries\<close>

text \<open>\<open>(0..row_count).filter_map(deadline_of).min()\<close> and \<open>(0..row_count).find(..)\<close>.\<close>

definition scan_min :: "deadlines \<Rightarrow> nat \<Rightarrow> instant_millis option" where
  "scan_min deadline_of row_count =
     (case List.map_filter deadline_of [0..<row_count] of [] \<Rightarrow> None | at # ats \<Rightarrow> Some (fold min ats at))"

definition is_due :: "deadlines \<Rightarrow> instant_millis \<Rightarrow> nat \<Rightarrow> bool" where
  "is_due deadline_of now row = (case deadline_of row of None \<Rightarrow> False | Some at \<Rightarrow> at \<le> now)"

definition scan_due :: "deadlines \<Rightarrow> instant_millis \<Rightarrow> (nat \<Rightarrow> bool) \<Rightarrow> nat \<Rightarrow> nat option" where
  "scan_due deadline_of now matching row_count = find (\<lambda>row. is_due deadline_of now row \<and> matching row) [0..<row_count]"

definition dx_earliest_exact :: "deadlines \<Rightarrow> nat \<Rightarrow> deadline_index \<Rightarrow> instant_millis option \<times> deadline_index" where
  "dx_earliest_exact deadline_of row_count s =
     (let s = dx_prepare deadline_of row_count s
      in if dx_readiness s = LinearFallback then (scan_min deadline_of row_count, s)
         else case dx_heap s of
           [] \<Rightarrow> (None, s)
         | row # _ \<Rightarrow>
             (case deadline_of (unat row) of
                Some deadline \<Rightarrow> (Some deadline, s)
              | None \<Rightarrow> (scan_min deadline_of row_count, dx_invalidate s)))"

definition dx_eager_earliest_exact :: "deadlines \<Rightarrow> nat \<Rightarrow> deadline_index \<Rightarrow> instant_millis option" where
  "dx_eager_earliest_exact deadline_of row_count s =
     (if dx_readiness s \<noteq> IndexReady \<or> length (dx_positions s) \<noteq> row_count then scan_min deadline_of row_count
      else case dx_heap s of
        [] \<Rightarrow> None
      | row # _ \<Rightarrow>
          (case deadline_of (unat row) of Some deadline \<Rightarrow> Some deadline | None \<Rightarrow> scan_min deadline_of row_count))"

definition dx_eager_first_due :: "deadlines \<Rightarrow> nat \<Rightarrow> instant_millis \<Rightarrow> deadline_index \<Rightarrow> nat option" where
  "dx_eager_first_due deadline_of row_count now s =
     (if dx_readiness s \<noteq> IndexReady \<or> length (dx_positions s) \<noteq> row_count
      then scan_due deadline_of now (\<lambda>_. True) row_count
      else case dx_heap s of
        [] \<Rightarrow> None
      | row # _ \<Rightarrow>
          (case deadline_of (unat row) of
             Some at \<Rightarrow> if at \<le> now then Some (unat row) else None
           | None \<Rightarrow> scan_due deadline_of now (\<lambda>_. True) row_count))"

definition dx_first_due_matching ::
  "deadlines \<Rightarrow> nat \<Rightarrow> instant_millis \<Rightarrow> (nat \<Rightarrow> bool) \<Rightarrow> deadline_index \<Rightarrow> nat option \<times> deadline_index" where
  "dx_first_due_matching deadline_of row_count now matching s =
     (let s = dx_prepare deadline_of row_count s
      in if dx_readiness s = LinearFallback then (scan_due deadline_of now matching row_count, s)
         else case dx_heap s of
           [] \<Rightarrow> (None, s)
         | first # _ \<Rightarrow>
             (case deadline_of (unat first) of
                None \<Rightarrow> (scan_due deadline_of now matching row_count, dx_invalidate s)
              | Some first_deadline \<Rightarrow>
                  if first_deadline > now then (None, s)
                  else (find (\<lambda>row. is_due deadline_of now row \<and> matching row) (map unat (dx_heap s)), s)))"

definition dx_first_due :: "deadlines \<Rightarrow> nat \<Rightarrow> instant_millis \<Rightarrow> deadline_index \<Rightarrow> nat option \<times> deadline_index" where
  "dx_first_due deadline_of row_count now s = dx_first_due_matching deadline_of row_count now (\<lambda>_. True) s"

function next_after_subtree :: "nat \<Rightarrow> nat \<Rightarrow> nat option" where
  "next_after_subtree pos len =
     (if pos > 0 then
        if pos mod 2 = 1 \<and> pos + 1 < len then Some (pos + 1)
        else next_after_subtree ((pos - 1) div 2) len
      else None)"
  by pat_completeness auto
termination
  by (relation "measure fst") auto

declare next_after_subtree.simps [simp del]

text \<open>
  The walk over the due part of the heap: \<open>None\<close> is a walk that never ends, \<open>Some None\<close> one that meets a row
  without a deadline, \<open>Some (Some dense)\<close> its verdict. A product that saturates is \<open>usize::MAX\<close>, at least any
  row count, so the comparison is that of the exact product.
\<close>

partial_function (option) cull_walk ::
  "deadlines \<Rightarrow> u32 list \<Rightarrow> nat \<Rightarrow> instant_millis \<Rightarrow> nat option \<Rightarrow> nat \<Rightarrow> bool option option" where
  [code]: "cull_walk deadline_of heap row_count now pos candidates =
     (case pos of
        None \<Rightarrow> Some (Some False)
      | Some current \<Rightarrow>
          (case deadline_of (unat (heap ! current)) of
             None \<Rightarrow> Some None
           | Some deadline \<Rightarrow>
               if deadline \<le> now then
                 let candidates = candidates + 1
                 in if candidates \<ge> unat LINEAR_CULL_MIN_CANDIDATES
                       \<and> candidates * HEAP_LINEAR_CULL_DENSITY_DENOMINATOR \<ge> row_count
                    then Some (Some True)
                    else cull_walk deadline_of heap row_count now
                           (if current < length heap div 2 then Some (current * 2 + 1)
                            else next_after_subtree current (length heap))
                           candidates
               else cull_walk deadline_of heap row_count now (next_after_subtree current (length heap)) candidates))"

definition dx_prefers_linear_cull :: "deadlines \<Rightarrow> nat \<Rightarrow> instant_millis \<Rightarrow> deadline_index \<Rightarrow> (bool \<times> deadline_index) option" where
  "dx_prefers_linear_cull deadline_of row_count now s =
     (let s = dx_prepare deadline_of row_count s
      in if dx_readiness s \<noteq> IndexReady then Some (True, s)
         else map_option
           (\<lambda>verdict. case verdict of None \<Rightarrow> (True, dx_invalidate s) | Some dense \<Rightarrow> (dense, s))
           (cull_walk deadline_of (dx_heap s) row_count now (if dx_heap s = [] then None else Some 0) 0))"

section \<open>The order of the heap\<close>

definition par :: "nat \<Rightarrow> nat" where
  "par i = (i - 1) div 2"

lemma par_less: "0 < i \<Longrightarrow> par i < i"
  by (auto simp: par_def)

lemma par_children [simp]: "par (2 * i + 1) = i" "par (2 * i + 2) = i" "par (Suc (2 * i)) = i" "par (Suc (Suc (2 * i))) = i"
  "par (Suc (i * 2)) = i" "par (Suc (Suc (i * 2))) = i"
  by (auto simp: par_def)

lemma child_cases: "0 < j \<Longrightarrow> par j = i \<longleftrightarrow> j = 2 * i + 1 \<or> j = 2 * i + 2"
  by (auto simp: par_def)

text \<open>Every place below a parent from \<open>k\<close> on is in order.\<close>

definition heap_from :: "('a \<Rightarrow> 'k::linorder) \<Rightarrow> nat \<Rightarrow> 'a list \<Rightarrow> bool" where
  "heap_from K k h = (\<forall>j<length h. 0 < j \<and> k \<le> par j \<longrightarrow> K (h ! par j) \<le> K (h ! j))"

text \<open>One place that may be too small for its parent, too big for its children, or either.\<close>

definition up_defect :: "('a \<Rightarrow> 'k::linorder) \<Rightarrow> 'a list \<Rightarrow> nat \<Rightarrow> bool" where
  "up_defect K h i =
     (i < length h \<and> (\<forall>j<length h. 0 < j \<and> j \<noteq> i \<longrightarrow> K (h ! par j) \<le> K (h ! j))
      \<and> (\<forall>j<length h. 0 < i \<and> 0 < j \<and> par j = i \<longrightarrow> K (h ! par i) \<le> K (h ! j)))"

definition down_defect :: "('a \<Rightarrow> 'k::linorder) \<Rightarrow> nat \<Rightarrow> 'a list \<Rightarrow> nat \<Rightarrow> bool" where
  "down_defect K k h i =
     ((\<forall>j<length h. 0 < j \<and> k \<le> par j \<and> par j \<noteq> i \<longrightarrow> K (h ! par j) \<le> K (h ! j))
      \<and> (\<forall>j<length h. 0 < i \<and> k \<le> par i \<and> 0 < j \<and> par j = i \<longrightarrow> K (h ! par i) \<le> K (h ! j)))"

definition gap_defect :: "('a \<Rightarrow> 'k::linorder) \<Rightarrow> 'a list \<Rightarrow> nat \<Rightarrow> bool" where
  "gap_defect K h i =
     (i < length h \<and> (\<forall>j<length h. 0 < j \<and> j \<noteq> i \<and> par j \<noteq> i \<longrightarrow> K (h ! par j) \<le> K (h ! j))
      \<and> (\<forall>j<length h. 0 < i \<and> 0 < j \<and> par j = i \<longrightarrow> K (h ! par i) \<le> K (h ! j)))"

lemma up_defect_step:
  assumes d: "up_defect K h i" and i: "0 < i" and less: "K (h ! i) < K (h ! par i)"
  shows "up_defect K (h[par i := h ! i, i := h ! par i]) (par i)"
proof -
  let ?p = "par i" and ?h = "h[par i := h ! i, i := h ! par i]"
  have p: "?p < i" "i < length h" using d i by (simp_all add: up_defect_def par_less)
  have nth: "?h ! j = (if j = i then h ! ?p else if j = ?p then h ! i else h ! j)" if "j < length h" for j
    using that p by (simp add: nth_list_update)
  have ord: "K (h ! par j) \<le> K (h ! j)" if "j < length h" "0 < j" "j \<noteq> i" for j using d that by (simp add: up_defect_def)
  have kids: "K (h ! ?p) \<le> K (h ! j)" if "j < length h" "0 < j" "par j = i" for j using d i that by (simp add: up_defect_def)
  have "K (?h ! par j) \<le> K (?h ! j)" if j: "j < length h" "0 < j" "j \<noteq> ?p" for j
  proof -
    have pj: "par j < length h" using j par_less [of j] by linarith
    have "par j \<noteq> j" using par_less [OF j(2)] by simp
    then show ?thesis
      using ord [of j] kids [of j] less j p unfolding nth [OF j(1)] nth [OF pj] by (auto intro: less_imp_le order_trans)
  qed
  moreover have "K (?h ! par ?p) \<le> K (?h ! j)" if j: "j < length h" "0 < j" "par j = ?p" "0 < ?p" for j
  proof -
    have pp: "par ?p < ?p" "?p < j" using j par_less [of j] par_less [of ?p] by auto
    then have pp3: "par ?p < length h" using p by linarith
    have "K (h ! par ?p) \<le> K (h ! ?p)" using ord [of ?p] j p by simp
    with pp show ?thesis
      using ord [of j] j p nth [OF pp3] nth [of j] by (auto intro: order_trans)
  qed
  ultimately show ?thesis using p by (simp add: up_defect_def)
qed

lemma up_defect_done:
  assumes "up_defect K h i" "i = 0 \<or> K (h ! par i) \<le> K (h ! i)"
  shows "heap_from K 0 h"
  using assms by (auto simp: up_defect_def heap_from_def)

lemma down_defect_step:
  assumes d: "down_defect K k h i" and k: "k \<le> i" and c: "par c = i" "0 < c" "c < length h"
    and least: "\<forall>j<length h. 0 < j \<and> par j = i \<longrightarrow> K (h ! c) \<le> K (h ! j)" and less: "K (h ! c) < K (h ! i)"
  shows "down_defect K k (h[i := h ! c, c := h ! i]) c"
proof -
  let ?h = "h[i := h ! c, c := h ! i]"
  have i: "i < c" using c par_less [of c] by simp
  have nth: "?h ! j = (if j = c then h ! i else if j = i then h ! c else h ! j)" if "j < length h" for j
    using that i c by (simp add: nth_list_update)
  have ord: "K (h ! par j) \<le> K (h ! j)" if "j < length h" "0 < j" "k \<le> par j" "par j \<noteq> i" for j
    using d that by (simp add: down_defect_def)
  have up: "K (h ! par i) \<le> K (h ! c)" if "0 < i" "k \<le> par i" using d c that by (simp add: down_defect_def)
  have "K (?h ! par j) \<le> K (?h ! j)" if j: "j < length h" "0 < j" "k \<le> par j" "par j \<noteq> c" for j
  proof -
    have pj: "par j < length h" "par j \<noteq> j" using j par_less [of j] by linarith+
    consider "j = c" | "j \<noteq> c" "par j = i" | "j = i" | "j \<noteq> c" "par j \<noteq> i" "j \<noteq> i" by blast
    then show ?thesis
    proof cases
      case 1
      then show ?thesis using less i c unfolding nth [OF j(1)] nth [OF pj(1)] by simp
    next
      case 2
      then show ?thesis using least j i pj unfolding nth [OF j(1)] nth [OF pj(1)] by simp
    next
      case 3
      then show ?thesis using up j i pj unfolding nth [OF j(1)] nth [OF pj(1)] by simp
    next
      case 4
      then show ?thesis using ord [of j] j unfolding nth [OF j(1)] nth [OF pj(1)] by simp
    qed
  qed
  moreover have "K (?h ! par c) \<le> K (?h ! j)" if j: "j < length h" "0 < j" "par j = c" for j
  proof -
    have "c < j" using j par_less [of j] by simp
    then show ?thesis using ord [of j] j c i k nth [of i] nth [of j] by simp
  qed
  ultimately show ?thesis by (simp add: down_defect_def)
qed

lemma sift_up_order: "up_defect (dx_deadline D) (dx_heap s) i \<Longrightarrow> heap_from (dx_deadline D) 0 (dx_heap (sift_up D i s))"
proof (induction D i s rule: sift_up.induct)
  case (1 D i s)
  let ?K = "dx_deadline D"
  show ?case
  proof (cases "i = 0 \<or> ?K (dx_heap s ! par i) \<le> ?K (dx_heap s ! i)")
    case True
    then have "sift_up D i s = s" by (subst sift_up.simps) (auto simp: par_def Let_def)
    with up_defect_done [OF "1.prems" True] show ?thesis by simp
  next
    case False
    then have "up_defect ?K (dx_heap (dx_swap (par i) i s)) (par i)"
      using up_defect_step [OF "1.prems"] by (simp add: not_le)
    moreover have "sift_up D i s = sift_up D (par i) (dx_swap (par i) i s)"
      using False by (subst sift_up.simps) (auto simp: par_def Let_def)
    ultimately show ?thesis using "1.IH" [OF _ refl] False by (auto simp: par_def)
  qed
qed

text \<open>The child \<open>sift_down\<close> looks at.\<close>

definition least_child :: "('a \<Rightarrow> 'k::linorder) \<Rightarrow> 'a list \<Rightarrow> nat \<Rightarrow> nat" where
  "least_child K h i = (if i * 2 + 1 + 1 < length h \<and> K (h ! (i * 2 + 1 + 1)) < K (h ! (i * 2 + 1)) then i * 2 + 1 + 1 else i * 2 + 1)"

lemma sift_down_step:
  "sift_down D i s =
     (let c = least_child (dx_deadline D) (dx_heap s) i
      in if i * 2 + 1 < length (dx_heap s) \<and> dx_deadline D (dx_heap s ! c) < dx_deadline D (dx_heap s ! i)
         then sift_down D c (dx_swap i c s) else s)"
  unfolding sift_down.simps [of D i s] Let_def least_child_def [symmetric] by (simp add: not_le)

lemma sift_down_stop:
  "\<not> (i * 2 + 1 < length (dx_heap s)
      \<and> dx_deadline D (dx_heap s ! least_child (dx_deadline D) (dx_heap s) i) < dx_deadline D (dx_heap s ! i))
   \<Longrightarrow> sift_down D i s = s"
  unfolding sift_down_step [of D i s] Let_def by (rule if_not_P)

lemma sift_down_move:
  "i * 2 + 1 < length (dx_heap s)
     \<and> dx_deadline D (dx_heap s ! least_child (dx_deadline D) (dx_heap s) i) < dx_deadline D (dx_heap s ! i)
   \<Longrightarrow> sift_down D i s = (let c = least_child (dx_deadline D) (dx_heap s) i in sift_down D c (dx_swap i c s))"
  unfolding sift_down_step [of D i s] Let_def by (rule if_P)

lemma least_child:
  assumes "i * 2 + 1 < length h"
  shows "par (least_child K h i) = i" "i < least_child K h i" "least_child K h i < length h"
    and "j < length h \<Longrightarrow> 0 < j \<Longrightarrow> par j = i \<Longrightarrow> K (h ! least_child K h i) \<le> K (h ! j)"
  using assms child_cases [of j i] by (auto simp: least_child_def mult.commute)

lemma sift_down_order:
  "down_defect (dx_deadline D) k (dx_heap s) i \<Longrightarrow> k \<le> i \<Longrightarrow> heap_from (dx_deadline D) k (dx_heap (sift_down D i s))"
proof (induction "length (dx_heap s) - i" arbitrary: i s rule: less_induct)
  case less
  let ?K = "dx_deadline D" and ?h = "dx_heap s"
  let ?c = "least_child ?K ?h i"
  show ?case
  proof (cases "i * 2 + 1 < length ?h \<and> ?K (?h ! ?c) < ?K (?h ! i)")
    case False
    have "?K (?h ! par j) \<le> ?K (?h ! j)" if j: "j < length ?h" "0 < j" "par j = i" for j
    proof -
      have "i * 2 + 1 < length ?h" using child_cases [OF j(2), of i] j by auto
      with False least_child(4) [OF this j, of ?K] show ?thesis by (simp add: j(3) not_less)
    qed
    then have "heap_from ?K k ?h" using less.prems(1) unfolding heap_from_def down_defect_def by blast
    then show ?thesis by (simp only: sift_down_stop [OF False])
  next
    case True
    note c = least_child [where K = ?K, OF conjunct1 [OF True]]
    have "down_defect ?K k (dx_heap (dx_swap i ?c s)) ?c" "k \<le> ?c"
      using down_defect_step [OF less.prems(1,2), of ?c] True c less.prems(2) by auto
    then have "heap_from ?K k (dx_heap (sift_down D ?c (dx_swap i ?c s)))"
      using c by (intro less.hyps) auto
    then show ?thesis by (simp only: sift_down_move [OF True] Let_def)
  qed
qed

lemma dx_repair_order:
  assumes "gap_defect (dx_deadline D) (dx_heap s) i"
  shows "heap_from (dx_deadline D) 0 (dx_heap (dx_repair D i s))"
proof (cases "0 < i \<and> dx_deadline D (dx_heap s ! i) < dx_deadline D (dx_heap s ! par i)")
  case True
  with assms have "up_defect (dx_deadline D) (dx_heap s) i"
    by (fastforce simp: gap_defect_def up_defect_def)
  from sift_up_order [OF this] True show ?thesis by (simp add: dx_repair_def par_def)
next
  case False
  with assms have "down_defect (dx_deadline D) 0 (dx_heap s) i"
    by (auto simp: gap_defect_def down_defect_def not_less)
  from sift_down_order [OF this] False show ?thesis by (auto simp: dx_repair_def par_def Let_def)
qed

lemma heap_root_least: "heap_from K 0 h \<Longrightarrow> i < length h \<Longrightarrow> K (h ! 0) \<le> K (h ! i)"
proof (induction i rule: less_induct)
  case (less i)
  show ?case
  proof (cases "i = 0")
    case False
    then have "par i < i" by (simp add: par_less)
    moreover from this have "par i < length h" using less.prems by linarith
    ultimately have "K (h ! 0) \<le> K (h ! par i)" using less.IH less.prems by blast
    also have "\<dots> \<le> K (h ! i)" using less.prems False by (simp add: heap_from_def)
    finally show ?thesis .
  qed simp
qed

lemma heapify_order:
  "heap_from (dx_deadline D) m (dx_heap s) \<Longrightarrow> heap_from (dx_deadline D) 0 (dx_heap (fold (sift_down D) (rev [0..<m]) s))"
proof (induction m arbitrary: s)
  case (Suc m)
  have "0 < m \<Longrightarrow> \<not> m \<le> par m" by (simp add: not_le par_less)
  with Suc.prems have "down_defect (dx_deadline D) m (dx_heap s) m"
    by (auto simp: heap_from_def down_defect_def)
  from Suc.IH [OF sift_down_order [OF this]] show ?case by simp
qed simp

lemma heap_from_half: "heap_from K (length h div 2) h"
  by (auto simp: heap_from_def par_def)

section \<open>Heap and positions\<close>

lemma unat_ABSENT: "unat ABSENT = 2 ^ 32 - 1"
  by (simp add: ABSENT_def unat_minus_one_word_max)

lemma of_nat_unat_row: "of_nat (unat x) = (x :: u32)"
  by simp

text \<open>The two vectors are inverse to each other; a row that is not in the heap has no place.\<close>

definition pos_ok :: "nat \<Rightarrow> u32 list \<Rightarrow> u32 list \<Rightarrow> bool" where
  "pos_ok n h p =
     (length p = n \<and> n \<le> unat ABSENT \<and> length h \<le> n
      \<and> (\<forall>i<length h. unat (h ! i) < n \<and> p ! unat (h ! i) = of_nat i)
      \<and> (\<forall>r<n. p ! r \<noteq> ABSENT \<longrightarrow> unat (p ! r) < length h \<and> h ! unat (p ! r) = of_nat r))"

lemma unat_row: "pos_ok n h p \<Longrightarrow> r \<le> n \<Longrightarrow> unat (of_nat r :: u32) = r"
  by (simp add: pos_ok_def unat_ABSENT unat_of_nat)

lemma row_inject: "pos_ok n h p \<Longrightarrow> r \<le> n \<Longrightarrow> q \<le> n \<Longrightarrow> (of_nat r :: u32) = of_nat q \<longleftrightarrow> r = q"
  using unat_row by metis

lemma row_image:
  assumes "pos_ok n h p" "r < n"
  shows "(of_nat r :: u32) \<in> of_nat ` {q. q < n \<and> P q} \<longleftrightarrow> P r"
proof
  assume "(of_nat r :: u32) \<in> of_nat ` {q. q < n \<and> P q}"
  then obtain q where "(of_nat r :: u32) = of_nat q" "q < n" "P q" by blast
  then show "P r" using row_inject [OF assms(1), of r q] assms(2) by simp
qed (use assms in blast)

lemma row_present: "pos_ok n h p \<Longrightarrow> r < n \<Longrightarrow> of_nat r \<noteq> ABSENT"
  using unat_row [of n h p r] by (auto simp: pos_ok_def)

lemma pos_ok_member:
  assumes "pos_ok n h p" "r < n"
  shows "p ! r \<noteq> ABSENT \<longleftrightarrow> of_nat r \<in> set h"
proof
  assume "of_nat r \<in> set h"
  then obtain i where i: "i < length h" "h ! i = of_nat r" by (auto simp: in_set_conv_nth)
  with assms have "p ! r = of_nat i" using unat_row [OF assms(1), of r] by (auto simp: pos_ok_def)
  with i assms row_present [OF assms(1), of i] show "p ! r \<noteq> ABSENT" by (simp add: pos_ok_def)
qed (use assms in \<open>auto simp: pos_ok_def in_set_conv_nth\<close>)

lemma pos_ok_distinct:
  assumes "pos_ok n h p"
  shows "distinct h"
proof (rule distinct_conv_nth [THEN iffD2], intro allI impI)
  fix i j assume ij: "i < length h" "j < length h" "i \<noteq> j"
  have "unat (of_nat i :: u32) = i" "unat (of_nat j :: u32) = j" using ij assms by (auto intro!: unat_row [OF assms] simp: pos_ok_def)
  moreover have "p ! unat (h ! i) = of_nat i" "p ! unat (h ! j) = of_nat j" using ij assms by (simp_all add: pos_ok_def)
  ultimately show "h ! i \<noteq> h ! j" using ij by metis
qed

lemma dx_swap_pos_ok:
  assumes ok: "pos_ok n (dx_heap s) (dx_positions s)" and ab: "a < length (dx_heap s)" "b < length (dx_heap s)" "a \<noteq> b"
  shows "pos_ok n (dx_heap (dx_swap a b s)) (dx_positions (dx_swap a b s))"
proof -
  let ?h = "dx_heap s" and ?p = "dx_positions s"
  let ?h' = "?h[a := ?h ! b, b := ?h ! a]" and ?p' = "?p[unat (?h ! b) := of_nat a, unat (?h ! a) := of_nat b]"
  have sw: "dx_heap (dx_swap a b s) = ?h'" "dx_positions (dx_swap a b s) = ?p'"
    using ab by (simp_all add: dx_swap_def Let_def)
  have d: "distinct ?h" by (rule pos_ok_distinct [OF ok])
  have fwd: "unat (?h ! i) < n" "?p ! unat (?h ! i) = of_nat i" if "i < length ?h" for i using ok that by (simp_all add: pos_ok_def)
  have len: "length ?p = n" "n \<le> unat ABSENT" "length ?h \<le> n" using ok by (simp_all add: pos_ok_def)
  have inj: "unat (?h ! i) = unat (?h ! j) \<longleftrightarrow> i = j" if "i < length ?h" "j < length ?h" for i j
    using that d by (simp add: word_unat_eq_iff [symmetric] nth_eq_iff_index_eq)
  have fw: "unat (?h' ! i) < n \<and> ?p' ! unat (?h' ! i) = of_nat i" if i: "i < length ?h" for i
    using i ab fwd inj len by (auto simp: nth_list_update)
  moreover have "unat (?p' ! r) < length ?h \<and> ?h' ! unat (?p' ! r) = of_nat r" if r: "r < n" "?p' ! r \<noteq> ABSENT" for r
  proof -
    have u: "unat (of_nat a :: u32) = a" "unat (of_nat b :: u32) = b" using ab len by (auto intro!: unat_row [OF ok])
    have bk: "?p ! r \<noteq> ABSENT \<Longrightarrow> unat (?p ! r) < length ?h \<and> ?h ! unat (?p ! r) = of_nat r" using ok r by (simp add: pos_ok_def)
    have row: "(of_nat (unat (?h ! i)) :: u32) = ?h ! i" for i by simp
    consider "r = unat (?h ! a)" | "r = unat (?h ! b)" | "r \<noteq> unat (?h ! a)" "r \<noteq> unat (?h ! b)" by blast
    then show ?thesis
    proof cases
      case 1
      then show ?thesis using u ab fwd(1) [OF ab(1)] len by simp
    next
      case 2
      then show ?thesis using u ab fwd(1) [OF ab(2)] len inj [of a b] by (simp add: nth_list_update)
    next
      case 3
      with r len have pr: "?p' ! r = ?p ! r" "?p ! r \<noteq> ABSENT" by simp_all
      with bk have "unat (?p ! r) \<noteq> a" "unat (?p ! r) \<noteq> b" using 3 r unat_row [OF ok, of r] by auto
      with pr bk show ?thesis by (simp add: nth_list_update)
    qed
  qed
  ultimately show ?thesis unfolding sw using len by (simp add: pos_ok_def)
qed

text \<open>What sifting leaves alone: the rows in the heap, its two vectors inverse, the readiness.\<close>

definition shuffled :: "nat \<Rightarrow> deadline_index \<Rightarrow> deadline_index \<Rightarrow> bool" where
  "shuffled n s s' =
     (mset (dx_heap s') = mset (dx_heap s) \<and> dx_readiness s' = dx_readiness s \<and> pos_ok n (dx_heap s') (dx_positions s'))"

lemma shuffled_swap:
  assumes "pos_ok n (dx_heap s) (dx_positions s)" "a < length (dx_heap s)" "b < length (dx_heap s)" "a \<noteq> b"
  shows "shuffled n s (dx_swap a b s)"
  using assms dx_swap_pos_ok [OF assms] mset_swap [OF assms(3,2)] by (simp add: shuffled_def)

lemma shuffled_set: "shuffled n s t \<Longrightarrow> set (dx_heap t) = set (dx_heap s)"
  unfolding shuffled_def by (blast dest: mset_eq_setD)

lemma shuffled_trans: "shuffled n s s' \<Longrightarrow> shuffled n s' s'' \<Longrightarrow> shuffled n s s''"
  by (simp add: shuffled_def)

lemma shuffled_length: "shuffled n s s' \<Longrightarrow> length (dx_heap s') = length (dx_heap s)"
  by (metis shuffled_def mset_eq_length)

lemma sift_up_shuffled:
  "pos_ok n (dx_heap s) (dx_positions s) \<Longrightarrow> i < length (dx_heap s) \<Longrightarrow> shuffled n s (sift_up D i s)"
proof (induction D i s rule: sift_up.induct)
  case (1 D i s)
  show ?case
  proof (cases "i = 0 \<or> dx_deadline D (dx_heap s ! par i) \<le> dx_deadline D (dx_heap s ! i)")
    case True
    then have "sift_up D i s = s" by (subst sift_up.simps) (auto simp: par_def Let_def)
    with "1.prems" show ?thesis by (simp add: shuffled_def)
  next
    case False
    have p: "par i < i" using False by (simp add: par_less)
    then have sw: "shuffled n s (dx_swap (par i) i s)" using "1.prems" by (intro shuffled_swap) auto
    moreover have "shuffled n (dx_swap (par i) i s) (sift_up D (par i) (dx_swap (par i) i s))"
      using "1.IH" [OF _ refl] False sw p "1.prems"(2) shuffled_length [OF sw] by (auto simp: par_def shuffled_def)
    moreover have "sift_up D i s = sift_up D (par i) (dx_swap (par i) i s)"
      using False by (subst sift_up.simps) (auto simp: par_def Let_def)
    ultimately show ?thesis using shuffled_trans by metis
  qed
qed

lemma sift_down_shuffled:
  "pos_ok n (dx_heap s) (dx_positions s) \<Longrightarrow> shuffled n s (sift_down D i s)"
proof (induction "length (dx_heap s) - i" arbitrary: i s rule: less_induct)
  case less
  let ?c = "least_child (dx_deadline D) (dx_heap s) i"
  show ?case
  proof (cases "i * 2 + 1 < length (dx_heap s) \<and> dx_deadline D (dx_heap s ! ?c) < dx_deadline D (dx_heap s ! i)")
    case False
    from less.prems show ?thesis by (simp add: sift_down_stop [OF False] shuffled_def)
  next
    case True
    note c = least_child [where K = "dx_deadline D", OF conjunct1 [OF True]]
    then have sw: "shuffled n s (dx_swap i ?c s)" using less.prems by (intro shuffled_swap) auto
    then have "shuffled n (dx_swap i ?c s) (sift_down D ?c (dx_swap i ?c s))"
      using c by (intro less.hyps) (auto simp: shuffled_def)
    from shuffled_trans [OF sw this] show ?thesis by (simp only: sift_down_move [OF True] Let_def)
  qed
qed

lemma dx_repair_shuffled:
  "pos_ok n (dx_heap s) (dx_positions s) \<Longrightarrow> i < length (dx_heap s) \<Longrightarrow> shuffled n s (dx_repair D i s)"
  by (simp add: dx_repair_def Let_def sift_up_shuffled sift_down_shuffled)

section \<open>The invariant and the operations\<close>

text \<open>An index that is ready holds exactly the rows with a deadline, in heap order.\<close>

definition heap_ok :: "deadlines \<Rightarrow> nat \<Rightarrow> deadline_index \<Rightarrow> bool" where
  "heap_ok D n s =
     (pos_ok n (dx_heap s) (dx_positions s) \<and> (\<forall>r<n. of_nat r \<in> set (dx_heap s) \<longleftrightarrow> D r \<noteq> None)
      \<and> heap_from (dx_deadline D) 0 (dx_heap s))"

definition dx_ok :: "deadlines \<Rightarrow> nat \<Rightarrow> deadline_index \<Rightarrow> bool" where
  "dx_ok D n s = (dx_readiness s = IndexReady \<longrightarrow> heap_ok D n s)"

lemma heap_from_cong:
  assumes "\<And>x. x \<in> set h \<Longrightarrow> K x = K' x"
  shows "heap_from K k h \<longleftrightarrow> heap_from K' k h"
proof -
  have "par j < length h" if "j < length h" for j using that by (auto simp: par_def)
  then show ?thesis using assms by (simp add: heap_from_def)
qed

lemma dx_deadline_cong: "D (unat x) = D' (unat x) \<Longrightarrow> dx_deadline D x = dx_deadline D' x"
  by (simp add: dx_deadline_def)

lemma dx_enlist_pos_ok:
  assumes ok: "pos_ok n (dx_heap s) (dx_positions s)" and r: "r < n" "dx_positions s ! r = ABSENT"
  shows "pos_ok n (dx_heap (dx_enlist r s)) (dx_positions (dx_enlist r s))"
proof -
  let ?h = "dx_heap s" and ?p = "dx_positions s"
  have len: "length ?p = n" "n \<le> unat ABSENT" "length ?h \<le> n" using ok by (simp_all add: pos_ok_def)
  have new: "of_nat r \<notin> set ?h" using pos_ok_member [OF ok r(1)] r(2) by simp
  have ur: "unat (of_nat r :: u32) = r" using unat_row [OF ok] r by simp
  have less: "length ?h < n"
  proof -
    have "length ?h = card (unat ` set ?h)"
      using pos_ok_distinct [OF ok]
      by (subst card_image) (auto simp: inj_on_def word_unat_eq_iff [symmetric] distinct_card)
    also have "unat ` set ?h \<subseteq> {..<n} - {r}"
    proof -
      have "unat x < n" if "x \<in> set ?h" for x using that ok by (auto simp: in_set_conv_nth pos_ok_def)
      moreover have "unat x \<noteq> r" if "x \<in> set ?h" for x using that new by (metis of_nat_unat_row)
      ultimately show ?thesis by auto
    qed
    then have "card (unat ` set ?h) \<le> card ({..<n} - {r})" by (rule card_mono [rotated]) simp
    finally show ?thesis using r by (simp add: card_Diff_singleton)
  qed
  have ul: "unat (of_nat (length ?h) :: u32) = length ?h" using unat_row [OF ok] less by simp
  have "unat ((?h @ [of_nat r]) ! i) < n \<and> ?p[r := of_nat (length ?h)] ! unat ((?h @ [of_nat r]) ! i) = of_nat i"
    if i: "i < Suc (length ?h)" for i
  proof (cases "i = length ?h")
    case True
    then show ?thesis using ur r len by simp
  next
    case False
    then have "i < length ?h" using i by simp
    moreover have "unat (?h ! i) \<noteq> r" using new calculation by (metis nth_mem of_nat_unat_row)
    ultimately show ?thesis using ok by (simp add: nth_append pos_ok_def)
  qed
  moreover have "unat (?p[r := of_nat (length ?h)] ! q) < Suc (length ?h)
      \<and> (?h @ [of_nat r]) ! unat (?p[r := of_nat (length ?h)] ! q) = of_nat q"
    if q: "q < n" "?p[r := of_nat (length ?h)] ! q \<noteq> ABSENT" for q
    using q ok ul len r by (cases "q = r") (auto simp: nth_append pos_ok_def less_Suc_eq)
  ultimately show ?thesis using len less by (simp add: dx_enlist_def pos_ok_def)
qed

lemma dx_enlist_set: "set (dx_heap (dx_enlist r s)) = insert (of_nat r) (set (dx_heap s))"
  by (simp add: dx_enlist_def)

text \<open>Appending a row and sifting it up.\<close>

lemma dx_enlist_sift:
  assumes ok: "pos_ok n (dx_heap s) (dx_positions s)" and r: "r < n" "dx_positions s ! r = ABSENT"
    and order: "heap_from (dx_deadline D) 0 (dx_heap s)"
  defines "s' \<equiv> sift_up D (length (dx_heap (dx_enlist r s)) - 1) (dx_enlist r s)"
  shows "pos_ok n (dx_heap s') (dx_positions s')" "set (dx_heap s') = insert (of_nat r) (set (dx_heap s))"
    "heap_from (dx_deadline D) 0 (dx_heap s')" "dx_readiness s' = dx_readiness s"
proof -
  let ?e = "dx_enlist r s"
  have len: "length (dx_heap ?e) = Suc (length (dx_heap s))" by (simp add: dx_enlist_def)
  have sh: "shuffled n ?e s'" unfolding s'_def using dx_enlist_pos_ok [OF ok r] len by (intro sift_up_shuffled) simp_all
  have "par j < length (dx_heap s)" if "j < Suc (length (dx_heap s))" "0 < j" for j using that par_less [of j] by linarith
  then have "up_defect (dx_deadline D) (dx_heap ?e) (length (dx_heap ?e) - 1)"
    using order by (auto simp: up_defect_def heap_from_def dx_enlist_def nth_append less_Suc_eq child_cases)
  from sift_up_order [OF this] show "heap_from (dx_deadline D) 0 (dx_heap s')" by (simp add: s'_def)
  show "pos_ok n (dx_heap s') (dx_positions s')" "dx_readiness s' = dx_readiness s"
    using sh by (simp_all add: shuffled_def dx_enlist_def)
  show "set (dx_heap s') = insert (of_nat r) (set (dx_heap s))"
    using shuffled_set [OF sh] by (simp add: dx_enlist_set)
qed

lemma enlist_rows_ok:
  fixes D :: deadlines and s :: deadline_index
  assumes n: "n \<le> unat ABSENT" and k: "k \<le> n"
  defines "s' \<equiv> fold (\<lambda>row s. if D row \<noteq> None then dx_enlist row s else s) [0..<k] (s\<lparr>dx_heap := [], dx_positions := replicate n ABSENT\<rparr>)"
  shows "pos_ok n (dx_heap s') (dx_positions s') \<and> set (dx_heap s') = of_nat ` {r. r < k \<and> D r \<noteq> None}"
  unfolding s'_def using k
proof (induction k)
  case 0
  then show ?case using n by (simp add: pos_ok_def)
next
  case (Suc k)
  let ?s = "fold (\<lambda>row s. if D row \<noteq> None then dx_enlist row s else s) [0..<k] (s\<lparr>dx_heap := [], dx_positions := replicate n ABSENT\<rparr>)"
  have IH: "pos_ok n (dx_heap ?s) (dx_positions ?s)" "set (dx_heap ?s) = of_nat ` {r. r < k \<and> D r \<noteq> None}"
    using Suc by simp_all
  have "of_nat k \<notin> set (dx_heap ?s)"
  proof
    assume "of_nat k \<in> set (dx_heap ?s)"
    then obtain r where "r < k" "(of_nat k :: u32) = of_nat r" using IH(2) by auto
    then show False using unat_row [OF IH(1), of k] unat_row [OF IH(1), of r] Suc.prems by simp
  qed
  then have "dx_positions ?s ! k = ABSENT" using pos_ok_member [OF IH(1), of k] Suc.prems by auto
  then have "pos_ok n (dx_heap (dx_enlist k ?s)) (dx_positions (dx_enlist k ?s))"
    using IH(1) Suc.prems by (intro dx_enlist_pos_ok) auto
  moreover have "{r. r < Suc k \<and> D r \<noteq> None} = (if D k \<noteq> None then insert k else id) {r. r < k \<and> D r \<noteq> None}"
    by (auto simp: less_Suc_eq)
  ultimately show ?case using IH by (simp add: dx_enlist_set)
qed

lemma heapify_shuffled:
  "pos_ok n (dx_heap s) (dx_positions s) \<Longrightarrow> shuffled n s (fold (sift_down D) is s)"
proof (induction "is" arbitrary: s)
  case (Cons i "is")
  have "shuffled n s (sift_down D i s)" using Cons.prems by (rule sift_down_shuffled)
  moreover from this have "shuffled n (sift_down D i s) (fold (sift_down D) is (sift_down D i s))"
    by (intro Cons.IH) (simp add: shuffled_def)
  ultimately show ?case by (simp add: shuffled_trans)
qed (simp add: shuffled_def)

lemma dx_rebuild_ok:
  "n \<le> unat ABSENT \<Longrightarrow> heap_ok D n (dx_rebuild D n s) \<and> dx_readiness (dx_rebuild D n s) = IndexReady"
  "\<not> n \<le> unat ABSENT \<Longrightarrow> dx_readiness (dx_rebuild D n s) = LinearFallback"
proof -
  assume n: "n \<le> unat ABSENT"
  let ?e = "fold (\<lambda>row s. if D row \<noteq> None then dx_enlist row s else s) [0..<n] (s\<lparr>dx_heap := [], dx_positions := replicate n ABSENT\<rparr>)"
  let ?s = "fold (sift_down D) (rev [0..<length (dx_heap ?e) div 2]) ?e"
  have e: "pos_ok n (dx_heap ?e) (dx_positions ?e)" "set (dx_heap ?e) = of_nat ` {r. r < n \<and> D r \<noteq> None}"
    using enlist_rows_ok [OF n order_refl, of D s] by simp_all
  have sh: "shuffled n ?e ?s" by (rule heapify_shuffled [OF e(1)])
  then have set: "set (dx_heap ?s) = of_nat ` {r. r < n \<and> D r \<noteq> None}" using e(2) by (simp add: shuffled_set)
  have "of_nat r \<in> set (dx_heap ?s) \<longleftrightarrow> D r \<noteq> None" if "r < n" for r
    unfolding set by (rule row_image [OF e(1) that])
  moreover have "heap_from (dx_deadline D) 0 (dx_heap ?s)" by (rule heapify_order [OF heap_from_half])
  ultimately have "heap_ok D n ?s" using sh unfolding heap_ok_def shuffled_def by blast
  moreover have "dx_rebuild D n s = ?s\<lparr>dx_readiness := IndexReady\<rparr>" using n unfolding dx_rebuild_def Let_def by simp
  ultimately show "heap_ok D n (dx_rebuild D n s) \<and> dx_readiness (dx_rebuild D n s) = IndexReady"
    by (simp add: heap_ok_def)
qed (simp add: dx_rebuild_def dx_use_linear_fallback_def)

lemma dx_prepare_ok:
  assumes "dx_ok D n s"
  shows "dx_readiness (dx_prepare D n s) = LinearFallback
    \<or> dx_readiness (dx_prepare D n s) = IndexReady \<and> heap_ok D n (dx_prepare D n s)"
  using assms dx_rebuild_ok [of n D s]
  by (cases "dx_readiness s"; cases "n \<le> unat ABSENT") (auto simp: dx_prepare_def dx_needs_rebuild_def dx_ok_def)

lemma dx_invalidate_ok: "dx_ok D n (dx_invalidate s)"
  by (simp add: dx_ok_def dx_invalidate_def)

lemma dx_fallback_ok: "dx_ok D n (dx_use_linear_fallback s)"
  by (simp add: dx_ok_def dx_use_linear_fallback_def)

lemma dx_default_ok: "dx_ok D 0 deadline_index_default"
  by (simp add: dx_ok_def deadline_index_default_def heap_ok_def pos_ok_def heap_from_def)

lemma dx_insert_ok:
  assumes ok: "dx_ok D n s" and same: "\<forall>r<n. D' r = D r"
  shows "dx_ok D' (Suc n) (dx_insert D' n (D' n) s)"
proof (cases "dx_readiness s = IndexReady \<and> n = length (dx_positions s) \<and> n < unat ABSENT")
  case False
  then show ?thesis by (auto simp: dx_insert_def dx_invalidate_ok dx_fallback_ok)
next
  case True
  let ?s = "s\<lparr>dx_positions := dx_positions s @ [ABSENT]\<rparr>"
  have H: "heap_ok D n s" using ok True by (simp add: dx_ok_def)
  have po: "pos_ok (Suc n) (dx_heap ?s) (dx_positions ?s)"
    using H True by (auto simp: heap_ok_def pos_ok_def nth_append less_Suc_eq)
  have old: "unat x < n" if "x \<in> set (dx_heap s)" for x
    using that H by (auto simp: heap_ok_def pos_ok_def in_set_conv_nth)
  have "dx_deadline D' x = dx_deadline D x" if "x \<in> set (dx_heap s)" for x
    using same old [OF that] by (intro dx_deadline_cong) blast
  then have order: "heap_from (dx_deadline D') 0 (dx_heap s)"
    using H heap_from_cong [of "dx_heap s" "dx_deadline D'" "dx_deadline D" 0] by (simp add: heap_ok_def)
  have new: "of_nat n \<notin> set (dx_heap s)" using old [of "of_nat n"] unat_row [OF po, of n] by auto
  have row: "of_nat r = (of_nat n :: u32) \<longleftrightarrow> r = n" if "r < Suc n" for r
    using row_inject [OF po, of r n] that by simp
  have mem: "of_nat r \<in> set (dx_heap s) \<longleftrightarrow> D' r \<noteq> None" if "r < n" for r using H same that by (simp add: heap_ok_def)
  have "heap_ok D' (Suc n) (dx_insert D' n (D' n) s)"
  proof (cases "D' n = None")
    case none: True
    then have "dx_insert D' n (D' n) s = ?s" using True by (simp add: dx_insert_def)
    moreover have "of_nat r \<in> set (dx_heap s) \<longleftrightarrow> D' r \<noteq> None" if "r < Suc n" for r
      using new mem [of r] none that by (cases "r = n") simp_all
    ultimately show ?thesis using po order by (simp add: heap_ok_def)
  next
    case some: False
    have "dx_positions ?s ! n = ABSENT" using True by simp
    note e = dx_enlist_sift [OF po lessI this, of D']
    have "dx_insert D' n (D' n) s = sift_up D' (length (dx_heap (dx_enlist n ?s)) - 1) (dx_enlist n ?s)"
      using True some by (simp add: dx_insert_def Let_def)
    moreover have "of_nat r \<in> insert (of_nat n) (set (dx_heap s)) \<longleftrightarrow> D' r \<noteq> None" if "r < Suc n" for r
      using row [OF that] mem [of r] some that by (cases "r = n") simp_all
    ultimately show ?thesis using e order by (simp add: heap_ok_def)
  qed
  then show ?thesis by (simp add: dx_ok_def)
qed

subsection \<open>Removal and update\<close>

text \<open>Replacing one entry of a heap, or the key of one entry, leaves at most a defect there.\<close>

lemma gap_defectI:
  assumes order: "heap_from K 0 h" and len: "length h' \<le> length h" "i < length h'"
    and key: "\<And>j. j < length h' \<Longrightarrow> j \<noteq> i \<Longrightarrow> K' (h' ! j) = K (h ! j)"
  shows "gap_defect K' h' i"
proof -
  have le: "K (h ! par j) \<le> K (h ! j)" if "j < length h'" "0 < j" for j
    using order that len by (simp add: heap_from_def)
  have par_lt: "par j < length h'" if "j < length h'" "0 < j" for j
    using that par_less [of j] by simp
  have "K' (h' ! par j) \<le> K' (h' ! j)" if "j < length h'" "0 < j" "j \<noteq> i" "par j \<noteq> i" for j
    using le key [of j] key [of "par j"] par_lt that by simp
  moreover have "K' (h' ! par i) \<le> K' (h' ! j)" if j: "j < length h'" "0 < i" "0 < j" "par j = i" for j
  proof -
    have "K (h ! par i) \<le> K (h ! i)" "K (h ! i) \<le> K (h ! j)" using le [of i] le [of j] len j by simp_all
    moreover have "par i \<noteq> i" "j \<noteq> i" using par_less [of i] par_less [of j] j by auto
    ultimately show ?thesis using key [of j] key [of "par i"] par_lt [of i] len j by simp
  qed
  ultimately show ?thesis using len by (simp add: gap_defect_def)
qed

lemma heap_from_nth_cong:
  assumes order: "heap_from K 0 h" and len: "length h' \<le> length h"
    and key: "\<And>j. j < length h' \<Longrightarrow> K' (h' ! j) = K (h ! j)"
  shows "heap_from K' 0 h'"
proof -
  have "par j < length h'" if "j < length h'" "0 < j" for j using that par_less [of j] by simp
  then show ?thesis using order len key by (simp add: heap_from_def)
qed

lemma unat_inject: "unat x = unat y \<longleftrightarrow> x = (y :: u32)"
  by (metis of_nat_unat_row)

lemma pos_ok_room:
  assumes ok: "pos_ok (Suc m) h p" and r: "r < Suc m" "of_nat r \<notin> set h"
  shows "length h \<le> m"
proof -
  have "unat ` set h \<subseteq> {..<Suc m} - {r}"
  proof
    fix q assume "q \<in> unat ` set h"
    then obtain x where x: "x \<in> set h" "q = unat x" by blast
    then have "q < Suc m" using ok by (auto simp: pos_ok_def in_set_conv_nth)
    moreover have "q \<noteq> r" using x r(2) of_nat_unat_row [of x] by auto
    ultimately show "q \<in> {..<Suc m} - {r}" by simp
  qed
  then have "card (unat ` set h) \<le> card ({..<Suc m} - {r})" by (intro card_mono) simp_all
  moreover have "card (unat ` set h) = length h"
    using pos_ok_distinct [OF ok] card_image [of unat "set h"] distinct_card [of h]
    by (simp add: inj_on_def unat_inject)
  ultimately show ?thesis using r(1) by simp
qed

lemma pos_ok_at:
  assumes "pos_ok n h p" "r < n" "p ! r \<noteq> ABSENT"
  shows "unat (p ! r) < length h" "h ! unat (p ! r) = of_nat r"
  using assms by (simp_all add: pos_ok_def)

lemma nth_other_row:
  assumes "pos_ok n h p" "r < n" "p ! r \<noteq> ABSENT" "j < length h" "j \<noteq> unat (p ! r)"
  shows "unat (h ! j) < n" "unat (h ! j) \<noteq> r"
proof -
  show "unat (h ! j) < n" using assms by (simp add: pos_ok_def)
  have "h ! j \<noteq> h ! unat (p ! r)"
    using nth_eq_iff_index_eq [OF pos_ok_distinct [OF assms(1)] assms(4) pos_ok_at(1) [OF assms(1-3)]] assms(5) by blast
  then show "unat (h ! j) \<noteq> r" using pos_ok_at [OF assms(1-3)] of_nat_unat_row [of "h ! j"] by auto
qed

text \<open>The vectors once the row's entry is overwritten by the last one and the last one dropped.\<close>

lemma pos_ok_drop_last:
  assumes ok: "pos_ok n h p" and r: "r < n" "p ! r \<noteq> ABSENT" and lst: "unat (p ! r) = length h - 1"
  shows "pos_ok n (butlast h) (p[r := ABSENT])" "set (butlast h) = set h - {of_nat r}"
proof -
  note at = pos_ok_at [OF ok r] and other = nth_other_row [OF ok r]
  have "unat (p ! q) < length h - 1 \<and> butlast h ! unat (p ! q) = of_nat q" if q: "q < n" "q \<noteq> r" "p ! q \<noteq> ABSENT" for q
  proof -
    note a = pos_ok_at [OF ok q(1,3)]
    have "unat (p ! q) \<noteq> unat (p ! r)" using a at q row_inject [OF ok, of q r] r by auto
    then show ?thesis using a lst by (simp add: nth_butlast)
  qed
  moreover have "unat (butlast h ! i) < n \<and> p[r := ABSENT] ! unat (butlast h ! i) = of_nat i" if "i < length h - 1" for i
  proof -
    have "i < length h" using that by simp
    then have "r \<noteq> unat (h ! i)" using that other(2) [of i] lst by simp
    then show ?thesis using that ok by (simp add: nth_butlast pos_ok_def)
  qed
  ultimately show "pos_ok n (butlast h) (p[r := ABSENT])"
    using ok r by (auto simp: pos_ok_def nth_list_update)
  have h: "h = butlast h @ [of_nat r]" using at lst append_butlast_last_id [of h] last_conv_nth [of h] by fastforce
  then have "of_nat r \<notin> set (butlast h)" using pos_ok_distinct [OF ok] by (metis distinct_append distinct.simps(2) not_distinct_conv_prefix)
  moreover have "set h = insert (of_nat r) (set (butlast h))" using h by (metis Un_insert_right list.set(1,2) set_append sup_bot_right)
  ultimately show "set (butlast h) = set h - {of_nat r}" by blast
qed

lemma pos_ok_move_last:
  assumes ok: "pos_ok n h p" and r: "r < n" "p ! r \<noteq> ABSENT" and lst: "unat (p ! r) \<noteq> length h - 1"
  defines "m \<equiv> h ! (length h - 1)"
  defines "h' \<equiv> butlast (h[unat (p ! r) := m])"
  shows "length h' = length h - 1" "unat (p ! r) < length h'"
    "\<And>j. j < length h' \<Longrightarrow> j \<noteq> unat (p ! r) \<Longrightarrow> h' ! j = h ! j" "h' ! unat (p ! r) = m"
    "pos_ok n h' (p[r := ABSENT, unat m := of_nat (unat (p ! r))])" "set h' = set h - {of_nat r}"
proof -
  let ?i = "unat (p ! r)" and ?l = "length h - 1"
  note at = pos_ok_at [OF ok r] and other = nth_other_row [OF ok r]
  show len: "length h' = length h - 1" and i: "?i < length h'" using at lst by (auto simp: h'_def)
  show nth: "h' ! j = h ! j" if "j < length h'" "j \<noteq> ?i" for j using that len by (simp add: h'_def nth_butlast)
  show nth_i: "h' ! ?i = m" using i len at by (simp add: h'_def nth_butlast)
  have l: "?l < length h" "?l \<noteq> ?i" using at lst by auto
  then have m: "unat m < n" "unat m \<noteq> r" using other [of ?l] by (simp_all add: m_def)
  have inj: "unat (h ! j) \<noteq> unat m" if "j < ?l" for j
    using nth_eq_iff_index_eq [OF pos_ok_distinct [OF ok] _ l(1), of j] that by (simp add: m_def unat_inject)
  let ?p = "p[r := ABSENT, unat m := of_nat ?i]"
  have lp: "length p = n" using ok by (simp add: pos_ok_def)
  have fwd: "unat (h' ! j) < n \<and> ?p ! unat (h' ! j) = of_nat j" if j: "j < length h'" for j
  proof (cases "j = ?i")
    case True
    then show ?thesis using nth_i m lp by simp
  next
    case False
    have "unat (h ! j) < n" "unat (h ! j) \<noteq> r" "unat (h ! j) \<noteq> unat m" using other [of j] inj [of j] False j len by auto
    moreover have "p ! unat (h ! j) = of_nat j" using ok j len by (simp add: pos_ok_def)
    ultimately show ?thesis using nth [OF j False] by simp
  qed
  have "unat (?p ! q) < length h' \<and> h' ! unat (?p ! q) = of_nat q" if q: "q < n" "?p ! q \<noteq> ABSENT" for q
  proof (cases "q = unat m")
    case True
    then show ?thesis using i nth_i m lp by (simp add: of_nat_unat_row)
  next
    case False
    then have pm: "?p ! q = p[r := ABSENT] ! q" by simp
    have qr: "q \<noteq> r" using q lp pm by auto
    then have pq: "?p ! q = p ! q" "q \<noteq> r" "p ! q \<noteq> ABSENT" using pm q(2) by simp_all
    note a = pos_ok_at [OF ok q(1) pq(3)]
    have "unat (p ! q) \<noteq> ?i" using a at row_inject [OF ok, of q r] q(1) r pq(2) by auto
    moreover have "unat (p ! q) \<noteq> ?l" using a False row_inject [OF ok, of q "unat m"] q(1) m by (auto simp: m_def of_nat_unat_row)
    ultimately show ?thesis using a pq nth [of "unat (p ! q)"] len by simp
  qed
  moreover have "length h \<le> n" "n \<le> unat ABSENT" using ok by (simp_all add: pos_ok_def)
  moreover from this have "length h' \<le> n" using len by linarith
  ultimately show "pos_ok n h' ?p" using fwd lp by (simp add: pos_ok_def)
  show "set h' = set h - {of_nat r}"
  proof (intro set_eqI iffI)
    fix x assume "x \<in> set h'"
    then obtain j where j: "j < length h'" "x = h' ! j" by (auto simp: in_set_conv_nth)
    have "x \<in> set h \<and> unat x \<noteq> r" using j nth [of j] nth_i other [of j] m l len by (cases "j = ?i") (auto simp: m_def)
    then show "x \<in> set h - {of_nat r}" using unat_row [OF ok, of r] r by auto
  next
    fix x assume x: "x \<in> set h - {of_nat r}"
    then obtain j where j: "j < length h" "x = h ! j" by (auto simp: in_set_conv_nth)
    then have "j \<noteq> ?i" using x at by auto
    then have "x = h' ! (if j = ?l then ?i else j)" "(if j = ?l then ?i else j) < length h'"
      using j nth [of j] nth_i i len by (auto simp: m_def)
    then show "x \<in> set h'" using nth_mem by metis
  qed
qed

lemma dx_remove_ok:
  assumes ok: "pos_ok n (dx_heap s) (dx_positions s)" and r: "r < n"
    and order: "heap_from (dx_deadline D) 0 (dx_heap s)" and same: "\<forall>q<n. q \<noteq> r \<longrightarrow> D' q = D q"
  defines "s' \<equiv> dx_remove D' r s"
  shows "pos_ok n (dx_heap s') (dx_positions s') \<and> set (dx_heap s') = set (dx_heap s) - {of_nat r}
    \<and> heap_from (dx_deadline D') 0 (dx_heap s') \<and> dx_readiness s' = dx_readiness s"
proof -
  let ?h = "dx_heap s" and ?p = "dx_positions s"
  have key: "dx_deadline D' x = dx_deadline D x" if "unat x < n" "unat x \<noteq> r" for x
    using same that by (intro dx_deadline_cong) blast
  consider (absent) "?p ! r = ABSENT" | (last) "?p ! r \<noteq> ABSENT" "unat (?p ! r) = length ?h - 1"
    | (inner) "?p ! r \<noteq> ABSENT" "unat (?p ! r) \<noteq> length ?h - 1" by blast
  then show ?thesis
  proof cases
    case absent
    have out: "of_nat r \<notin> set ?h" using pos_ok_member [OF ok r] absent by simp
    have "dx_deadline D' (?h ! j) = dx_deadline D (?h ! j)" if "j < length ?h" for j
    proof -
      have "unat (?h ! j) \<noteq> r" using out nth_mem [OF that] of_nat_unat_row [of "?h ! j"] by auto
      then show ?thesis using key [of "?h ! j"] ok that by (simp add: pos_ok_def)
    qed
    then have "heap_from (dx_deadline D') 0 ?h" using heap_from_nth_cong [OF order order_refl] by blast
    then show ?thesis using ok out absent by (simp add: s'_def dx_remove_def)
  next
    case last
    note l = pos_ok_drop_last [OF ok r last]
    have "dx_deadline D' (butlast ?h ! j) = dx_deadline D (?h ! j)" if "j < length (butlast ?h)" for j
      using that nth_other_row [OF ok r last(1), of j] last(2) by (simp add: nth_butlast key)
    then have "heap_from (dx_deadline D') 0 (butlast ?h)" by (intro heap_from_nth_cong [OF order]) simp_all
    then show ?thesis using l last by (simp add: s'_def dx_remove_def Let_def)
  next
    case inner
    let ?m = "?h ! (length ?h - 1)" and ?i = "unat (?p ! r)"
    let ?t = "s\<lparr>dx_positions := ?p[r := ABSENT, unat ?m := of_nat ?i], dx_heap := butlast (?h[?i := ?m])\<rparr>"
    note l = pos_ok_move_last [OF ok r inner]
    have s': "s' = dx_repair D' ?i ?t" using inner by (simp add: s'_def dx_remove_def Let_def)
    have "dx_deadline D' (dx_heap ?t ! j) = dx_deadline D (?h ! j)" if "j < length (dx_heap ?t)" "j \<noteq> ?i" for j
      using that l(3) [of j] nth_other_row [OF ok r inner(1), of j] by (simp add: key)
    then have "gap_defect (dx_deadline D') (dx_heap ?t) ?i" using l(1,2) by (intro gap_defectI [OF order]) simp_all
    then have "heap_from (dx_deadline D') 0 (dx_heap s')" unfolding s' by (rule dx_repair_order)
    moreover have sh: "shuffled n ?t s'" unfolding s' using l(2,5) by (intro dx_repair_shuffled) simp_all
    ultimately show ?thesis using shuffled_set [OF sh] l(6) sh by (simp add: shuffled_def)
  qed
qed

lemma dx_update_ok:
  assumes ok: "dx_ok D n s" and r: "r < n" and same: "\<forall>q<n. q \<noteq> r \<longrightarrow> D' q = D q"
  shows "dx_ok D' n (dx_update D' r (D' r) s)"
proof (cases "dx_readiness s = IndexReady \<and> r < length (dx_positions s)")
  case False
  then show ?thesis by (auto simp: dx_update_def dx_invalidate_ok)
next
  case ready: True
  let ?h = "dx_heap s" and ?p = "dx_positions s" and ?s = "dx_update D' r (D' r) s"
  have H: "pos_ok n ?h ?p" "\<And>q. q < n \<Longrightarrow> of_nat q \<in> set ?h \<longleftrightarrow> D q \<noteq> None" "heap_from (dx_deadline D) 0 ?h"
    using ok ready by (simp_all add: dx_ok_def heap_ok_def)
  have key: "dx_deadline D' (?h ! j) = dx_deadline D (?h ! j)" if "j < length ?h" "unat (?h ! j) \<noteq> r" for j
    using same that H(1) by (intro dx_deadline_cong) (simp add: pos_ok_def)
  have row: "of_nat q = (of_nat r :: u32) \<longleftrightarrow> q = r" if "q < n" for q using row_inject [OF H(1), of q r] that r by simp
  have mem: "of_nat q \<in> set ?h \<longleftrightarrow> D' q \<noteq> None" if "q < n" "q \<noteq> r" for q using H(2) same that by simp
  have at_r: "of_nat r \<in> set ?h \<longleftrightarrow> ?p ! r \<noteq> ABSENT" using pos_ok_member [OF H(1) r] by simp
  have other: "unat (?h ! j) \<noteq> r" if "?p ! r = ABSENT" "j < length ?h" for j
    using that at_r nth_mem [of j ?h] of_nat_unat_row [of "?h ! j"] by auto
  have D: "heap_from (dx_deadline D') 0 ?h" if "?p ! r = ABSENT"
    using heap_from_nth_cong [OF H(3) order_refl] key other [OF that] by blast
  have "pos_ok n (dx_heap ?s) (dx_positions ?s) \<and> heap_from (dx_deadline D') 0 (dx_heap ?s)
    \<and> set (dx_heap ?s) = (if D' r = None then set ?h - {of_nat r} else insert (of_nat r) (set ?h))"
  proof (cases "?p ! r = ABSENT"; cases "D' r")
    assume c: "?p ! r = ABSENT" "D' r = None"
    then have "?s = s" using ready by (simp add: dx_update_def)
    then show ?thesis using H(1) D c at_r by simp
  next
    fix d assume c: "?p ! r = ABSENT" "D' r = Some d"
    then have "?s = sift_up D' (length (dx_heap (dx_enlist r s)) - 1) (dx_enlist r s)"
      using ready by (simp add: dx_update_def Let_def)
    then show ?thesis using dx_enlist_sift [OF H(1) r c(1) D [OF c(1)]] c(2) by simp
  next
    assume c: "?p ! r \<noteq> ABSENT" "D' r = None"
    then have "?s = dx_remove D' r s" using ready by (simp add: dx_update_def)
    then show ?thesis using dx_remove_ok [OF H(1) r H(3) same] c by simp
  next
    fix d assume c: "?p ! r \<noteq> ABSENT" "D' r = Some d"
    then have s: "?s = dx_repair D' (unat (?p ! r)) s" using ready by (simp add: dx_update_def Let_def)
    have "gap_defect (dx_deadline D') ?h (unat (?p ! r))"
      using key nth_other_row [OF H(1) r c(1)] pos_ok_at [OF H(1) r c(1)] by (intro gap_defectI [OF H(3)]) simp_all
    then have "heap_from (dx_deadline D') 0 (dx_heap ?s)" unfolding s by (rule dx_repair_order)
    moreover have "shuffled n s ?s" unfolding s by (rule dx_repair_shuffled [OF H(1) pos_ok_at(1) [OF H(1) r c(1)]])
    ultimately show ?thesis using c at_r shuffled_set [of n s ?s] by (simp add: shuffled_def insert_absorb)
  qed
  moreover have "of_nat q \<in> set (dx_heap ?s) \<longleftrightarrow> D' q \<noteq> None" if "q < n" for q
    using calculation mem [of q] row that by (cases "q = r") auto
  ultimately show ?thesis by (simp add: dx_ok_def heap_ok_def)
qed

text \<open>The last row takes the number of the removed one.\<close>

lemma pos_ok_rename:
  assumes ok: "pos_ok (Suc m) h p" and r: "r \<le> m" "p ! r = ABSENT"
  defines "f \<equiv> \<lambda>x. if x = of_nat m then of_nat r else x :: u32"
  shows "pos_ok m (map f h) (butlast (p[r := p ! m]))"
    "(if p ! m \<noteq> ABSENT then h[unat (p ! m) := of_nat r] else h) = map f h"
proof -
  have out: "of_nat r \<notin> set h" using pos_ok_member [OF ok, of r] r by simp
  have lp: "length p = Suc m" using ok by (simp add: pos_ok_def)
  have is_m: "h ! j = of_nat m \<longleftrightarrow> p ! m = of_nat j" if j: "j < length h" for j
  proof
    assume "h ! j = of_nat m"
    then show "p ! m = of_nat j" using ok j unat_row [OF ok, of m] by (auto simp: pos_ok_def)
  next
    assume p: "p ! m = of_nat j"
    have "j < Suc m" using j ok by (simp add: pos_ok_def)
    then show "h ! j = of_nat m"
      using p pos_ok_at [OF ok lessI] row_present [OF ok, of j] unat_row [OF ok, of j] by simp
  qed
  show "(if p ! m \<noteq> ABSENT then h[unat (p ! m) := of_nat r] else h) = map f h"
  proof (cases "p ! m = ABSENT")
    case True
    then have "of_nat m \<notin> set h" using pos_ok_member [OF ok, of m] by simp
    then show ?thesis using True by (auto simp: f_def intro: map_idI [symmetric])
  next
    case False
    note a = pos_ok_at [OF ok lessI False]
    have "h[unat (p ! m) := of_nat r] ! j = map f h ! j" if "j < length h" for j
      using that a nth_other_row(2) [OF ok lessI False that] unat_row [OF ok, of m]
      by (cases "j = unat (p ! m)") (auto simp: f_def)
    then show ?thesis using False by (simp add: list_eq_iff_nth_eq)
  qed
  let ?p = "butlast (p[r := p ! m])"
  have p: "?p ! q = (if q = r then p ! m else p ! q)" if "q < m" for q
    using that lp by (simp add: nth_butlast nth_list_update)
  have fwd: "unat (f (h ! j)) < m \<and> ?p ! unat (f (h ! j)) = of_nat j" if j: "j < length h" for j
  proof (cases "h ! j = of_nat m")
    case True
    then have "r \<noteq> m" using out nth_mem [OF j] by auto
    then show ?thesis using True is_m [OF j] p [of r] r unat_row [OF ok, of r] by (simp add: f_def)
  next
    case False
    have "unat (h ! j) < Suc m" "p ! unat (h ! j) = of_nat j" using ok j by (simp_all add: pos_ok_def)
    moreover have "unat (h ! j) \<noteq> m" using False of_nat_unat_row [of "h ! j"] by auto
    moreover have "unat (h ! j) \<noteq> r" using out nth_mem [OF j] of_nat_unat_row [of "h ! j"] by auto
    ultimately show ?thesis using False p [of "unat (h ! j)"] by (simp add: f_def)
  qed
  have bwd: "unat (?p ! q) < length h \<and> f (h ! unat (?p ! q)) = of_nat q" if q: "q < m" "?p ! q \<noteq> ABSENT" for q
  proof (cases "q = r")
    case True
    then show ?thesis using q p [of q] pos_ok_at [OF ok lessI] by (simp add: f_def)
  next
    case False
    then have "p ! q \<noteq> ABSENT" "?p ! q = p ! q" using q p [of q] by simp_all
    moreover have "(of_nat q :: u32) \<noteq> of_nat m" using row_inject [OF ok, of q m] q by simp
    ultimately show ?thesis using pos_ok_at [OF ok, of q] q(1) by (simp add: f_def)
  qed
  have "length h \<le> m" using pos_ok_room [OF ok _ out] r by simp
  then show "pos_ok m (map f h) ?p" using fwd bwd lp ok by (simp add: pos_ok_def)
qed

lemma dx_swap_remove_ok:
  assumes ok: "dx_ok D (Suc m) s" and r: "r \<le> m" and D': "\<forall>q<m. D' q = (if q = r then D m else D q)"
  shows "dx_ok D' m (dx_swap_remove D r m s)"
proof (cases "dx_readiness s = IndexReady \<and> m < length (dx_positions s)")
  case False
  then show ?thesis by (auto simp: dx_swap_remove_def dx_invalidate_ok)
next
  case ready: True
  have H: "pos_ok (Suc m) (dx_heap s) (dx_positions s)" "\<And>q. q < Suc m \<Longrightarrow> of_nat q \<in> set (dx_heap s) \<longleftrightarrow> D q \<noteq> None"
    "heap_from (dx_deadline D) 0 (dx_heap s)" using ok ready by (simp_all add: dx_ok_def heap_ok_def)
  define t where "t = dx_remove D r s"
  define f :: "u32 \<Rightarrow> u32" where "f x = (if x = of_nat m then of_nat r else x)" for x
  have t: "pos_ok (Suc m) (dx_heap t) (dx_positions t)" "set (dx_heap t) = set (dx_heap s) - {of_nat r}"
    "heap_from (dx_deadline D) 0 (dx_heap t)" "dx_readiness t = IndexReady"
    using dx_remove_ok [OF H(1) _ H(3), of r D] r ready by (simp_all add: t_def)
  have mem: "of_nat q \<in> set (dx_heap t) \<longleftrightarrow> q \<noteq> r \<and> D q \<noteq> None" if "q \<le> m" for q
    using t(2) H(2) [of q] row_inject [OF H(1), of q r] that r by auto
  then have abs: "dx_positions t ! r = ABSENT" using pos_ok_member [OF t(1), of r] r by auto
  note rn = pos_ok_rename [OF t(1) r abs, folded f_def]
  have heap: "dx_heap (dx_swap_remove D r m s) = map f (dx_heap t)"
    and positions: "dx_positions (dx_swap_remove D r m s) = butlast ((dx_positions t)[r := dx_positions t ! m])"
    using ready r abs rn(2) by (auto simp: dx_swap_remove_def Let_def list_update_id simp flip: t_def)
  have in_heap: "unat x \<le> m \<and> unat x \<noteq> r" if "x \<in> set (dx_heap t)" for x
    using that t(1) mem [of "unat x"] by (auto simp: pos_ok_def in_set_conv_nth of_nat_unat_row less_Suc_eq_le)
  have unat_f: "unat (f x) = (if x = of_nat m then r else unat x)" for x
    using unat_row [OF H(1), of r] r by (simp add: f_def)
  have "dx_deadline D' (map f (dx_heap t) ! j) = dx_deadline D (dx_heap t ! j)" if j: "j < length (dx_heap t)" for j
  proof -
    let ?x = "dx_heap t ! j"
    note x = in_heap [OF nth_mem [OF j]]
    have "D' (unat (f ?x)) = D (unat ?x)"
    proof (cases "?x = of_nat m")
      case True
      then have "unat ?x = m" using unat_row [OF H(1), of m] by simp
      then show ?thesis using x r D' True by (simp add: unat_f)
    next
      case False
      then have "unat ?x \<noteq> m" using of_nat_unat_row [of ?x] by auto
      then show ?thesis using x D' False by (simp add: unat_f)
    qed
    then show ?thesis using j by (simp add: dx_deadline_def)
  qed
  then have "heap_from (dx_deadline D') 0 (map f (dx_heap t))" by (intro heap_from_nth_cong [OF t(3)]) simp_all
  moreover have "of_nat q \<in> f ` set (dx_heap t) \<longleftrightarrow> D' q \<noteq> None" if q: "q < m" for q
  proof -
    have "of_nat q = f x \<longleftrightarrow> (if x = of_nat m then q = r else x = of_nat q)" if "x \<in> set (dx_heap t)" for x
      using row_inject [OF H(1), of q r] q r by (auto simp: f_def)
    then have "of_nat q \<in> f ` set (dx_heap t)
        \<longleftrightarrow> q = r \<and> of_nat m \<in> set (dx_heap t) \<or> (of_nat q :: u32) \<noteq> of_nat m \<and> of_nat q \<in> set (dx_heap t)"
      unfolding image_iff by metis
    moreover have "(of_nat q :: u32) \<noteq> of_nat m" using row_inject [OF H(1), of q m] q by simp
    ultimately show ?thesis using mem [of q] mem [of m] D' q r by auto
  qed
  ultimately show ?thesis using rn(1) by (simp add: dx_ok_def heap_ok_def heap positions)
qed

end
