(* ===== verification/Deadline_Queries.thy ===== *)
theory Deadline_Queries
  imports Deadline_Heap
begin

text \<open>
  The queries of the deadline index (\<^verbatim>\<open>prns-core/src/routing/temporal_index/deadline_heap.rs\<close>) against a scan of
  the rows: the root is the earliest deadline, a due row is found when there is one, and the walk that
  decides whether to cull by scanning ends and counts exactly the due rows.
\<close>

section \<open>The scans\<close>

lemma scanned_deadlines: "set (List.map_filter D [0..<n]) = {d. \<exists>r<n. D r = Some d}"
  by (force simp: List.map_filter_def image_iff)

lemma scan_min_Min:
  "scan_min D n =
     (let ats = {d. \<exists>r<n. D r = Some d} in if ats = {} then None else Some (Min ats))"
proof (cases "List.map_filter D [0..<n]")
  case Nil
  then have "{d. \<exists>r<n. D r = Some d} = {}" using scanned_deadlines [of D n] by simp
  then show ?thesis using Nil by (simp add: scan_min_def)
next
  case (Cons d ds)
  have "Min (set (d # ds)) = fold min ds d" by (rule Min.set_eq_fold)
  then have "scan_min D n = Some (Min {d. \<exists>r<n. D r = Some d})"
    using Cons scanned_deadlines [of D n] by (simp add: scan_min_def)
  moreover have "{d. \<exists>r<n. D r = Some d} \<noteq> {}" using Cons scanned_deadlines [of D n] by force
  ultimately show ?thesis by simp
qed

lemma scan_min_None: "scan_min D n = None \<longleftrightarrow> (\<forall>r<n. D r = None)"
  by (auto simp: scan_min_Min Let_def not_Some_eq [symmetric] simp del: not_Some_eq)

lemma scan_min_Some: "scan_min D n = Some m \<longleftrightarrow> (\<exists>r<n. D r = Some m) \<and> (\<forall>r<n. \<forall>d. D r = Some d \<longrightarrow> m \<le> d)"
proof -
  let ?ats = "{d. \<exists>r<n. D r = Some d}"
  have "finite ?ats" using finite_set [of "List.map_filter D [0..<n]"] unfolding scanned_deadlines .
  then have "?ats \<noteq> {} \<and> m = Min ?ats \<longleftrightarrow> m \<in> ?ats \<and> (\<forall>d\<in>?ats. m \<le> d)"
    using eq_Min_iff [of ?ats m] by blast
  moreover have "scan_min D n = Some m \<longleftrightarrow> ?ats \<noteq> {} \<and> m = Min ?ats" by (auto simp: scan_min_Min Let_def)
  ultimately show ?thesis by blast
qed

lemma scan_due_spec:
  "scan_due D now P n = None \<longleftrightarrow> (\<forall>r<n. \<not> (is_due D now r \<and> P r))"
  "scan_due D now P n = Some r \<Longrightarrow> r < n \<and> is_due D now r \<and> P r"
  by (auto simp: scan_due_def find_None_iff find_Some_iff)

section \<open>The heap against the rows\<close>

lemma heap_ok_row:
  assumes "heap_ok D n s" "i < length (dx_heap s)"
  shows "unat (dx_heap s ! i) < n" "D (unat (dx_heap s ! i)) = Some (dx_deadline D (dx_heap s ! i))"
proof -
  show n: "unat (dx_heap s ! i) < n" using assms by (simp add: heap_ok_def pos_ok_def)
  have "of_nat (unat (dx_heap s ! i)) \<in> set (dx_heap s)" using assms by (simp add: of_nat_unat_row)
  then have "D (unat (dx_heap s ! i)) \<noteq> None" using assms n unfolding heap_ok_def by blast
  then show "D (unat (dx_heap s ! i)) = Some (dx_deadline D (dx_heap s ! i))" by (auto simp: dx_deadline_def)
qed

lemma heap_ok_place:
  assumes ok: "heap_ok D n s" and r: "r < n" "D r \<noteq> None"
  obtains i where "i < length (dx_heap s)" "unat (dx_heap s ! i) = r"
proof -
  have "of_nat r \<in> set (dx_heap s)" using assms by (simp add: heap_ok_def)
  then obtain i where "i < length (dx_heap s)" "dx_heap s ! i = of_nat r" by (auto simp: in_set_conv_nth)
  moreover have "unat (of_nat r :: u32) = r" using ok r unat_row [of n "dx_heap s" "dx_positions s" r] by (simp add: heap_ok_def)
  ultimately show ?thesis using that by auto
qed

lemma heap_ok_root:
  assumes ok: "heap_ok D n s"
  shows "scan_min D n = (case dx_heap s of [] \<Rightarrow> None | row # _ \<Rightarrow> D (unat row))"
proof (cases "dx_heap s")
  case Nil
  then have "\<forall>r<n. D r = None" using ok by (simp add: heap_ok_def)
  then show ?thesis using Nil by (simp add: scan_min_None)
next
  case (Cons row rows)
  then have root: "dx_heap s ! 0 = row" "0 < length (dx_heap s)" by simp_all
  note row = heap_ok_row [OF ok root(2), unfolded root(1)]
  have "dx_deadline D row \<le> d" if r: "r < n" "D r = Some d" for r d
  proof -
    from r obtain i where i: "i < length (dx_heap s)" "unat (dx_heap s ! i) = r"
      using heap_ok_place [OF ok] by blast
    then have "dx_deadline D (dx_heap s ! i) = d" using r(2) by (simp add: dx_deadline_def)
    then show ?thesis
      using heap_root_least [of "dx_deadline D" "dx_heap s" i] ok i(1) root(1) by (simp add: heap_ok_def)
  qed
  then have "scan_min D n = Some (dx_deadline D row)" using row scan_min_Some by blast
  then show ?thesis using Cons row by simp
qed

lemma prepare_ready:
  assumes "dx_ok D n s" "dx_readiness (dx_prepare D n s) \<noteq> LinearFallback"
  shows "heap_ok D n (dx_prepare D n s)" "dx_readiness (dx_prepare D n s) = IndexReady"
  using dx_prepare_ok [OF assms(1)] assms(2) by auto

lemma prepare_keeps: "dx_ok D n s \<Longrightarrow> dx_ok D n (dx_prepare D n s)"
  using dx_prepare_ok [of D n s] by (auto simp: dx_ok_def)

lemma earliest_exact_ok:
  assumes ok: "dx_ok D n s"
  shows "fst (dx_earliest_exact D n s) = scan_min D n" "dx_ok D n (snd (dx_earliest_exact D n s))"
proof -
  let ?s = "dx_prepare D n s"
  show "fst (dx_earliest_exact D n s) = scan_min D n"
  proof (cases "dx_readiness ?s = LinearFallback")
    case False
    then show ?thesis using heap_ok_root [OF prepare_ready(1) [OF ok False]]
      by (simp add: dx_earliest_exact_def Let_def split: list.splits option.splits)
  qed (simp add: dx_earliest_exact_def Let_def)
  show "dx_ok D n (snd (dx_earliest_exact D n s))"
    using prepare_keeps [OF ok] by (simp add: dx_earliest_exact_def Let_def dx_invalidate_ok split: list.splits option.splits)
qed

lemma eager_earliest_ok:
  assumes ok: "dx_ok D n s"
  shows "dx_eager_earliest_exact D n s = scan_min D n"
proof (cases "dx_readiness s = IndexReady \<and> length (dx_positions s) = n")
  case True
  then have "heap_ok D n s" using ok by (simp add: dx_ok_def)
  from heap_ok_root [OF this] show ?thesis
    using True by (simp add: dx_eager_earliest_exact_def split: list.splits option.splits)
qed (auto simp: dx_eager_earliest_exact_def)

text \<open>A query for a due row is answered with one, and with none only when there is none.\<close>

definition answers_due :: "deadlines \<Rightarrow> nat \<Rightarrow> instant_millis \<Rightarrow> (nat \<Rightarrow> bool) \<Rightarrow> nat option \<Rightarrow> bool" where
  "answers_due D n now P answer =
     (case answer of
        None \<Rightarrow> \<forall>r<n. \<not> (is_due D now r \<and> P r)
      | Some r \<Rightarrow> r < n \<and> is_due D now r \<and> P r)"

lemma scan_answers: "answers_due D n now P (scan_due D now P n)"
  using scan_due_spec [of D now P n] by (auto simp: answers_due_def split: option.split)

lemma none_due:
  assumes "scan_min D n = None \<or> (\<exists>m. scan_min D n = Some m \<and> now < m)"
  shows "answers_due D n now P None"
  using assms unfolding scan_min_None scan_min_Some
  by (fastforce simp: answers_due_def is_due_def split: option.splits)

lemma heap_find_answers:
  assumes ok: "heap_ok D n s"
  shows "answers_due D n now P (find (\<lambda>row. is_due D now row \<and> P row) (map unat (dx_heap s)))"
proof -
  have "unat x < n" if "x \<in> set (dx_heap s)" for x using that heap_ok_row(1) [OF ok] by (auto simp: in_set_conv_nth)
  moreover have "r \<in> unat ` set (dx_heap s)" if r: "r < n" "is_due D now r" for r
  proof -
    from r have "D r \<noteq> None" by (auto simp: is_due_def split: option.splits)
    from heap_ok_place [OF ok r(1) this] show ?thesis by (metis image_eqI nth_mem)
  qed
  ultimately show ?thesis
    by (auto simp: answers_due_def find_None_iff find_Some_iff split: option.split)
qed

lemma first_due_matching_ok:
  assumes ok: "dx_ok D n s"
  shows "answers_due D n now P (fst (dx_first_due_matching D n now P s))"
    "dx_ok D n (snd (dx_first_due_matching D n now P s))"
proof -
  let ?s = "dx_prepare D n s"
  show "answers_due D n now P (fst (dx_first_due_matching D n now P s))"
  proof (cases "dx_readiness ?s = LinearFallback")
    case False
    note H = prepare_ready(1) [OF ok False]
    note root = heap_ok_root [OF H]
    show ?thesis
    proof (cases "dx_heap ?s")
      case Nil
      then show ?thesis using False root none_due [of D n] by (simp add: dx_first_due_matching_def Let_def)
    next
      case (Cons row rows)
      then show ?thesis using False root none_due [of D n now P] heap_find_answers [OF H, of now P] scan_answers
        by (auto simp: dx_first_due_matching_def Let_def simp del: find.simps list.map split: option.split)
    qed
  qed (simp add: dx_first_due_matching_def Let_def scan_answers)
  show "dx_ok D n (snd (dx_first_due_matching D n now P s))"
    using prepare_keeps [OF ok]
    by (simp add: dx_first_due_matching_def Let_def dx_invalidate_ok split: list.splits option.splits)
qed

lemma eager_first_due_ok:
  assumes ok: "dx_ok D n s"
  shows "answers_due D n now (\<lambda>_. True) (dx_eager_first_due D n now s)"
proof (cases "dx_readiness s = IndexReady \<and> length (dx_positions s) = n")
  case True
  then have H: "heap_ok D n s" using ok by (simp add: dx_ok_def)
  show ?thesis
  proof (cases "dx_heap s")
    case Nil
    then show ?thesis using True heap_ok_root [OF H] none_due [of D n] by (simp add: dx_eager_first_due_def)
  next
    case (Cons row rows)
    then have row: "unat row < n" "D (unat row) = Some (dx_deadline D row)" using heap_ok_row [OF H, of 0] by simp_all
    then show ?thesis using True Cons heap_ok_root [OF H] none_due [of D n now]
      by (auto simp: dx_eager_first_due_def answers_due_def is_due_def not_le)
  qed
qed (auto simp: dx_eager_first_due_def scan_answers)

section \<open>The walk over the due rows\<close>

text \<open>The due entries below a place of the heap, as the walk meets them.\<close>

function due_below :: "(nat \<Rightarrow> bool) \<Rightarrow> nat \<Rightarrow> nat \<Rightarrow> nat" where
  "due_below due len i =
     (if i < len \<and> due i then Suc (due_below due len (2 * i + 1) + due_below due len (2 * i + 2)) else 0)"
  by pat_completeness auto
termination
  by (relation "measure (\<lambda>(_, len, i). len - i)") auto

declare due_below.simps [simp del]

lemma due_below_none: "\<not> (i < len \<and> due i) \<Longrightarrow> due_below due len i = 0"
  by (subst due_below.simps) auto

lemma due_below_some:
  "i < len \<Longrightarrow> due i \<Longrightarrow> due_below due len i = Suc (due_below due len (2 * i + 1) + due_below due len (2 * i + 2))"
  by (subst due_below.simps) auto

lemma next_after_left: "2 * i + 2 < len \<Longrightarrow> next_after_subtree (2 * i + 1) len = Some (2 * i + 2)"
  by (subst next_after_subtree.simps) auto

lemma next_after_only: "len = 2 * i + 2 \<Longrightarrow> next_after_subtree (2 * i + 1) len = next_after_subtree i len"
  by (subst next_after_subtree.simps) auto

lemma next_after_right: "next_after_subtree (2 * i + 2) len = next_after_subtree i len"
  by (subst next_after_subtree.simps) auto

definition dense :: "nat \<Rightarrow> nat \<Rightarrow> bool" where
  "dense n c = (unat LINEAR_CULL_MIN_CANDIDATES \<le> c \<and> n \<le> c * HEAP_LINEAR_CULL_DENSITY_DENOMINATOR)"

lemma dense_mono: "dense n c \<Longrightarrow> c \<le> c' \<Longrightarrow> dense n c'"
  unfolding dense_def using mult_le_mono1 [of c c' HEAP_LINEAR_CULL_DENSITY_DENOMINATOR] by linarith

lemma not_dense_0: "\<not> dense n 0"
  by (simp add: dense_def LINEAR_CULL_MIN_CANDIDATES_def)

text \<open>The walk leaves the subtree of a place with all its due entries counted, or stops in it with a dense count.\<close>

lemma cull_walk_subtree:
  fixes D :: deadlines and h :: "u32 list" and now :: instant_millis
  assumes rows: "\<And>i. i < length h \<Longrightarrow> \<exists>d. D (unat (h ! i)) = Some d"
  defines "due \<equiv> \<lambda>i. is_due D now (unat (h ! i))"
  shows "i < length h \<Longrightarrow> \<not> dense n c \<Longrightarrow>
    cull_walk D h n now (Some i) c =
      (if dense n (c + due_below due (length h) i) then Some (Some True)
       else cull_walk D h n now (next_after_subtree i (length h)) (c + due_below due (length h) i))"
proof (induction "length h - i" arbitrary: i c rule: less_induct)
  case less
  let ?walk = "cull_walk D h n now" and ?b = "due_below due (length h)" and ?next = "\<lambda>i. next_after_subtree i (length h)"
  obtain d where d: "D (unat (h ! i)) = Some d" using rows less.prems by blast
  have step: "?walk (Some i) c =
      (if \<not> due i then ?walk (?next i) c else if dense n (Suc c) then Some (Some True)
       else ?walk (if i < length h div 2 then Some (2 * i + 1) else ?next i) (Suc c))"
    by (subst cull_walk.simps) (simp add: d due_def is_due_def dense_def Let_def mult.commute)
  show ?case
  proof (cases "due i \<and> \<not> dense n (Suc c)")
    case False
    then show ?thesis using step less.prems due_below_none [of i "length h" due] due_below_some [of i "length h" due]
      dense_mono [of n "Suc c" "c + ?b i"] by auto
  next
    case True
    have b: "?b i = Suc (?b (2 * i + 1) + ?b (2 * i + 2))" using True less.prems by (simp add: due_below_some)
    show ?thesis
    proof (cases "i < length h div 2")
      case False
      then have "?b (2 * i + 1) = 0" "?b (2 * i + 2) = 0" by (auto intro!: due_below_none)
      then show ?thesis using step True False b by simp
    next
      case inner: True
      then have l: "2 * i + 1 < length h" by linarith
      let ?l = "?b (2 * i + 1)" and ?r = "?b (2 * i + 2)"
      have left: "?walk (Some (2 * i + 1)) (Suc c) =
          (if dense n (Suc c + ?l) then Some (Some True) else ?walk (?next (2 * i + 1)) (Suc c + ?l))"
        using less.hyps [of "2 * i + 1" "Suc c"] l True by simp
      have right: "?walk (?next (2 * i + 1)) (Suc c + ?l) =
          (if dense n (Suc c + ?l + ?r) then Some (Some True) else ?walk (?next i) (Suc c + ?l + ?r))"
        if "\<not> dense n (Suc c + ?l)"
      proof (cases "2 * i + 2 < length h")
        case True
        then have "length h - (2 * i + 2) < length h - i" by linarith
        then show ?thesis using less.hyps [of "2 * i + 2" "Suc c + ?l"] that True next_after_left next_after_right by metis
      next
        case False
        then have "?r = 0" "length h = 2 * i + 2" using l by (auto intro!: due_below_none)
        then show ?thesis using that next_after_only [of "length h" i] by simp
      qed
      have "?walk (Some i) c = ?walk (Some (2 * i + 1)) (Suc c)" using step True inner by simp
      then show ?thesis
        using left right dense_mono [of n "Suc c + ?l" "c + ?b i"] b by (simp add: ac_simps)
    qed
  qed
qed

text \<open>In heap order the walk misses no due entry: what lies below an entry that is not due is not due.\<close>

function below :: "nat \<Rightarrow> nat \<Rightarrow> bool" where
  "below i j = (if i < j then below i (par j) else i = j)"
  by pat_completeness auto
termination
  by (relation "measure snd") (auto simp: par_less)

declare below.simps [simp del]

lemma below_iff: "below i j \<longleftrightarrow> i = j \<or> i < j \<and> below i (par j)"
  by (subst below.simps) auto

lemma below_refl: "below i i"
  by (simp add: below_iff [of i i])

lemma below_ge: "below i j \<Longrightarrow> i \<le> j"
  by (subst (asm) below_iff) auto

lemma below_root: "below 0 j"
proof (induction j rule: less_induct)
  case (less j)
  then show ?case using par_less [of j] by (cases "j = 0") (simp_all add: below_refl below_iff [of 0 j])
qed

lemma below_children: "below i j \<longleftrightarrow> i = j \<or> below (2 * i + 1) j \<or> below (2 * i + 2) j"
proof (induction j rule: less_induct)
  case (less j)
  show ?case
  proof (cases "i < j")
    case True
    have IH: "below i (par j) \<longleftrightarrow> i = par j \<or> below (2 * i + 1) (par j) \<or> below (2 * i + 2) (par j)"
      using less [of "par j"] par_less [of j] True by simp
    have "par j = i \<longleftrightarrow> j = 2 * i + 1 \<or> j = 2 * i + 2" using child_cases [of j i] True by simp
    moreover have up: "below k j \<longleftrightarrow> k = j \<or> below k (par j)" for k
    proof -
      have "k < j" if "below k (par j)" using below_ge [OF that] par_less [of j] True by linarith
      then show ?thesis using below_iff [of k j] by argo
    qed
    moreover have "i \<noteq> j" using True by simp
    ultimately show ?thesis unfolding up [of i] up [of "2 * i + 1"] up [of "2 * i + 2"] using IH by argo
  next
    case False
    then have "\<not> below (2 * i + 1) j" "\<not> below (2 * i + 2) j" using below_ge by fastforce+
    moreover have "below i j \<longleftrightarrow> i = j" using False below_iff [of i j] by blast
    ultimately show ?thesis by blast
  qed
qed

lemma below_disjoint: "\<not> (below (2 * i + 1) j \<and> below (2 * i + 2) j)"
proof (induction j rule: less_induct)
  case (less j)
  show ?case
  proof (cases "2 * i + 2 < j")
    case True
    then have "\<not> (below (2 * i + 1) (par j) \<and> below (2 * i + 2) (par j))" using less [of "par j"] par_less [of j] by simp
    then show ?thesis using True by (simp add: below_iff [of _ j])
  next
    case False
    have "\<not> below (2 * i + 1) (2 * i + 2)"
      using below_ge [of "2 * i + 1" i] by (subst below_iff) auto
    then show ?thesis using False below_ge [of "2 * i + 2" j] by (cases "j = 2 * i + 2") auto
  qed
qed

lemma below_order:
  assumes "heap_from K 0 h" "j < length h" "below i j"
  shows "K (h ! i) \<le> K (h ! j)"
  using assms(2,3)
proof (induction j rule: less_induct)
  case (less j)
  show ?case
  proof (cases "i = j")
    case False
    then have j: "i < j" "below i (par j)" using less.prems(2) by (simp_all add: below_iff [of i j])
    then have "K (h ! i) \<le> K (h ! par j)" using less.IH [of "par j"] less.prems(1) par_less [of j] by simp
    also have "\<dots> \<le> K (h ! j)" using assms(1) less.prems(1) j(1) by (simp add: heap_from_def)
    finally show ?thesis .
  qed simp
qed

lemma due_below_card:
  assumes up: "\<And>i j. j < len \<Longrightarrow> below i j \<Longrightarrow> due j \<Longrightarrow> due i"
  shows "due_below due len i = card {j. j < len \<and> below i j \<and> due j}"
proof (induction "len - i" arbitrary: i rule: less_induct)
  case less
  let ?B = "\<lambda>i. {j. j < len \<and> below i j \<and> due j}"
  have fin: "finite (?B k)" for k by simp
  show ?case
  proof (cases "i < len \<and> due i")
    case False
    then have "?B i = {}" using up [of _ i] below_ge [of i] by force
    then show ?thesis using due_below_none [of i len due] False by simp
  next
    case True
    have "?B i = insert i (?B (2 * i + 1) \<union> ?B (2 * i + 2))" 
    proof (intro set_eqI)
      fix j
      show "j \<in> ?B i \<longleftrightarrow> j \<in> insert i (?B (2 * i + 1) \<union> ?B (2 * i + 2))"
        using True below_children [of i j] by auto
    qed
    moreover have "i \<notin> ?B (2 * i + 1) \<union> ?B (2 * i + 2)" using below_ge [of "2 * i + 1" i] below_ge [of "2 * i + 2" i] by auto
    moreover have "?B (2 * i + 1) \<inter> ?B (2 * i + 2) = {}" using below_disjoint [of i] by blast
    ultimately have "card (?B i) = Suc (card (?B (2 * i + 1)) + card (?B (2 * i + 2)))"
      using fin [of "2 * i + 1"] fin [of "2 * i + 2"] by (simp add: card_Un_disjoint)
    moreover have "due_below due len k = card (?B k)" if "i < k" for k
    proof (cases "k < len")
      case True
      then show ?thesis using less [of k] that by simp
    next
      case False
      then have "?B k = {}" using below_ge [of k] by force
      then show ?thesis using due_below_none [of k len due] False by simp
    qed
    ultimately show ?thesis using due_below_some [of i len due] True by simp
  qed
qed

lemma due_in_heap:
  assumes ok: "heap_ok D n s"
  shows "due_below (\<lambda>i. is_due D now (unat (dx_heap s ! i))) (length (dx_heap s)) 0 = card {r. r < n \<and> is_due D now r}"
proof -
  let ?h = "dx_heap s" and ?due = "\<lambda>i. is_due D now (unat (dx_heap s ! i))"
  have due: "?due i \<longleftrightarrow> dx_deadline D (?h ! i) \<le> now" if "i < length ?h" for i
    using heap_ok_row(2) [OF ok that] by (simp add: is_due_def)
  have "?due i" if "j < length ?h" "below i j" "?due j" for i j
    using due [of i] due [OF that(1)] that below_ge [OF that(2)]
      below_order [of "dx_deadline D" ?h j i] ok by (auto simp: heap_ok_def)
  then have "due_below ?due (length ?h) 0 = card {j. j < length ?h \<and> below 0 j \<and> ?due j}" by (intro due_below_card) blast
  also have "\<dots> = card ((\<lambda>i. unat (?h ! i)) ` {j. j < length ?h \<and> ?due j})"
  proof -
    have "inj_on (\<lambda>i. unat (?h ! i)) {j. j < length ?h \<and> ?due j}"
      using ok pos_ok_distinct [of n ?h "dx_positions s"]
      by (auto simp: inj_on_def unat_inject nth_eq_iff_index_eq heap_ok_def)
    then show ?thesis by (simp add: card_image below_root)
  qed
  also have "(\<lambda>i. unat (?h ! i)) ` {j. j < length ?h \<and> ?due j} = {r. r < n \<and> is_due D now r}"
  proof -
    have "r \<in> (\<lambda>i. unat (?h ! i)) ` {j. j < length ?h \<and> ?due j}" if r: "r < n" "is_due D now r" for r
    proof -
      from r have "D r \<noteq> None" by (auto simp: is_due_def split: option.splits)
      from heap_ok_place [OF ok r(1) this] obtain i where "i < length ?h" "unat (?h ! i) = r" .
      then show ?thesis using r(2) by blast
    qed
    then show ?thesis using heap_ok_row(1) [OF ok] by auto
  qed
  finally show ?thesis .
qed

lemma prefers_linear_cull_ok:
  assumes ok: "dx_ok D n s"
  obtains s' where "dx_ok D n s'"
    "dx_prefers_linear_cull D n now s =
       Some (dx_readiness (dx_prepare D n s) = LinearFallback \<or> dense n (card {r. r < n \<and> is_due D now r}), s')"
proof (cases "dx_readiness (dx_prepare D n s) = LinearFallback")
  case True
  then show ?thesis using that prepare_keeps [OF ok] by (simp add: dx_prefers_linear_cull_def Let_def)
next
  case False
  note H = prepare_ready [OF ok False]
  let ?h = "dx_heap (dx_prepare D n s)" and ?c = "card {r. r < n \<and> is_due D now r}"
  have "cull_walk D ?h n now (if ?h = [] then None else Some 0) 0 = Some (Some (dense n ?c))"
  proof (cases "?h = []")
    case True
    have c: "?c = 0" unfolding due_in_heap [OF H(1), of now, symmetric] using True by (simp add: due_below_none)
    show ?thesis unfolding c using True by (subst cull_walk.simps) (simp add: not_dense_0)
  next
    case False
    then have "0 < length ?h" by simp
    then have "cull_walk D ?h n now (Some 0) 0 =
        (if dense n ?c then Some (Some True) else cull_walk D ?h n now (next_after_subtree 0 (length ?h)) ?c)"
      using cull_walk_subtree [of ?h D 0 n 0 now] heap_ok_row(2) [OF H(1)] not_dense_0 by (simp add: due_in_heap [OF H(1)])
    moreover have "next_after_subtree 0 (length ?h) = None" by (subst next_after_subtree.simps) simp
    moreover have "cull_walk D ?h n now None ?c = Some (Some False)" by (subst cull_walk.simps) simp
    ultimately show ?thesis using False by simp
  qed
  then show ?thesis using that H prepare_keeps [OF ok] False by (simp add: dx_prefers_linear_cull_def Let_def)
qed

section \<open>Every index a table can come to\<close>

text \<open>
  What a table does to its index: rows are pushed, change their deadline, or are swap-removed, each with the
  deadlines of the rows as they then are; queries and culls may come between.
\<close>

inductive index_reachable :: "deadlines \<Rightarrow> nat \<Rightarrow> deadline_index \<Rightarrow> bool" where
  start: "index_reachable D 0 deadline_index_default"
| pushed: "index_reachable D n s \<Longrightarrow> \<forall>r<n. D' r = D r \<Longrightarrow> index_reachable D' (Suc n) (dx_insert D' n (D' n) s)"
| updated: "index_reachable D n s \<Longrightarrow> r < n \<Longrightarrow> \<forall>q<n. q \<noteq> r \<longrightarrow> D' q = D q \<Longrightarrow>
    index_reachable D' n (dx_update D' r (D' r) s)"
| swap_removed: "index_reachable D (Suc m) s \<Longrightarrow> r \<le> m \<Longrightarrow> \<forall>q<m. D' q = (if q = r then D m else D q) \<Longrightarrow>
    index_reachable D' m (dx_swap_remove D r m s)"
| invalidated: "index_reachable D n s \<Longrightarrow> index_reachable D n (dx_invalidate s)"
| asked_earliest: "index_reachable D n s \<Longrightarrow> index_reachable D n (snd (dx_earliest_exact D n s))"
| asked_due: "index_reachable D n s \<Longrightarrow> index_reachable D n (snd (dx_first_due_matching D n now P s))"
| asked_cull: "index_reachable D n s \<Longrightarrow> dx_prefers_linear_cull D n now s = Some (b, s') \<Longrightarrow> index_reachable D n s'"

lemma index_reachable_ok: "index_reachable D n s \<Longrightarrow> dx_ok D n s"
proof (induction rule: index_reachable.induct)
  case (start D)
  show ?case by (rule dx_default_ok)
next
  case (asked_cull D n s now b s')
  from prefers_linear_cull_ok [OF asked_cull.IH] asked_cull.hyps(2) show ?case by (metis option.inject prod.inject)
qed (auto intro: dx_insert_ok dx_update_ok dx_swap_remove_ok dx_invalidate_ok earliest_exact_ok(2) first_due_matching_ok(2))

text \<open>
  C16. However a table has used its deadline index, the index answers as a scan of the rows would. The
  earliest deadline, asked for with or without leave to rebuild, is the least one; asking for a due row
  that satisfies a predicate gives such a row, and none only when there is none.
\<close>

theorem deadline_index_answers_as_scan:
  assumes "index_reachable D n s"
  shows "fst (dx_earliest_exact D n s) = scan_min D n \<and> dx_eager_earliest_exact D n s = scan_min D n
    \<and> answers_due D n now P (fst (dx_first_due_matching D n now P s))
    \<and> answers_due D n now (\<lambda>_. True) (dx_eager_first_due D n now s)"
  using index_reachable_ok [OF assms]
  by (simp add: earliest_exact_ok eager_earliest_ok first_due_matching_ok eager_first_due_ok)

theorem deadline_index_answers_as_scan_witness:
  "\<exists>s. fst (dx_earliest_exact (\<lambda>r. if r = 0 then Some 9 else Some 4) 2 s) = Some 4
     \<and> fst (dx_first_due_matching (\<lambda>r. if r = 0 then Some 9 else Some 4) 2 5 (\<lambda>_. True) s) = Some 1"
proof -
  let ?D = "\<lambda>r::nat. if r = 0 then Some (9::u64) else Some 4"
  define t where "t = dx_insert ?D 0 (?D 0) deadline_index_default"
  define s where "s = dx_insert ?D (Suc 0) (?D (Suc 0)) t"
  have "index_reachable ?D (Suc 0) t"
    unfolding t_def by (rule index_reachable.pushed [OF index_reachable.start [of ?D]]) simp
  then have "index_reachable ?D (Suc (Suc 0)) s"
    unfolding s_def by (rule index_reachable.pushed) simp
  then have r: "index_reachable ?D 2 s" by (simp only: numeral_2_eq_2)
  note ans = deadline_index_answers_as_scan [OF r, of 5 "\<lambda>_. True"]
  have "[0..<2] = [0, Suc 0]" by (simp add: upt_rec)
  then have "scan_min ?D 2 = Some 4" by (simp add: scan_min_def List.map_filter_def)
  moreover have "x = Some 1" if "answers_due ?D 2 5 (\<lambda>_. True) x" for x
    using that less_2_cases by (fastforce simp: answers_due_def is_due_def split: option.splits if_splits)
  ultimately show ?thesis using ans by auto
qed

text \<open>
  C22. Deciding whether to cull by scanning always ends, although it walks the heap without a stack. Unless
  the index has given up for want of row numbers, the verdict is to scan exactly when the due rows number at
  least \<open>LINEAR_CULL_MIN_CANDIDATES\<close> and at least one in \<open>HEAP_LINEAR_CULL_DENSITY_DENOMINATOR\<close>.
\<close>

theorem cull_decision_ends:
  assumes "index_reachable D n s"
  shows "\<exists>s'. dx_prefers_linear_cull D n now s =
    Some (dx_readiness (dx_prepare D n s) = LinearFallback
        \<or> unat LINEAR_CULL_MIN_CANDIDATES \<le> card {r. r < n \<and> is_due D now r}
          \<and> n \<le> card {r. r < n \<and> is_due D now r} * HEAP_LINEAR_CULL_DENSITY_DENOMINATOR, s')"
  using prefers_linear_cull_ok [OF index_reachable_ok [OF assms], of now] unfolding dense_def by metis

theorem cull_decision_ends_witness:
  "\<exists>s'. dx_prefers_linear_cull (\<lambda>_. Some 9) 1 10 (dx_insert (\<lambda>_. Some 9) 0 (Some 9) deadline_index_default) = Some (False, s')"
proof -
  let ?D = "\<lambda>r::nat. Some (9::u64)"
  have r: "index_reachable ?D (Suc 0) (dx_insert ?D 0 (?D 0) deadline_index_default)"
    by (rule index_reachable.pushed [OF index_reachable.start [of ?D]]) simp
  have "{r. r < Suc 0 \<and> is_due ?D 10 r} = {0}" by (auto simp: is_due_def)
  moreover have "dx_readiness (dx_prepare ?D (Suc 0) (dx_insert ?D 0 (?D 0) deadline_index_default)) \<noteq> LinearFallback"
    using dx_rebuild_ok(1) [of 1 ?D] by (simp add: dx_prepare_def dx_needs_rebuild_def dx_insert_def deadline_index_default_def
        unat_ABSENT dx_enlist_def sift_up.simps Let_def)
  ultimately show ?thesis
    using cull_decision_ends [OF r, of 10] by (simp add: LINEAR_CULL_MIN_CANDIDATES_def)
qed

end
