(* ===== verification/Row_Indexes.thy ===== *)
theory Row_Indexes
  imports Indexed_Routes Deadline_Queries
begin

text \<open>
  What the timed tables share (reverse routes, path requests): the growable ones keep a destination index
  (\<^verbatim>\<open>prns-core/src/lemire_index\<close>) and a deadline index (\<^verbatim>\<open>routing/temporal_index\<close>) beside their columns, and all of
  them lose rows by \<open>swap_remove\<close>, in a scan over the rows or by asking for a due row again and again.
  Two rows may have the same destination here: a lookup then gives one of them.
\<close>

section \<open>Rows\<close>

lemma zip_vec_swap_remove [table_simps]:
  assumes "length xs = length ys" "i < length xs"
  shows "zip (vec_swap_remove i xs) (vec_swap_remove i ys) = vec_swap_remove i (zip xs ys)"
proof -
  have "last (zip xs ys) = (last xs, last ys)" using assms by (cases xs rule: rev_cases; cases ys rule: rev_cases) auto
  then show ?thesis using assms by (intro nth_equalityI) (auto simp: nth_vec_swap_remove)
qed

lemma distinct_submset:
  assumes "mset xs \<subseteq># mset ys" "distinct (map f ys)"
  shows "distinct (map f xs)"
proof -
  have sub: "mset (map f xs) \<subseteq># mset (map f ys)" using assms(1) by (simp add: image_mset_subseteq_mono)
  have "count (mset (map f xs)) a \<le> 1" for a
    using mset_subset_eq_count [OF sub, of a] assms(2) unfolding distinct_count_atmost_1 by (metis le_trans nle_le zero_le)
  then have "count (mset (map f xs)) a = (if a \<in> set (map f xs) then 1 else 0)" for a
    by (metis One_nat_def count_eq_zero_iff le_Suc_eq le_zero_eq set_mset_mset)
  then show ?thesis unfolding distinct_count_atmost_1 by blast
qed

lemma remove_keyed_row:
  assumes "i < length xs" "distinct (map f xs)"
  shows "mset (vec_swap_remove i xs) = {#x \<in># mset xs. f x \<noteq> f (xs ! i)#}"
proof -
  have "distinct xs" using assms(2) by (simp add: distinct_map)
  moreover have "distinct (vec_swap_remove i xs)" using set_vec_swap_remove(2) [OF assms] by (simp add: distinct_map)
  ultimately show ?thesis
    using set_vec_swap_remove(1) [OF assms] by (simp add: mset_set_set [symmetric] filter_mset_mset_set)
qed

lemma take_column_removed:
  assumes "n \<le> length xs"
  shows "i < n \<Longrightarrow> take (n - Suc 0) (xs[i := xs ! (n - Suc 0)]) = vec_swap_remove i (take n xs)"
    "0 < n \<Longrightarrow> take (n - Suc 0) xs = vec_swap_remove (n - Suc 0) (take n xs)"
  using take_column_swap_remove [of i n xs] take_column_swap_remove [of "n - 1" n xs] assms by simp_all

text \<open>\<open>column.get(index)\<close>.\<close>

definition vec_get :: "'a list \<Rightarrow> nat \<Rightarrow> 'a option" where
  "vec_get xs i = (if i < length xs then Some (xs ! i) else None)"

text \<open>\<open>iter().enumerate().min_by_key(..).map(|(index, _)| index)\<close>.\<close>

definition min_index :: "instant_millis list \<Rightarrow> nat option" where
  "min_index ats = min_by_key (\<lambda>i. ats ! i) [0..<length ats]"

lemma min_index_None: "min_index ats = None \<longleftrightarrow> ats = []"
  by (simp add: min_index_def min_by_key_None)

lemma min_index_Some: "min_index ats = Some i \<Longrightarrow> i < length ats \<and> (\<forall>j<length ats. ats ! i \<le> ats ! j)"
  using min_by_key_Some [of "\<lambda>i. ats ! i" "[0..<length ats]" i] by (auto simp: min_index_def)

text \<open>\<open>|row| column.get(row).copied().and_then(f)\<close>, the deadline the index asks for.\<close>

definition column_deadline :: "('a \<Rightarrow> instant_millis option) \<Rightarrow> 'a list \<Rightarrow> deadlines" where
  "column_deadline f ats row = (if row < length ats then f (ats ! row) else None)"

section \<open>The two indexes of a growable table\<close>

definition rows_indexed :: "destination_hash list \<Rightarrow> deadlines \<Rightarrow> u32 list \<Rightarrow> deadline_index \<Rightarrow> bool" where
  "rows_indexed ds D slots dx =
     (length slots \<le> USIZE_MAX \<and> lemire_ok destination_rows slots ds {..<length ds} \<and> dx_ok D (length ds) dx)"

lemma rows_indexed_empty: "rows_indexed [] D heap_lemire_default deadline_index_default"
proof -
  have "lemire_ok destination_rows heap_lemire_default [] {}"
    unfolding heap_lemire_default_def by (rule lemire_ok_new) (simp_all add: MIN_BUCKETS_def)
  then show ?thesis by (simp add: rows_indexed_def dx_default_ok heap_lemire_default_def MIN_BUCKETS_def USIZE_MAX_def)
qed

lemma rows_indexed_len: "rows_indexed ds D slots dx \<Longrightarrow> length ds \<le> HEAP_LEMIRE_MAX_ROWS"
  by (simp add: rows_indexed_def lemire_ok_def HEAP_LEMIRE_MAX_ROWS_def)

text \<open>A lookup ends, and gives a row with the destination unless there is none.\<close>

definition finds_row :: "('r \<Rightarrow> bool) \<Rightarrow> 'r list \<Rightarrow> nat option \<Rightarrow> bool" where
  "finds_row P rows answer = (case answer of None \<Rightarrow> \<forall>row\<in>set rows. \<not> P row | Some i \<Rightarrow> i < length rows \<and> P (rows ! i))"

lemma finds_row_position: "finds_row P rows (position P rows)"
  by (auto simp: finds_row_def position_None_iff position_lessD position_holdsD split: option.split)

lemma finds_row_map: "finds_row P (map f rows) answer \<longleftrightarrow> finds_row (\<lambda>row. P (f row)) rows answer"
  by (auto simp: finds_row_def split: option.split)

lemma rows_indexed_lookup:
  assumes "rows_indexed ds D slots dx"
  shows "\<exists>answer. heap_lemire_get destination_rows slots d ds = Some answer \<and> finds_row (\<lambda>c. c = d) ds answer"
proof -
  have ok: "lemire_ok destination_rows slots ds {..<length ds}" using assms by (simp add: rows_indexed_def)
  from lemire_position_correct [OF ok, of d] show ?thesis
    by (auto simp: heap_lemire_shared lemire_get_def decode_def finds_row_def in_set_conv_nth split: if_splits option.split)
qed

lemma rows_indexed_push:
  assumes ok: "rows_indexed ds D slots dx" and room: "length ds < HEAP_LEMIRE_MAX_ROWS"
    and same: "\<forall>r<length ds. D' r = D r"
  shows "\<exists>slots'. heap_lemire_insert destination_rows slots (length ds) (ds @ [d]) = Some slots'
    \<and> rows_indexed (ds @ [d]) D' slots' (dx_insert D' (length ds) (D' (length ds)) dx)"
proof -
  have "lemire_ok destination_rows slots (ds @ [d]) {..<length ds}"
    using ok room by (intro lemire_ok_push) (simp_all add: rows_indexed_def HEAP_LEMIRE_MAX_ROWS_def)
  from heap_lemire_insert_correct [OF this] ok obtain slots' where
    slots': "heap_lemire_insert destination_rows slots (length ds) (ds @ [d]) = Some slots'"
      "lemire_ok destination_rows slots' (ds @ [d]) {..<Suc (length ds)}"
    by (auto simp: rows_indexed_def)
  moreover have "length slots' \<le> USIZE_MAX"
    using heap_lemire_insert_length [OF slots'(1)] ok by (simp add: rows_indexed_def)
  moreover have "dx_ok D' (Suc (length ds)) (dx_insert D' (length ds) (D' (length ds)) dx)"
    using ok same by (intro dx_insert_ok [of D]) (simp_all add: rows_indexed_def)
  ultimately show ?thesis by (simp add: rows_indexed_def)
qed

text \<open>The row that moves is found by its number, so rows with the same destination do not get mixed up.\<close>

lemma heap_lemire_repoint_slot_correct:
  assumes ok: "lemire_ok K slots rows live" and s: "s \<in> live"
    and t: "t \<notin> live" "t < length rows'" "index_key K (rows' ! t) = index_key K (rows ! s)"
    and rows': "\<And>x. x \<in> live \<Longrightarrow> x \<noteq> s \<Longrightarrow> x < length rows' \<and> index_key K (rows' ! x) = index_key K (rows ! x)"
    and fits: "length rows' \<le> 2 ^ 32 - 1"
  shows "\<exists>slots'. heap_lemire_repoint_slot K slots s t rows = Some slots'
    \<and> length slots' = length slots \<and> lemire_ok K slots' rows' (insert t (live - {s}))"
proof -
  have inv: "probe_inv (lemire_home K (length slots) rows) (map decode slots)"
    and occ: "occupants (map decode slots) = live" and "finite live" and card: "card live < length slots"
    using ok by (auto simp: lemire_ok_def intro: finite_subset)
  obtain p where p: "lemire_position_of_slot K slots s rows = Some (Some p)" "p < length slots" "decode (slots ! p) = Some s"
    using lemire_position_of_slot_correct [OF ok, of s] s by auto
  have "decode (of_nat t :: u32) = Some t" using t(2) fits by (intro decode_of_nat) simp
  then have tab: "map decode (slots[p := of_nat t]) = (map decode slots)[p := Some t]" by (simp add: map_update)
  have "probe_inv (lemire_home K (length slots) rows') ((map decode slots)[p := Some t])"
    and occ': "occupants ((map decode slots)[p := Some t]) = insert t (live - {s})"
    using probe_inv_rename [OF inv, of p s t "lemire_home K (length slots) rows'"] p t rows' occ
    by (simp_all add: lemire_home_def)
  moreover have "card (insert t (live - {s})) = card live"
    using s t(1) \<open>finite live\<close> by (metis DiffD1 card_Suc_Diff1 card_insert_disjoint finite_Diff)
  ultimately have "lemire_ok K (slots[p := of_nat t]) rows' (insert t (live - {s}))"
    using card t(2) rows' fits unfolding lemire_ok_def tab by auto
  with p show ?thesis by (simp add: heap_lemire_repoint_slot_def)
qed

lemma rows_indexed_swap_remove:
  assumes ok: "rows_indexed ds D slots dx" and i: "i < length ds"
    and D': "\<forall>q<length ds - 1. D' q = (if q = i then D (length ds - 1) else D q)"
  shows "\<exists>slots1 slots2. heap_lemire_remove_slot destination_rows slots i ds = Some slots1
    \<and> (if i \<noteq> length ds - 1 then heap_lemire_repoint_slot destination_rows slots1 (length ds - 1) i ds else Some slots1) = Some slots2
    \<and> rows_indexed (vec_swap_remove i ds) D' slots2 (dx_swap_remove D i (length ds - 1) dx)"
proof -
  let ?l = "length ds - 1" and ?ds = "vec_swap_remove i ds"
  have l: "Suc ?l = length ds" and ne: "ds \<noteq> []" using i by auto
  have L: "lemire_ok destination_rows slots ds {..<length ds}" and fits: "length ds \<le> 2 ^ 32 - 1"
    using ok by (simp_all add: rows_indexed_def lemire_ok_def)
  have nth: "?ds ! j = (if j = i then ds ! ?l else ds ! j)" if "j < ?l" for j
    using that i ne by (simp add: nth_vec_swap_remove last_conv_nth)
  have dx: "dx_ok D' ?l (dx_swap_remove D i ?l dx)"
    using ok D' i l by (intro dx_swap_remove_ok) (simp_all add: rows_indexed_def)
  obtain slots1 where s1: "lemire_remove_slot destination_rows slots i ds = Some slots1" "length slots1 = length slots"
    "lemire_ok destination_rows slots1 ds ({..<length ds} - {i})"
    using lemire_remove_slot_correct [OF L, of i] by blast
  have "\<exists>slots2. (if i \<noteq> ?l then heap_lemire_repoint_slot destination_rows slots1 ?l i ds else Some slots1) = Some slots2
      \<and> length slots2 = length slots \<and> lemire_ok destination_rows slots2 ?ds {..<?l}"
  proof (cases "i = ?l")
    case True
    have "lemire_ok destination_rows slots1 ?ds {..<?l}"
    proof (rule lemire_ok_rows)
      have "{..<length ds} - {i} = {..<?l}" using True l by auto
      then show "lemire_ok destination_rows slots1 ds {..<?l}" using s1(3) by simp
    qed (use True fits nth in auto)
    with s1 True show ?thesis by simp
  next
    case False
    have "\<exists>slots2. heap_lemire_repoint_slot destination_rows slots1 ?l i ds = Some slots2
        \<and> length slots2 = length slots1 \<and> lemire_ok destination_rows slots2 ?ds (insert i ({..<length ds} - {i} - {?l}))"
      by (rule heap_lemire_repoint_slot_correct [OF s1(3)]) (use False i fits nth in auto)
    moreover have "insert i ({..<length ds} - {i} - {?l}) = {..<?l}" using False i by auto
    ultimately show ?thesis using s1 False by auto
  qed
  then show ?thesis using s1(1) dx ok by (auto simp: rows_indexed_def heap_lemire_shared)
qed

subsection \<open>The deadlines of a column\<close>

definition falls_due :: "('a \<Rightarrow> instant_millis option) \<Rightarrow> instant_millis \<Rightarrow> 'a \<Rightarrow> bool" where
  "falls_due f now a = (case f a of None \<Rightarrow> False | Some at \<Rightarrow> at \<le> now)"

lemma falls_due_Some [simp]: "falls_due Some now at \<longleftrightarrow> at \<le> now"
  by (simp add: falls_due_def)

lemma column_deadline_push:
  "r < length ats \<Longrightarrow> column_deadline f (ats @ [a]) r = column_deadline f ats r"
  "column_deadline f (ats @ [a]) (length ats) = f a"
  by (simp_all add: column_deadline_def nth_append)

lemma column_deadline_swap_remove:
  "i < length ats \<Longrightarrow> q < length ats - 1 \<Longrightarrow> column_deadline f (vec_swap_remove i ats) q =
     (if q = i then column_deadline f ats (length ats - 1) else column_deadline f ats q)"
  by (cases "ats = []") (auto simp: column_deadline_def nth_vec_swap_remove last_conv_nth)

lemma column_first_due:
  assumes "dx_ok (column_deadline f ats) (length ats) dx"
  shows "finds_row (falls_due f now) ats (fst (dx_first_due (column_deadline f ats) (length ats) now dx))"
    "dx_ok (column_deadline f ats) (length ats) (snd (dx_first_due (column_deadline f ats) (length ats) now dx))"
proof -
  have due: "is_due (column_deadline f ats) now r \<longleftrightarrow> falls_due f now (ats ! r)" if "r < length ats" for r
    using that by (simp add: is_due_def column_deadline_def falls_due_def)
  show "finds_row (falls_due f now) ats (fst (dx_first_due (column_deadline f ats) (length ats) now dx))"
    using first_due_matching_ok(1) [OF assms, of now "\<lambda>_. True"] due
    by (auto simp: dx_first_due_def answers_due_def finds_row_def in_set_conv_nth split: option.splits)
  show "dx_ok (column_deadline f ats) (length ats) (snd (dx_first_due (column_deadline f ats) (length ats) now dx))"
    unfolding dx_first_due_def by (rule first_due_matching_ok(2) [OF assms])
qed

text \<open>\<open>ats.iter().min().copied()\<close>.\<close>

definition column_min :: "instant_millis list \<Rightarrow> instant_millis option" where
  "column_min ats = (case ats of [] \<Rightarrow> None | at # rest \<Rightarrow> Some (fold min rest at))"

lemma column_min_Min: "column_min ats = (if ats = [] then None else Some (Min (set ats)))"
  by (cases ats) (simp_all only: column_min_def Min.set_eq_fold list.case list.distinct simp_thms if_True if_False)

lemma column_earliest:
  assumes "dx_ok (column_deadline Some ats) (length ats) dx"
  shows "fst (dx_earliest_exact (column_deadline Some ats) (length ats) dx) = column_min ats"
    "dx_ok (column_deadline Some ats) (length ats) (snd (dx_earliest_exact (column_deadline Some ats) (length ats) dx))"
proof -
  have "{d. \<exists>r<length ats. column_deadline Some ats r = Some d} = set ats"
    by (simp add: column_deadline_def set_eq_iff in_set_conv_nth cong: conj_cong)
  then have "scan_min (column_deadline Some ats) (length ats) = column_min ats"
    by (simp add: scan_min_Min column_min_Min Let_def)
  then show "fst (dx_earliest_exact (column_deadline Some ats) (length ats) dx) = column_min ats"
    using earliest_exact_ok(1) [OF assms] by (rule trans [rotated])
qed (rule earliest_exact_ok(2) [OF assms])

lemma column_prefers:
  assumes "dx_ok (column_deadline f ats) (length ats) dx"
  shows "\<exists>linear dx'. dx_prefers_linear_cull (column_deadline f ats) (length ats) now dx = Some (linear, dx')
    \<and> dx_ok (column_deadline f ats) (length ats) dx'"
  by (rule prefers_linear_cull_ok [OF assms, of now]) blast

section \<open>Culling\<close>

text \<open>
  \<open>while index < len { if drop { swap_remove(index) } else { index += 1 } }\<close>. A row that comes in by \<open>swap_remove\<close> is
  looked at in its turn. \<open>None\<close> is a loop that does not end.
\<close>

partial_function (option) cull_scan ::
  "('t \<Rightarrow> nat) \<Rightarrow> ('t \<Rightarrow> nat \<Rightarrow> bool) \<Rightarrow> (nat \<Rightarrow> 't \<Rightarrow> 't option) \<Rightarrow> nat \<Rightarrow> 't \<Rightarrow> 't option" where
  [code]: "cull_scan row_count drop_at swap_remove index t =
     (if index < row_count t then
        if drop_at t index then
          (case swap_remove index t of None \<Rightarrow> None | Some t \<Rightarrow> cull_scan row_count drop_at swap_remove index t)
        else cull_scan row_count drop_at swap_remove (index + 1) t
      else Some t)"

text \<open>\<open>while let Some(index) = first_due() { swap_remove(index) }\<close>.\<close>

partial_function (option) drain_due ::
  "('t \<Rightarrow> nat option \<times> 't) \<Rightarrow> (nat \<Rightarrow> 't \<Rightarrow> 't option) \<Rightarrow> 't \<Rightarrow> 't option" where
  [code]: "drain_due first_due swap_remove t =
     (case fst (first_due t) of
        None \<Rightarrow> Some (snd (first_due t))
      | Some index \<Rightarrow>
          (case swap_remove index (snd (first_due t)) of None \<Rightarrow> None | Some t \<Rightarrow> drain_due first_due swap_remove t))"

text \<open>The two ways to cull, and the table's choice between them.\<close>

definition evict_due ::
  "('t \<Rightarrow> nat) \<Rightarrow> ('t \<Rightarrow> nat \<Rightarrow> bool) \<Rightarrow> (nat \<Rightarrow> 't \<Rightarrow> 't option) \<Rightarrow> ('t \<Rightarrow> nat option \<times> 't)
    \<Rightarrow> ('t \<Rightarrow> (bool \<times> 't) option) \<Rightarrow> ('t \<Rightarrow> 't) \<Rightarrow> 't \<Rightarrow> 't option" where
  "evict_due row_count due_at swap_remove first_due prefers_linear invalidate t =
     (case prefers_linear t of
        None \<Rightarrow> None
      | Some (linear, t) \<Rightarrow>
          if linear then cull_scan row_count due_at swap_remove 0 (invalidate t)
          else drain_due first_due swap_remove t)"

text \<open>A table that has lost the rows that satisfy a predicate, and no others.\<close>

definition rows_removed ::
  "('t \<Rightarrow> 'r list) \<Rightarrow> ('t \<Rightarrow> bool) \<Rightarrow> ('t \<Rightarrow> nat) \<Rightarrow> ('r \<Rightarrow> bool) \<Rightarrow> 't \<Rightarrow> 't \<Rightarrow> bool" where
  "rows_removed rows valid capacity P t t' =
     (valid t' \<and> capacity t' = capacity t \<and> mset (rows t') = filter_mset (\<lambda>row. \<not> P row) (mset (rows t)))"

text \<open>
  The part of a table's contract that culling relies on: the rows as a list, and \<open>swap_remove\<close> that does to the
  list what \<open>Vec::swap_remove\<close> does.
\<close>

locale swap_rows =
  fixes rows :: "'t \<Rightarrow> 'r list"
    and valid :: "'t \<Rightarrow> bool"
    and capacity :: "'t \<Rightarrow> nat"
    and swap_remove :: "nat \<Rightarrow> 't \<Rightarrow> 't option"
  assumes swap_remove: "valid t \<Longrightarrow> i < length (rows t) \<Longrightarrow>
    \<exists>t'. swap_remove i t = Some t' \<and> valid t' \<and> capacity t' = capacity t \<and> rows t' = vec_swap_remove i (rows t)"
begin

lemma cull_scan_from:
  assumes row_count: "\<And>t. valid t \<Longrightarrow> row_count t = length (rows t)"
    and drop_at: "\<And>t i. valid t \<Longrightarrow> i < length (rows t) \<Longrightarrow> drop_at t i = P (rows t ! i)"
  shows "valid t \<Longrightarrow> \<forall>j<i. j < length (rows t) \<longrightarrow> \<not> P (rows t ! j) \<Longrightarrow>
    \<exists>t'. cull_scan row_count drop_at swap_remove i t = Some t' \<and> rows_removed rows valid capacity P t t'"
proof (induction "length (rows t) - i" arbitrary: i t rule: less_induct)
  case less
  show ?case
  proof (cases "i < length (rows t)")
    case False
    then have "\<forall>row\<in>set (rows t). \<not> P row" using less.prems(2) by (auto simp: in_set_conv_nth)
    then have "filter_mset (\<lambda>row. \<not> P row) (mset (rows t)) = mset (rows t)" by (simp add: filter_mset_eq_conv)
    then show ?thesis using False less.prems(1) row_count by (subst cull_scan.simps) (simp add: rows_removed_def)
  next
    case i: True
    show ?thesis
    proof (cases "P (rows t ! i)")
      case False
      then have "\<exists>t'. cull_scan row_count drop_at swap_remove (Suc i) t = Some t' \<and> rows_removed rows valid capacity P t t'"
        using less.hyps [of t "Suc i"] less.prems i by (auto simp: less_Suc_eq)
      then show ?thesis using False i less.prems(1) row_count drop_at by (subst cull_scan.simps) simp
    next
      case True
      obtain u where u: "swap_remove i t = Some u" "valid u" "capacity u = capacity t" "rows u = vec_swap_remove i (rows t)"
        using swap_remove [OF less.prems(1) i] by blast
      have keep: "\<forall>j<i. j < length (rows u) \<longrightarrow> \<not> P (rows u ! j)"
        using less.prems(2) i by (auto simp: u(4) nth_vec_swap_remove)
      have "length (rows u) - i < length (rows t) - i" using i by (simp add: u(4))
      from less.hyps [OF this u(2) keep] obtain t' where
        t': "cull_scan row_count drop_at swap_remove i u = Some t'" "rows_removed rows valid capacity P u t'" by blast
      have "filter_mset (\<lambda>row. \<not> P row) (mset (rows u)) = filter_mset (\<lambda>row. \<not> P row) (mset (rows t))"
        using i True nth_mem [OF i] by (simp add: u(4) mset_vec_swap_remove)
      then show ?thesis
        using t' u True i less.prems(1) row_count drop_at by (subst cull_scan.simps) (simp add: rows_removed_def)
    qed
  qed
qed

lemmas cull_scan_removes = cull_scan_from [of _ _ _ _ 0, simplified]

lemma drain_due_removes:
  assumes first: "\<And>t. valid t \<Longrightarrow> valid (snd (first_due t)) \<and> capacity (snd (first_due t)) = capacity t
      \<and> rows (snd (first_due t)) = rows t \<and> finds_row P (rows t) (fst (first_due t))"
  shows "valid t \<Longrightarrow> \<exists>t'. drain_due first_due swap_remove t = Some t' \<and> rows_removed rows valid capacity P t t'"
proof (induction "length (rows t)" arbitrary: t rule: less_induct)
  case less
  note f = first [OF less.prems]
  show ?case
  proof (cases "fst (first_due t)")
    case None
    then have "\<forall>row\<in>set (rows t). \<not> P row" using f by (simp add: finds_row_def)
    then have "filter_mset (\<lambda>row. \<not> P row) (mset (rows t)) = mset (rows t)" by (simp add: filter_mset_eq_conv)
    then show ?thesis using None f by (subst drain_due.simps) (simp add: rows_removed_def)
  next
    case (Some i)
    let ?u = "snd (first_due t)"
    have i: "i < length (rows t)" "P (rows t ! i)" using f Some by (simp_all add: finds_row_def)
    obtain u where u: "swap_remove i ?u = Some u" "valid u" "capacity u = capacity t" "rows u = vec_swap_remove i (rows t)"
      using swap_remove [of ?u i] f i by auto
    have "length (rows u) < length (rows t)" using i by (simp add: u(4))
    from less.hyps [OF this u(2)] obtain t' where t': "drain_due first_due swap_remove u = Some t'" "rows_removed rows valid capacity P u t'" by blast
    have "filter_mset (\<lambda>row. \<not> P row) (mset (rows u)) = filter_mset (\<lambda>row. \<not> P row) (mset (rows t))"
      using i nth_mem [OF i(1)] by (simp add: u(4) mset_vec_swap_remove)
    then show ?thesis using Some t' u by (subst drain_due.simps) (simp add: rows_removed_def)
  qed
qed

lemma evict_due_removes:
  assumes "\<And>t. valid t \<Longrightarrow> row_count t = length (rows t)"
    and "\<And>t i. valid t \<Longrightarrow> i < length (rows t) \<Longrightarrow> due_at t i = P (rows t ! i)"
    and "\<And>t. valid t \<Longrightarrow> valid (snd (first_due t)) \<and> capacity (snd (first_due t)) = capacity t
      \<and> rows (snd (first_due t)) = rows t \<and> finds_row P (rows t) (fst (first_due t))"
    and prefers: "\<And>t. valid t \<Longrightarrow>
      \<exists>linear t'. prefers_linear t = Some (linear, t') \<and> valid t' \<and> capacity t' = capacity t \<and> rows t' = rows t"
    and invalidate: "\<And>t. valid t \<Longrightarrow>
      valid (invalidate t) \<and> capacity (invalidate t) = capacity t \<and> rows (invalidate t) = rows t"
    and t: "valid t"
  shows "\<exists>t'. evict_due row_count due_at swap_remove first_due prefers_linear invalidate t = Some t' \<and> rows_removed rows valid capacity P t t'"
proof -
  obtain linear u where u: "prefers_linear t = Some (linear, u)" "valid u" "capacity u = capacity t" "rows u = rows t"
    using prefers [OF t] by blast
  show ?thesis
  proof (cases linear)
    case True
    have "\<exists>t'. cull_scan row_count due_at swap_remove 0 (invalidate u) = Some t' \<and> rows_removed rows valid capacity P (invalidate u) t'"
      using invalidate [OF u(2)] assms(1,2) by (intro cull_scan_removes) simp_all
    then show ?thesis using u True invalidate [OF u(2)] by (simp add: evict_due_def rows_removed_def)
  next
    case False
    from drain_due_removes [OF assms(3) u(2)] show ?thesis using u False by (simp add: evict_due_def rows_removed_def)
  qed
qed

end

section \<open>Making room\<close>

text \<open>Removing the first of the rows with the least time; an empty table is left as it is.\<close>

definition evict_least :: "('t \<Rightarrow> instant_millis list) \<Rightarrow> (nat \<Rightarrow> 't \<Rightarrow> 't option) \<Rightarrow> 't \<Rightarrow> 't option" where
  "evict_least ats_of swap_remove t =
     (case min_index (ats_of t) of None \<Rightarrow> Some t | Some index \<Rightarrow> swap_remove index t)"

text \<open>
  What pushing does when a full table first drops one of its oldest rows; a table without room for any row
  stays empty.
\<close>

definition spec_push :: "('r \<Rightarrow> instant_millis) \<Rightarrow> nat \<Rightarrow> 'r \<Rightarrow> 'r multiset \<Rightarrow> 'r multiset \<Rightarrow> bool" where
  "spec_push time capacity row M M' =
     (if size M < capacity then M' = add_mset row M
      else if M = {#} then M' = {#}
      else \<exists>victim \<in># M. (\<forall>other \<in># M. time victim \<le> time other) \<and> M' = add_mset row (M - {#victim#}))"

lemma spec_push_adds:
  assumes "spec_push time capacity row M M'" "0 < capacity"
  obtains K where "M' = add_mset row K" "K \<subseteq># M" "size M < capacity \<Longrightarrow> K = M"
proof (cases "size M < capacity")
  case True
  then show ?thesis using assms that by (simp add: spec_push_def)
next
  case False
  with assms have "M \<noteq> {#}" by auto
  with False assms obtain victim where "M' = add_mset row (M - {#victim#})" by (auto simp: spec_push_def)
  then show ?thesis using that False by simp
qed

lemma spec_push_sub: "spec_push time capacity row M M' \<Longrightarrow> M' \<subseteq># add_mset row M"
  by (auto simp: spec_push_def split: if_splits)

text \<open>
  A table that can be pushed to. Row numbers are \<open>u32\<close> in the index of a growable table, whence the bound on the
  rows there is room for.
\<close>

locale pushed_rows = swap_rows rows valid capacity swap_remove
  for rows :: "'t \<Rightarrow> 'r list" and valid :: "'t \<Rightarrow> bool" and capacity :: "'t \<Rightarrow> nat" and swap_remove :: "nat \<Rightarrow> 't \<Rightarrow> 't option" +
  fixes push :: "'r \<Rightarrow> 't \<Rightarrow> 't option"
  assumes within_capacity: "valid t \<Longrightarrow> length (rows t) \<le> capacity t"
    and push_full: "valid t \<Longrightarrow> capacity t \<le> length (rows t) \<Longrightarrow> push row t = Some t"
    and push_fits: "valid t \<Longrightarrow> length (rows t) < capacity t \<Longrightarrow> length (rows t) < HEAP_LEMIRE_MAX_ROWS \<Longrightarrow>
      \<exists>t'. push row t = Some t' \<and> valid t' \<and> capacity t' = capacity t \<and> rows t' = rows t @ [row]"
begin

lemma evict_least_removes:
  assumes t: "valid t" "rows t \<noteq> []" and times: "ats_of t = map time (rows t)"
  shows "\<exists>t' victim. evict_least ats_of swap_remove t = Some t' \<and> valid t' \<and> capacity t' = capacity t
    \<and> victim \<in># mset (rows t) \<and> (\<forall>row \<in># mset (rows t). time victim \<le> time row)
    \<and> length (rows t') = length (rows t) - 1 \<and> mset (rows t') = mset (rows t) - {#victim#}"
proof -
  obtain i where i: "min_index (ats_of t) = Some i"
    using t times min_index_None [of "ats_of t"] by (cases "min_index (ats_of t)") auto
  then have lt: "i < length (rows t)" and least: "\<forall>row \<in># mset (rows t). time (rows t ! i) \<le> time row"
    using min_index_Some [OF i] times by (auto simp: in_set_conv_nth)
  from swap_remove [OF t(1) lt] show ?thesis
    using i lt least by (auto simp: evict_least_def mset_vec_swap_remove intro!: exI [of _ "rows t ! i"])
qed

lemma push_making_room:
  assumes t: "valid t" and room: "length (rows t) < HEAP_LEMIRE_MAX_ROWS" and times: "ats_of t = map time (rows t)"
  shows "\<exists>t'. (case (if capacity t \<le> length (rows t) then evict_least ats_of swap_remove t else Some t) of
        None \<Rightarrow> None | Some t \<Rightarrow> push row t) = Some t' \<and> valid t' \<and> capacity t' = capacity t
    \<and> spec_push time (capacity t) row (mset (rows t)) (mset (rows t'))"
proof -
  consider (fits) "length (rows t) < capacity t" | (empty) "capacity t \<le> length (rows t)" "rows t = []"
    | (full) "capacity t \<le> length (rows t)" "rows t \<noteq> []" by linarith
  then show ?thesis
  proof cases
    case fits
    from push_fits [OF t fits room, of row] fits show ?thesis by (auto simp: spec_push_def)
  next
    case empty
    then have "evict_least ats_of swap_remove t = Some t" using times min_index_None [of "ats_of t"] by (simp add: evict_least_def)
    then show ?thesis using empty t push_full [OF t, of row] by (simp add: spec_push_def)
  next
    case full
    obtain u victim where u: "evict_least ats_of swap_remove t = Some u" "valid u" "capacity u = capacity t"
      "victim \<in># mset (rows t)" "\<forall>row \<in># mset (rows t). time victim \<le> time row"
      "length (rows u) = length (rows t) - 1" "mset (rows u) = mset (rows t) - {#victim#}"
      using evict_least_removes [where ats_of = ats_of and time = time, OF t full(2) times] by blast
    have pos: "0 < length (rows t)" and cap: "capacity t = length (rows t)" using full within_capacity [OF t] by auto
    obtain t' where t': "push row u = Some t'" "valid t'" "capacity t' = capacity t" "rows t' = rows u @ [row]"
      using push_fits [OF u(2), of row] u(3,6) cap pos room by auto
    have "spec_push time (capacity t) row (mset (rows t)) (mset (rows t'))"
      using u(4,5,7) t'(4) cap full(2) unfolding spec_push_def by auto
    then show ?thesis using u(1) t' full by simp
  qed
qed

end

end
