(* ===== verification/Reverse_Routes.thy ===== *)
theory Reverse_Routes
  imports Row_Indexes
begin

text \<open>
  Reverse routes (\<^verbatim>\<open>prns-core/src/routing/reverse_routes/core.rs\<close>): for every packet relayed, the interface it came
  from, so that the proof of its delivery can be sent back. The trait \<open>ReverseRouteTable\<close>, its fixed-size
  implementation (\<^verbatim>\<open>reverse_routes/impls/fixed.rs\<close>), its growable one with the \<open>std\<close> feature
  (\<^verbatim>\<open>reverse_routes/impls/heap.rs\<close>), and the operations of \<open>ReverseRoutes\<close> over either.
\<close>

section \<open>The trait\<close>

definition DEFAULT_REVERSE_ROUTE_TIMEOUT_MS :: u64 where
  "DEFAULT_REVERSE_ROUTE_TIMEOUT_MS = 8 * 60 * 1000"

record reverse_route_entry =
  rv_proof_destination :: destination_hash
  rv_received_interface :: interface_id
  rv_outbound_interface :: interface_id
  rv_expires_at :: instant_millis

record reverse_route =
  rr_received_interface :: interface_id
  rr_outbound_interface :: interface_id

record 't reverse_route_table =
  rv_capacity :: "'t \<Rightarrow> nat"
  rv_len :: "'t \<Rightarrow> nat"
  rv_proof_destinations :: "'t \<Rightarrow> destination_hash list"
  rv_received_interfaces :: "'t \<Rightarrow> interface_id list"
  rv_outbound_interfaces :: "'t \<Rightarrow> interface_id list"
  rv_expires_ats :: "'t \<Rightarrow> instant_millis list"
  rv_push :: "reverse_route_entry \<Rightarrow> 't \<Rightarrow> 't option"
  rv_swap_remove :: "nat \<Rightarrow> 't \<Rightarrow> 't option"
  rv_index_of :: "destination_hash \<Rightarrow> 't \<Rightarrow> nat option option"
  rv_first_expired :: "instant_millis \<Rightarrow> 't \<Rightarrow> nat option \<times> 't"
  rv_prefers_linear_expiry_cull :: "instant_millis \<Rightarrow> 't \<Rightarrow> (bool \<times> 't) option"
  rv_invalidate_expiry_index :: "'t \<Rightarrow> 't"

section \<open>The operations\<close>

definition reverse_evict_expired :: "'t reverse_route_table \<Rightarrow> instant_millis \<Rightarrow> 't \<Rightarrow> 't option" where
  "reverse_evict_expired R now t =
     evict_due (rv_len R) (\<lambda>t index. rv_expires_ats R t ! index \<le> now) (rv_swap_remove R)
       (rv_first_expired R now) (rv_prefers_linear_expiry_cull R now) (rv_invalidate_expiry_index R) t"

definition reverse_evict_soonest_expiring :: "'t reverse_route_table \<Rightarrow> 't \<Rightarrow> 't option" where
  "reverse_evict_soonest_expiring R t = evict_least (rv_expires_ats R) (rv_swap_remove R) t"

definition reverse_remember :: "'t reverse_route_table \<Rightarrow> reverse_route_entry \<Rightarrow> instant_millis \<Rightarrow> 't \<Rightarrow> 't option" where
  "reverse_remember R entry now t =
     (case reverse_evict_expired R now t of
        None \<Rightarrow> None
      | Some t \<Rightarrow>
          (case (if rv_len R t \<ge> rv_capacity R t then reverse_evict_soonest_expiring R t else Some t) of
             None \<Rightarrow> None
           | Some t \<Rightarrow> rv_push R entry t))"

definition reverse_take ::
  "'t reverse_route_table \<Rightarrow> destination_hash \<Rightarrow> instant_millis \<Rightarrow> 't \<Rightarrow> (reverse_route option \<times> 't) option" where
  "reverse_take R proof_destination now t =
     (case rv_index_of R proof_destination t of
        None \<Rightarrow> None
      | Some None \<Rightarrow> Some (None, t)
      | Some (Some index) \<Rightarrow>
          let expired = rv_expires_ats R t ! index \<le> now;
              route = \<lparr>rr_received_interface = rv_received_interfaces R t ! index,
                       rr_outbound_interface = rv_outbound_interfaces R t ! index\<rparr>
          in map_option (Pair (if expired then None else Some route)) (rv_swap_remove R index t))"

definition reverse_cull_interface_orphans :: "'t reverse_route_table \<Rightarrow> (interface_id \<Rightarrow> bool) \<Rightarrow> 't \<Rightarrow> 't option" where
  "reverse_cull_interface_orphans R interface_present t =
     cull_scan (rv_len R)
       (\<lambda>t index. \<not> (interface_present (rv_received_interfaces R t ! index)
          \<and> interface_present (rv_outbound_interfaces R t ! index)))
       (rv_swap_remove R) 0 t"

section \<open>The fixed-size table\<close>

record fixed_reverse_table =
  fv_len :: nat
  fv_proof_destinations :: "destination_hash list"
  fv_received_interfaces :: "interface_id list"
  fv_outbound_interfaces :: "interface_id list"
  fv_expires_ats :: "instant_millis list"

definition fixed_reverse_default :: "nat \<Rightarrow> fixed_reverse_table" where
  "fixed_reverse_default max_reverse_routes =
     \<lparr>fv_len = 0,
      fv_proof_destinations = replicate max_reverse_routes (DestinationHash (replicate 16 0)),
      fv_received_interfaces = replicate max_reverse_routes (InterfaceId (replicate 8 0)),
      fv_outbound_interfaces = replicate max_reverse_routes (InterfaceId (replicate 8 0)),
      fv_expires_ats = replicate max_reverse_routes 0\<rparr>"

text \<open>\<open>MAX_REVERSE_ROUTES\<close> is the length every column has.\<close>

definition fixed_reverse_capacity :: "fixed_reverse_table \<Rightarrow> nat" where
  "fixed_reverse_capacity t = length (fv_proof_destinations t)"

definition fixed_reverse_push :: "reverse_route_entry \<Rightarrow> fixed_reverse_table \<Rightarrow> fixed_reverse_table option" where
  "fixed_reverse_push entry t =
     Some (if fv_len t \<ge> fixed_reverse_capacity t then t
      else
        let i = fv_len t
        in t\<lparr>fv_proof_destinations := (fv_proof_destinations t)[i := rv_proof_destination entry],
             fv_received_interfaces := (fv_received_interfaces t)[i := rv_received_interface entry],
             fv_outbound_interfaces := (fv_outbound_interfaces t)[i := rv_outbound_interface entry],
             fv_expires_ats := (fv_expires_ats t)[i := rv_expires_at entry],
             fv_len := fv_len t + 1\<rparr>)"

definition fixed_reverse_swap_remove :: "nat \<Rightarrow> fixed_reverse_table \<Rightarrow> fixed_reverse_table option" where
  "fixed_reverse_swap_remove index t =
     Some (let lst = fv_len t - 1;
               t = (if index \<noteq> lst
                    then t\<lparr>fv_proof_destinations := (fv_proof_destinations t)[index := fv_proof_destinations t ! lst],
                           fv_received_interfaces := (fv_received_interfaces t)[index := fv_received_interfaces t ! lst],
                           fv_outbound_interfaces := (fv_outbound_interfaces t)[index := fv_outbound_interfaces t ! lst],
                           fv_expires_ats := (fv_expires_ats t)[index := fv_expires_ats t ! lst]\<rparr>
                    else t)
           in t\<lparr>fv_len := lst\<rparr>)"

definition fixed_reverse :: "fixed_reverse_table reverse_route_table" where
  "fixed_reverse =
     \<lparr>rv_capacity = fixed_reverse_capacity, rv_len = fv_len,
      rv_proof_destinations = (\<lambda>t. take (fv_len t) (fv_proof_destinations t)),
      rv_received_interfaces = (\<lambda>t. take (fv_len t) (fv_received_interfaces t)),
      rv_outbound_interfaces = (\<lambda>t. take (fv_len t) (fv_outbound_interfaces t)),
      rv_expires_ats = (\<lambda>t. take (fv_len t) (fv_expires_ats t)),
      rv_push = fixed_reverse_push, rv_swap_remove = fixed_reverse_swap_remove,
      rv_index_of = (\<lambda>d t. Some (position (\<lambda>candidate. candidate = d) (take (fv_len t) (fv_proof_destinations t)))),
      rv_first_expired = (\<lambda>now t. (position (\<lambda>expires_at. expires_at \<le> now) (take (fv_len t) (fv_expires_ats t)), t)),
      rv_prefers_linear_expiry_cull = (\<lambda>now t. Some (True, t)),
      rv_invalidate_expiry_index = (\<lambda>t. t)\<rparr>"

section \<open>The growable table\<close>

record heap_reverse_table =
  hv_proof_destinations :: "destination_hash list"
  hv_received_interfaces :: "interface_id list"
  hv_outbound_interfaces :: "interface_id list"
  hv_expires_ats :: "instant_millis list"
  hv_index :: "u32 list"
  hv_expiry_index :: deadline_index

definition heap_reverse_default :: heap_reverse_table where
  "heap_reverse_default =
     \<lparr>hv_proof_destinations = [], hv_received_interfaces = [], hv_outbound_interfaces = [], hv_expires_ats = [],
      hv_index = heap_lemire_default, hv_expiry_index = deadline_index_default\<rparr>"

definition heap_reverse_deadline :: "heap_reverse_table \<Rightarrow> deadlines" where
  "heap_reverse_deadline t = column_deadline Some (hv_expires_ats t)"

definition heap_reverse_index_of :: "destination_hash \<Rightarrow> heap_reverse_table \<Rightarrow> nat option option" where
  "heap_reverse_index_of destination t = heap_lemire_get destination_rows (hv_index t) destination (hv_proof_destinations t)"

definition heap_reverse_first_due :: "instant_millis \<Rightarrow> heap_reverse_table \<Rightarrow> nat option \<times> heap_reverse_table" where
  "heap_reverse_first_due now t =
     (let (found, index) = dx_first_due (heap_reverse_deadline t) (length (hv_expires_ats t)) now (hv_expiry_index t)
      in (found, t\<lparr>hv_expiry_index := index\<rparr>))"

definition heap_reverse_prefers_linear :: "instant_millis \<Rightarrow> heap_reverse_table \<Rightarrow> (bool \<times> heap_reverse_table) option" where
  "heap_reverse_prefers_linear now t =
     map_option (\<lambda>(linear, index). (linear, t\<lparr>hv_expiry_index := index\<rparr>))
       (dx_prefers_linear_cull (heap_reverse_deadline t) (length (hv_expires_ats t)) now (hv_expiry_index t))"

definition heap_reverse_invalidate :: "heap_reverse_table \<Rightarrow> heap_reverse_table" where
  "heap_reverse_invalidate t = t\<lparr>hv_expiry_index := dx_invalidate (hv_expiry_index t)\<rparr>"

definition heap_reverse_push :: "reverse_route_entry \<Rightarrow> heap_reverse_table \<Rightarrow> heap_reverse_table option" where
  "heap_reverse_push entry t =
     (let row = length (hv_proof_destinations t);
          t = t\<lparr>hv_proof_destinations := hv_proof_destinations t @ [rv_proof_destination entry],
                hv_received_interfaces := hv_received_interfaces t @ [rv_received_interface entry],
                hv_outbound_interfaces := hv_outbound_interfaces t @ [rv_outbound_interface entry],
                hv_expires_ats := hv_expires_ats t @ [rv_expires_at entry]\<rparr>
      in map_option
           (\<lambda>index. t\<lparr>hv_index := index,
              hv_expiry_index := dx_insert (heap_reverse_deadline t) row (Some (rv_expires_at entry)) (hv_expiry_index t)\<rparr>)
           (heap_lemire_insert destination_rows (hv_index t) row (hv_proof_destinations t)))"

definition heap_reverse_swap_remove :: "nat \<Rightarrow> heap_reverse_table \<Rightarrow> heap_reverse_table option" where
  "heap_reverse_swap_remove i t =
     (if i \<ge> length (hv_proof_destinations t) then Some t
      else
        let lst = length (hv_proof_destinations t) - 1
        in case heap_lemire_remove_slot destination_rows (hv_index t) i (hv_proof_destinations t) of
             None \<Rightarrow> None
           | Some index \<Rightarrow>
               (case (if i \<noteq> lst then heap_lemire_repoint_slot destination_rows index lst i (hv_proof_destinations t) else Some index) of
                  None \<Rightarrow> None
                | Some index \<Rightarrow>
                    Some (t\<lparr>hv_index := index,
                      hv_expiry_index := dx_swap_remove (heap_reverse_deadline t) i lst (hv_expiry_index t),
                      hv_proof_destinations := vec_swap_remove i (hv_proof_destinations t),
                      hv_received_interfaces := vec_swap_remove i (hv_received_interfaces t),
                      hv_outbound_interfaces := vec_swap_remove i (hv_outbound_interfaces t),
                      hv_expires_ats := vec_swap_remove i (hv_expires_ats t)\<rparr>)))"

definition heap_reverse :: "heap_reverse_table reverse_route_table" where
  "heap_reverse =
     \<lparr>rv_capacity = (\<lambda>_. USIZE_MAX), rv_len = (\<lambda>t. length (hv_proof_destinations t)),
      rv_proof_destinations = hv_proof_destinations, rv_received_interfaces = hv_received_interfaces,
      rv_outbound_interfaces = hv_outbound_interfaces, rv_expires_ats = hv_expires_ats,
      rv_push = heap_reverse_push, rv_swap_remove = heap_reverse_swap_remove,
      rv_index_of = heap_reverse_index_of, rv_first_expired = heap_reverse_first_due,
      rv_prefers_linear_expiry_cull = heap_reverse_prefers_linear,
      rv_invalidate_expiry_index = heap_reverse_invalidate\<rparr>"

section \<open>The contract\<close>

locale reverse_table = pushed_rows rows valid "rv_capacity R" "rv_swap_remove R" "rv_push R"
  for R :: "'t reverse_route_table" and rows :: "'t \<Rightarrow> reverse_route_entry list" and valid :: "'t \<Rightarrow> bool" +
  assumes len: "valid t \<Longrightarrow> rv_len R t = length (rows t)"
    and columns: "valid t \<Longrightarrow> rv_received_interfaces R t = map rv_received_interface (rows t)"
      "valid t \<Longrightarrow> rv_outbound_interfaces R t = map rv_outbound_interface (rows t)"
      "valid t \<Longrightarrow> rv_expires_ats R t = map rv_expires_at (rows t)"
    and index_of: "valid t \<Longrightarrow>
      \<exists>found. rv_index_of R d t = Some found \<and> finds_row (\<lambda>row. rv_proof_destination row = d) (rows t) found"
    and first_expired: "valid t \<Longrightarrow> valid (snd (rv_first_expired R now t))
      \<and> rv_capacity R (snd (rv_first_expired R now t)) = rv_capacity R t \<and> rows (snd (rv_first_expired R now t)) = rows t
      \<and> finds_row (\<lambda>row. rv_expires_at row \<le> now) (rows t) (fst (rv_first_expired R now t))"
    and prefers_linear: "valid t \<Longrightarrow>
      \<exists>linear t'. rv_prefers_linear_expiry_cull R now t = Some (linear, t') \<and> valid t'
        \<and> rv_capacity R t' = rv_capacity R t \<and> rows t' = rows t"
    and invalidate: "valid t \<Longrightarrow> valid (rv_invalidate_expiry_index R t)
      \<and> rv_capacity R (rv_invalidate_expiry_index R t) = rv_capacity R t \<and> rows (rv_invalidate_expiry_index R t) = rows t"

text \<open>What the operations do to the rows, as relations on multisets.\<close>

definition spec_remember ::
  "nat \<Rightarrow> reverse_route_entry \<Rightarrow> instant_millis \<Rightarrow> reverse_route_entry multiset \<Rightarrow> reverse_route_entry multiset \<Rightarrow> bool" where
  "spec_remember capacity entry now M M' =
     spec_push rv_expires_at capacity entry {#row \<in># M. now < rv_expires_at row#} M'"

definition spec_take ::
  "destination_hash \<Rightarrow> instant_millis \<Rightarrow> reverse_route_entry multiset \<Rightarrow> reverse_route option \<Rightarrow> reverse_route_entry multiset \<Rightarrow> bool" where
  "spec_take d now M answer M' =
     (if \<forall>row \<in># M. rv_proof_destination row \<noteq> d then answer = None \<and> M' = M
      else \<exists>row \<in># M. rv_proof_destination row = d \<and> M' = M - {#row#}
             \<and> answer = (if rv_expires_at row \<le> now then None
                         else Some \<lparr>rr_received_interface = rv_received_interface row,
                                   rr_outbound_interface = rv_outbound_interface row\<rparr>))"

context reverse_table
begin

lemma evict_expired:
  assumes "valid t"
  shows "\<exists>t'. reverse_evict_expired R now t = Some t'
    \<and> rows_removed rows valid (rv_capacity R) (\<lambda>row. rv_expires_at row \<le> now) t t'"
  unfolding reverse_evict_expired_def
  by (rule evict_due_removes [OF _ _ first_expired prefers_linear invalidate assms]) (simp_all add: len columns)

lemma remember_spec:
  assumes t: "valid t" and room: "length (rows t) < HEAP_LEMIRE_MAX_ROWS"
  shows "\<exists>t'. reverse_remember R entry now t = Some t' \<and> valid t' \<and> rv_capacity R t' = rv_capacity R t
    \<and> spec_remember (rv_capacity R t) entry now (mset (rows t)) (mset (rows t'))"
proof -
  let ?kept = "{#row \<in># mset (rows t). now < rv_expires_at row#}"
  obtain u where u: "reverse_evict_expired R now t = Some u" "valid u" "rv_capacity R u = rv_capacity R t" "mset (rows u) = ?kept"
    using evict_expired [OF t, of now] by (auto simp: rows_removed_def not_le)
  have "length (rows u) = size ?kept" using u(4) size_mset [of "rows u"] by simp
  also have "\<dots> \<le> length (rows t)" using size_filter_mset_lesseq [of _ "mset (rows t)"] by simp
  finally have fits: "length (rows u) < HEAP_LEMIRE_MAX_ROWS" using room by simp
  from push_making_room [where ats_of = "rv_expires_ats R" and time = rv_expires_at, OF u(2) fits columns(3) [OF u(2)], of entry] u show ?thesis
    by (simp add: reverse_remember_def reverse_evict_soonest_expiring_def spec_remember_def len split: if_splits)
qed

lemma take_spec:
  assumes t: "valid t"
  shows "\<exists>answer t'. reverse_take R d now t = Some (answer, t') \<and> valid t' \<and> rv_capacity R t' = rv_capacity R t
    \<and> spec_take d now (mset (rows t)) answer (mset (rows t'))"
proof -
  obtain found where found: "rv_index_of R d t = Some found" "finds_row (\<lambda>row. rv_proof_destination row = d) (rows t) found"
    using index_of [OF t] by blast
  show ?thesis
  proof (cases found)
    case None
    then show ?thesis using found t by (simp add: reverse_take_def spec_take_def finds_row_def)
  next
    case (Some i)
    then have i: "i < length (rows t)" "rv_proof_destination (rows t ! i) = d" using found(2) by (simp_all add: finds_row_def)
    from swap_remove [OF t i(1)] obtain t' where
      t': "rv_swap_remove R i t = Some t'" "valid t'" "rv_capacity R t' = rv_capacity R t" "rows t' = vec_swap_remove i (rows t)"
      by blast
    have "rows t ! i \<in># mset (rows t)" using i by simp
    then have "spec_take d now (mset (rows t))
        (if rv_expires_at (rows t ! i) \<le> now then None
         else Some \<lparr>rr_received_interface = rv_received_interface (rows t ! i), rr_outbound_interface = rv_outbound_interface (rows t ! i)\<rparr>)
        (mset (rows t'))"
      using i unfolding spec_take_def t'(4) mset_vec_swap_remove [OF i(1)] by auto
    then show ?thesis using found(1) Some t' i t by (simp add: reverse_take_def columns)
  qed
qed

text \<open>A route that is remembered is the one taken, and it is taken once.\<close>

lemma taken_once:
  assumes t: "valid t" and room: "length (rows t) < HEAP_LEMIRE_MAX_ROWS" "0 < rv_capacity R t"
    and new: "\<forall>row\<in>set (rows t). rv_proof_destination row \<noteq> rv_proof_destination entry" and live: "later < rv_expires_at entry"
  shows "\<exists>t1 t2 t3. reverse_remember R entry now t = Some t1
    \<and> reverse_take R (rv_proof_destination entry) later t1 =
        Some (Some \<lparr>rr_received_interface = rv_received_interface entry, rr_outbound_interface = rv_outbound_interface entry\<rparr>, t2)
    \<and> reverse_take R (rv_proof_destination entry) at t2 = Some (None, t3)"
proof -
  let ?d = "rv_proof_destination entry"
  obtain t1 where t1: "reverse_remember R entry now t = Some t1" "valid t1"
    and spec1: "spec_remember (rv_capacity R t) entry now (mset (rows t)) (mset (rows t1))"
    using remember_spec [OF t room(1)] by blast
  obtain M where M: "mset (rows t1) = add_mset entry M" "\<forall>row\<in>#M. rv_proof_destination row \<noteq> ?d"
  proof (rule spec_push_adds [OF spec1 [unfolded spec_remember_def] room(2)])
    fix K assume "mset (rows t1) = add_mset entry K" "K \<subseteq># {#row \<in># mset (rows t). now < rv_expires_at row#}"
    then show thesis using that new by (fastforce dest: mset_subset_eqD)
  qed
  obtain answer2 t2 where t2: "reverse_take R ?d later t1 = Some (answer2, t2)" "valid t2"
    and spec2: "spec_take ?d later (mset (rows t1)) answer2 (mset (rows t2))"
    using take_spec [OF t1(2)] by blast
  have answer2: "answer2 = Some \<lparr>rr_received_interface = rv_received_interface entry, rr_outbound_interface = rv_outbound_interface entry\<rparr>"
    and M2: "mset (rows t2) = M"
    using spec2 M live unfolding M(1) by (auto simp: spec_take_def)
  obtain answer3 t3 where t3: "reverse_take R ?d at t2 = Some (answer3, t3)"
    and spec3: "spec_take ?d at (mset (rows t2)) answer3 (mset (rows t3))"
    using take_spec [OF t2(2)] by blast
  have "answer3 = None" using spec3 M(2) unfolding M2 by (simp add: spec_take_def)
  then show ?thesis using t1(1) t2(1) t3 answer2 by blast
qed

lemma orphans_spec:
  assumes "valid t"
  shows "\<exists>t'. reverse_cull_interface_orphans R present t = Some t' \<and> valid t' \<and> rv_capacity R t' = rv_capacity R t
    \<and> mset (rows t') = {#row \<in># mset (rows t). present (rv_received_interface row) \<and> present (rv_outbound_interface row)#}"
proof -
  have "\<exists>t'. reverse_cull_interface_orphans R present t = Some t' \<and> rows_removed rows valid (rv_capacity R)
      (\<lambda>row. \<not> (present (rv_received_interface row) \<and> present (rv_outbound_interface row))) t t'"
    unfolding reverse_cull_interface_orphans_def
    by (rule cull_scan_removes) (simp_all add: assms len columns)
  then show ?thesis unfolding rows_removed_def not_not by blast
qed

end

section \<open>Both tables keep the contract\<close>

definition reverse_rows :: "destination_hash list \<Rightarrow> interface_id list \<Rightarrow> interface_id list \<Rightarrow> instant_millis list \<Rightarrow> reverse_route_entry list" where
  "reverse_rows keys bs cs ds = map (\<lambda>(a, b, c, d). \<lparr>rv_proof_destination = a, rv_received_interface = b, rv_outbound_interface = c, rv_expires_at = d\<rparr>) (zip keys (zip bs (zip cs ds)))"

lemma reverse_rows_columns:
  assumes "length bs = length keys" "length cs = length keys" "length ds = length keys"
  shows "length (reverse_rows keys bs cs ds) = length keys"
    "map rv_proof_destination (reverse_rows keys bs cs ds) = keys"
    "map rv_received_interface (reverse_rows keys bs cs ds) = bs"
    "map rv_outbound_interface (reverse_rows keys bs cs ds) = cs"
    "map rv_expires_at (reverse_rows keys bs cs ds) = ds"
  using assms by (auto simp: reverse_rows_def intro!: nth_equalityI)

lemma reverse_rows_push:
  assumes "length bs = length keys" "length cs = length keys" "length ds = length keys"
  shows "reverse_rows (keys @ [rv_proof_destination row]) (bs @ [rv_received_interface row]) (cs @ [rv_outbound_interface row]) (ds @ [rv_expires_at row]) = reverse_rows keys bs cs ds @ [row]"
  using assms by (simp add: reverse_rows_def)

lemma reverse_rows_swap_remove:
  assumes "length bs = length keys" "length cs = length keys" "length ds = length keys" "i < length keys"
  shows "reverse_rows (vec_swap_remove i keys) (vec_swap_remove i bs) (vec_swap_remove i cs) (vec_swap_remove i ds) = vec_swap_remove i (reverse_rows keys bs cs ds)"
  using assms by (simp add: reverse_rows_def table_simps)

definition fixed_reverse_ok :: "fixed_reverse_table \<Rightarrow> bool" where
  "fixed_reverse_ok t =
     (let n = fixed_reverse_capacity t in fv_len t \<le> n \<and> length (fv_received_interfaces t) = n \<and> length (fv_outbound_interfaces t) = n \<and> length (fv_expires_ats t) = n)"

definition fixed_reverse_rows :: "fixed_reverse_table \<Rightarrow> reverse_route_entry list" where
  "fixed_reverse_rows t =
     (let n = fv_len t in reverse_rows (take n (fv_proof_destinations t)) (take n (fv_received_interfaces t)) (take n (fv_outbound_interfaces t)) (take n (fv_expires_ats t)))"

lemma fixed_reverse_okD:
  assumes "fixed_reverse_ok t"
  shows "fv_len t \<le> length (fv_proof_destinations t)" "length (fv_received_interfaces t) = length (fv_proof_destinations t)" "length (fv_outbound_interfaces t) = length (fv_proof_destinations t)" "length (fv_expires_ats t) = length (fv_proof_destinations t)"
  using assms by (simp_all add: fixed_reverse_ok_def fixed_reverse_capacity_def Let_def)

lemma fixed_reverse_bound: "fixed_reverse_ok t \<Longrightarrow> fv_len t \<le> fixed_reverse_capacity t"
  by (simp add: fixed_reverse_ok_def Let_def)

lemma fixed_reverse_push_full: "fixed_reverse_capacity t \<le> fv_len t \<Longrightarrow> fixed_reverse_push entry t = Some (t)"
  by (simp add: fixed_reverse_push_def)

lemma fixed_reverse_default_ok: "fixed_reverse_ok (fixed_reverse_default n)" "fixed_reverse_rows (fixed_reverse_default n) = []"
  by (simp_all add: fixed_reverse_ok_def fixed_reverse_default_def fixed_reverse_capacity_def fixed_reverse_rows_def reverse_rows_def Let_def)

lemma fixed_reverse_columns:
  assumes "fixed_reverse_ok t"
  shows "length (fixed_reverse_rows t) = fv_len t"
    "take (fv_len t) (fv_proof_destinations t) = map rv_proof_destination (fixed_reverse_rows t)"
    "take (fv_len t) (fv_received_interfaces t) = map rv_received_interface (fixed_reverse_rows t)"
    "take (fv_len t) (fv_outbound_interfaces t) = map rv_outbound_interface (fixed_reverse_rows t)"
    "take (fv_len t) (fv_expires_ats t) = map rv_expires_at (fixed_reverse_rows t)"
  using fixed_reverse_okD [OF assms] by (simp_all add: fixed_reverse_rows_def Let_def reverse_rows_columns)

lemma fixed_reverse_swap_remove_rows:
  assumes ok: "fixed_reverse_ok t" and i: "i < fv_len t"
  shows "\<exists>t'. fixed_reverse_swap_remove i t = Some t' \<and> fixed_reverse_ok t' \<and> fixed_reverse_capacity t' = fixed_reverse_capacity t
    \<and> fixed_reverse_rows t' = vec_swap_remove i (fixed_reverse_rows t)"
proof -
  note D = fixed_reverse_okD [OF ok]
  have pos: "0 < fv_len t" using i by linarith
  let ?u = "the (fixed_reverse_swap_remove i t)"
  have "fixed_reverse_rows ?u = vec_swap_remove i (fixed_reverse_rows t)"
  proof (cases "i = fv_len t - 1")
    case True
    then show ?thesis using D pos
      by (simp add: fixed_reverse_rows_def fixed_reverse_swap_remove_def Let_def take_column_removed(2) reverse_rows_swap_remove)
  next
    case False
    then show ?thesis using D i
      by (simp add: fixed_reverse_rows_def fixed_reverse_swap_remove_def Let_def take_column_removed(1) reverse_rows_swap_remove)
  qed
  moreover have "fixed_reverse_ok ?u" "fixed_reverse_capacity ?u = fixed_reverse_capacity t"
    using D by (auto simp: fixed_reverse_ok_def fixed_reverse_swap_remove_def fixed_reverse_capacity_def Let_def)
  ultimately show ?thesis by (simp add: fixed_reverse_swap_remove_def)
qed

lemma fixed_reverse_push_rows:
  assumes ok: "fixed_reverse_ok t" and room: "fv_len t < fixed_reverse_capacity t"
  shows "\<exists>t'. fixed_reverse_push entry t = Some (t') \<and> fixed_reverse_ok t' \<and> fixed_reverse_capacity t' = fixed_reverse_capacity t
    \<and> fixed_reverse_rows t' = fixed_reverse_rows t @ [entry]"
proof -
  note D = fixed_reverse_okD [OF ok]
  have lt: "fv_len t < length (fv_proof_destinations t)" using room by (simp add: fixed_reverse_capacity_def)
  let ?u = "the (fixed_reverse_push entry t)"
  have "fixed_reverse_rows ?u = fixed_reverse_rows t @ [entry]"
    using D lt room by (simp add: fixed_reverse_rows_def fixed_reverse_push_def Let_def take_column_push reverse_rows_push)
  moreover have "fixed_reverse_ok ?u" "fixed_reverse_capacity ?u = fixed_reverse_capacity t"
    using D lt by (auto simp: fixed_reverse_ok_def fixed_reverse_push_def fixed_reverse_capacity_def Let_def)
  ultimately show ?thesis using room by (simp add: fixed_reverse_push_def Let_def)
qed

lemma fixed_reverse_sel:
  "rv_capacity fixed_reverse = fixed_reverse_capacity" "rv_len fixed_reverse = fv_len"
  "rv_swap_remove fixed_reverse = fixed_reverse_swap_remove" "rv_push fixed_reverse = fixed_reverse_push"
  by (simp_all add: fixed_reverse_def)

interpretation fixed_reverse_swap: swap_rows fixed_reverse_rows fixed_reverse_ok fixed_reverse_capacity fixed_reverse_swap_remove
  by unfold_locales (simp add: fixed_reverse_swap_remove_rows fixed_reverse_columns(1))

interpretation fixed_reverse_push: pushed_rows fixed_reverse_rows fixed_reverse_ok fixed_reverse_capacity
  fixed_reverse_swap_remove fixed_reverse_push
  by unfold_locales (simp_all add: fixed_reverse_push_rows fixed_reverse_push_full fixed_reverse_bound fixed_reverse_columns(1))

interpretation fixed_reverse_rt: reverse_table fixed_reverse fixed_reverse_rows fixed_reverse_ok
proof (intro reverse_table.intro, unfold fixed_reverse_sel, rule fixed_reverse_push.pushed_rows_axioms,
    unfold_locales, unfold fixed_reverse_sel, goal_cases)
  case (5 t d)
  then show ?case using finds_row_position [of "\<lambda>row. rv_proof_destination row = d" "fixed_reverse_rows t"]
    by (simp add: fixed_reverse_def fixed_reverse_columns(2) position_map)
next
  case (6 t now)
  then show ?case using finds_row_position [of "\<lambda>row. rv_expires_at row \<le> now" "fixed_reverse_rows t"]
    by (simp add: fixed_reverse_def fixed_reverse_columns(5) position_map)
qed (auto simp: fixed_reverse_def fixed_reverse_columns)

definition heap_reverse_ok :: "heap_reverse_table \<Rightarrow> bool" where
  "heap_reverse_ok t =
     (let n = length (hv_proof_destinations t)
      in length (hv_received_interfaces t) = n \<and> length (hv_outbound_interfaces t) = n \<and> length (hv_expires_ats t) = n
         \<and> rows_indexed (hv_proof_destinations t) (heap_reverse_deadline t) (hv_index t) (hv_expiry_index t))"

definition heap_reverse_rows :: "heap_reverse_table \<Rightarrow> reverse_route_entry list" where
  "heap_reverse_rows t = reverse_rows (hv_proof_destinations t) (hv_received_interfaces t) (hv_outbound_interfaces t) (hv_expires_ats t)"

lemma heap_reverse_okD:
  assumes "heap_reverse_ok t"
  shows "length (hv_received_interfaces t) = length (hv_proof_destinations t)" "length (hv_outbound_interfaces t) = length (hv_proof_destinations t)" "length (hv_expires_ats t) = length (hv_proof_destinations t)"
    and heap_reverse_indexed: "rows_indexed (hv_proof_destinations t) (column_deadline Some (hv_expires_ats t)) (hv_index t) (hv_expiry_index t)"
    and heap_reverse_dx: "dx_ok (column_deadline Some (hv_expires_ats t)) (length (hv_expires_ats t)) (hv_expiry_index t)"
    and heap_reverse_len: "length (hv_proof_destinations t) \<le> HEAP_LEMIRE_MAX_ROWS"
  using assms rows_indexed_len [of "hv_proof_destinations t"]
  by (auto simp: heap_reverse_ok_def heap_reverse_deadline_def rows_indexed_def Let_def)

lemma heap_reverse_bound:
  assumes "heap_reverse_ok t"
  shows "length (hv_proof_destinations t) < USIZE_MAX"
  using heap_reverse_len [OF assms] by (simp add: HEAP_LEMIRE_MAX_ROWS_def USIZE_MAX_def)

lemma heap_reverse_default_ok: "heap_reverse_ok heap_reverse_default" "heap_reverse_rows heap_reverse_default = []"
  by (simp_all add: heap_reverse_ok_def heap_reverse_default_def heap_reverse_rows_def reverse_rows_def rows_indexed_empty)

lemma heap_reverse_columns:
  assumes "heap_reverse_ok t"
  shows "length (heap_reverse_rows t) = length (hv_proof_destinations t)"
    "map rv_proof_destination (heap_reverse_rows t) = hv_proof_destinations t"
    "map rv_received_interface (heap_reverse_rows t) = hv_received_interfaces t"
    "map rv_outbound_interface (heap_reverse_rows t) = hv_outbound_interfaces t"
    "map rv_expires_at (heap_reverse_rows t) = hv_expires_ats t"
  using heap_reverse_okD [OF assms] by (simp_all add: heap_reverse_rows_def reverse_rows_columns)

lemma heap_reverse_with_index:
  assumes "heap_reverse_ok t" "dx_ok (column_deadline Some (hv_expires_ats t)) (length (hv_expires_ats t)) dx"
  shows "heap_reverse_ok (t\<lparr>hv_expiry_index := dx\<rparr>)" "heap_reverse_rows (t\<lparr>hv_expiry_index := dx\<rparr>) = heap_reverse_rows t"
  using assms by (simp_all add: heap_reverse_ok_def heap_reverse_rows_def heap_reverse_deadline_def rows_indexed_def Let_def)

lemma heap_reverse_push_rows:
  assumes ok: "heap_reverse_ok t" and room: "length (hv_proof_destinations t) < HEAP_LEMIRE_MAX_ROWS"
  shows "\<exists>t'. heap_reverse_push entry t = Some (t') \<and> heap_reverse_ok t'
    \<and> heap_reverse_rows t' = heap_reverse_rows t @ [entry]"
proof -
  note D = heap_reverse_okD [OF ok]
  let ?D = "column_deadline Some (hv_expires_ats t @ [rv_expires_at entry])"
  have len: "length (hv_expires_ats t) = length (hv_proof_destinations t)" by (simp add: D)
  have "\<forall>r<length (hv_proof_destinations t). ?D r = column_deadline Some (hv_expires_ats t) r"
    using column_deadline_push(1) [of _ "hv_expires_ats t" Some] unfolding len by blast
  from rows_indexed_push [OF heap_reverse_indexed [OF ok] room this, of "rv_proof_destination entry"] obtain index where
    index: "heap_lemire_insert destination_rows (hv_index t) (length (hv_proof_destinations t)) (hv_proof_destinations t @ [rv_proof_destination entry]) = Some index"
      "rows_indexed (hv_proof_destinations t @ [rv_proof_destination entry]) ?D index
        (dx_insert ?D (length (hv_proof_destinations t)) (Some (rv_expires_at entry)) (hv_expiry_index t))"
    using column_deadline_push(2) [of Some "hv_expires_ats t"] unfolding len by auto
  let ?u = "the (heap_reverse_push entry t)"
  have "heap_reverse_ok ?u"
    using index D by (simp add: heap_reverse_ok_def heap_reverse_push_def heap_reverse_deadline_def Let_def)
  moreover have "heap_reverse_rows ?u = heap_reverse_rows t @ [entry]"
    using index(1) D by (simp add: heap_reverse_rows_def heap_reverse_push_def Let_def reverse_rows_push)
  ultimately show ?thesis using index(1) by (simp add: heap_reverse_push_def Let_def)
qed

lemma heap_reverse_swap_remove_rows:
  assumes ok: "heap_reverse_ok t" and i: "i < length (hv_proof_destinations t)"
  shows "\<exists>t'. heap_reverse_swap_remove i t = Some t' \<and> heap_reverse_ok t'
    \<and> heap_reverse_rows t' = vec_swap_remove i (heap_reverse_rows t)"
proof -
  note D = heap_reverse_okD [OF ok]
  let ?ds = "hv_proof_destinations t" and ?ats = "hv_expires_ats t"
  have "\<forall>q<length ?ds - 1. column_deadline Some (vec_swap_remove i ?ats) q =
      (if q = i then column_deadline Some ?ats (length ?ds - 1) else column_deadline Some ?ats q)"
    using i D column_deadline_swap_remove [of i ?ats _ Some] by simp
  from rows_indexed_swap_remove [OF heap_reverse_indexed [OF ok] i this] obtain slots1 slots2 where
    s: "heap_lemire_remove_slot destination_rows (hv_index t) i ?ds = Some slots1"
      "(if i \<noteq> length ?ds - 1 then heap_lemire_repoint_slot destination_rows slots1 (length ?ds - 1) i ?ds else Some slots1) = Some slots2"
      "rows_indexed (vec_swap_remove i ?ds) (column_deadline Some (vec_swap_remove i ?ats)) slots2
        (dx_swap_remove (column_deadline Some ?ats) i (length ?ds - 1) (hv_expiry_index t))"
    by blast
  let ?u = "the (heap_reverse_swap_remove i t)"
  have u: "heap_reverse_swap_remove i t = Some (t\<lparr>hv_index := slots2,
      hv_expiry_index := dx_swap_remove (heap_reverse_deadline t) i (length ?ds - 1) (hv_expiry_index t),
      hv_proof_destinations := vec_swap_remove i (hv_proof_destinations t),
      hv_received_interfaces := vec_swap_remove i (hv_received_interfaces t),
      hv_outbound_interfaces := vec_swap_remove i (hv_outbound_interfaces t),
      hv_expires_ats := vec_swap_remove i (hv_expires_ats t)\<rparr>)"
    using i s(1,2) by (simp add: heap_reverse_swap_remove_def Let_def split: if_splits)
  have "heap_reverse_ok ?u"
    using s(3) D unfolding u by (simp add: heap_reverse_ok_def heap_reverse_deadline_def Let_def)
  moreover have "heap_reverse_rows ?u = vec_swap_remove i (heap_reverse_rows t)"
    using i D unfolding u by (simp add: heap_reverse_rows_def reverse_rows_swap_remove)
  ultimately show ?thesis using u by simp
qed

lemma heap_reverse_index_of_rows:
  assumes "heap_reverse_ok t"
  shows "\<exists>found. heap_reverse_index_of d t = Some found \<and> finds_row (\<lambda>row. rv_proof_destination row = d) (heap_reverse_rows t) found"
  using rows_indexed_lookup [OF heap_reverse_indexed [OF assms], of d]
    finds_row_map [of "\<lambda>c. c = d" rv_proof_destination "heap_reverse_rows t"]
  by (simp add: heap_reverse_index_of_def heap_reverse_columns(2) [OF assms])

lemma heap_reverse_first_due_rows:
  assumes ok: "heap_reverse_ok t"
  shows "heap_reverse_ok (snd (heap_reverse_first_due now t)) \<and> heap_reverse_rows (snd (heap_reverse_first_due now t)) = heap_reverse_rows t
    \<and> finds_row (\<lambda>row. falls_due Some now (rv_expires_at row)) (heap_reverse_rows t) (fst (heap_reverse_first_due now t))"
proof -
  let ?q = "dx_first_due (column_deadline Some (hv_expires_ats t)) (length (hv_expires_ats t)) now (hv_expiry_index t)"
  note q = column_first_due [OF heap_reverse_dx [OF ok], of now]
  have "heap_reverse_first_due now t = (fst ?q, t\<lparr>hv_expiry_index := snd ?q\<rparr>)"
    by (simp add: heap_reverse_first_due_def heap_reverse_deadline_def split_beta)
  then show ?thesis
    using q(1) heap_reverse_with_index [OF ok q(2)]
      finds_row_map [of "falls_due Some now" rv_expires_at "heap_reverse_rows t" "fst ?q"]
    by (simp add: heap_reverse_columns [OF ok])
qed

lemma heap_reverse_prefers_rows:
  assumes ok: "heap_reverse_ok t"
  shows "\<exists>linear t'. heap_reverse_prefers_linear now t = Some (linear, t') \<and> heap_reverse_ok t' \<and> heap_reverse_rows t' = heap_reverse_rows t"
proof -
  from column_prefers [OF heap_reverse_dx [OF ok], of now] obtain linear dx where
    "dx_prefers_linear_cull (column_deadline Some (hv_expires_ats t)) (length (hv_expires_ats t)) now (hv_expiry_index t) = Some (linear, dx)"
    "dx_ok (column_deadline Some (hv_expires_ats t)) (length (hv_expires_ats t)) dx" by blast
  then show ?thesis using heap_reverse_with_index [OF ok, of dx]
    by (simp add: heap_reverse_prefers_linear_def heap_reverse_deadline_def)
qed

lemma heap_reverse_invalidate_rows:
  assumes ok: "heap_reverse_ok t"
  shows "heap_reverse_ok (heap_reverse_invalidate t) \<and> heap_reverse_rows (heap_reverse_invalidate t) = heap_reverse_rows t"
  using heap_reverse_with_index [OF ok dx_invalidate_ok] by (simp add: heap_reverse_invalidate_def)

lemma heap_reverse_sel:
  "rv_capacity heap_reverse = (\<lambda>_. USIZE_MAX)" "rv_swap_remove heap_reverse = heap_reverse_swap_remove"
  "rv_push heap_reverse = heap_reverse_push" "rv_index_of heap_reverse = heap_reverse_index_of"
  "rv_first_expired heap_reverse = heap_reverse_first_due"
  "rv_prefers_linear_expiry_cull heap_reverse = heap_reverse_prefers_linear"
  "rv_invalidate_expiry_index heap_reverse = heap_reverse_invalidate"
  by (simp_all add: heap_reverse_def)

interpretation heap_reverse_swap: swap_rows heap_reverse_rows heap_reverse_ok "\<lambda>_. USIZE_MAX" heap_reverse_swap_remove
  by unfold_locales (simp add: heap_reverse_swap_remove_rows heap_reverse_columns(1))

interpretation heap_reverse_push: pushed_rows heap_reverse_rows heap_reverse_ok "\<lambda>_. USIZE_MAX" heap_reverse_swap_remove heap_reverse_push
  by unfold_locales (use heap_reverse_bound in \<open>fastforce simp: heap_reverse_push_rows heap_reverse_columns(1)\<close>)+

interpretation heap_reverse_rt: reverse_table heap_reverse heap_reverse_rows heap_reverse_ok
proof (intro reverse_table.intro, unfold heap_reverse_sel, rule heap_reverse_push.pushed_rows_axioms,
    unfold_locales, unfold heap_reverse_sel, goal_cases)
  case (5 t d)
  then show ?case by (rule heap_reverse_index_of_rows)
next
  case (6 t now)
  then show ?case using heap_reverse_first_due_rows [of t now] by simp
next
  case (7 t now)
  then show ?case using heap_reverse_prefers_rows [of t now] by simp
next
  case (8 t)
  then show ?case using heap_reverse_invalidate_rows [of t] by simp
qed (simp_all add: heap_reverse_def heap_reverse_columns)

section \<open>Properties of reverse routes\<close>

text \<open>
  C18. Both tables of reverse routes do what the specification says, and every loop in them ends. Remembering
  a route drops the expired ones and, only when the table is then still full, one that expires soonest.
  Taking a route removes one with that destination, and answers with it unless it has expired. Losing an
  interface removes exactly the routes that use it.
\<close>

theorem reverse_routes_refine_spec:
  assumes "heap_reverse_ok h" "length (heap_reverse_rows h) < HEAP_LEMIRE_MAX_ROWS"
    and "fixed_reverse_ok f" "length (fixed_reverse_rows f) < HEAP_LEMIRE_MAX_ROWS"
  shows "(\<exists>h'. reverse_remember heap_reverse entry now h = Some h' \<and> heap_reverse_ok h'
        \<and> spec_remember USIZE_MAX entry now (mset (heap_reverse_rows h)) (mset (heap_reverse_rows h')))
    \<and> (\<exists>f'. reverse_remember fixed_reverse entry now f = Some f' \<and> fixed_reverse_ok f'
        \<and> spec_remember (fixed_reverse_capacity f) entry now (mset (fixed_reverse_rows f)) (mset (fixed_reverse_rows f')))
    \<and> (\<exists>answer h'. reverse_take heap_reverse d now h = Some (answer, h') \<and> heap_reverse_ok h'
        \<and> spec_take d now (mset (heap_reverse_rows h)) answer (mset (heap_reverse_rows h')))
    \<and> (\<exists>answer f'. reverse_take fixed_reverse d now f = Some (answer, f') \<and> fixed_reverse_ok f'
        \<and> spec_take d now (mset (fixed_reverse_rows f)) answer (mset (fixed_reverse_rows f')))
    \<and> (\<exists>h'. reverse_cull_interface_orphans heap_reverse present h = Some h' \<and> heap_reverse_ok h'
        \<and> mset (heap_reverse_rows h') =
          {#row \<in># mset (heap_reverse_rows h). present (rv_received_interface row) \<and> present (rv_outbound_interface row)#})
    \<and> (\<exists>f'. reverse_cull_interface_orphans fixed_reverse present f = Some f' \<and> fixed_reverse_ok f'
        \<and> mset (fixed_reverse_rows f') =
          {#row \<in># mset (fixed_reverse_rows f). present (rv_received_interface row) \<and> present (rv_outbound_interface row)#})"
  using heap_reverse_rt.remember_spec [OF assms(1,2), of entry now] fixed_reverse_rt.remember_spec [OF assms(3,4), of entry now]
    heap_reverse_rt.take_spec [OF assms(1), of d now] fixed_reverse_rt.take_spec [OF assms(3), of d now]
    heap_reverse_rt.orphans_spec [OF assms(1), of present] fixed_reverse_rt.orphans_spec [OF assms(3), of present]
  unfolding heap_reverse_sel fixed_reverse_sel by (intro conjI) blast+

theorem reverse_routes_refine_spec_witness:
  "\<exists>h'. reverse_remember heap_reverse \<lparr>rv_proof_destination = DestinationHash (replicate 16 7),
       rv_received_interface = InterfaceId (replicate 8 1), rv_outbound_interface = InterfaceId (replicate 8 2), rv_expires_at = 100\<rparr> 5
       heap_reverse_default = Some h'
     \<and> mset (heap_reverse_rows h') = {#\<lparr>rv_proof_destination = DestinationHash (replicate 16 7),
       rv_received_interface = InterfaceId (replicate 8 1), rv_outbound_interface = InterfaceId (replicate 8 2), rv_expires_at = 100\<rparr>#}"
proof -
  note empty = heap_reverse_default_ok(2) fixed_reverse_default_ok(2) [of 1]
  from reverse_routes_refine_spec [OF heap_reverse_default_ok(1) _ fixed_reverse_default_ok(1) [of 1]] show ?thesis
    unfolding empty by (simp add: HEAP_LEMIRE_MAX_ROWS_def spec_remember_def spec_push_def USIZE_MAX_def) metis
qed

text \<open>
  C23. A proof finds its way back once. In either table, after a route is remembered for a destination that
  had none, taking it before it expires gives the interfaces it was remembered with, and taking it again
  gives nothing, whatever the time.
\<close>

theorem reverse_route_taken_once:
  assumes "heap_reverse_ok h" "length (heap_reverse_rows h) < HEAP_LEMIRE_MAX_ROWS"
    and "\<forall>row\<in>set (heap_reverse_rows h). rv_proof_destination row \<noteq> rv_proof_destination entry"
    and "fixed_reverse_ok f" "length (fixed_reverse_rows f) < HEAP_LEMIRE_MAX_ROWS" "0 < fixed_reverse_capacity f"
    and "\<forall>row\<in>set (fixed_reverse_rows f). rv_proof_destination row \<noteq> rv_proof_destination entry"
    and "later < rv_expires_at entry"
  shows "(\<exists>h1 h2 h3. reverse_remember heap_reverse entry now h = Some h1
        \<and> reverse_take heap_reverse (rv_proof_destination entry) later h1 =
            Some (Some \<lparr>rr_received_interface = rv_received_interface entry, rr_outbound_interface = rv_outbound_interface entry\<rparr>, h2)
        \<and> reverse_take heap_reverse (rv_proof_destination entry) at h2 = Some (None, h3))
    \<and> (\<exists>f1 f2 f3. reverse_remember fixed_reverse entry now f = Some f1
        \<and> reverse_take fixed_reverse (rv_proof_destination entry) later f1 =
            Some (Some \<lparr>rr_received_interface = rv_received_interface entry, rr_outbound_interface = rv_outbound_interface entry\<rparr>, f2)
        \<and> reverse_take fixed_reverse (rv_proof_destination entry) at f2 = Some (None, f3))"
  using heap_reverse_rt.taken_once [OF assms(1,2) _ assms(3,8), of now at]
    fixed_reverse_rt.taken_once [OF assms(4,5) _ assms(7,8), of now at] assms(6)
  unfolding heap_reverse_sel fixed_reverse_sel by (simp add: USIZE_MAX_def)

theorem reverse_route_taken_once_witness:
  "\<exists>h1 h2. reverse_remember heap_reverse \<lparr>rv_proof_destination = DestinationHash (replicate 16 7),
       rv_received_interface = InterfaceId (replicate 8 1), rv_outbound_interface = InterfaceId (replicate 8 2), rv_expires_at = 100\<rparr> 5
       heap_reverse_default = Some h1
     \<and> reverse_take heap_reverse (DestinationHash (replicate 16 7)) 50 h1 =
         Some (Some \<lparr>rr_received_interface = InterfaceId (replicate 8 1), rr_outbound_interface = InterfaceId (replicate 8 2)\<rparr>, h2)"
proof -
  note empty = heap_reverse_default_ok(2) fixed_reverse_default_ok(2) [of 1]
  have cap: "0 < fixed_reverse_capacity (fixed_reverse_default 1)"
    by (simp add: fixed_reverse_capacity_def fixed_reverse_default_def)
  from reverse_route_taken_once [OF heap_reverse_default_ok(1) _ _ fixed_reverse_default_ok(1) [of 1] _ cap, where later = 50 and now = 5 and
      entry = "\<lparr>rv_proof_destination = DestinationHash (replicate 16 7),
       rv_received_interface = InterfaceId (replicate 8 1), rv_outbound_interface = InterfaceId (replicate 8 2), rv_expires_at = 100\<rparr>"]
  show ?thesis unfolding empty by (simp add: HEAP_LEMIRE_MAX_ROWS_def) metis
qed

end
