(* ===== verification/Pending_Requests.thy ===== *)
theory Pending_Requests
  imports Row_Indexes
begin

text \<open>
  The path requests this node has issued and still waits on
  (\<^verbatim>\<open>prns-core/src/routing/path_requests/pending/core.rs\<close>), each under the command that asked for it: the trait
  \<open>PendingPathRequestTable\<close>, its fixed-size and its growable implementation (\<^verbatim>\<open>pending/impls\<close>), and the
  operations of \<open>PendingPathRequests\<close>, which keep the earliest timeout beside the table.
\<close>

section \<open>The trait\<close>

definition PATH_REQUEST_TIMEOUT_FLOOR_MS :: u64 where
  "PATH_REQUEST_TIMEOUT_FLOOR_MS = 15000"

definition PATH_REQUEST_TIMEOUT_MS :: u64 where
  "PATH_REQUEST_TIMEOUT_MS = PATH_REQUEST_TIMEOUT_FLOOR_MS"

type_synonym command_id = u64

record pending_path_request =
  pq_destination :: destination_hash
  pq_command_id :: command_id
  pq_timeout_at :: instant_millis

datatype settled_path_request = SettledPathRequest command_id
datatype expired_path_request = ExpiredPathRequest command_id
datatype culled_path_request = CulledPathRequest command_id

datatype track_path_request_error = TrackTableFull

record 't pending_table =
  pt_capacity :: "'t \<Rightarrow> nat"
  pt_len :: "'t \<Rightarrow> nat"
  pt_command_ids :: "'t \<Rightarrow> command_id list"
  pt_timeout_ats :: "'t \<Rightarrow> instant_millis list"
  pt_push :: "pending_path_request \<Rightarrow> 't \<Rightarrow> (track_path_request_error + nat \<times> 't) option"
  pt_swap_remove :: "nat \<Rightarrow> 't \<Rightarrow> 't option"
  pt_index_of :: "destination_hash \<Rightarrow> 't \<Rightarrow> nat option option"
  pt_earliest_indexed_timeout :: "'t \<Rightarrow> instant_millis option \<times> 't"
  pt_first_expired :: "instant_millis \<Rightarrow> 't \<Rightarrow> nat option \<times> 't"

section \<open>The operations\<close>

record 't pending_path_requests =
  pr_table :: 't
  pr_earliest_timeout :: "instant_millis option"

definition pending_refresh_earliest_timeout :: "'t pending_table \<Rightarrow> 't pending_path_requests \<Rightarrow> 't pending_path_requests" where
  "pending_refresh_earliest_timeout P s =
     (let (earliest, t) = pt_earliest_indexed_timeout P (pr_table s)
      in \<lparr>pr_table = t, pr_earliest_timeout = earliest\<rparr>)"

definition pending_cull_soonest_expiring ::
  "'t pending_table \<Rightarrow> 't pending_path_requests \<Rightarrow> (culled_path_request option \<times> 't pending_path_requests) option" where
  "pending_cull_soonest_expiring P s =
     (case min_index (pt_timeout_ats P (pr_table s)) of
        None \<Rightarrow> Some (None, s)
      | Some index \<Rightarrow>
          (case vec_get (pt_command_ids P (pr_table s)) index of
             None \<Rightarrow> Some (None, s)
           | Some command \<Rightarrow>
               map_option (\<lambda>t. (Some (CulledPathRequest command), s\<lparr>pr_table := t\<rparr>)) (pt_swap_remove P index (pr_table s))))"

definition pending_track ::
  "'t pending_table \<Rightarrow> pending_path_request \<Rightarrow> 't pending_path_requests
    \<Rightarrow> (culled_path_request option \<times> 't pending_path_requests) option" where
  "pending_track P request s =
     (case (if pt_len P (pr_table s) \<ge> pt_capacity P (pr_table s) then pending_cull_soonest_expiring P s else Some (None, s)) of
        None \<Rightarrow> None
      | Some (culled, s) \<Rightarrow>
          (case pt_push P request (pr_table s) of
             None \<Rightarrow> None
           | Some (Inr (_, t)) \<Rightarrow> Some (culled, pending_refresh_earliest_timeout P (s\<lparr>pr_table := t\<rparr>))
           | Some (Inl TrackTableFull) \<Rightarrow>
               Some (Some (CulledPathRequest (pq_command_id request)), pending_refresh_earliest_timeout P s)))"

definition pending_earliest_timeout_at :: "'t pending_path_requests \<Rightarrow> instant_millis option" where
  "pending_earliest_timeout_at s = pr_earliest_timeout s"

definition pending_contains :: "'t pending_table \<Rightarrow> destination_hash \<Rightarrow> 't pending_path_requests \<Rightarrow> bool option" where
  "pending_contains P destination s = map_option (\<lambda>found. found \<noteq> None) (pt_index_of P destination (pr_table s))"

definition pending_pop_settled_for ::
  "'t pending_table \<Rightarrow> destination_hash \<Rightarrow> 't pending_path_requests
    \<Rightarrow> (settled_path_request option \<times> 't pending_path_requests) option" where
  "pending_pop_settled_for P destination s =
     (case pt_index_of P destination (pr_table s) of
        None \<Rightarrow> None
      | Some None \<Rightarrow> Some (None, s)
      | Some (Some index) \<Rightarrow>
          (case vec_get (pt_command_ids P (pr_table s)) index of
             None \<Rightarrow> Some (None, s)
           | Some command \<Rightarrow>
               map_option (\<lambda>t. (Some (SettledPathRequest command), pending_refresh_earliest_timeout P (s\<lparr>pr_table := t\<rparr>)))
                 (pt_swap_remove P index (pr_table s))))"

definition pending_pop_expired ::
  "'t pending_table \<Rightarrow> instant_millis \<Rightarrow> 't pending_path_requests
    \<Rightarrow> (expired_path_request option \<times> 't pending_path_requests) option" where
  "pending_pop_expired P now s =
     (let (found, t) = pt_first_expired P now (pr_table s);
          s = s\<lparr>pr_table := t\<rparr>
      in case found of
           None \<Rightarrow> Some (None, s)
         | Some index \<Rightarrow>
             (case vec_get (pt_command_ids P (pr_table s)) index of
                None \<Rightarrow> Some (None, s)
              | Some command \<Rightarrow>
                  map_option (\<lambda>t. (Some (ExpiredPathRequest command), pending_refresh_earliest_timeout P (s\<lparr>pr_table := t\<rparr>)))
                    (pt_swap_remove P index (pr_table s))))"

section \<open>The fixed-size table\<close>

record fixed_pending_table =
  fp_len :: nat
  fp_destinations :: "destination_hash list"
  fp_command_ids :: "command_id list"
  fp_timeout_ats :: "instant_millis list"

definition fixed_pending_default :: "nat \<Rightarrow> fixed_pending_table" where
  "fixed_pending_default max_pending_path_requests =
     \<lparr>fp_len = 0,
      fp_destinations = replicate max_pending_path_requests (DestinationHash (replicate 16 0)),
      fp_command_ids = replicate max_pending_path_requests 0,
      fp_timeout_ats = replicate max_pending_path_requests 0\<rparr>"

text \<open>\<open>MAX_PENDING_PATH_REQUESTS\<close> is the length every column has.\<close>

definition fixed_pending_capacity :: "fixed_pending_table \<Rightarrow> nat" where
  "fixed_pending_capacity t = length (fp_destinations t)"

definition fixed_pending_push :: "pending_path_request \<Rightarrow> fixed_pending_table \<Rightarrow> (track_path_request_error + nat \<times> fixed_pending_table) option" where
  "fixed_pending_push request t =
     Some (if fp_len t \<ge> fixed_pending_capacity t then Inl TrackTableFull
      else
        let i = fp_len t
        in Inr (i, t\<lparr>fp_destinations := (fp_destinations t)[i := pq_destination request],
             fp_command_ids := (fp_command_ids t)[i := pq_command_id request],
             fp_timeout_ats := (fp_timeout_ats t)[i := pq_timeout_at request],
             fp_len := fp_len t + 1\<rparr>))"

definition fixed_pending_swap_remove :: "nat \<Rightarrow> fixed_pending_table \<Rightarrow> fixed_pending_table option" where
  "fixed_pending_swap_remove index t =
     Some (let lst = fp_len t - 1;
               t = (if index \<noteq> lst
                    then t\<lparr>fp_destinations := (fp_destinations t)[index := fp_destinations t ! lst],
                           fp_command_ids := (fp_command_ids t)[index := fp_command_ids t ! lst],
                           fp_timeout_ats := (fp_timeout_ats t)[index := fp_timeout_ats t ! lst]\<rparr>
                    else t)
           in t\<lparr>fp_len := lst\<rparr>)"

definition fixed_pending :: "fixed_pending_table pending_table" where
  "fixed_pending =
     \<lparr>pt_capacity = fixed_pending_capacity, pt_len = fp_len,
      pt_command_ids = (\<lambda>t. take (fp_len t) (fp_command_ids t)),
      pt_timeout_ats = (\<lambda>t. take (fp_len t) (fp_timeout_ats t)),
      pt_push = fixed_pending_push, pt_swap_remove = fixed_pending_swap_remove,
      pt_index_of = (\<lambda>d t. Some (position (\<lambda>candidate. candidate = d) (take (fp_len t) (fp_destinations t)))),
      pt_earliest_indexed_timeout = (\<lambda>t. (column_min (take (fp_len t) (fp_timeout_ats t)), t)),
      pt_first_expired = (\<lambda>now t. (position (\<lambda>timeout_at. timeout_at \<le> now) (take (fp_len t) (fp_timeout_ats t)), t))\<rparr>"

section \<open>The growable table\<close>

record heap_pending_table =
  hp_destinations :: "destination_hash list"
  hp_command_ids :: "command_id list"
  hp_timeout_ats :: "instant_millis list"
  hp_index :: "u32 list"
  hp_timeout_index :: deadline_index

definition heap_pending_default :: heap_pending_table where
  "heap_pending_default =
     \<lparr>hp_destinations = [], hp_command_ids = [], hp_timeout_ats = [],
      hp_index = heap_lemire_default, hp_timeout_index = deadline_index_default\<rparr>"

definition heap_pending_deadline :: "heap_pending_table \<Rightarrow> deadlines" where
  "heap_pending_deadline t = column_deadline Some (hp_timeout_ats t)"

definition heap_pending_index_of :: "destination_hash \<Rightarrow> heap_pending_table \<Rightarrow> nat option option" where
  "heap_pending_index_of destination t = heap_lemire_get destination_rows (hp_index t) destination (hp_destinations t)"

definition heap_pending_first_due :: "instant_millis \<Rightarrow> heap_pending_table \<Rightarrow> nat option \<times> heap_pending_table" where
  "heap_pending_first_due now t =
     (let (found, index) = dx_first_due (heap_pending_deadline t) (length (hp_timeout_ats t)) now (hp_timeout_index t)
      in (found, t\<lparr>hp_timeout_index := index\<rparr>))"

definition heap_pending_earliest :: "heap_pending_table \<Rightarrow> instant_millis option \<times> heap_pending_table" where
  "heap_pending_earliest t =
     (let (found, index) = dx_earliest_exact (heap_pending_deadline t) (length (hp_timeout_ats t)) (hp_timeout_index t)
      in (found, t\<lparr>hp_timeout_index := index\<rparr>))"

definition heap_pending_push :: "pending_path_request \<Rightarrow> heap_pending_table \<Rightarrow> (track_path_request_error + nat \<times> heap_pending_table) option" where
  "heap_pending_push request t =
     (let row = length (hp_destinations t);
          t = t\<lparr>hp_destinations := hp_destinations t @ [pq_destination request],
                hp_command_ids := hp_command_ids t @ [pq_command_id request],
                hp_timeout_ats := hp_timeout_ats t @ [pq_timeout_at request]\<rparr>
      in map_option
           (\<lambda>index. Inr (row, t\<lparr>hp_index := index,
              hp_timeout_index := dx_insert (heap_pending_deadline t) row (Some (pq_timeout_at request)) (hp_timeout_index t)\<rparr>))
           (heap_lemire_insert destination_rows (hp_index t) row (hp_destinations t)))"

definition heap_pending_swap_remove :: "nat \<Rightarrow> heap_pending_table \<Rightarrow> heap_pending_table option" where
  "heap_pending_swap_remove i t =
     (if i \<ge> length (hp_destinations t) then Some t
      else
        let lst = length (hp_destinations t) - 1
        in case heap_lemire_remove_slot destination_rows (hp_index t) i (hp_destinations t) of
             None \<Rightarrow> None
           | Some index \<Rightarrow>
               (case (if i \<noteq> lst then heap_lemire_repoint_slot destination_rows index lst i (hp_destinations t) else Some index) of
                  None \<Rightarrow> None
                | Some index \<Rightarrow>
                    Some (t\<lparr>hp_index := index,
                      hp_timeout_index := dx_swap_remove (heap_pending_deadline t) i lst (hp_timeout_index t),
                      hp_destinations := vec_swap_remove i (hp_destinations t),
                      hp_command_ids := vec_swap_remove i (hp_command_ids t),
                      hp_timeout_ats := vec_swap_remove i (hp_timeout_ats t)\<rparr>)))"

definition heap_pending :: "heap_pending_table pending_table" where
  "heap_pending =
     \<lparr>pt_capacity = (\<lambda>_. USIZE_MAX), pt_len = (\<lambda>t. length (hp_destinations t)),
      pt_command_ids = hp_command_ids, pt_timeout_ats = hp_timeout_ats,
      pt_push = heap_pending_push, pt_swap_remove = heap_pending_swap_remove,
      pt_index_of = heap_pending_index_of, pt_earliest_indexed_timeout = heap_pending_earliest,
      pt_first_expired = heap_pending_first_due\<rparr>"

section \<open>The contract\<close>

locale pending_rows_table = swap_rows rows valid "pt_capacity P" "pt_swap_remove P"
  for P :: "'t pending_table" and rows :: "'t \<Rightarrow> pending_path_request list" and valid :: "'t \<Rightarrow> bool" +
  assumes len: "valid t \<Longrightarrow> pt_len P t = length (rows t)"
    and columns: "valid t \<Longrightarrow> pt_command_ids P t = map pq_command_id (rows t)"
      "valid t \<Longrightarrow> pt_timeout_ats P t = map pq_timeout_at (rows t)"
    and within_capacity: "valid t \<Longrightarrow> length (rows t) \<le> pt_capacity P t"
    and push_full: "valid t \<Longrightarrow> pt_capacity P t \<le> length (rows t) \<Longrightarrow> pt_push P request t = Some (Inl TrackTableFull)"
    and push_fits: "valid t \<Longrightarrow> length (rows t) < pt_capacity P t \<Longrightarrow> length (rows t) < HEAP_LEMIRE_MAX_ROWS \<Longrightarrow>
      \<exists>t'. pt_push P request t = Some (Inr (length (rows t), t')) \<and> valid t' \<and> pt_capacity P t' = pt_capacity P t
        \<and> rows t' = rows t @ [request]"
    and index_of: "valid t \<Longrightarrow>
      \<exists>found. pt_index_of P d t = Some found \<and> finds_row (\<lambda>row. pq_destination row = d) (rows t) found"
    and earliest: "valid t \<Longrightarrow> valid (snd (pt_earliest_indexed_timeout P t))
      \<and> pt_capacity P (snd (pt_earliest_indexed_timeout P t)) = pt_capacity P t
      \<and> rows (snd (pt_earliest_indexed_timeout P t)) = rows t
      \<and> fst (pt_earliest_indexed_timeout P t) = column_min (map pq_timeout_at (rows t))"
    and first_expired: "valid t \<Longrightarrow> valid (snd (pt_first_expired P now t))
      \<and> pt_capacity P (snd (pt_first_expired P now t)) = pt_capacity P t \<and> rows (snd (pt_first_expired P now t)) = rows t
      \<and> finds_row (\<lambda>row. pq_timeout_at row \<le> now) (rows t) (fst (pt_first_expired P now t))"

text \<open>
  What the operations report and what they leave: the rows as a multiset, and the earliest timeout kept beside
  the table, which is always that of the rows.
\<close>

definition pending_ok :: "('t \<Rightarrow> pending_path_request list) \<Rightarrow> ('t \<Rightarrow> bool) \<Rightarrow> 't pending_path_requests \<Rightarrow> bool" where
  "pending_ok rows valid s =
     (valid (pr_table s) \<and> pr_earliest_timeout s = column_min (map pq_timeout_at (rows (pr_table s))))"

definition spec_track ::
  "nat \<Rightarrow> pending_path_request \<Rightarrow> pending_path_request multiset \<Rightarrow> culled_path_request option
    \<Rightarrow> pending_path_request multiset \<Rightarrow> bool" where
  "spec_track capacity request M culled M' =
     (if size M < capacity then culled = None \<and> M' = add_mset request M
      else if M = {#} then culled = Some (CulledPathRequest (pq_command_id request)) \<and> M' = {#}
      else \<exists>victim \<in># M. (\<forall>row \<in># M. pq_timeout_at victim \<le> pq_timeout_at row)
             \<and> culled = Some (CulledPathRequest (pq_command_id victim)) \<and> M' = add_mset request (M - {#victim#}))"

definition spec_pop ::
  "(pending_path_request \<Rightarrow> bool) \<Rightarrow> (command_id \<Rightarrow> 'x) \<Rightarrow> pending_path_request multiset \<Rightarrow> 'x option
    \<Rightarrow> pending_path_request multiset \<Rightarrow> bool" where
  "spec_pop P report M answer M' =
     (if \<forall>row \<in># M. \<not> P row then answer = None \<and> M' = M
      else \<exists>row \<in># M. P row \<and> answer = Some (report (pq_command_id row)) \<and> M' = M - {#row#})"

text \<open>
  A run of the node: requests are tracked while there is a row number for them, and settle, expire or are culled.
  The run records the commands tracked and the commands reported back.
\<close>

inductive pending_run ::
  "'t pending_table \<Rightarrow> 't pending_path_requests \<Rightarrow> 't pending_path_requests \<Rightarrow> command_id multiset \<Rightarrow> command_id multiset \<Rightarrow> bool"
  for P s0 where
  start: "pending_run P s0 s0 {#} {#}"
| track: "pending_run P s0 s T R \<Longrightarrow> pt_len P (pr_table s) < HEAP_LEMIRE_MAX_ROWS \<Longrightarrow>
    pending_track P request s = Some (None, s') \<Longrightarrow> pending_run P s0 s' (add_mset (pq_command_id request) T) R"
| track_culls: "pending_run P s0 s T R \<Longrightarrow> pt_len P (pr_table s) < HEAP_LEMIRE_MAX_ROWS \<Longrightarrow>
    pending_track P request s = Some (Some (CulledPathRequest command), s') \<Longrightarrow>
    pending_run P s0 s' (add_mset (pq_command_id request) T) (add_mset command R)"
| settle: "pending_run P s0 s T R \<Longrightarrow>
    pending_pop_settled_for P d s = Some (Some (SettledPathRequest command), s') \<Longrightarrow> pending_run P s0 s' T (add_mset command R)"
| settle_none: "pending_run P s0 s T R \<Longrightarrow> pending_pop_settled_for P d s = Some (None, s') \<Longrightarrow> pending_run P s0 s' T R"
| expire: "pending_run P s0 s T R \<Longrightarrow>
    pending_pop_expired P now s = Some (Some (ExpiredPathRequest command), s') \<Longrightarrow> pending_run P s0 s' T (add_mset command R)"
| expire_none: "pending_run P s0 s T R \<Longrightarrow> pending_pop_expired P now s = Some (None, s') \<Longrightarrow> pending_run P s0 s' T R"

lemma spec_pop_ids:
  assumes "spec_pop Q report M answer M'"
  shows "answer = None \<Longrightarrow> M' = M"
    "answer = Some (report c) \<Longrightarrow> inj report \<Longrightarrow> image_mset pq_command_id M = add_mset c (image_mset pq_command_id M')"
proof -
  show "M' = M" if "answer = None" using assms that by (auto simp: spec_pop_def split: if_splits)
  assume c: "answer = Some (report c)" "inj report"
  then obtain row where "row \<in># M" "M' = M - {#row#}" "c = pq_command_id row"
    using assms by (auto simp: spec_pop_def inj_eq split: if_splits)
  then show "image_mset pq_command_id M = add_mset c (image_mset pq_command_id M')" by (metis image_mset_add_mset insert_DiffM)
qed

lemma spec_track_ids:
  assumes "spec_track capacity request M culled M'"
  shows "culled = None \<Longrightarrow> image_mset pq_command_id M' = add_mset (pq_command_id request) (image_mset pq_command_id M)"
    "culled = Some (CulledPathRequest c) \<Longrightarrow>
      add_mset c (image_mset pq_command_id M') = add_mset (pq_command_id request) (image_mset pq_command_id M)"
proof -
  show "image_mset pq_command_id M' = add_mset (pq_command_id request) (image_mset pq_command_id M)" if "culled = None"
    using assms that by (auto simp: spec_track_def split: if_splits)
  assume c: "culled = Some (CulledPathRequest c)"
  show "add_mset c (image_mset pq_command_id M') = add_mset (pq_command_id request) (image_mset pq_command_id M)"
  proof (cases "M = {#}")
    case True
    then show ?thesis using assms c by (auto simp: spec_track_def split: if_splits)
  next
    case False
    then obtain victim where "victim \<in># M" "M' = add_mset request (M - {#victim#})" "c = pq_command_id victim"
      using assms c by (auto simp: spec_track_def split: if_splits)
    then show ?thesis by (metis add_mset_commute image_mset_add_mset insert_DiffM)
  qed
qed

context pending_rows_table
begin

lemma refresh:
  assumes "valid (pr_table s)"
  shows "pending_ok rows valid (pending_refresh_earliest_timeout P s)"
    "rows (pr_table (pending_refresh_earliest_timeout P s)) = rows (pr_table s)"
    "pt_capacity P (pr_table (pending_refresh_earliest_timeout P s)) = pt_capacity P (pr_table s)"
  using earliest [OF assms] by (simp_all add: pending_refresh_earliest_timeout_def pending_ok_def split_beta)

text \<open>Taking the row at an index out, as both pops do.\<close>

lemma pop_row:
  assumes "valid (pr_table s)" "i < length (rows (pr_table s))" "Q (rows (pr_table s) ! i)"
  shows "\<exists>answer s'. (case vec_get (pt_command_ids P (pr_table s)) i of
        None \<Rightarrow> Some (None, s)
      | Some command \<Rightarrow> map_option (\<lambda>t. (Some (report command), pending_refresh_earliest_timeout P (s\<lparr>pr_table := t\<rparr>)))
          (pt_swap_remove P i (pr_table s))) = Some (answer, s')
    \<and> pending_ok rows valid s' \<and> pt_capacity P (pr_table s') = pt_capacity P (pr_table s)
    \<and> spec_pop Q report (mset (rows (pr_table s))) answer (mset (rows (pr_table s')))"
proof -
  let ?row = "rows (pr_table s) ! i"
  obtain t where t: "pt_swap_remove P i (pr_table s) = Some t" "valid t" "pt_capacity P t = pt_capacity P (pr_table s)"
    "rows t = vec_swap_remove i (rows (pr_table s))" using swap_remove [OF assms(1,2)] by blast
  have row: "?row \<in># mset (rows (pr_table s))" using assms(2) by simp
  have "vec_get (pt_command_ids P (pr_table s)) i = Some (pq_command_id ?row)"
    using assms(1,2) by (simp add: vec_get_def columns)
  moreover have "spec_pop Q report (mset (rows (pr_table s))) (Some (report (pq_command_id ?row))) (mset (rows t))"
    using row assms(3) unfolding spec_pop_def t(4) mset_vec_swap_remove [OF assms(2)] by auto
  ultimately show ?thesis using t refresh [of "s\<lparr>pr_table := t\<rparr>"] by simp
qed

lemma pop_settled_spec:
  assumes ok: "pending_ok rows valid s"
  shows "\<exists>answer s'. pending_pop_settled_for P d s = Some (answer, s') \<and> pending_ok rows valid s'
    \<and> pt_capacity P (pr_table s') = pt_capacity P (pr_table s)
    \<and> spec_pop (\<lambda>row. pq_destination row = d) SettledPathRequest (mset (rows (pr_table s))) answer (mset (rows (pr_table s')))"
proof -
  have v: "valid (pr_table s)" using ok by (simp add: pending_ok_def)
  obtain found where found: "pt_index_of P d (pr_table s) = Some found" "finds_row (\<lambda>row. pq_destination row = d) (rows (pr_table s)) found"
    using index_of [OF v] by blast
  show ?thesis
  proof (cases found)
    case None
    then show ?thesis using found ok by (simp add: pending_pop_settled_for_def spec_pop_def finds_row_def)
  next
    case (Some i)
    then show ?thesis
      using found pop_row [OF v, of i "\<lambda>row. pq_destination row = d" SettledPathRequest]
      by (simp add: pending_pop_settled_for_def finds_row_def)
  qed
qed

lemma pop_expired_spec:
  assumes ok: "pending_ok rows valid s"
  shows "\<exists>answer s'. pending_pop_expired P now s = Some (answer, s') \<and> pending_ok rows valid s'
    \<and> pt_capacity P (pr_table s') = pt_capacity P (pr_table s)
    \<and> spec_pop (\<lambda>row. pq_timeout_at row \<le> now) ExpiredPathRequest (mset (rows (pr_table s))) answer (mset (rows (pr_table s')))"
proof -
  have v: "valid (pr_table s)" using ok by (simp add: pending_ok_def)
  let ?t = "snd (pt_first_expired P now (pr_table s))"
  note f = first_expired [OF v, of now]
  show ?thesis
  proof (cases "fst (pt_first_expired P now (pr_table s))")
    case None
    then show ?thesis using f ok by (simp add: pending_pop_expired_def spec_pop_def finds_row_def split_beta pending_ok_def)
  next
    case (Some i)
    then show ?thesis
      using f pop_row [of "s\<lparr>pr_table := ?t\<rparr>" i "\<lambda>row. pq_timeout_at row \<le> now" ExpiredPathRequest]
      by (simp add: pending_pop_expired_def finds_row_def split_beta Let_def)
  qed
qed

lemma cull_soonest:
  assumes ok: "pending_ok rows valid s" and ne: "rows (pr_table s) \<noteq> []"
  shows "\<exists>victim s'. pending_cull_soonest_expiring P s = Some (Some (CulledPathRequest (pq_command_id victim)), s')
    \<and> valid (pr_table s') \<and> pt_capacity P (pr_table s') = pt_capacity P (pr_table s)
    \<and> victim \<in># mset (rows (pr_table s)) \<and> (\<forall>row \<in># mset (rows (pr_table s)). pq_timeout_at victim \<le> pq_timeout_at row)
    \<and> length (rows (pr_table s')) = length (rows (pr_table s)) - 1
    \<and> mset (rows (pr_table s')) = mset (rows (pr_table s)) - {#victim#}"
proof -
  have v: "valid (pr_table s)" using ok by (simp add: pending_ok_def)
  let ?rows = "rows (pr_table s)"
  obtain i where i: "min_index (pt_timeout_ats P (pr_table s)) = Some i"
    using ne v min_index_None [of "pt_timeout_ats P (pr_table s)"]
    by (cases "min_index (pt_timeout_ats P (pr_table s))") (auto simp: columns)
  then have lt: "i < length ?rows" and least: "\<forall>row \<in># mset ?rows. pq_timeout_at (?rows ! i) \<le> pq_timeout_at row"
    using min_index_Some [OF i] v by (auto simp: columns in_set_conv_nth)
  obtain t where t: "pt_swap_remove P i (pr_table s) = Some t" "valid t" "pt_capacity P t = pt_capacity P (pr_table s)"
    "rows t = vec_swap_remove i ?rows" using swap_remove [OF v lt] by blast
  have "pending_cull_soonest_expiring P s = Some (Some (CulledPathRequest (pq_command_id (?rows ! i))), s\<lparr>pr_table := t\<rparr>)"
    using i lt t(1) v by (simp add: pending_cull_soonest_expiring_def vec_get_def columns)
  moreover have "mset (rows t) = mset ?rows - {#?rows ! i#}" "?rows ! i \<in># mset ?rows"
    using lt by (simp_all add: t(4) mset_vec_swap_remove)
  ultimately show ?thesis using least t(2,3,4) by (intro exI [of _ "?rows ! i"] exI [of _ "s\<lparr>pr_table := t\<rparr>"]) simp
qed

lemma track_spec:
  assumes ok: "pending_ok rows valid s" and room: "length (rows (pr_table s)) < HEAP_LEMIRE_MAX_ROWS"
  shows "\<exists>culled s'. pending_track P request s = Some (culled, s') \<and> pending_ok rows valid s'
    \<and> pt_capacity P (pr_table s') = pt_capacity P (pr_table s)
    \<and> spec_track (pt_capacity P (pr_table s)) request (mset (rows (pr_table s))) culled (mset (rows (pr_table s')))"
proof -
  have v: "valid (pr_table s)" using ok by (simp add: pending_ok_def)
  let ?rows = "rows (pr_table s)" and ?c = "pt_capacity P (pr_table s)"
  consider (fits) "length ?rows < ?c" | (empty) "?c \<le> length ?rows" "?rows = []" | (full) "?c \<le> length ?rows" "?rows \<noteq> []"
    by linarith
  then show ?thesis
  proof cases
    case fits
    obtain t where t: "pt_push P request (pr_table s) = Some (Inr (length ?rows, t))" "valid t" "pt_capacity P t = ?c"
      "rows t = ?rows @ [request]" using push_fits [OF v fits room] by blast
    then have "pending_track P request s = Some (None, pending_refresh_earliest_timeout P (s\<lparr>pr_table := t\<rparr>))"
      using fits v by (simp add: pending_track_def len)
    then show ?thesis using t refresh [of "s\<lparr>pr_table := t\<rparr>"] fits by (simp add: spec_track_def)
  next
    case empty
    have "pending_cull_soonest_expiring P s = Some (None, s)"
      using empty v min_index_None [of "pt_timeout_ats P (pr_table s)"] by (simp add: pending_cull_soonest_expiring_def columns)
    then have "pending_track P request s = Some (Some (CulledPathRequest (pq_command_id request)), pending_refresh_earliest_timeout P s)"
      using empty v push_full [OF v, of request] by (simp add: pending_track_def len)
    then show ?thesis using v refresh [of s] empty by (simp add: spec_track_def)
  next
    case full
    obtain victim u where u: "pending_cull_soonest_expiring P s = Some (Some (CulledPathRequest (pq_command_id victim)), u)"
      "valid (pr_table u)" "pt_capacity P (pr_table u) = ?c" "victim \<in># mset ?rows"
      "\<forall>row \<in># mset ?rows. pq_timeout_at victim \<le> pq_timeout_at row" "length (rows (pr_table u)) = length ?rows - 1"
      "mset (rows (pr_table u)) = mset ?rows - {#victim#}"
      using cull_soonest [OF ok full(2)] by blast
    have pos: "0 < length ?rows" using full(2) by simp
    have cap: "?c = length ?rows" using full(1) within_capacity [OF v] by simp
    obtain t where t: "pt_push P request (pr_table u) = Some (Inr (length (rows (pr_table u)), t))" "valid t"
      "pt_capacity P t = ?c" "rows t = rows (pr_table u) @ [request]"
      using push_fits [OF u(2), of request] u(3,6) cap pos room by auto
    then have "pending_track P request s =
        Some (Some (CulledPathRequest (pq_command_id victim)), pending_refresh_earliest_timeout P (u\<lparr>pr_table := t\<rparr>))"
      using u(1) cap v by (simp add: pending_track_def len)
    moreover have "spec_track ?c request (mset ?rows) (Some (CulledPathRequest (pq_command_id victim))) (mset (rows t))"
      using u(4,5,7) t(4) full(2) cap unfolding spec_track_def by auto
    ultimately show ?thesis using t refresh [of "u\<lparr>pr_table := t\<rparr>"] by simp
  qed
qed

lemma run_conserves:
  assumes "pending_run P s0 s T R" "pending_ok rows valid s0" "rows (pr_table s0) = []"
  shows "pending_ok rows valid s \<and> T = R + image_mset pq_command_id (mset (rows (pr_table s)))"
  using assms
proof (induction rule: pending_run.induct)
  case start
  then show ?case by simp
next
  case (track s T R request s')
  then have ok: "pending_ok rows valid s" "length (rows (pr_table s)) < HEAP_LEMIRE_MAX_ROWS"
    by (simp_all add: pending_ok_def len)
  from track_spec [OF this, of request] track spec_track_ids(1) show ?case by fastforce
next
  case (track_culls s T R request command s')
  then have ok: "pending_ok rows valid s" "length (rows (pr_table s)) < HEAP_LEMIRE_MAX_ROWS"
    by (simp_all add: pending_ok_def len)
  from track_spec [OF this, of request] track_culls obtain c where
    "pending_ok rows valid s'" "spec_track c request (mset (rows (pr_table s))) (Some (CulledPathRequest command)) (mset (rows (pr_table s')))"
    by auto
  with spec_track_ids(2) [OF this(2) refl] track_culls show ?case by (metis add_mset_add_single union_assoc union_commute)
next
  case (settle s T R d command s')
  from pop_settled_spec [of s d] settle obtain
    "pending_ok rows valid s'" "spec_pop (\<lambda>row. pq_destination row = d) SettledPathRequest (mset (rows (pr_table s))) (Some (SettledPathRequest command)) (mset (rows (pr_table s')))"
    by auto
  with spec_pop_ids(2) [OF this(2) refl] settle show ?case by (simp add: inj_def)
next
  case (settle_none s T R d s')
  from pop_settled_spec [of s d] settle_none obtain
    "pending_ok rows valid s'" "spec_pop (\<lambda>row. pq_destination row = d) SettledPathRequest (mset (rows (pr_table s))) None (mset (rows (pr_table s')))"
    by auto
  with spec_pop_ids(1) [OF this(2) refl] settle_none show ?case by simp
next
  case (expire s T R now command s')
  from pop_expired_spec [of s now] expire obtain
    "pending_ok rows valid s'" "spec_pop (\<lambda>row. pq_timeout_at row \<le> now) ExpiredPathRequest (mset (rows (pr_table s))) (Some (ExpiredPathRequest command)) (mset (rows (pr_table s')))"
    by auto
  with spec_pop_ids(2) [OF this(2) refl] expire show ?case by (simp add: inj_def)
next
  case (expire_none s T R now s')
  from pop_expired_spec [of s now] expire_none obtain
    "pending_ok rows valid s'" "spec_pop (\<lambda>row. pq_timeout_at row \<le> now) ExpiredPathRequest (mset (rows (pr_table s))) None (mset (rows (pr_table s')))"
    by auto
  with spec_pop_ids(1) [OF this(2) refl] expire_none show ?case by simp
qed

end


section \<open>Both tables keep the contract\<close>

definition pending_rows :: "destination_hash list \<Rightarrow> command_id list \<Rightarrow> instant_millis list \<Rightarrow> pending_path_request list" where
  "pending_rows keys bs cs = map (\<lambda>(a, b, c). \<lparr>pq_destination = a, pq_command_id = b, pq_timeout_at = c\<rparr>) (zip keys (zip bs cs))"

lemma pending_rows_columns:
  assumes "length bs = length keys" "length cs = length keys"
  shows "length (pending_rows keys bs cs) = length keys"
    "map pq_destination (pending_rows keys bs cs) = keys"
    "map pq_command_id (pending_rows keys bs cs) = bs"
    "map pq_timeout_at (pending_rows keys bs cs) = cs"
  using assms by (auto simp: pending_rows_def intro!: nth_equalityI)

lemma pending_rows_push:
  assumes "length bs = length keys" "length cs = length keys"
  shows "pending_rows (keys @ [pq_destination row]) (bs @ [pq_command_id row]) (cs @ [pq_timeout_at row]) = pending_rows keys bs cs @ [row]"
  using assms by (simp add: pending_rows_def)

lemma pending_rows_swap_remove:
  assumes "length bs = length keys" "length cs = length keys" "i < length keys"
  shows "pending_rows (vec_swap_remove i keys) (vec_swap_remove i bs) (vec_swap_remove i cs) = vec_swap_remove i (pending_rows keys bs cs)"
  using assms by (simp add: pending_rows_def table_simps)

definition fixed_pending_ok :: "fixed_pending_table \<Rightarrow> bool" where
  "fixed_pending_ok t =
     (let n = fixed_pending_capacity t in fp_len t \<le> n \<and> length (fp_command_ids t) = n \<and> length (fp_timeout_ats t) = n)"

definition fixed_pending_rows :: "fixed_pending_table \<Rightarrow> pending_path_request list" where
  "fixed_pending_rows t =
     (let n = fp_len t in pending_rows (take n (fp_destinations t)) (take n (fp_command_ids t)) (take n (fp_timeout_ats t)))"

lemma fixed_pending_okD:
  assumes "fixed_pending_ok t"
  shows "fp_len t \<le> length (fp_destinations t)" "length (fp_command_ids t) = length (fp_destinations t)" "length (fp_timeout_ats t) = length (fp_destinations t)"
  using assms by (simp_all add: fixed_pending_ok_def fixed_pending_capacity_def Let_def)

lemma fixed_pending_bound: "fixed_pending_ok t \<Longrightarrow> fp_len t \<le> fixed_pending_capacity t"
  by (simp add: fixed_pending_ok_def Let_def)

lemma fixed_pending_push_full: "fixed_pending_capacity t \<le> fp_len t \<Longrightarrow> fixed_pending_push request t = Some (Inl TrackTableFull)"
  by (simp add: fixed_pending_push_def)

lemma fixed_pending_default_ok: "fixed_pending_ok (fixed_pending_default n)" "fixed_pending_rows (fixed_pending_default n) = []"
  by (simp_all add: fixed_pending_ok_def fixed_pending_default_def fixed_pending_capacity_def fixed_pending_rows_def pending_rows_def Let_def)

lemma fixed_pending_columns:
  assumes "fixed_pending_ok t"
  shows "length (fixed_pending_rows t) = fp_len t"
    "take (fp_len t) (fp_destinations t) = map pq_destination (fixed_pending_rows t)"
    "take (fp_len t) (fp_command_ids t) = map pq_command_id (fixed_pending_rows t)"
    "take (fp_len t) (fp_timeout_ats t) = map pq_timeout_at (fixed_pending_rows t)"
  using fixed_pending_okD [OF assms] by (simp_all add: fixed_pending_rows_def Let_def pending_rows_columns)

lemma fixed_pending_swap_remove_rows:
  assumes ok: "fixed_pending_ok t" and i: "i < fp_len t"
  shows "\<exists>t'. fixed_pending_swap_remove i t = Some t' \<and> fixed_pending_ok t' \<and> fixed_pending_capacity t' = fixed_pending_capacity t
    \<and> fixed_pending_rows t' = vec_swap_remove i (fixed_pending_rows t)"
proof -
  note D = fixed_pending_okD [OF ok]
  have pos: "0 < fp_len t" using i by linarith
  let ?u = "the (fixed_pending_swap_remove i t)"
  have "fixed_pending_rows ?u = vec_swap_remove i (fixed_pending_rows t)"
  proof (cases "i = fp_len t - 1")
    case True
    then show ?thesis using D pos
      by (simp add: fixed_pending_rows_def fixed_pending_swap_remove_def Let_def take_column_removed(2) pending_rows_swap_remove)
  next
    case False
    then show ?thesis using D i
      by (simp add: fixed_pending_rows_def fixed_pending_swap_remove_def Let_def take_column_removed(1) pending_rows_swap_remove)
  qed
  moreover have "fixed_pending_ok ?u" "fixed_pending_capacity ?u = fixed_pending_capacity t"
    using D by (auto simp: fixed_pending_ok_def fixed_pending_swap_remove_def fixed_pending_capacity_def Let_def)
  ultimately show ?thesis by (simp add: fixed_pending_swap_remove_def)
qed

lemma fixed_pending_push_rows:
  assumes ok: "fixed_pending_ok t" and room: "fp_len t < fixed_pending_capacity t"
  shows "\<exists>t'. fixed_pending_push request t = Some (Inr (fp_len t, t')) \<and> fixed_pending_ok t' \<and> fixed_pending_capacity t' = fixed_pending_capacity t
    \<and> fixed_pending_rows t' = fixed_pending_rows t @ [request]"
proof -
  note D = fixed_pending_okD [OF ok]
  have lt: "fp_len t < length (fp_destinations t)" using room by (simp add: fixed_pending_capacity_def)
  let ?u = "snd (projr (the (fixed_pending_push request t)))"
  have "fixed_pending_rows ?u = fixed_pending_rows t @ [request]"
    using D lt room by (simp add: fixed_pending_rows_def fixed_pending_push_def Let_def take_column_push pending_rows_push)
  moreover have "fixed_pending_ok ?u" "fixed_pending_capacity ?u = fixed_pending_capacity t"
    using D lt by (auto simp: fixed_pending_ok_def fixed_pending_push_def fixed_pending_capacity_def Let_def)
  ultimately show ?thesis using room by (simp add: fixed_pending_push_def Let_def)
qed

lemma fixed_pending_sel:
  "pt_capacity fixed_pending = fixed_pending_capacity" "pt_swap_remove fixed_pending = fixed_pending_swap_remove"
  "pt_push fixed_pending = fixed_pending_push"
  by (simp_all add: fixed_pending_def)

interpretation fixed_pending_swap: swap_rows fixed_pending_rows fixed_pending_ok fixed_pending_capacity fixed_pending_swap_remove
  by unfold_locales (simp add: fixed_pending_swap_remove_rows fixed_pending_columns(1))

interpretation fixed_pending_rt: pending_rows_table fixed_pending fixed_pending_rows fixed_pending_ok
proof (unfold_locales, unfold fixed_pending_sel, goal_cases)
  case (1 t i)
  then show ?case by (rule fixed_pending_swap.swap_remove)
next
  case (7 t request)
  then show ?case using fixed_pending_push_rows [of t request] by (simp add: fixed_pending_columns(1))
next
  case (8 t d)
  then show ?case using finds_row_position [of "\<lambda>row. pq_destination row = d" "fixed_pending_rows t"]
    by (simp add: fixed_pending_def fixed_pending_columns(2) position_map)
next
  case (10 t now)
  then show ?case using finds_row_position [of "\<lambda>row. pq_timeout_at row \<le> now" "fixed_pending_rows t"]
    by (simp add: fixed_pending_def fixed_pending_columns(4) position_map)
qed (auto simp: fixed_pending_def fixed_pending_columns fixed_pending_ok_def fixed_pending_push_def Let_def)

definition heap_pending_ok :: "heap_pending_table \<Rightarrow> bool" where
  "heap_pending_ok t =
     (let n = length (hp_destinations t)
      in length (hp_command_ids t) = n \<and> length (hp_timeout_ats t) = n
         \<and> rows_indexed (hp_destinations t) (heap_pending_deadline t) (hp_index t) (hp_timeout_index t))"

definition heap_pending_rows :: "heap_pending_table \<Rightarrow> pending_path_request list" where
  "heap_pending_rows t = pending_rows (hp_destinations t) (hp_command_ids t) (hp_timeout_ats t)"

lemma heap_pending_okD:
  assumes "heap_pending_ok t"
  shows "length (hp_command_ids t) = length (hp_destinations t)" "length (hp_timeout_ats t) = length (hp_destinations t)"
    and heap_pending_indexed: "rows_indexed (hp_destinations t) (column_deadline Some (hp_timeout_ats t)) (hp_index t) (hp_timeout_index t)"
    and heap_pending_dx: "dx_ok (column_deadline Some (hp_timeout_ats t)) (length (hp_timeout_ats t)) (hp_timeout_index t)"
    and heap_pending_len: "length (hp_destinations t) \<le> HEAP_LEMIRE_MAX_ROWS"
  using assms rows_indexed_len [of "hp_destinations t"]
  by (auto simp: heap_pending_ok_def heap_pending_deadline_def rows_indexed_def Let_def)

lemma heap_pending_bound:
  assumes "heap_pending_ok t"
  shows "length (hp_destinations t) < USIZE_MAX"
  using heap_pending_len [OF assms] by (simp add: HEAP_LEMIRE_MAX_ROWS_def USIZE_MAX_def)

lemma heap_pending_default_ok: "heap_pending_ok heap_pending_default" "heap_pending_rows heap_pending_default = []"
  by (simp_all add: heap_pending_ok_def heap_pending_default_def heap_pending_rows_def pending_rows_def rows_indexed_empty)

lemma heap_pending_columns:
  assumes "heap_pending_ok t"
  shows "length (heap_pending_rows t) = length (hp_destinations t)"
    "map pq_destination (heap_pending_rows t) = hp_destinations t"
    "map pq_command_id (heap_pending_rows t) = hp_command_ids t"
    "map pq_timeout_at (heap_pending_rows t) = hp_timeout_ats t"
  using heap_pending_okD [OF assms] by (simp_all add: heap_pending_rows_def pending_rows_columns)

lemma heap_pending_with_index:
  assumes "heap_pending_ok t" "dx_ok (column_deadline Some (hp_timeout_ats t)) (length (hp_timeout_ats t)) dx"
  shows "heap_pending_ok (t\<lparr>hp_timeout_index := dx\<rparr>)" "heap_pending_rows (t\<lparr>hp_timeout_index := dx\<rparr>) = heap_pending_rows t"
  using assms by (simp_all add: heap_pending_ok_def heap_pending_rows_def heap_pending_deadline_def rows_indexed_def Let_def)

lemma heap_pending_push_rows:
  assumes ok: "heap_pending_ok t" and room: "length (hp_destinations t) < HEAP_LEMIRE_MAX_ROWS"
  shows "\<exists>t'. heap_pending_push request t = Some (Inr (length (hp_destinations t), t')) \<and> heap_pending_ok t'
    \<and> heap_pending_rows t' = heap_pending_rows t @ [request]"
proof -
  note D = heap_pending_okD [OF ok]
  let ?D = "column_deadline Some (hp_timeout_ats t @ [pq_timeout_at request])"
  have len: "length (hp_timeout_ats t) = length (hp_destinations t)" by (simp add: D)
  have "\<forall>r<length (hp_destinations t). ?D r = column_deadline Some (hp_timeout_ats t) r"
    using column_deadline_push(1) [of _ "hp_timeout_ats t" Some] unfolding len by blast
  from rows_indexed_push [OF heap_pending_indexed [OF ok] room this, of "pq_destination request"] obtain index where
    index: "heap_lemire_insert destination_rows (hp_index t) (length (hp_destinations t)) (hp_destinations t @ [pq_destination request]) = Some index"
      "rows_indexed (hp_destinations t @ [pq_destination request]) ?D index
        (dx_insert ?D (length (hp_destinations t)) (Some (pq_timeout_at request)) (hp_timeout_index t))"
    using column_deadline_push(2) [of Some "hp_timeout_ats t"] unfolding len by auto
  let ?u = "snd (projr (the (heap_pending_push request t)))"
  have "heap_pending_ok ?u"
    using index D by (simp add: heap_pending_ok_def heap_pending_push_def heap_pending_deadline_def Let_def)
  moreover have "heap_pending_rows ?u = heap_pending_rows t @ [request]"
    using index(1) D by (simp add: heap_pending_rows_def heap_pending_push_def Let_def pending_rows_push)
  ultimately show ?thesis using index(1) by (simp add: heap_pending_push_def Let_def)
qed

lemma heap_pending_swap_remove_rows:
  assumes ok: "heap_pending_ok t" and i: "i < length (hp_destinations t)"
  shows "\<exists>t'. heap_pending_swap_remove i t = Some t' \<and> heap_pending_ok t'
    \<and> heap_pending_rows t' = vec_swap_remove i (heap_pending_rows t)"
proof -
  note D = heap_pending_okD [OF ok]
  let ?ds = "hp_destinations t" and ?ats = "hp_timeout_ats t"
  have "\<forall>q<length ?ds - 1. column_deadline Some (vec_swap_remove i ?ats) q =
      (if q = i then column_deadline Some ?ats (length ?ds - 1) else column_deadline Some ?ats q)"
    using i D column_deadline_swap_remove [of i ?ats _ Some] by simp
  from rows_indexed_swap_remove [OF heap_pending_indexed [OF ok] i this] obtain slots1 slots2 where
    s: "heap_lemire_remove_slot destination_rows (hp_index t) i ?ds = Some slots1"
      "(if i \<noteq> length ?ds - 1 then heap_lemire_repoint_slot destination_rows slots1 (length ?ds - 1) i ?ds else Some slots1) = Some slots2"
      "rows_indexed (vec_swap_remove i ?ds) (column_deadline Some (vec_swap_remove i ?ats)) slots2
        (dx_swap_remove (column_deadline Some ?ats) i (length ?ds - 1) (hp_timeout_index t))"
    by blast
  let ?u = "the (heap_pending_swap_remove i t)"
  have u: "heap_pending_swap_remove i t = Some (t\<lparr>hp_index := slots2,
      hp_timeout_index := dx_swap_remove (heap_pending_deadline t) i (length ?ds - 1) (hp_timeout_index t),
      hp_destinations := vec_swap_remove i (hp_destinations t),
      hp_command_ids := vec_swap_remove i (hp_command_ids t),
      hp_timeout_ats := vec_swap_remove i (hp_timeout_ats t)\<rparr>)"
    using i s(1,2) by (simp add: heap_pending_swap_remove_def Let_def split: if_splits)
  have "heap_pending_ok ?u"
    using s(3) D unfolding u by (simp add: heap_pending_ok_def heap_pending_deadline_def Let_def)
  moreover have "heap_pending_rows ?u = vec_swap_remove i (heap_pending_rows t)"
    using i D unfolding u by (simp add: heap_pending_rows_def pending_rows_swap_remove)
  ultimately show ?thesis using u by simp
qed

lemma heap_pending_index_of_rows:
  assumes "heap_pending_ok t"
  shows "\<exists>found. heap_pending_index_of d t = Some found \<and> finds_row (\<lambda>row. pq_destination row = d) (heap_pending_rows t) found"
  using rows_indexed_lookup [OF heap_pending_indexed [OF assms], of d]
    finds_row_map [of "\<lambda>c. c = d" pq_destination "heap_pending_rows t"]
  by (simp add: heap_pending_index_of_def heap_pending_columns(2) [OF assms])

lemma heap_pending_first_due_rows:
  assumes ok: "heap_pending_ok t"
  shows "heap_pending_ok (snd (heap_pending_first_due now t)) \<and> heap_pending_rows (snd (heap_pending_first_due now t)) = heap_pending_rows t
    \<and> finds_row (\<lambda>row. falls_due Some now (pq_timeout_at row)) (heap_pending_rows t) (fst (heap_pending_first_due now t))"
proof -
  let ?q = "dx_first_due (column_deadline Some (hp_timeout_ats t)) (length (hp_timeout_ats t)) now (hp_timeout_index t)"
  note q = column_first_due [OF heap_pending_dx [OF ok], of now]
  have "heap_pending_first_due now t = (fst ?q, t\<lparr>hp_timeout_index := snd ?q\<rparr>)"
    by (simp add: heap_pending_first_due_def heap_pending_deadline_def split_beta)
  then show ?thesis
    using q(1) heap_pending_with_index [OF ok q(2)]
      finds_row_map [of "falls_due Some now" pq_timeout_at "heap_pending_rows t" "fst ?q"]
    by (simp add: heap_pending_columns [OF ok])
qed

lemma heap_pending_earliest_rows:
  assumes ok: "heap_pending_ok t"
  shows "heap_pending_ok (snd (heap_pending_earliest t)) \<and> heap_pending_rows (snd (heap_pending_earliest t)) = heap_pending_rows t
    \<and> fst (heap_pending_earliest t) = column_min (map pq_timeout_at (heap_pending_rows t))"
proof -
  note q = column_earliest [OF heap_pending_dx [OF ok]]
  show ?thesis using q(1) heap_pending_with_index [OF ok q(2)]
    by (simp add: heap_pending_earliest_def heap_pending_deadline_def split_beta heap_pending_columns [OF ok])
qed

lemma heap_pending_sel:
  "pt_capacity heap_pending = (\<lambda>_. USIZE_MAX)" "pt_swap_remove heap_pending = heap_pending_swap_remove"
  "pt_push heap_pending = heap_pending_push" "pt_index_of heap_pending = heap_pending_index_of"
  "pt_earliest_indexed_timeout heap_pending = heap_pending_earliest" "pt_first_expired heap_pending = heap_pending_first_due"
  by (simp_all add: heap_pending_def)

interpretation heap_pending_swap: swap_rows heap_pending_rows heap_pending_ok "\<lambda>_. USIZE_MAX" heap_pending_swap_remove
  by unfold_locales (simp add: heap_pending_swap_remove_rows heap_pending_columns(1))

interpretation heap_pending_rt: pending_rows_table heap_pending heap_pending_rows heap_pending_ok
proof (unfold_locales, unfold heap_pending_sel, goal_cases)
  case (1 t i)
  then show ?case by (rule heap_pending_swap.swap_remove)
next
  case (5 t)
  from heap_pending_len [OF 5] show ?case by (simp add: heap_pending_columns(1) [OF 5] HEAP_LEMIRE_MAX_ROWS_def USIZE_MAX_def)
next
  case (6 t request)
  from heap_pending_len [OF 6(1)] 6(2) show ?case
    by (simp add: heap_pending_columns(1) [OF 6(1)] HEAP_LEMIRE_MAX_ROWS_def USIZE_MAX_def)
next
  case (7 t request)
  then show ?case using heap_pending_push_rows [of t request] by (simp add: heap_pending_columns(1))
next
  case (8 t d)
  then show ?case by (rule heap_pending_index_of_rows)
next
  case (9 t)
  then show ?case using heap_pending_earliest_rows by simp
next
  case (10 t now)
  then show ?case using heap_pending_first_due_rows [of t now] by simp
qed (simp_all add: heap_pending_def heap_pending_columns)

section \<open>Properties of pending requests\<close>

definition pending_start :: "'t \<Rightarrow> 't pending_path_requests" where
  "pending_start t = \<lparr>pr_table = t, pr_earliest_timeout = None\<rparr>"

lemma pending_start_ok:
  "pending_ok heap_pending_rows heap_pending_ok (pending_start heap_pending_default)"
  "pending_ok fixed_pending_rows fixed_pending_ok (pending_start (fixed_pending_default n))"
  by (simp_all add: pending_ok_def pending_start_def heap_pending_default_ok fixed_pending_default_ok column_min_def)

text \<open>
  C17. Every path request is reported exactly once. Whatever sequence of operations either table has seen,
  the commands tracked are the commands reported back (settled, expired or culled) and those still pending,
  each as often as it was tracked. The earliest timeout kept beside the table is that of the pending rows,
  expiring takes a row whose timeout has passed and finds none only when there is none, and settling takes a
  row for the destination.
\<close>

theorem pending_requests_reported_once:
  assumes "pending_run heap_pending (pending_start heap_pending_default) h Th Rh"
    and "pending_run fixed_pending (pending_start (fixed_pending_default n)) f Tf Rf"
  shows "Th = Rh + image_mset pq_command_id (mset (heap_pending_rows (pr_table h)))
    \<and> Tf = Rf + image_mset pq_command_id (mset (fixed_pending_rows (pr_table f)))
    \<and> pending_earliest_timeout_at h = column_min (map pq_timeout_at (heap_pending_rows (pr_table h)))
    \<and> pending_earliest_timeout_at f = column_min (map pq_timeout_at (fixed_pending_rows (pr_table f)))
    \<and> (\<exists>answer h'. pending_pop_expired heap_pending now h = Some (answer, h')
        \<and> spec_pop (\<lambda>row. pq_timeout_at row \<le> now) ExpiredPathRequest (mset (heap_pending_rows (pr_table h))) answer
            (mset (heap_pending_rows (pr_table h'))))
    \<and> (\<exists>answer f'. pending_pop_expired fixed_pending now f = Some (answer, f')
        \<and> spec_pop (\<lambda>row. pq_timeout_at row \<le> now) ExpiredPathRequest (mset (fixed_pending_rows (pr_table f))) answer
            (mset (fixed_pending_rows (pr_table f'))))
    \<and> (\<exists>answer h'. pending_pop_settled_for heap_pending d h = Some (answer, h')
        \<and> spec_pop (\<lambda>row. pq_destination row = d) SettledPathRequest (mset (heap_pending_rows (pr_table h))) answer
            (mset (heap_pending_rows (pr_table h'))))
    \<and> (\<exists>answer f'. pending_pop_settled_for fixed_pending d f = Some (answer, f')
        \<and> spec_pop (\<lambda>row. pq_destination row = d) SettledPathRequest (mset (fixed_pending_rows (pr_table f))) answer
            (mset (fixed_pending_rows (pr_table f'))))"
proof -
  note h = heap_pending_rt.run_conserves [OF assms(1) pending_start_ok(1)]
    and f = fixed_pending_rt.run_conserves [OF assms(2) pending_start_ok(2)]
  have start: "heap_pending_rows (pr_table (pending_start heap_pending_default)) = []"
    "fixed_pending_rows (pr_table (pending_start (fixed_pending_default n))) = []"
    by (simp_all add: pending_start_def heap_pending_default_ok fixed_pending_default_ok)
  note h = h [OF start(1)] and f = f [OF start(2)]
  have okh: "pending_ok heap_pending_rows heap_pending_ok h" and okf: "pending_ok fixed_pending_rows fixed_pending_ok f"
    using h f by blast+
  show ?thesis
    using h f heap_pending_rt.pop_expired_spec [OF okh, of now] fixed_pending_rt.pop_expired_spec [OF okf, of now]
      heap_pending_rt.pop_settled_spec [OF okh, of d] fixed_pending_rt.pop_settled_spec [OF okf, of d]
    by (intro conjI) (auto simp: pending_earliest_timeout_at_def pending_ok_def)
qed

theorem pending_requests_reported_once_witness:
  "\<exists>h. pending_track heap_pending \<lparr>pq_destination = DestinationHash (replicate 16 7), pq_command_id = 3, pq_timeout_at = 100\<rparr>
       (pending_start heap_pending_default) = Some (None, h)
     \<and> image_mset pq_command_id (mset (heap_pending_rows (pr_table h))) = {#3#}"
proof -
  let ?request = "\<lparr>pq_destination = DestinationHash (replicate 16 7), pq_command_id = 3, pq_timeout_at = 100\<rparr>"
  let ?start = "pending_start heap_pending_default"
  have empty: "heap_pending_rows (pr_table ?start) = []" by (simp add: pending_start_def heap_pending_default_ok)
  from heap_pending_rt.track_spec [OF pending_start_ok(1), of ?request] obtain culled h where
    h: "pending_track heap_pending ?request ?start = Some (culled, h)" "spec_track USIZE_MAX ?request {#} culled (mset (heap_pending_rows (pr_table h)))"
    unfolding empty heap_pending_sel by (auto simp: HEAP_LEMIRE_MAX_ROWS_def)
  then have c: "pending_track heap_pending ?request ?start = Some (None, h)" by (simp add: spec_track_def USIZE_MAX_def)
  have "pending_run heap_pending ?start h {#3#} {#}"
    using pending_run.track [OF pending_run.start _ c] by (simp add: heap_pending_def pending_start_def heap_pending_default_def HEAP_LEMIRE_MAX_ROWS_def)
  from pending_requests_reported_once [OF this pending_run.start, of 0] c show ?thesis by auto
qed

end
