(* ===== verification/Recursive_Requests.thy ===== *)
theory Recursive_Requests
  imports Row_Indexes
begin

text \<open>
  Path requests asked on behalf of others (\<^verbatim>\<open>prns-core/src/routing/path_requests/recursive/core.rs\<close>): which interface
  to send the answer to, at most one request in flight for a destination. The trait
  \<open>RecursivePathRequestTable\<close>, its two implementations (\<^verbatim>\<open>recursive/impls\<close>), and the operations of
  \<open>RecursivePathRequests\<close>.
\<close>

section \<open>The trait\<close>

text \<open>The columns of a row.\<close>

record recursive_path_request =
  rq_destination :: destination_hash
  rq_requesting_interface :: interface_id
  rq_expires_at :: instant_millis

datatype recursive_outcome = Opened | AlreadyInFlight

record 't recursive_table =
  rq_capacity :: "'t \<Rightarrow> nat"
  rq_len :: "'t \<Rightarrow> nat"
  rq_requesting_interfaces :: "'t \<Rightarrow> interface_id list"
  rq_expires_ats :: "'t \<Rightarrow> instant_millis list"
  rq_push :: "destination_hash \<Rightarrow> interface_id \<Rightarrow> instant_millis \<Rightarrow> 't \<Rightarrow> 't option"
  rq_swap_remove :: "nat \<Rightarrow> 't \<Rightarrow> 't option"
  rq_index_of :: "destination_hash \<Rightarrow> 't \<Rightarrow> nat option option"
  rq_earliest_indexed_expiry :: "'t \<Rightarrow> instant_millis option \<times> 't"
  rq_first_expired :: "instant_millis \<Rightarrow> 't \<Rightarrow> nat option \<times> 't"
  rq_prefers_linear_expiry_cull :: "instant_millis \<Rightarrow> 't \<Rightarrow> (bool \<times> 't) option"
  rq_invalidate_expiry_index :: "'t \<Rightarrow> 't"

section \<open>The operations\<close>

record 't recursive_path_requests =
  rs_table :: 't
  rs_earliest_expiry :: "instant_millis option"

definition recursive_in_flight_count :: "'t recursive_table \<Rightarrow> 't recursive_path_requests \<Rightarrow> nat" where
  "recursive_in_flight_count Q s = rq_len Q (rs_table s)"

definition recursive_refresh_earliest_expiry :: "'t recursive_table \<Rightarrow> 't recursive_path_requests \<Rightarrow> 't recursive_path_requests" where
  "recursive_refresh_earliest_expiry Q s =
     (let (earliest, t) = rq_earliest_indexed_expiry Q (rs_table s)
      in \<lparr>rs_table = t, rs_earliest_expiry = earliest\<rparr>)"

definition recursive_evict_soonest_expiring :: "'t recursive_table \<Rightarrow> 't \<Rightarrow> 't option" where
  "recursive_evict_soonest_expiring Q t = evict_least (rq_expires_ats Q) (rq_swap_remove Q) t"

definition recursive_begin ::
  "'t recursive_table \<Rightarrow> destination_hash \<Rightarrow> interface_id \<Rightarrow> instant_millis \<Rightarrow> 't recursive_path_requests
    \<Rightarrow> (recursive_outcome \<times> 't recursive_path_requests) option" where
  "recursive_begin Q destination requesting_interface expires_at s =
     (case rq_index_of Q destination (rs_table s) of
        None \<Rightarrow> None
      | Some (Some _) \<Rightarrow> Some (AlreadyInFlight, s)
      | Some None \<Rightarrow>
          map_option (\<lambda>t. (Opened, recursive_refresh_earliest_expiry Q (s\<lparr>rs_table := t\<rparr>)))
            (case (if rq_len Q (rs_table s) \<ge> rq_capacity Q (rs_table s)
                   then recursive_evict_soonest_expiring Q (rs_table s) else Some (rs_table s)) of
               None \<Rightarrow> None
             | Some t \<Rightarrow> rq_push Q destination requesting_interface expires_at t))"

definition recursive_take_requester ::
  "'t recursive_table \<Rightarrow> destination_hash \<Rightarrow> 't recursive_path_requests
    \<Rightarrow> (interface_id option \<times> 't recursive_path_requests) option" where
  "recursive_take_requester Q destination s =
     (case rq_index_of Q destination (rs_table s) of
        None \<Rightarrow> None
      | Some None \<Rightarrow> Some (None, s)
      | Some (Some index) \<Rightarrow>
          let requesting_interface = rq_requesting_interfaces Q (rs_table s) ! index
          in map_option (\<lambda>t. (Some requesting_interface, recursive_refresh_earliest_expiry Q (s\<lparr>rs_table := t\<rparr>)))
               (rq_swap_remove Q index (rs_table s)))"

definition recursive_contains :: "'t recursive_table \<Rightarrow> destination_hash \<Rightarrow> 't recursive_path_requests \<Rightarrow> bool option" where
  "recursive_contains Q destination s = map_option (\<lambda>found. found \<noteq> None) (rq_index_of Q destination (rs_table s))"

definition recursive_cull_expired ::
  "'t recursive_table \<Rightarrow> instant_millis \<Rightarrow> 't recursive_path_requests \<Rightarrow> 't recursive_path_requests option" where
  "recursive_cull_expired Q now s =
     map_option (\<lambda>t. recursive_refresh_earliest_expiry Q (s\<lparr>rs_table := t\<rparr>))
       (evict_due (rq_len Q) (\<lambda>t index. rq_expires_ats Q t ! index \<le> now) (rq_swap_remove Q)
          (rq_first_expired Q now) (rq_prefers_linear_expiry_cull Q now) (rq_invalidate_expiry_index Q) (rs_table s))"

definition recursive_earliest_expiry_at :: "'t recursive_path_requests \<Rightarrow> instant_millis option" where
  "recursive_earliest_expiry_at s = rs_earliest_expiry s"

section \<open>The fixed-size table\<close>

record fixed_recursive_table =
  fq_len :: nat
  fq_destinations :: "destination_hash list"
  fq_requesting_interfaces :: "interface_id list"
  fq_expires_ats :: "instant_millis list"

definition fixed_recursive_default :: "nat \<Rightarrow> fixed_recursive_table" where
  "fixed_recursive_default max_recursive_path_requests =
     \<lparr>fq_len = 0,
      fq_destinations = replicate max_recursive_path_requests (DestinationHash (replicate 16 0)),
      fq_requesting_interfaces = replicate max_recursive_path_requests (InterfaceId (replicate 8 0)),
      fq_expires_ats = replicate max_recursive_path_requests 0\<rparr>"

text \<open>\<open>MAX_RECURSIVE_PATH_REQUESTS\<close> is the length every column has.\<close>

definition fixed_recursive_capacity :: "fixed_recursive_table \<Rightarrow> nat" where
  "fixed_recursive_capacity t = length (fq_destinations t)"

definition fixed_recursive_push :: "destination_hash \<Rightarrow> interface_id \<Rightarrow> instant_millis \<Rightarrow> fixed_recursive_table \<Rightarrow> fixed_recursive_table option" where
  "fixed_recursive_push destination requesting_interface expires_at t =
     Some (if fq_len t \<ge> fixed_recursive_capacity t then t
      else
        let i = fq_len t
        in t\<lparr>fq_destinations := (fq_destinations t)[i := destination],
             fq_requesting_interfaces := (fq_requesting_interfaces t)[i := requesting_interface],
             fq_expires_ats := (fq_expires_ats t)[i := expires_at],
             fq_len := fq_len t + 1\<rparr>)"

definition fixed_recursive_swap_remove :: "nat \<Rightarrow> fixed_recursive_table \<Rightarrow> fixed_recursive_table option" where
  "fixed_recursive_swap_remove index t =
     Some (let lst = fq_len t - 1;
               t = (if index \<noteq> lst
                    then t\<lparr>fq_destinations := (fq_destinations t)[index := fq_destinations t ! lst],
                           fq_requesting_interfaces := (fq_requesting_interfaces t)[index := fq_requesting_interfaces t ! lst],
                           fq_expires_ats := (fq_expires_ats t)[index := fq_expires_ats t ! lst]\<rparr>
                    else t)
           in t\<lparr>fq_len := lst\<rparr>)"

definition fixed_recursive :: "fixed_recursive_table recursive_table" where
  "fixed_recursive =
     \<lparr>rq_capacity = fixed_recursive_capacity, rq_len = fq_len,
      rq_requesting_interfaces = (\<lambda>t. take (fq_len t) (fq_requesting_interfaces t)),
      rq_expires_ats = (\<lambda>t. take (fq_len t) (fq_expires_ats t)),
      rq_push = fixed_recursive_push, rq_swap_remove = fixed_recursive_swap_remove,
      rq_index_of = (\<lambda>d t. Some (position (\<lambda>candidate. candidate = d) (take (fq_len t) (fq_destinations t)))),
      rq_earliest_indexed_expiry = (\<lambda>t. (column_min (take (fq_len t) (fq_expires_ats t)), t)),
      rq_first_expired = (\<lambda>now t. (position (\<lambda>expires_at. expires_at \<le> now) (take (fq_len t) (fq_expires_ats t)), t)),
      rq_prefers_linear_expiry_cull = (\<lambda>now t. Some (True, t)),
      rq_invalidate_expiry_index = (\<lambda>t. t)\<rparr>"

section \<open>The growable table\<close>

record heap_recursive_table =
  hq_destinations :: "destination_hash list"
  hq_requesting_interfaces :: "interface_id list"
  hq_expires_ats :: "instant_millis list"
  hq_index :: "u32 list"
  hq_expiry_index :: deadline_index

definition heap_recursive_default :: heap_recursive_table where
  "heap_recursive_default =
     \<lparr>hq_destinations = [], hq_requesting_interfaces = [], hq_expires_ats = [],
      hq_index = heap_lemire_default, hq_expiry_index = deadline_index_default\<rparr>"

definition heap_recursive_deadline :: "heap_recursive_table \<Rightarrow> deadlines" where
  "heap_recursive_deadline t = column_deadline Some (hq_expires_ats t)"

definition heap_recursive_index_of :: "destination_hash \<Rightarrow> heap_recursive_table \<Rightarrow> nat option option" where
  "heap_recursive_index_of destination t = heap_lemire_get destination_rows (hq_index t) destination (hq_destinations t)"

definition heap_recursive_first_due :: "instant_millis \<Rightarrow> heap_recursive_table \<Rightarrow> nat option \<times> heap_recursive_table" where
  "heap_recursive_first_due now t =
     (let (found, index) = dx_first_due (heap_recursive_deadline t) (length (hq_expires_ats t)) now (hq_expiry_index t)
      in (found, t\<lparr>hq_expiry_index := index\<rparr>))"

definition heap_recursive_prefers_linear :: "instant_millis \<Rightarrow> heap_recursive_table \<Rightarrow> (bool \<times> heap_recursive_table) option" where
  "heap_recursive_prefers_linear now t =
     map_option (\<lambda>(linear, index). (linear, t\<lparr>hq_expiry_index := index\<rparr>))
       (dx_prefers_linear_cull (heap_recursive_deadline t) (length (hq_expires_ats t)) now (hq_expiry_index t))"

definition heap_recursive_invalidate :: "heap_recursive_table \<Rightarrow> heap_recursive_table" where
  "heap_recursive_invalidate t = t\<lparr>hq_expiry_index := dx_invalidate (hq_expiry_index t)\<rparr>"

definition heap_recursive_earliest :: "heap_recursive_table \<Rightarrow> instant_millis option \<times> heap_recursive_table" where
  "heap_recursive_earliest t =
     (let (found, index) = dx_earliest_exact (heap_recursive_deadline t) (length (hq_expires_ats t)) (hq_expiry_index t)
      in (found, t\<lparr>hq_expiry_index := index\<rparr>))"

definition heap_recursive_push :: "destination_hash \<Rightarrow> interface_id \<Rightarrow> instant_millis \<Rightarrow> heap_recursive_table \<Rightarrow> heap_recursive_table option" where
  "heap_recursive_push destination requesting_interface expires_at t =
     (let row = length (hq_destinations t);
          t = t\<lparr>hq_destinations := hq_destinations t @ [destination],
                hq_requesting_interfaces := hq_requesting_interfaces t @ [requesting_interface],
                hq_expires_ats := hq_expires_ats t @ [expires_at]\<rparr>
      in map_option
           (\<lambda>index. t\<lparr>hq_index := index,
              hq_expiry_index := dx_insert (heap_recursive_deadline t) row (Some expires_at) (hq_expiry_index t)\<rparr>)
           (heap_lemire_insert destination_rows (hq_index t) row (hq_destinations t)))"

definition heap_recursive_swap_remove :: "nat \<Rightarrow> heap_recursive_table \<Rightarrow> heap_recursive_table option" where
  "heap_recursive_swap_remove i t =
     (if i \<ge> length (hq_destinations t) then Some t
      else
        let lst = length (hq_destinations t) - 1
        in case heap_lemire_remove_slot destination_rows (hq_index t) i (hq_destinations t) of
             None \<Rightarrow> None
           | Some index \<Rightarrow>
               (case (if i \<noteq> lst then heap_lemire_repoint_slot destination_rows index lst i (hq_destinations t) else Some index) of
                  None \<Rightarrow> None
                | Some index \<Rightarrow>
                    Some (t\<lparr>hq_index := index,
                      hq_expiry_index := dx_swap_remove (heap_recursive_deadline t) i lst (hq_expiry_index t),
                      hq_destinations := vec_swap_remove i (hq_destinations t),
                      hq_requesting_interfaces := vec_swap_remove i (hq_requesting_interfaces t),
                      hq_expires_ats := vec_swap_remove i (hq_expires_ats t)\<rparr>)))"

definition heap_recursive :: "heap_recursive_table recursive_table" where
  "heap_recursive =
     \<lparr>rq_capacity = (\<lambda>_. USIZE_MAX), rq_len = (\<lambda>t. length (hq_destinations t)),
      rq_requesting_interfaces = hq_requesting_interfaces, rq_expires_ats = hq_expires_ats,
      rq_push = heap_recursive_push, rq_swap_remove = heap_recursive_swap_remove,
      rq_index_of = heap_recursive_index_of, rq_earliest_indexed_expiry = heap_recursive_earliest,
      rq_first_expired = heap_recursive_first_due,
      rq_prefers_linear_expiry_cull = heap_recursive_prefers_linear,
      rq_invalidate_expiry_index = heap_recursive_invalidate\<rparr>"

section \<open>The contract\<close>

text \<open>Pushing a row is pushing its columns.\<close>

definition recursive_push_row :: "(destination_hash \<Rightarrow> interface_id \<Rightarrow> instant_millis \<Rightarrow> 't \<Rightarrow> 't option) \<Rightarrow> recursive_path_request \<Rightarrow> 't \<Rightarrow> 't option" where
  "recursive_push_row push row = push (rq_destination row) (rq_requesting_interface row) (rq_expires_at row)"

locale recursive_rows_table = pushed_rows rows valid "rq_capacity Q" "rq_swap_remove Q" "recursive_push_row (rq_push Q)"
  for Q :: "'t recursive_table" and rows :: "'t \<Rightarrow> recursive_path_request list" and valid :: "'t \<Rightarrow> bool" +
  assumes len: "valid t \<Longrightarrow> rq_len Q t = length (rows t)"
    and columns: "valid t \<Longrightarrow> rq_requesting_interfaces Q t = map rq_requesting_interface (rows t)"
      "valid t \<Longrightarrow> rq_expires_ats Q t = map rq_expires_at (rows t)"
    and index_of: "valid t \<Longrightarrow>
      \<exists>found. rq_index_of Q d t = Some found \<and> finds_row (\<lambda>row. rq_destination row = d) (rows t) found"
    and earliest: "valid t \<Longrightarrow> valid (snd (rq_earliest_indexed_expiry Q t))
      \<and> rq_capacity Q (snd (rq_earliest_indexed_expiry Q t)) = rq_capacity Q t
      \<and> rows (snd (rq_earliest_indexed_expiry Q t)) = rows t
      \<and> fst (rq_earliest_indexed_expiry Q t) = column_min (map rq_expires_at (rows t))"
    and first_expired: "valid t \<Longrightarrow> valid (snd (rq_first_expired Q now t))
      \<and> rq_capacity Q (snd (rq_first_expired Q now t)) = rq_capacity Q t \<and> rows (snd (rq_first_expired Q now t)) = rows t
      \<and> finds_row (\<lambda>row. rq_expires_at row \<le> now) (rows t) (fst (rq_first_expired Q now t))"
    and prefers_linear: "valid t \<Longrightarrow>
      \<exists>linear t'. rq_prefers_linear_expiry_cull Q now t = Some (linear, t') \<and> valid t'
        \<and> rq_capacity Q t' = rq_capacity Q t \<and> rows t' = rows t"
    and invalidate: "valid t \<Longrightarrow> valid (rq_invalidate_expiry_index Q t)
      \<and> rq_capacity Q (rq_invalidate_expiry_index Q t) = rq_capacity Q t \<and> rows (rq_invalidate_expiry_index Q t) = rows t"

text \<open>The invariant: no two requests for one destination, and the earliest expiry kept is that of the rows.\<close>

definition recursive_ok :: "('t \<Rightarrow> recursive_path_request list) \<Rightarrow> ('t \<Rightarrow> bool) \<Rightarrow> 't recursive_path_requests \<Rightarrow> bool" where
  "recursive_ok rows valid s =
     (valid (rs_table s) \<and> distinct (map rq_destination (rows (rs_table s)))
      \<and> rs_earliest_expiry s = column_min (map rq_expires_at (rows (rs_table s))))"

definition requester_of :: "recursive_path_request list \<Rightarrow> destination_hash \<Rightarrow> interface_id option" where
  "requester_of rows d = map_of (map (\<lambda>row. (rq_destination row, rq_requesting_interface row)) rows) d"

context recursive_rows_table
begin

lemma refresh:
  assumes "valid (rs_table s)" "distinct (map rq_destination (rows (rs_table s)))"
  shows "recursive_ok rows valid (recursive_refresh_earliest_expiry Q s)"
    "rows (rs_table (recursive_refresh_earliest_expiry Q s)) = rows (rs_table s)"
    "rq_capacity Q (rs_table (recursive_refresh_earliest_expiry Q s)) = rq_capacity Q (rs_table s)"
  using earliest [OF assms(1)] assms(2) by (simp_all add: recursive_refresh_earliest_expiry_def recursive_ok_def split_beta)

lemma contains_spec:
  assumes "recursive_ok rows valid s"
  shows "recursive_contains Q d s = Some (d \<in> rq_destination ` set (rows (rs_table s)))"
proof -
  obtain found where "rq_index_of Q d (rs_table s) = Some found" "finds_row (\<lambda>row. rq_destination row = d) (rows (rs_table s)) found"
    using index_of [of "rs_table s" d] assms by (auto simp: recursive_ok_def)
  then show ?thesis by (cases found) (auto simp: recursive_contains_def finds_row_def)
qed

lemma begin_held:
  assumes "recursive_ok rows valid s" "d \<in> rq_destination ` set (rows (rs_table s))"
  shows "recursive_begin Q d i e s = Some (AlreadyInFlight, s)"
proof -
  obtain found where "rq_index_of Q d (rs_table s) = Some found" "finds_row (\<lambda>row. rq_destination row = d) (rows (rs_table s)) found"
    using index_of [of "rs_table s" d] assms(1) by (auto simp: recursive_ok_def)
  then show ?thesis using assms(2) by (cases found) (auto simp: recursive_begin_def finds_row_def)
qed

lemma begin_spec:
  fixes d :: destination_hash and i :: interface_id and e :: instant_millis
  assumes ok: "recursive_ok rows valid s" and room: "length (rows (rs_table s)) < HEAP_LEMIRE_MAX_ROWS"
  defines "row \<equiv> \<lparr>rq_destination = d, rq_requesting_interface = i, rq_expires_at = e\<rparr>"
  shows "\<exists>outcome s'. recursive_begin Q d i e s = Some (outcome, s') \<and> recursive_ok rows valid s'
    \<and> rq_capacity Q (rs_table s') = rq_capacity Q (rs_table s)
    \<and> (if d \<in> rq_destination ` set (rows (rs_table s)) then outcome = AlreadyInFlight \<and> s' = s
       else outcome = Opened
         \<and> spec_push rq_expires_at (rq_capacity Q (rs_table s)) row (mset (rows (rs_table s))) (mset (rows (rs_table s'))))"
proof -
  have v: "valid (rs_table s)" and dist: "distinct (map rq_destination (rows (rs_table s)))" using ok by (simp_all add: recursive_ok_def)
  obtain found where found: "rq_index_of Q d (rs_table s) = Some found" "finds_row (\<lambda>row. rq_destination row = d) (rows (rs_table s)) found"
    using index_of [OF v] by blast
  show ?thesis
  proof (cases found)
    case (Some index)
    then have "d \<in> rq_destination ` set (rows (rs_table s))" using found(2) by (auto simp: finds_row_def)
    then show ?thesis using begin_held [OF ok] ok by simp
  next
    case None
    then have new: "d \<notin> rq_destination ` set (rows (rs_table s))" using found(2) by (auto simp: finds_row_def)
    from push_making_room [where ats_of = "rq_expires_ats Q" and time = rq_expires_at, OF v room columns(2) [OF v], of row]
    obtain t where t: "(case (if rq_capacity Q (rs_table s) \<le> length (rows (rs_table s))
          then evict_least (rq_expires_ats Q) (rq_swap_remove Q) (rs_table s) else Some (rs_table s)) of
        None \<Rightarrow> None | Some t \<Rightarrow> recursive_push_row (rq_push Q) row t) = Some t" "valid t" "rq_capacity Q t = rq_capacity Q (rs_table s)"
      "spec_push rq_expires_at (rq_capacity Q (rs_table s)) row (mset (rows (rs_table s))) (mset (rows t))"
      by blast
    have "mset (rows t) \<subseteq># mset (row # rows (rs_table s))" using spec_push_sub [OF t(4)] by simp
    then have "distinct (map rq_destination (rows t))" by (rule distinct_submset) (use new dist in \<open>simp add: row_def\<close>)
    note r = refresh [of "s\<lparr>rs_table := t\<rparr>", simplified, OF t(2) this]
    have "recursive_begin Q d i e s = Some (Opened, recursive_refresh_earliest_expiry Q (s\<lparr>rs_table := t\<rparr>))"
      using t(1) None found(1) v
      by (simp add: recursive_begin_def recursive_evict_soonest_expiring_def recursive_push_row_def row_def len cong: option.case_cong if_cong)
    then show ?thesis using r t new by simp
  qed
qed

lemma take_requester_spec:
  assumes ok: "recursive_ok rows valid s"
  shows "\<exists>s'. recursive_take_requester Q d s = Some (requester_of (rows (rs_table s)) d, s') \<and> recursive_ok rows valid s'
    \<and> rq_capacity Q (rs_table s') = rq_capacity Q (rs_table s)
    \<and> mset (rows (rs_table s')) = {#row \<in># mset (rows (rs_table s)). rq_destination row \<noteq> d#}"
proof -
  let ?rows = "rows (rs_table s)"
  have v: "valid (rs_table s)" and dist: "distinct (map rq_destination ?rows)" using ok by (simp_all add: recursive_ok_def)
  obtain found where found: "rq_index_of Q d (rs_table s) = Some found" "finds_row (\<lambda>row. rq_destination row = d) ?rows found"
    using index_of [OF v] by blast
  show ?thesis
  proof (cases found)
    case None
    then have none: "\<forall>row\<in>set ?rows. rq_destination row \<noteq> d" using found(2) by (simp add: finds_row_def)
    then have "requester_of ?rows d = None" by (auto simp: requester_of_def map_of_eq_None_iff)
    moreover have "{#row \<in># mset ?rows. rq_destination row \<noteq> d#} = mset ?rows" using none by (simp add: filter_mset_eq_conv)
    ultimately show ?thesis using None found(1) ok by (simp add: recursive_take_requester_def)
  next
    case (Some i)
    then have i: "i < length ?rows" "rq_destination (?rows ! i) = d" using found(2) by (simp_all add: finds_row_def)
    obtain t where t: "rq_swap_remove Q i (rs_table s) = Some t" "valid t" "rq_capacity Q t = rq_capacity Q (rs_table s)"
      "rows t = vec_swap_remove i ?rows" using swap_remove [OF v i(1)] by blast
    have "(d, rq_requesting_interface (?rows ! i)) \<in> set (map (\<lambda>row. (rq_destination row, rq_requesting_interface row)) ?rows)"
      using i by force
    moreover have "distinct (map fst (map (\<lambda>row. (rq_destination row, rq_requesting_interface row)) ?rows))"
      using dist by (simp add: o_def)
    ultimately have req: "requester_of ?rows d = Some (rq_requesting_interface (?rows ! i))"
      unfolding requester_of_def by (rule map_of_is_SomeI [rotated])
    have dist': "distinct (map rq_destination (rows t))" using set_vec_swap_remove(2) [OF i(1) dist] by (simp add: t(4))
    have "mset (rows t) = {#row \<in># mset ?rows. rq_destination row \<noteq> d#}"
      using remove_keyed_row [OF i(1) dist] i(2) by (simp add: t(4))
    then show ?thesis
      using refresh [of "s\<lparr>rs_table := t\<rparr>", simplified, OF t(2) dist'] t Some found(1) i v req
      by (simp add: recursive_take_requester_def columns)
  qed
qed

lemma cull_spec:
  assumes ok: "recursive_ok rows valid s"
  shows "\<exists>s'. recursive_cull_expired Q now s = Some s' \<and> recursive_ok rows valid s'
    \<and> rq_capacity Q (rs_table s') = rq_capacity Q (rs_table s)
    \<and> mset (rows (rs_table s')) = {#row \<in># mset (rows (rs_table s)). now < rq_expires_at row#}"
proof -
  have v: "valid (rs_table s)" and dist: "distinct (map rq_destination (rows (rs_table s)))" using ok by (simp_all add: recursive_ok_def)
  have "\<exists>t. evict_due (rq_len Q) (\<lambda>t index. rq_expires_ats Q t ! index \<le> now) (rq_swap_remove Q)
          (rq_first_expired Q now) (rq_prefers_linear_expiry_cull Q now) (rq_invalidate_expiry_index Q) (rs_table s) = Some t
      \<and> rows_removed rows valid (rq_capacity Q) (\<lambda>row. rq_expires_at row \<le> now) (rs_table s) t"
    by (rule evict_due_removes [OF _ _ first_expired prefers_linear invalidate v]) (simp_all add: len columns)
  then obtain t where t: "evict_due (rq_len Q) (\<lambda>t index. rq_expires_ats Q t ! index \<le> now) (rq_swap_remove Q)
          (rq_first_expired Q now) (rq_prefers_linear_expiry_cull Q now) (rq_invalidate_expiry_index Q) (rs_table s) = Some t"
    "valid t" "rq_capacity Q t = rq_capacity Q (rs_table s)" "mset (rows t) = {#row \<in># mset (rows (rs_table s)). now < rq_expires_at row#}"
    by (auto simp: rows_removed_def not_le)
  have "mset (rows t) \<subseteq># mset (rows (rs_table s))" unfolding t(4) by (rule multiset_filter_subset)
  then have "distinct (map rq_destination (rows t))" using dist by (rule distinct_submset)
  from refresh [of "s\<lparr>rs_table := t\<rparr>", simplified, OF t(2) this] show ?thesis using t by (simp add: recursive_cull_expired_def)
qed

text \<open>The first to ask is the one answered, once.\<close>

lemma first_requester_answered:
  assumes ok: "recursive_ok rows valid s" and room: "length (rows (rs_table s)) < HEAP_LEMIRE_MAX_ROWS" "0 < rq_capacity Q (rs_table s)"
    and new: "d \<notin> rq_destination ` set (rows (rs_table s))"
  shows "\<exists>s1 s2. recursive_begin Q d i e s = Some (Opened, s1) \<and> recursive_ok rows valid s1
    \<and> recursive_begin Q d i' e' s1 = Some (AlreadyInFlight, s1)
    \<and> recursive_contains Q d s1 = Some True
    \<and> recursive_take_requester Q d s1 = Some (Some i, s2) \<and> recursive_contains Q d s2 = Some False"
proof -
  let ?row = "\<lparr>rq_destination = d, rq_requesting_interface = i, rq_expires_at = e\<rparr>"
  obtain s1 where s1: "recursive_begin Q d i e s = Some (Opened, s1)" "recursive_ok rows valid s1"
    "spec_push rq_expires_at (rq_capacity Q (rs_table s)) ?row (mset (rows (rs_table s))) (mset (rows (rs_table s1)))"
    using begin_spec [OF ok room(1), of d i e] new by auto
  obtain K where "mset (rows (rs_table s1)) = add_mset ?row K" using spec_push_adds [OF s1(3) room(2)] by blast
  then have row: "?row \<in> set (rows (rs_table s1))" by (metis set_mset_mset union_single_eq_member)
  then have held: "d \<in> rq_destination ` set (rows (rs_table s1))" by force
  have "distinct (map fst (map (\<lambda>row. (rq_destination row, rq_requesting_interface row)) (rows (rs_table s1))))"
    using s1(2) by (simp add: recursive_ok_def o_def)
  moreover have "(d, i) \<in> set (map (\<lambda>row. (rq_destination row, rq_requesting_interface row)) (rows (rs_table s1)))"
    using row by force
  ultimately have req: "requester_of (rows (rs_table s1)) d = Some i" unfolding requester_of_def by (rule map_of_is_SomeI)
  obtain s2 where s2: "recursive_take_requester Q d s1 = Some (Some i, s2)" "recursive_ok rows valid s2"
    "mset (rows (rs_table s2)) = {#row \<in># mset (rows (rs_table s1)). rq_destination row \<noteq> d#}"
    using take_requester_spec [OF s1(2), of d] req by auto
  have "d \<notin> rq_destination ` set (rows (rs_table s2))" using arg_cong [OF s2(3), of set_mset] by auto
  then show ?thesis
    using s1(1,2) s2(1) held contains_spec [OF s1(2), of d] contains_spec [OF s2(2), of d] begin_held [OF s1(2), of d i' e'] by auto
qed

end


section \<open>Both tables keep the contract\<close>

definition recursive_rows :: "destination_hash list \<Rightarrow> interface_id list \<Rightarrow> instant_millis list \<Rightarrow> recursive_path_request list" where
  "recursive_rows keys bs cs = map (\<lambda>(a, b, c). \<lparr>rq_destination = a, rq_requesting_interface = b, rq_expires_at = c\<rparr>) (zip keys (zip bs cs))"

lemma recursive_rows_columns:
  assumes "length bs = length keys" "length cs = length keys"
  shows "length (recursive_rows keys bs cs) = length keys"
    "map rq_destination (recursive_rows keys bs cs) = keys"
    "map rq_requesting_interface (recursive_rows keys bs cs) = bs"
    "map rq_expires_at (recursive_rows keys bs cs) = cs"
  using assms by (auto simp: recursive_rows_def intro!: nth_equalityI)

lemma recursive_rows_push:
  assumes "length bs = length keys" "length cs = length keys"
  shows "recursive_rows (keys @ [rq_destination row]) (bs @ [rq_requesting_interface row]) (cs @ [rq_expires_at row]) = recursive_rows keys bs cs @ [row]"
  using assms by (simp add: recursive_rows_def)

lemma recursive_rows_swap_remove:
  assumes "length bs = length keys" "length cs = length keys" "i < length keys"
  shows "recursive_rows (vec_swap_remove i keys) (vec_swap_remove i bs) (vec_swap_remove i cs) = vec_swap_remove i (recursive_rows keys bs cs)"
  using assms by (simp add: recursive_rows_def table_simps)

definition fixed_recursive_ok :: "fixed_recursive_table \<Rightarrow> bool" where
  "fixed_recursive_ok t =
     (let n = fixed_recursive_capacity t in fq_len t \<le> n \<and> length (fq_requesting_interfaces t) = n \<and> length (fq_expires_ats t) = n)"

definition fixed_recursive_rows :: "fixed_recursive_table \<Rightarrow> recursive_path_request list" where
  "fixed_recursive_rows t =
     (let n = fq_len t in recursive_rows (take n (fq_destinations t)) (take n (fq_requesting_interfaces t)) (take n (fq_expires_ats t)))"

lemma fixed_recursive_okD:
  assumes "fixed_recursive_ok t"
  shows "fq_len t \<le> length (fq_destinations t)" "length (fq_requesting_interfaces t) = length (fq_destinations t)" "length (fq_expires_ats t) = length (fq_destinations t)"
  using assms by (simp_all add: fixed_recursive_ok_def fixed_recursive_capacity_def Let_def)

lemma fixed_recursive_bound: "fixed_recursive_ok t \<Longrightarrow> fq_len t \<le> fixed_recursive_capacity t"
  by (simp add: fixed_recursive_ok_def Let_def)

lemma fixed_recursive_push_full: "fixed_recursive_capacity t \<le> fq_len t \<Longrightarrow> fixed_recursive_push (rq_destination row) (rq_requesting_interface row) (rq_expires_at row) t = Some (t)"
  by (simp add: fixed_recursive_push_def)

lemma fixed_recursive_default_ok: "fixed_recursive_ok (fixed_recursive_default n)" "fixed_recursive_rows (fixed_recursive_default n) = []"
  by (simp_all add: fixed_recursive_ok_def fixed_recursive_default_def fixed_recursive_capacity_def fixed_recursive_rows_def recursive_rows_def Let_def)

lemma fixed_recursive_columns:
  assumes "fixed_recursive_ok t"
  shows "length (fixed_recursive_rows t) = fq_len t"
    "take (fq_len t) (fq_destinations t) = map rq_destination (fixed_recursive_rows t)"
    "take (fq_len t) (fq_requesting_interfaces t) = map rq_requesting_interface (fixed_recursive_rows t)"
    "take (fq_len t) (fq_expires_ats t) = map rq_expires_at (fixed_recursive_rows t)"
  using fixed_recursive_okD [OF assms] by (simp_all add: fixed_recursive_rows_def Let_def recursive_rows_columns)

lemma fixed_recursive_swap_remove_rows:
  assumes ok: "fixed_recursive_ok t" and i: "i < fq_len t"
  shows "\<exists>t'. fixed_recursive_swap_remove i t = Some t' \<and> fixed_recursive_ok t' \<and> fixed_recursive_capacity t' = fixed_recursive_capacity t
    \<and> fixed_recursive_rows t' = vec_swap_remove i (fixed_recursive_rows t)"
proof -
  note D = fixed_recursive_okD [OF ok]
  have pos: "0 < fq_len t" using i by linarith
  let ?u = "the (fixed_recursive_swap_remove i t)"
  have "fixed_recursive_rows ?u = vec_swap_remove i (fixed_recursive_rows t)"
  proof (cases "i = fq_len t - 1")
    case True
    then show ?thesis using D pos
      by (simp add: fixed_recursive_rows_def fixed_recursive_swap_remove_def Let_def take_column_removed(2) recursive_rows_swap_remove)
  next
    case False
    then show ?thesis using D i
      by (simp add: fixed_recursive_rows_def fixed_recursive_swap_remove_def Let_def take_column_removed(1) recursive_rows_swap_remove)
  qed
  moreover have "fixed_recursive_ok ?u" "fixed_recursive_capacity ?u = fixed_recursive_capacity t"
    using D by (auto simp: fixed_recursive_ok_def fixed_recursive_swap_remove_def fixed_recursive_capacity_def Let_def)
  ultimately show ?thesis by (simp add: fixed_recursive_swap_remove_def)
qed

lemma fixed_recursive_push_rows:
  assumes ok: "fixed_recursive_ok t" and room: "fq_len t < fixed_recursive_capacity t"
  shows "\<exists>t'. fixed_recursive_push (rq_destination row) (rq_requesting_interface row) (rq_expires_at row) t = Some (t') \<and> fixed_recursive_ok t' \<and> fixed_recursive_capacity t' = fixed_recursive_capacity t
    \<and> fixed_recursive_rows t' = fixed_recursive_rows t @ [row]"
proof -
  note D = fixed_recursive_okD [OF ok]
  have lt: "fq_len t < length (fq_destinations t)" using room by (simp add: fixed_recursive_capacity_def)
  let ?u = "the (fixed_recursive_push (rq_destination row) (rq_requesting_interface row) (rq_expires_at row) t)"
  have "fixed_recursive_rows ?u = fixed_recursive_rows t @ [row]"
    using D lt room by (simp add: fixed_recursive_rows_def fixed_recursive_push_def Let_def take_column_push recursive_rows_push)
  moreover have "fixed_recursive_ok ?u" "fixed_recursive_capacity ?u = fixed_recursive_capacity t"
    using D lt by (auto simp: fixed_recursive_ok_def fixed_recursive_push_def fixed_recursive_capacity_def Let_def)
  ultimately show ?thesis using room by (simp add: fixed_recursive_push_def Let_def)
qed

lemma fixed_recursive_sel:
  "rq_capacity fixed_recursive = fixed_recursive_capacity" "rq_swap_remove fixed_recursive = fixed_recursive_swap_remove"
  "rq_push fixed_recursive = fixed_recursive_push"
  by (simp_all add: fixed_recursive_def)

interpretation fixed_recursive_swap: swap_rows fixed_recursive_rows fixed_recursive_ok fixed_recursive_capacity fixed_recursive_swap_remove
  by unfold_locales (simp add: fixed_recursive_swap_remove_rows fixed_recursive_columns(1))

interpretation fixed_recursive_push: pushed_rows fixed_recursive_rows fixed_recursive_ok fixed_recursive_capacity
  fixed_recursive_swap_remove "recursive_push_row fixed_recursive_push"
  by unfold_locales (simp_all add: recursive_push_row_def fixed_recursive_push_rows fixed_recursive_push_full fixed_recursive_bound
      fixed_recursive_columns(1))

interpretation fixed_recursive_rt: recursive_rows_table fixed_recursive fixed_recursive_rows fixed_recursive_ok
proof (intro recursive_rows_table.intro, unfold fixed_recursive_sel, rule fixed_recursive_push.pushed_rows_axioms,
    unfold_locales, unfold fixed_recursive_sel, goal_cases)
  case (4 t d)
  then show ?case using finds_row_position [of "\<lambda>row. rq_destination row = d" "fixed_recursive_rows t"]
    by (simp add: fixed_recursive_def fixed_recursive_columns(2) position_map)
next
  case (6 t now)
  then show ?case using finds_row_position [of "\<lambda>row. rq_expires_at row \<le> now" "fixed_recursive_rows t"]
    by (simp add: fixed_recursive_def fixed_recursive_columns(4) position_map)
qed (auto simp: fixed_recursive_def fixed_recursive_columns)

definition heap_recursive_ok :: "heap_recursive_table \<Rightarrow> bool" where
  "heap_recursive_ok t =
     (let n = length (hq_destinations t)
      in length (hq_requesting_interfaces t) = n \<and> length (hq_expires_ats t) = n
         \<and> rows_indexed (hq_destinations t) (heap_recursive_deadline t) (hq_index t) (hq_expiry_index t))"

definition heap_recursive_rows :: "heap_recursive_table \<Rightarrow> recursive_path_request list" where
  "heap_recursive_rows t = recursive_rows (hq_destinations t) (hq_requesting_interfaces t) (hq_expires_ats t)"

lemma heap_recursive_okD:
  assumes "heap_recursive_ok t"
  shows "length (hq_requesting_interfaces t) = length (hq_destinations t)" "length (hq_expires_ats t) = length (hq_destinations t)"
    and heap_recursive_indexed: "rows_indexed (hq_destinations t) (column_deadline Some (hq_expires_ats t)) (hq_index t) (hq_expiry_index t)"
    and heap_recursive_dx: "dx_ok (column_deadline Some (hq_expires_ats t)) (length (hq_expires_ats t)) (hq_expiry_index t)"
    and heap_recursive_len: "length (hq_destinations t) \<le> HEAP_LEMIRE_MAX_ROWS"
  using assms rows_indexed_len [of "hq_destinations t"]
  by (auto simp: heap_recursive_ok_def heap_recursive_deadline_def rows_indexed_def Let_def)

lemma heap_recursive_bound:
  assumes "heap_recursive_ok t"
  shows "length (hq_destinations t) < USIZE_MAX"
  using heap_recursive_len [OF assms] by (simp add: HEAP_LEMIRE_MAX_ROWS_def USIZE_MAX_def)

lemma heap_recursive_default_ok: "heap_recursive_ok heap_recursive_default" "heap_recursive_rows heap_recursive_default = []"
  by (simp_all add: heap_recursive_ok_def heap_recursive_default_def heap_recursive_rows_def recursive_rows_def rows_indexed_empty)

lemma heap_recursive_columns:
  assumes "heap_recursive_ok t"
  shows "length (heap_recursive_rows t) = length (hq_destinations t)"
    "map rq_destination (heap_recursive_rows t) = hq_destinations t"
    "map rq_requesting_interface (heap_recursive_rows t) = hq_requesting_interfaces t"
    "map rq_expires_at (heap_recursive_rows t) = hq_expires_ats t"
  using heap_recursive_okD [OF assms] by (simp_all add: heap_recursive_rows_def recursive_rows_columns)

lemma heap_recursive_with_index:
  assumes "heap_recursive_ok t" "dx_ok (column_deadline Some (hq_expires_ats t)) (length (hq_expires_ats t)) dx"
  shows "heap_recursive_ok (t\<lparr>hq_expiry_index := dx\<rparr>)" "heap_recursive_rows (t\<lparr>hq_expiry_index := dx\<rparr>) = heap_recursive_rows t"
  using assms by (simp_all add: heap_recursive_ok_def heap_recursive_rows_def heap_recursive_deadline_def rows_indexed_def Let_def)

lemma heap_recursive_push_rows:
  assumes ok: "heap_recursive_ok t" and room: "length (hq_destinations t) < HEAP_LEMIRE_MAX_ROWS"
  shows "\<exists>t'. heap_recursive_push (rq_destination row) (rq_requesting_interface row) (rq_expires_at row) t = Some (t') \<and> heap_recursive_ok t'
    \<and> heap_recursive_rows t' = heap_recursive_rows t @ [row]"
proof -
  note D = heap_recursive_okD [OF ok]
  let ?D = "column_deadline Some (hq_expires_ats t @ [rq_expires_at row])"
  have len: "length (hq_expires_ats t) = length (hq_destinations t)" by (simp add: D)
  have "\<forall>r<length (hq_destinations t). ?D r = column_deadline Some (hq_expires_ats t) r"
    using column_deadline_push(1) [of _ "hq_expires_ats t" Some] unfolding len by blast
  from rows_indexed_push [OF heap_recursive_indexed [OF ok] room this, of "rq_destination row"] obtain index where
    index: "heap_lemire_insert destination_rows (hq_index t) (length (hq_destinations t)) (hq_destinations t @ [rq_destination row]) = Some index"
      "rows_indexed (hq_destinations t @ [rq_destination row]) ?D index
        (dx_insert ?D (length (hq_destinations t)) (Some (rq_expires_at row)) (hq_expiry_index t))"
    using column_deadline_push(2) [of Some "hq_expires_ats t"] unfolding len by auto
  let ?u = "the (heap_recursive_push (rq_destination row) (rq_requesting_interface row) (rq_expires_at row) t)"
  have "heap_recursive_ok ?u"
    using index D by (simp add: heap_recursive_ok_def heap_recursive_push_def heap_recursive_deadline_def Let_def)
  moreover have "heap_recursive_rows ?u = heap_recursive_rows t @ [row]"
    using index(1) D by (simp add: heap_recursive_rows_def heap_recursive_push_def Let_def recursive_rows_push)
  ultimately show ?thesis using index(1) by (simp add: heap_recursive_push_def Let_def)
qed

lemma heap_recursive_swap_remove_rows:
  assumes ok: "heap_recursive_ok t" and i: "i < length (hq_destinations t)"
  shows "\<exists>t'. heap_recursive_swap_remove i t = Some t' \<and> heap_recursive_ok t'
    \<and> heap_recursive_rows t' = vec_swap_remove i (heap_recursive_rows t)"
proof -
  note D = heap_recursive_okD [OF ok]
  let ?ds = "hq_destinations t" and ?ats = "hq_expires_ats t"
  have "\<forall>q<length ?ds - 1. column_deadline Some (vec_swap_remove i ?ats) q =
      (if q = i then column_deadline Some ?ats (length ?ds - 1) else column_deadline Some ?ats q)"
    using i D column_deadline_swap_remove [of i ?ats _ Some] by simp
  from rows_indexed_swap_remove [OF heap_recursive_indexed [OF ok] i this] obtain slots1 slots2 where
    s: "heap_lemire_remove_slot destination_rows (hq_index t) i ?ds = Some slots1"
      "(if i \<noteq> length ?ds - 1 then heap_lemire_repoint_slot destination_rows slots1 (length ?ds - 1) i ?ds else Some slots1) = Some slots2"
      "rows_indexed (vec_swap_remove i ?ds) (column_deadline Some (vec_swap_remove i ?ats)) slots2
        (dx_swap_remove (column_deadline Some ?ats) i (length ?ds - 1) (hq_expiry_index t))"
    by blast
  let ?u = "the (heap_recursive_swap_remove i t)"
  have u: "heap_recursive_swap_remove i t = Some (t\<lparr>hq_index := slots2,
      hq_expiry_index := dx_swap_remove (heap_recursive_deadline t) i (length ?ds - 1) (hq_expiry_index t),
      hq_destinations := vec_swap_remove i (hq_destinations t),
      hq_requesting_interfaces := vec_swap_remove i (hq_requesting_interfaces t),
      hq_expires_ats := vec_swap_remove i (hq_expires_ats t)\<rparr>)"
    using i s(1,2) by (simp add: heap_recursive_swap_remove_def Let_def split: if_splits)
  have "heap_recursive_ok ?u"
    using s(3) D unfolding u by (simp add: heap_recursive_ok_def heap_recursive_deadline_def Let_def)
  moreover have "heap_recursive_rows ?u = vec_swap_remove i (heap_recursive_rows t)"
    using i D unfolding u by (simp add: heap_recursive_rows_def recursive_rows_swap_remove)
  ultimately show ?thesis using u by simp
qed

lemma heap_recursive_index_of_rows:
  assumes "heap_recursive_ok t"
  shows "\<exists>found. heap_recursive_index_of d t = Some found \<and> finds_row (\<lambda>row. rq_destination row = d) (heap_recursive_rows t) found"
  using rows_indexed_lookup [OF heap_recursive_indexed [OF assms], of d]
    finds_row_map [of "\<lambda>c. c = d" rq_destination "heap_recursive_rows t"]
  by (simp add: heap_recursive_index_of_def heap_recursive_columns(2) [OF assms])

lemma heap_recursive_first_due_rows:
  assumes ok: "heap_recursive_ok t"
  shows "heap_recursive_ok (snd (heap_recursive_first_due now t)) \<and> heap_recursive_rows (snd (heap_recursive_first_due now t)) = heap_recursive_rows t
    \<and> finds_row (\<lambda>row. falls_due Some now (rq_expires_at row)) (heap_recursive_rows t) (fst (heap_recursive_first_due now t))"
proof -
  let ?q = "dx_first_due (column_deadline Some (hq_expires_ats t)) (length (hq_expires_ats t)) now (hq_expiry_index t)"
  note q = column_first_due [OF heap_recursive_dx [OF ok], of now]
  have "heap_recursive_first_due now t = (fst ?q, t\<lparr>hq_expiry_index := snd ?q\<rparr>)"
    by (simp add: heap_recursive_first_due_def heap_recursive_deadline_def split_beta)
  then show ?thesis
    using q(1) heap_recursive_with_index [OF ok q(2)]
      finds_row_map [of "falls_due Some now" rq_expires_at "heap_recursive_rows t" "fst ?q"]
    by (simp add: heap_recursive_columns [OF ok])
qed

lemma heap_recursive_prefers_rows:
  assumes ok: "heap_recursive_ok t"
  shows "\<exists>linear t'. heap_recursive_prefers_linear now t = Some (linear, t') \<and> heap_recursive_ok t' \<and> heap_recursive_rows t' = heap_recursive_rows t"
proof -
  from column_prefers [OF heap_recursive_dx [OF ok], of now] obtain linear dx where
    "dx_prefers_linear_cull (column_deadline Some (hq_expires_ats t)) (length (hq_expires_ats t)) now (hq_expiry_index t) = Some (linear, dx)"
    "dx_ok (column_deadline Some (hq_expires_ats t)) (length (hq_expires_ats t)) dx" by blast
  then show ?thesis using heap_recursive_with_index [OF ok, of dx]
    by (simp add: heap_recursive_prefers_linear_def heap_recursive_deadline_def)
qed

lemma heap_recursive_invalidate_rows:
  assumes ok: "heap_recursive_ok t"
  shows "heap_recursive_ok (heap_recursive_invalidate t) \<and> heap_recursive_rows (heap_recursive_invalidate t) = heap_recursive_rows t"
  using heap_recursive_with_index [OF ok dx_invalidate_ok] by (simp add: heap_recursive_invalidate_def)

lemma heap_recursive_earliest_rows:
  assumes ok: "heap_recursive_ok t"
  shows "heap_recursive_ok (snd (heap_recursive_earliest t)) \<and> heap_recursive_rows (snd (heap_recursive_earliest t)) = heap_recursive_rows t
    \<and> fst (heap_recursive_earliest t) = column_min (map rq_expires_at (heap_recursive_rows t))"
proof -
  note q = column_earliest [OF heap_recursive_dx [OF ok]]
  show ?thesis using q(1) heap_recursive_with_index [OF ok q(2)]
    by (simp add: heap_recursive_earliest_def heap_recursive_deadline_def split_beta heap_recursive_columns [OF ok])
qed

lemma heap_recursive_sel:
  "rq_capacity heap_recursive = (\<lambda>_. USIZE_MAX)" "rq_swap_remove heap_recursive = heap_recursive_swap_remove"
  "rq_push heap_recursive = heap_recursive_push" "rq_index_of heap_recursive = heap_recursive_index_of"
  "rq_earliest_indexed_expiry heap_recursive = heap_recursive_earliest" "rq_first_expired heap_recursive = heap_recursive_first_due"
  "rq_prefers_linear_expiry_cull heap_recursive = heap_recursive_prefers_linear"
  "rq_invalidate_expiry_index heap_recursive = heap_recursive_invalidate"
  by (simp_all add: heap_recursive_def)

interpretation heap_recursive_swap: swap_rows heap_recursive_rows heap_recursive_ok "\<lambda>_. USIZE_MAX" heap_recursive_swap_remove
  by unfold_locales (simp add: heap_recursive_swap_remove_rows heap_recursive_columns(1))

interpretation heap_recursive_push: pushed_rows heap_recursive_rows heap_recursive_ok "\<lambda>_. USIZE_MAX"
  heap_recursive_swap_remove "recursive_push_row heap_recursive_push"
  by unfold_locales
    (use heap_recursive_bound in \<open>fastforce simp: recursive_push_row_def heap_recursive_push_rows heap_recursive_columns(1)\<close>)+

interpretation heap_recursive_rt: recursive_rows_table heap_recursive heap_recursive_rows heap_recursive_ok
proof (intro recursive_rows_table.intro, unfold heap_recursive_sel, rule heap_recursive_push.pushed_rows_axioms,
    unfold_locales, unfold heap_recursive_sel, goal_cases)
  case (4 t d)
  then show ?case by (rule heap_recursive_index_of_rows)
next
  case (5 t)
  then show ?case using heap_recursive_earliest_rows by simp
next
  case (6 t now)
  then show ?case using heap_recursive_first_due_rows [of t now] by simp
next
  case (7 t now)
  then show ?case using heap_recursive_prefers_rows [of t now] by simp
next
  case (8 t)
  then show ?case using heap_recursive_invalidate_rows [of t] by simp
qed (simp_all add: heap_recursive_def heap_recursive_columns)

section \<open>Properties of recursive requests\<close>

definition recursive_start :: "'t \<Rightarrow> 't recursive_path_requests" where
  "recursive_start t = \<lparr>rs_table = t, rs_earliest_expiry = None\<rparr>"

lemma recursive_start_ok:
  "recursive_ok heap_recursive_rows heap_recursive_ok (recursive_start heap_recursive_default)"
  "recursive_ok fixed_recursive_rows fixed_recursive_ok (recursive_start (fixed_recursive_default n))"
  by (simp_all add: recursive_ok_def recursive_start_def heap_recursive_default_ok fixed_recursive_default_ok column_min_def)

text \<open>
  C19. At most one request is in flight for a destination, and the answer goes to the interface that asked
  first. In either table, opening a request for a destination without one succeeds; another request for it is
  turned away while it is in flight; the answer is sent to the interface that opened it, and to it only once.
  Culling removes exactly the requests that have expired.
\<close>

theorem recursive_requests_answer_first:
  assumes "recursive_ok heap_recursive_rows heap_recursive_ok h" "length (heap_recursive_rows (rs_table h)) < HEAP_LEMIRE_MAX_ROWS"
    and "d \<notin> rq_destination ` set (heap_recursive_rows (rs_table h))"
    and "recursive_ok fixed_recursive_rows fixed_recursive_ok f" "length (fixed_recursive_rows (rs_table f)) < HEAP_LEMIRE_MAX_ROWS"
    and "d \<notin> rq_destination ` set (fixed_recursive_rows (rs_table f))" "0 < fixed_recursive_capacity (rs_table f)"
  shows "(\<exists>h1 h2. recursive_begin heap_recursive d i e h = Some (Opened, h1)
        \<and> recursive_begin heap_recursive d i' e' h1 = Some (AlreadyInFlight, h1)
        \<and> recursive_take_requester heap_recursive d h1 = Some (Some i, h2) \<and> recursive_contains heap_recursive d h2 = Some False)
    \<and> (\<exists>f1 f2. recursive_begin fixed_recursive d i e f = Some (Opened, f1)
        \<and> recursive_begin fixed_recursive d i' e' f1 = Some (AlreadyInFlight, f1)
        \<and> recursive_take_requester fixed_recursive d f1 = Some (Some i, f2) \<and> recursive_contains fixed_recursive d f2 = Some False)
    \<and> (\<exists>h1. recursive_cull_expired heap_recursive now h = Some h1
        \<and> mset (heap_recursive_rows (rs_table h1)) = {#row \<in># mset (heap_recursive_rows (rs_table h)). now < rq_expires_at row#})
    \<and> (\<exists>f1. recursive_cull_expired fixed_recursive now f = Some f1
        \<and> mset (fixed_recursive_rows (rs_table f1)) = {#row \<in># mset (fixed_recursive_rows (rs_table f)). now < rq_expires_at row#})"
proof (intro conjI, goal_cases)
  case 1
  then show ?case using heap_recursive_rt.first_requester_answered [OF assms(1,2) _ assms(3), of i e i' e']
    unfolding heap_recursive_sel by (auto simp: USIZE_MAX_def)
next
  case 2
  then show ?case using fixed_recursive_rt.first_requester_answered [OF assms(4,5) _ assms(6), of i e i' e'] assms(7)
    unfolding fixed_recursive_sel by blast
next
  case 3
  then show ?case using heap_recursive_rt.cull_spec [OF assms(1), of now] by blast
next
  case 4
  then show ?case using fixed_recursive_rt.cull_spec [OF assms(4), of now] by blast
qed

theorem recursive_requests_answer_first_witness:
  "\<exists>h1 h2. recursive_begin heap_recursive (DestinationHash (replicate 16 7)) (InterfaceId (replicate 8 1)) 100
       (recursive_start heap_recursive_default) = Some (Opened, h1)
     \<and> recursive_take_requester heap_recursive (DestinationHash (replicate 16 7)) h1 = Some (Some (InterfaceId (replicate 8 1)), h2)"
proof -
  have rows: "heap_recursive_rows (rs_table (recursive_start heap_recursive_default)) = []"
    "fixed_recursive_rows (rs_table (recursive_start (fixed_recursive_default 1))) = []"
    by (simp_all add: recursive_start_def heap_recursive_default_ok fixed_recursive_default_ok)
  have cap: "0 < fixed_recursive_capacity (rs_table (recursive_start (fixed_recursive_default 1)))"
    by (simp add: recursive_start_def fixed_recursive_capacity_def fixed_recursive_default_def)
  from recursive_requests_answer_first [OF recursive_start_ok(1) _ _ recursive_start_ok(2) _ _ cap] show ?thesis
    unfolding rows by (simp add: HEAP_LEMIRE_MAX_ROWS_def) blast
qed

end
