(* ===== verification/Recent_Requests.thy ===== *)
theory Recent_Requests
  imports Row_Indexes
begin

text \<open>
  When a path was last asked for (\<^verbatim>\<open>prns-core/src/routing/path_requests/recent/core.rs\<close>), so that it is not asked for
  again within \<open>PATH_REQUEST_MIN_INTERVAL_MS\<close>: the trait \<open>RecentPathRequestTable\<close>, its two implementations
  (\<^verbatim>\<open>recent/impls\<close>), and the operations of \<open>RecentPathRequests\<close>.
\<close>

section \<open>The trait\<close>

definition PATH_REQUEST_MIN_INTERVAL_MS :: u64 where
  "PATH_REQUEST_MIN_INTERVAL_MS = 20 * 1000"

definition aged_out :: "instant_millis \<Rightarrow> instant_millis \<Rightarrow> bool" where
  "aged_out requested_at now = (saturating_sub now requested_at \<ge> PATH_REQUEST_MIN_INTERVAL_MS)"

text \<open>\<open>checked_add\<close>: no deadline when the sum does not fit.\<close>

definition recent_expires_at :: "instant_millis \<Rightarrow> instant_millis option" where
  "recent_expires_at requested_at =
     (if unat requested_at + unat PATH_REQUEST_MIN_INTERVAL_MS < 2 ^ 64
      then Some (requested_at + PATH_REQUEST_MIN_INTERVAL_MS) else None)"

text \<open>The columns of a row.\<close>

record recent_path_request =
  rn_destination :: destination_hash
  rn_requested_at :: instant_millis

record 't recent_table =
  rn_capacity :: "'t \<Rightarrow> nat"
  rn_len :: "'t \<Rightarrow> nat"
  rn_requested_ats :: "'t \<Rightarrow> instant_millis list"
  rn_push :: "destination_hash \<Rightarrow> instant_millis \<Rightarrow> 't \<Rightarrow> 't option"
  rn_swap_remove :: "nat \<Rightarrow> 't \<Rightarrow> 't option"
  rn_index_of :: "destination_hash \<Rightarrow> 't \<Rightarrow> nat option option"
  rn_first_stale :: "instant_millis \<Rightarrow> 't \<Rightarrow> nat option \<times> 't"
  rn_prefers_linear_stale_cull :: "instant_millis \<Rightarrow> 't \<Rightarrow> (bool \<times> 't) option"
  rn_invalidate_stale_index :: "'t \<Rightarrow> 't"

section \<open>The operations\<close>

definition recent_evict_stale :: "'t recent_table \<Rightarrow> instant_millis \<Rightarrow> 't \<Rightarrow> 't option" where
  "recent_evict_stale N now t =
     evict_due (rn_len N) (\<lambda>t index. aged_out (rn_requested_ats N t ! index) now) (rn_swap_remove N)
       (rn_first_stale N now) (rn_prefers_linear_stale_cull N now) (rn_invalidate_stale_index N) t"

definition recent_evict_oldest :: "'t recent_table \<Rightarrow> 't \<Rightarrow> 't option" where
  "recent_evict_oldest N t = evict_least (rn_requested_ats N) (rn_swap_remove N) t"

definition recent_mark_seen_at :: "'t recent_table \<Rightarrow> destination_hash \<Rightarrow> instant_millis \<Rightarrow> 't \<Rightarrow> 't option" where
  "recent_mark_seen_at N destination now t =
     (case rn_index_of N destination t of
        None \<Rightarrow> None
      | Some found \<Rightarrow>
          (case (case found of Some index \<Rightarrow> rn_swap_remove N index t | None \<Rightarrow> Some t) of
             None \<Rightarrow> None
           | Some t \<Rightarrow>
               (case recent_evict_stale N now t of
                  None \<Rightarrow> None
                | Some t \<Rightarrow>
                    (case (if rn_len N t \<ge> rn_capacity N t then recent_evict_oldest N t else Some t) of
                       None \<Rightarrow> None
                     | Some t \<Rightarrow> rn_push N destination now t))))"

definition recent_is_throttled :: "'t recent_table \<Rightarrow> destination_hash \<Rightarrow> instant_millis \<Rightarrow> 't \<Rightarrow> bool option" where
  "recent_is_throttled N destination now t =
     map_option (\<lambda>found. case found of Some index \<Rightarrow> \<not> aged_out (rn_requested_ats N t ! index) now | None \<Rightarrow> False)
       (rn_index_of N destination t)"

section \<open>The fixed-size table\<close>

record fixed_recent_table =
  fn_len :: nat
  fn_destinations :: "destination_hash list"
  fn_requested_ats :: "instant_millis list"

definition fixed_recent_default :: "nat \<Rightarrow> fixed_recent_table" where
  "fixed_recent_default max_recent_path_requests =
     \<lparr>fn_len = 0,
      fn_destinations = replicate max_recent_path_requests (DestinationHash (replicate 16 0)),
      fn_requested_ats = replicate max_recent_path_requests 0\<rparr>"

text \<open>\<open>MAX_RECENT_PATH_REQUESTS\<close> is the length every column has.\<close>

definition fixed_recent_capacity :: "fixed_recent_table \<Rightarrow> nat" where
  "fixed_recent_capacity t = length (fn_destinations t)"

definition fixed_recent_push :: "destination_hash \<Rightarrow> instant_millis \<Rightarrow> fixed_recent_table \<Rightarrow> fixed_recent_table option" where
  "fixed_recent_push destination requested_at t =
     Some (if fn_len t \<ge> fixed_recent_capacity t then t
      else
        let i = fn_len t
        in t\<lparr>fn_destinations := (fn_destinations t)[i := destination],
             fn_requested_ats := (fn_requested_ats t)[i := requested_at],
             fn_len := fn_len t + 1\<rparr>)"

definition fixed_recent_swap_remove :: "nat \<Rightarrow> fixed_recent_table \<Rightarrow> fixed_recent_table option" where
  "fixed_recent_swap_remove index t =
     Some (let lst = fn_len t - 1;
               t = (if index \<noteq> lst
                    then t\<lparr>fn_destinations := (fn_destinations t)[index := fn_destinations t ! lst],
                           fn_requested_ats := (fn_requested_ats t)[index := fn_requested_ats t ! lst]\<rparr>
                    else t)
           in t\<lparr>fn_len := lst\<rparr>)"

definition fixed_recent :: "fixed_recent_table recent_table" where
  "fixed_recent =
     \<lparr>rn_capacity = fixed_recent_capacity, rn_len = fn_len,
      rn_requested_ats = (\<lambda>t. take (fn_len t) (fn_requested_ats t)),
      rn_push = fixed_recent_push, rn_swap_remove = fixed_recent_swap_remove,
      rn_index_of = (\<lambda>d t. Some (position (\<lambda>candidate. candidate = d) (take (fn_len t) (fn_destinations t)))),
      rn_first_stale = (\<lambda>now t. (position (\<lambda>requested_at. aged_out requested_at now) (take (fn_len t) (fn_requested_ats t)), t)),
      rn_prefers_linear_stale_cull = (\<lambda>now t. Some (True, t)),
      rn_invalidate_stale_index = (\<lambda>t. t)\<rparr>"

section \<open>The growable table\<close>

record heap_recent_table =
  hn_destinations :: "destination_hash list"
  hn_requested_ats :: "instant_millis list"
  hn_index :: "u32 list"
  hn_expiry_index :: deadline_index

definition heap_recent_default :: heap_recent_table where
  "heap_recent_default =
     \<lparr>hn_destinations = [], hn_requested_ats = [],
      hn_index = heap_lemire_default, hn_expiry_index = deadline_index_default\<rparr>"

definition heap_recent_deadline :: "heap_recent_table \<Rightarrow> deadlines" where
  "heap_recent_deadline t = column_deadline recent_expires_at (hn_requested_ats t)"

definition heap_recent_index_of :: "destination_hash \<Rightarrow> heap_recent_table \<Rightarrow> nat option option" where
  "heap_recent_index_of destination t = heap_lemire_get destination_rows (hn_index t) destination (hn_destinations t)"

definition heap_recent_first_due :: "instant_millis \<Rightarrow> heap_recent_table \<Rightarrow> nat option \<times> heap_recent_table" where
  "heap_recent_first_due now t =
     (let (found, index) = dx_first_due (heap_recent_deadline t) (length (hn_requested_ats t)) now (hn_expiry_index t)
      in (found, t\<lparr>hn_expiry_index := index\<rparr>))"

definition heap_recent_prefers_linear :: "instant_millis \<Rightarrow> heap_recent_table \<Rightarrow> (bool \<times> heap_recent_table) option" where
  "heap_recent_prefers_linear now t =
     map_option (\<lambda>(linear, index). (linear, t\<lparr>hn_expiry_index := index\<rparr>))
       (dx_prefers_linear_cull (heap_recent_deadline t) (length (hn_requested_ats t)) now (hn_expiry_index t))"

definition heap_recent_invalidate :: "heap_recent_table \<Rightarrow> heap_recent_table" where
  "heap_recent_invalidate t = t\<lparr>hn_expiry_index := dx_invalidate (hn_expiry_index t)\<rparr>"

definition heap_recent_push :: "destination_hash \<Rightarrow> instant_millis \<Rightarrow> heap_recent_table \<Rightarrow> heap_recent_table option" where
  "heap_recent_push destination requested_at t =
     (let row = length (hn_destinations t);
          t = t\<lparr>hn_destinations := hn_destinations t @ [destination],
                hn_requested_ats := hn_requested_ats t @ [requested_at]\<rparr>
      in map_option
           (\<lambda>index. t\<lparr>hn_index := index,
              hn_expiry_index := dx_insert (heap_recent_deadline t) row (recent_expires_at requested_at) (hn_expiry_index t)\<rparr>)
           (heap_lemire_insert destination_rows (hn_index t) row (hn_destinations t)))"

definition heap_recent_swap_remove :: "nat \<Rightarrow> heap_recent_table \<Rightarrow> heap_recent_table option" where
  "heap_recent_swap_remove i t =
     (if i \<ge> length (hn_destinations t) then Some t
      else
        let lst = length (hn_destinations t) - 1
        in case heap_lemire_remove_slot destination_rows (hn_index t) i (hn_destinations t) of
             None \<Rightarrow> None
           | Some index \<Rightarrow>
               (case (if i \<noteq> lst then heap_lemire_repoint_slot destination_rows index lst i (hn_destinations t) else Some index) of
                  None \<Rightarrow> None
                | Some index \<Rightarrow>
                    Some (t\<lparr>hn_index := index,
                      hn_expiry_index := dx_swap_remove (heap_recent_deadline t) i lst (hn_expiry_index t),
                      hn_destinations := vec_swap_remove i (hn_destinations t),
                      hn_requested_ats := vec_swap_remove i (hn_requested_ats t)\<rparr>)))"

definition heap_recent :: "heap_recent_table recent_table" where
  "heap_recent =
     \<lparr>rn_capacity = (\<lambda>_. USIZE_MAX), rn_len = (\<lambda>t. length (hn_destinations t)),
      rn_requested_ats = hn_requested_ats,
      rn_push = heap_recent_push, rn_swap_remove = heap_recent_swap_remove,
      rn_index_of = heap_recent_index_of, rn_first_stale = heap_recent_first_due,
      rn_prefers_linear_stale_cull = heap_recent_prefers_linear,
      rn_invalidate_stale_index = heap_recent_invalidate\<rparr>"

section \<open>The contract\<close>

definition recent_push_row :: "(destination_hash \<Rightarrow> instant_millis \<Rightarrow> 't \<Rightarrow> 't option) \<Rightarrow> recent_path_request \<Rightarrow> 't \<Rightarrow> 't option" where
  "recent_push_row push row = push (rn_destination row) (rn_requested_at row)"

locale recent_rows_table = pushed_rows rows valid "rn_capacity N" "rn_swap_remove N" "recent_push_row (rn_push N)"
  for N :: "'t recent_table" and rows :: "'t \<Rightarrow> recent_path_request list" and valid :: "'t \<Rightarrow> bool" +
  assumes len: "valid t \<Longrightarrow> rn_len N t = length (rows t)"
    and columns: "valid t \<Longrightarrow> rn_requested_ats N t = map rn_requested_at (rows t)"
    and index_of: "valid t \<Longrightarrow>
      \<exists>found. rn_index_of N d t = Some found \<and> finds_row (\<lambda>row. rn_destination row = d) (rows t) found"
    and first_stale: "valid t \<Longrightarrow> valid (snd (rn_first_stale N now t))
      \<and> rn_capacity N (snd (rn_first_stale N now t)) = rn_capacity N t \<and> rows (snd (rn_first_stale N now t)) = rows t
      \<and> finds_row (\<lambda>row. aged_out (rn_requested_at row) now) (rows t) (fst (rn_first_stale N now t))"
    and prefers_linear: "valid t \<Longrightarrow>
      \<exists>linear t'. rn_prefers_linear_stale_cull N now t = Some (linear, t') \<and> valid t'
        \<and> rn_capacity N t' = rn_capacity N t \<and> rows t' = rows t"
    and invalidate: "valid t \<Longrightarrow> valid (rn_invalidate_stale_index N t)
      \<and> rn_capacity N (rn_invalidate_stale_index N t) = rn_capacity N t \<and> rows (rn_invalidate_stale_index N t) = rows t"

text \<open>The deadline of the index and the age the scan looks at agree, overflow included.\<close>

lemma falls_due_recent: "falls_due recent_expires_at now at \<longleftrightarrow> aged_out at now"
proof -
  let ?i = "unat PATH_REQUEST_MIN_INTERVAL_MS"
  have age: "aged_out at now \<longleftrightarrow> ?i \<le> unat now - unat at"
    by (simp add: aged_out_def word_le_nat_alt unat_saturating_sub)
  have i: "0 < ?i" by (simp add: PATH_REQUEST_MIN_INTERVAL_MS_def)
  show ?thesis
  proof (cases "unat at + ?i < 2 ^ 64")
    case True
    then have "unat (at + PATH_REQUEST_MIN_INTERVAL_MS) = unat at + ?i" by (simp add: unat_word_ariths)
    then show ?thesis using True i unfolding age by (auto simp: falls_due_def recent_expires_at_def word_le_nat_alt)
  next
    case False
    moreover have "unat now < 2 ^ 64" using unat_less_pow [of now] by simp
    ultimately show ?thesis using i unfolding age by (simp add: falls_due_def recent_expires_at_def)
  qed
qed

lemma aged_out_mono: "aged_out at now \<Longrightarrow> now \<le> later \<Longrightarrow> aged_out at later"
  by (simp add: aged_out_def word_le_nat_alt unat_saturating_sub)

definition recent_ok :: "('t \<Rightarrow> recent_path_request list) \<Rightarrow> ('t \<Rightarrow> bool) \<Rightarrow> 't \<Rightarrow> bool" where
  "recent_ok rows valid t = (valid t \<and> distinct (map rn_destination (rows t)))"

text \<open>The requests for a destination that still count.\<close>

definition asked_within :: "recent_path_request list \<Rightarrow> destination_hash \<Rightarrow> instant_millis \<Rightarrow> bool" where
  "asked_within rows d now = (\<exists>row\<in>set rows. rn_destination row = d \<and> \<not> aged_out (rn_requested_at row) now)"

context recent_rows_table
begin

lemma throttled_spec:
  assumes ok: "recent_ok rows valid t"
  shows "recent_is_throttled N d now t = Some (asked_within (rows t) d now)"
proof -
  have v: "valid t" and dist: "distinct (map rn_destination (rows t))" using ok by (simp_all add: recent_ok_def)
  obtain found where found: "rn_index_of N d t = Some found" "finds_row (\<lambda>row. rn_destination row = d) (rows t) found"
    using index_of [OF v] by blast
  show ?thesis
  proof (cases found)
    case None
    then show ?thesis using found by (auto simp: recent_is_throttled_def asked_within_def finds_row_def)
  next
    case (Some i)
    then have i: "i < length (rows t)" "rn_destination (rows t ! i) = d" using found(2) by (simp_all add: finds_row_def)
    have "row = rows t ! i" if "row \<in> set (rows t)" "rn_destination row = d" for row
      using dist i that nth_mem [OF i(1)] by (metis distinct_map inj_onD)
    then have "asked_within (rows t) d now \<longleftrightarrow> \<not> aged_out (rn_requested_at (rows t ! i)) now"
      using i nth_mem [OF i(1)] unfolding asked_within_def by metis
    then show ?thesis using Some found(1) i v by (simp add: recent_is_throttled_def columns)
  qed
qed

lemma mark_spec:
  fixes d :: destination_hash and now :: instant_millis
  assumes ok: "recent_ok rows valid t" and room: "length (rows t) < HEAP_LEMIRE_MAX_ROWS"
  defines "row \<equiv> \<lparr>rn_destination = d, rn_requested_at = now\<rparr>"
  shows "\<exists>t'. recent_mark_seen_at N d now t = Some t' \<and> recent_ok rows valid t' \<and> rn_capacity N t' = rn_capacity N t
    \<and> spec_push rn_requested_at (rn_capacity N t) row
        {#r \<in># mset (rows t). rn_destination r \<noteq> d \<and> \<not> aged_out (rn_requested_at r) now#} (mset (rows t'))"
proof -
  let ?kept = "{#r \<in># mset (rows t). rn_destination r \<noteq> d \<and> \<not> aged_out (rn_requested_at r) now#}"
  have v: "valid t" and dist: "distinct (map rn_destination (rows t))" using ok by (simp_all add: recent_ok_def)
  obtain found where found: "rn_index_of N d t = Some found" "finds_row (\<lambda>row. rn_destination row = d) (rows t) found"
    using index_of [OF v] by blast
  obtain u where u: "(case found of Some index \<Rightarrow> rn_swap_remove N index t | None \<Rightarrow> Some t) = Some u" "valid u"
    "rn_capacity N u = rn_capacity N t" "mset (rows u) = {#r \<in># mset (rows t). rn_destination r \<noteq> d#}"
  proof (cases found)
    case None
    then have "\<forall>row\<in>set (rows t). rn_destination row \<noteq> d" using found(2) by (simp add: finds_row_def)
    then have "{#r \<in># mset (rows t). rn_destination r \<noteq> d#} = mset (rows t)" by (simp add: filter_mset_eq_conv)
    then show ?thesis using that None v by simp
  next
    case (Some i)
    then have i: "i < length (rows t)" "rn_destination (rows t ! i) = d" using found(2) by (simp_all add: finds_row_def)
    from swap_remove [OF v i(1)] show ?thesis using that Some remove_keyed_row [OF i(1) dist] i(2) by auto
  qed
  have "\<exists>w. recent_evict_stale N now u = Some w \<and> rows_removed rows valid (rn_capacity N) (\<lambda>row. aged_out (rn_requested_at row) now) u w"
    unfolding recent_evict_stale_def
    by (rule evict_due_removes [OF _ _ first_stale prefers_linear invalidate u(2)]) (simp_all add: len columns)
  then obtain w where w: "recent_evict_stale N now u = Some w" "valid w" "rn_capacity N w = rn_capacity N t" "mset (rows w) = ?kept"
    using u(3,4) by (auto simp: rows_removed_def filter_filter_mset conj_commute)
  have "length (rows w) = size ?kept" using w(4) size_mset [of "rows w"] by simp
  also have "\<dots> \<le> length (rows t)" using size_filter_mset_lesseq [of _ "mset (rows t)"] by simp
  finally have fits: "length (rows w) < HEAP_LEMIRE_MAX_ROWS" using room by simp
  from push_making_room [where ats_of = "rn_requested_ats N" and time = rn_requested_at, OF w(2) fits columns [OF w(2)], of row]
  obtain t' where t': "(case (if rn_capacity N w \<le> length (rows w) then evict_least (rn_requested_ats N) (rn_swap_remove N) w else Some w) of
        None \<Rightarrow> None | Some t \<Rightarrow> recent_push_row (rn_push N) row t) = Some t'" "valid t'" "rn_capacity N t' = rn_capacity N t"
    "spec_push rn_requested_at (rn_capacity N t) row ?kept (mset (rows t'))"
    using w(3,4) by auto
  have "mset (rows t') \<subseteq># mset (row # filter (\<lambda>r. rn_destination r \<noteq> d \<and> \<not> aged_out (rn_requested_at r) now) (rows t))"
    using spec_push_sub [OF t'(4)] by (simp add: mset_filter)
  moreover have "distinct (map rn_destination (row # filter (\<lambda>r. rn_destination r \<noteq> d \<and> \<not> aged_out (rn_requested_at r) now) (rows t)))"
    using dist by (auto simp: row_def distinct_map_filter)
  ultimately have "distinct (map rn_destination (rows t'))" by (rule distinct_submset)
  then have "recent_ok rows valid t'" using t'(2) by (simp add: recent_ok_def)
  moreover have "recent_mark_seen_at N d now t = Some t'"
    using found(1) u(1) w(1) t'(1) w(2)
    by (simp add: recent_mark_seen_at_def recent_evict_oldest_def recent_push_row_def row_def len cong: option.case_cong if_cong)
  ultimately show ?thesis using t' by blast
qed

lemma mark_throttles:
  assumes ok: "recent_ok rows valid t" and room: "length (rows t) < HEAP_LEMIRE_MAX_ROWS" "0 < rn_capacity N t" and later: "now \<le> later"
  shows "\<exists>t'. recent_mark_seen_at N d now t = Some t' \<and> recent_ok rows valid t' \<and> rn_capacity N t' = rn_capacity N t
    \<and> recent_is_throttled N d later t' = Some (\<not> aged_out now later)
    \<and> (\<forall>d'. d' \<noteq> d \<longrightarrow> (recent_is_throttled N d' later t' = Some True \<longrightarrow> recent_is_throttled N d' later t = Some True))
    \<and> (length (rows t) < rn_capacity N t \<longrightarrow> (\<forall>d'. d' \<noteq> d \<longrightarrow> recent_is_throttled N d' later t' = recent_is_throttled N d' later t))"
proof -
  let ?kept = "{#r \<in># mset (rows t). rn_destination r \<noteq> d \<and> \<not> aged_out (rn_requested_at r) now#}"
  let ?row = "\<lparr>rn_destination = d, rn_requested_at = now\<rparr>"
  obtain t' where t': "recent_mark_seen_at N d now t = Some t'" "recent_ok rows valid t'" "rn_capacity N t' = rn_capacity N t"
    "spec_push rn_requested_at (rn_capacity N t) ?row ?kept (mset (rows t'))"
    using mark_spec [OF ok room(1)] by blast
  obtain K where K: "mset (rows t') = add_mset ?row K" "K \<subseteq># ?kept" "size ?kept < rn_capacity N t \<Longrightarrow> K = ?kept"
    using spec_push_adds [OF t'(4) room(2)] by blast
  have rows: "set (rows t') = insert ?row (set_mset K)" using arg_cong [OF K(1), of set_mset] by simp
  have sub: "set_mset K \<subseteq> {r \<in> set (rows t). rn_destination r \<noteq> d \<and> \<not> aged_out (rn_requested_at r) now}"
    using set_mset_mono [OF K(2)] by simp
  have "asked_within (rows t') d later \<longleftrightarrow> \<not> aged_out now later" using sub unfolding asked_within_def rows by auto
  moreover have "asked_within (rows t) d' later" if "asked_within (rows t') d' later" "d' \<noteq> d" for d'
    using that sub unfolding asked_within_def rows by auto
  moreover have "asked_within (rows t') d' later" if "length (rows t) < rn_capacity N t" "asked_within (rows t) d' later" "d' \<noteq> d" for d'
  proof -
    have "size ?kept \<le> length (rows t)" using size_filter_mset_lesseq [of _ "mset (rows t)"] by simp
    then have "K = ?kept" using K(3) that(1) by simp
    then show ?thesis using that(2,3) aged_out_mono [OF _ later] unfolding asked_within_def rows by auto
  qed
  ultimately show ?thesis using t' throttled_spec [OF t'(2)] throttled_spec [OF ok] by auto
qed

end


section \<open>Both tables keep the contract\<close>

definition recent_rows :: "destination_hash list \<Rightarrow> instant_millis list \<Rightarrow> recent_path_request list" where
  "recent_rows keys bs = map (\<lambda>(a, b). \<lparr>rn_destination = a, rn_requested_at = b\<rparr>) (zip keys bs)"

lemma recent_rows_columns:
  assumes "length bs = length keys"
  shows "length (recent_rows keys bs) = length keys"
    "map rn_destination (recent_rows keys bs) = keys"
    "map rn_requested_at (recent_rows keys bs) = bs"
  using assms by (auto simp: recent_rows_def intro!: nth_equalityI)

lemma recent_rows_push:
  assumes "length bs = length keys"
  shows "recent_rows (keys @ [rn_destination row]) (bs @ [rn_requested_at row]) = recent_rows keys bs @ [row]"
  using assms by (simp add: recent_rows_def)

lemma recent_rows_swap_remove:
  assumes "length bs = length keys" "i < length keys"
  shows "recent_rows (vec_swap_remove i keys) (vec_swap_remove i bs) = vec_swap_remove i (recent_rows keys bs)"
  using assms by (simp add: recent_rows_def table_simps)

definition fixed_recent_ok :: "fixed_recent_table \<Rightarrow> bool" where
  "fixed_recent_ok t =
     (let n = fixed_recent_capacity t in fn_len t \<le> n \<and> length (fn_requested_ats t) = n)"

definition fixed_recent_rows :: "fixed_recent_table \<Rightarrow> recent_path_request list" where
  "fixed_recent_rows t =
     (let n = fn_len t in recent_rows (take n (fn_destinations t)) (take n (fn_requested_ats t)))"

lemma fixed_recent_okD:
  assumes "fixed_recent_ok t"
  shows "fn_len t \<le> length (fn_destinations t)" "length (fn_requested_ats t) = length (fn_destinations t)"
  using assms by (simp_all add: fixed_recent_ok_def fixed_recent_capacity_def Let_def)

lemma fixed_recent_bound: "fixed_recent_ok t \<Longrightarrow> fn_len t \<le> fixed_recent_capacity t"
  by (simp add: fixed_recent_ok_def Let_def)

lemma fixed_recent_push_full: "fixed_recent_capacity t \<le> fn_len t \<Longrightarrow> fixed_recent_push (rn_destination row) (rn_requested_at row) t = Some (t)"
  by (simp add: fixed_recent_push_def)

lemma fixed_recent_default_ok: "fixed_recent_ok (fixed_recent_default n)" "fixed_recent_rows (fixed_recent_default n) = []"
  by (simp_all add: fixed_recent_ok_def fixed_recent_default_def fixed_recent_capacity_def fixed_recent_rows_def recent_rows_def Let_def)

lemma fixed_recent_columns:
  assumes "fixed_recent_ok t"
  shows "length (fixed_recent_rows t) = fn_len t"
    "take (fn_len t) (fn_destinations t) = map rn_destination (fixed_recent_rows t)"
    "take (fn_len t) (fn_requested_ats t) = map rn_requested_at (fixed_recent_rows t)"
  using fixed_recent_okD [OF assms] by (simp_all add: fixed_recent_rows_def Let_def recent_rows_columns)

lemma fixed_recent_swap_remove_rows:
  assumes ok: "fixed_recent_ok t" and i: "i < fn_len t"
  shows "\<exists>t'. fixed_recent_swap_remove i t = Some t' \<and> fixed_recent_ok t' \<and> fixed_recent_capacity t' = fixed_recent_capacity t
    \<and> fixed_recent_rows t' = vec_swap_remove i (fixed_recent_rows t)"
proof -
  note D = fixed_recent_okD [OF ok]
  have pos: "0 < fn_len t" using i by linarith
  let ?u = "the (fixed_recent_swap_remove i t)"
  have "fixed_recent_rows ?u = vec_swap_remove i (fixed_recent_rows t)"
  proof (cases "i = fn_len t - 1")
    case True
    then show ?thesis using D pos
      by (simp add: fixed_recent_rows_def fixed_recent_swap_remove_def Let_def take_column_removed(2) recent_rows_swap_remove)
  next
    case False
    then show ?thesis using D i
      by (simp add: fixed_recent_rows_def fixed_recent_swap_remove_def Let_def take_column_removed(1) recent_rows_swap_remove)
  qed
  moreover have "fixed_recent_ok ?u" "fixed_recent_capacity ?u = fixed_recent_capacity t"
    using D by (auto simp: fixed_recent_ok_def fixed_recent_swap_remove_def fixed_recent_capacity_def Let_def)
  ultimately show ?thesis by (simp add: fixed_recent_swap_remove_def)
qed

lemma fixed_recent_push_rows:
  assumes ok: "fixed_recent_ok t" and room: "fn_len t < fixed_recent_capacity t"
  shows "\<exists>t'. fixed_recent_push (rn_destination row) (rn_requested_at row) t = Some (t') \<and> fixed_recent_ok t' \<and> fixed_recent_capacity t' = fixed_recent_capacity t
    \<and> fixed_recent_rows t' = fixed_recent_rows t @ [row]"
proof -
  note D = fixed_recent_okD [OF ok]
  have lt: "fn_len t < length (fn_destinations t)" using room by (simp add: fixed_recent_capacity_def)
  let ?u = "the (fixed_recent_push (rn_destination row) (rn_requested_at row) t)"
  have "fixed_recent_rows ?u = fixed_recent_rows t @ [row]"
    using D lt room by (simp add: fixed_recent_rows_def fixed_recent_push_def Let_def take_column_push recent_rows_push)
  moreover have "fixed_recent_ok ?u" "fixed_recent_capacity ?u = fixed_recent_capacity t"
    using D lt by (auto simp: fixed_recent_ok_def fixed_recent_push_def fixed_recent_capacity_def Let_def)
  ultimately show ?thesis using room by (simp add: fixed_recent_push_def Let_def)
qed

lemma fixed_recent_sel:
  "rn_capacity fixed_recent = fixed_recent_capacity" "rn_swap_remove fixed_recent = fixed_recent_swap_remove"
  "rn_push fixed_recent = fixed_recent_push"
  by (simp_all add: fixed_recent_def)

interpretation fixed_recent_swap: swap_rows fixed_recent_rows fixed_recent_ok fixed_recent_capacity fixed_recent_swap_remove
  by unfold_locales (simp add: fixed_recent_swap_remove_rows fixed_recent_columns(1))

interpretation fixed_recent_push: pushed_rows fixed_recent_rows fixed_recent_ok fixed_recent_capacity
  fixed_recent_swap_remove "recent_push_row fixed_recent_push"
  by unfold_locales (simp_all add: recent_push_row_def fixed_recent_push_rows fixed_recent_push_full fixed_recent_bound
      fixed_recent_columns(1))

interpretation fixed_recent_rt: recent_rows_table fixed_recent fixed_recent_rows fixed_recent_ok
proof (intro recent_rows_table.intro, unfold fixed_recent_sel, rule fixed_recent_push.pushed_rows_axioms,
    unfold_locales, unfold fixed_recent_sel, goal_cases)
  case (3 t d)
  then show ?case using finds_row_position [of "\<lambda>row. rn_destination row = d" "fixed_recent_rows t"]
    by (simp add: fixed_recent_def fixed_recent_columns(2) position_map)
next
  case (4 t now)
  then show ?case using finds_row_position [of "\<lambda>row. aged_out (rn_requested_at row) now" "fixed_recent_rows t"]
    by (simp add: fixed_recent_def fixed_recent_columns(3) position_map)
qed (auto simp: fixed_recent_def fixed_recent_columns)

definition heap_recent_ok :: "heap_recent_table \<Rightarrow> bool" where
  "heap_recent_ok t =
     (let n = length (hn_destinations t)
      in length (hn_requested_ats t) = n
         \<and> rows_indexed (hn_destinations t) (heap_recent_deadline t) (hn_index t) (hn_expiry_index t))"

definition heap_recent_rows :: "heap_recent_table \<Rightarrow> recent_path_request list" where
  "heap_recent_rows t = recent_rows (hn_destinations t) (hn_requested_ats t)"

lemma heap_recent_okD:
  assumes "heap_recent_ok t"
  shows "length (hn_requested_ats t) = length (hn_destinations t)"
    and heap_recent_indexed: "rows_indexed (hn_destinations t) (column_deadline recent_expires_at (hn_requested_ats t)) (hn_index t) (hn_expiry_index t)"
    and heap_recent_dx: "dx_ok (column_deadline recent_expires_at (hn_requested_ats t)) (length (hn_requested_ats t)) (hn_expiry_index t)"
    and heap_recent_len: "length (hn_destinations t) \<le> HEAP_LEMIRE_MAX_ROWS"
  using assms rows_indexed_len [of "hn_destinations t"]
  by (auto simp: heap_recent_ok_def heap_recent_deadline_def rows_indexed_def Let_def)

lemma heap_recent_bound:
  assumes "heap_recent_ok t"
  shows "length (hn_destinations t) < USIZE_MAX"
  using heap_recent_len [OF assms] by (simp add: HEAP_LEMIRE_MAX_ROWS_def USIZE_MAX_def)

lemma heap_recent_default_ok: "heap_recent_ok heap_recent_default" "heap_recent_rows heap_recent_default = []"
  by (simp_all add: heap_recent_ok_def heap_recent_default_def heap_recent_rows_def recent_rows_def rows_indexed_empty)

lemma heap_recent_columns:
  assumes "heap_recent_ok t"
  shows "length (heap_recent_rows t) = length (hn_destinations t)"
    "map rn_destination (heap_recent_rows t) = hn_destinations t"
    "map rn_requested_at (heap_recent_rows t) = hn_requested_ats t"
  using heap_recent_okD [OF assms] by (simp_all add: heap_recent_rows_def recent_rows_columns)

lemma heap_recent_with_index:
  assumes "heap_recent_ok t" "dx_ok (column_deadline recent_expires_at (hn_requested_ats t)) (length (hn_requested_ats t)) dx"
  shows "heap_recent_ok (t\<lparr>hn_expiry_index := dx\<rparr>)" "heap_recent_rows (t\<lparr>hn_expiry_index := dx\<rparr>) = heap_recent_rows t"
  using assms by (simp_all add: heap_recent_ok_def heap_recent_rows_def heap_recent_deadline_def rows_indexed_def Let_def)

lemma heap_recent_push_rows:
  assumes ok: "heap_recent_ok t" and room: "length (hn_destinations t) < HEAP_LEMIRE_MAX_ROWS"
  shows "\<exists>t'. heap_recent_push (rn_destination row) (rn_requested_at row) t = Some (t') \<and> heap_recent_ok t'
    \<and> heap_recent_rows t' = heap_recent_rows t @ [row]"
proof -
  note D = heap_recent_okD [OF ok]
  let ?D = "column_deadline recent_expires_at (hn_requested_ats t @ [rn_requested_at row])"
  have len: "length (hn_requested_ats t) = length (hn_destinations t)" by (simp add: D)
  have "\<forall>r<length (hn_destinations t). ?D r = column_deadline recent_expires_at (hn_requested_ats t) r"
    using column_deadline_push(1) [of _ "hn_requested_ats t" recent_expires_at] unfolding len by blast
  from rows_indexed_push [OF heap_recent_indexed [OF ok] room this, of "rn_destination row"] obtain index where
    index: "heap_lemire_insert destination_rows (hn_index t) (length (hn_destinations t)) (hn_destinations t @ [rn_destination row]) = Some index"
      "rows_indexed (hn_destinations t @ [rn_destination row]) ?D index
        (dx_insert ?D (length (hn_destinations t)) (recent_expires_at (rn_requested_at row)) (hn_expiry_index t))"
    using column_deadline_push(2) [of recent_expires_at "hn_requested_ats t"] unfolding len by auto
  let ?u = "the (heap_recent_push (rn_destination row) (rn_requested_at row) t)"
  have "heap_recent_ok ?u"
    using index D by (simp add: heap_recent_ok_def heap_recent_push_def heap_recent_deadline_def Let_def)
  moreover have "heap_recent_rows ?u = heap_recent_rows t @ [row]"
    using index(1) D by (simp add: heap_recent_rows_def heap_recent_push_def Let_def recent_rows_push)
  ultimately show ?thesis using index(1) by (simp add: heap_recent_push_def Let_def)
qed

lemma heap_recent_swap_remove_rows:
  assumes ok: "heap_recent_ok t" and i: "i < length (hn_destinations t)"
  shows "\<exists>t'. heap_recent_swap_remove i t = Some t' \<and> heap_recent_ok t'
    \<and> heap_recent_rows t' = vec_swap_remove i (heap_recent_rows t)"
proof -
  note D = heap_recent_okD [OF ok]
  let ?ds = "hn_destinations t" and ?ats = "hn_requested_ats t"
  have "\<forall>q<length ?ds - 1. column_deadline recent_expires_at (vec_swap_remove i ?ats) q =
      (if q = i then column_deadline recent_expires_at ?ats (length ?ds - 1) else column_deadline recent_expires_at ?ats q)"
    using i D column_deadline_swap_remove [of i ?ats _ recent_expires_at] by simp
  from rows_indexed_swap_remove [OF heap_recent_indexed [OF ok] i this] obtain slots1 slots2 where
    s: "heap_lemire_remove_slot destination_rows (hn_index t) i ?ds = Some slots1"
      "(if i \<noteq> length ?ds - 1 then heap_lemire_repoint_slot destination_rows slots1 (length ?ds - 1) i ?ds else Some slots1) = Some slots2"
      "rows_indexed (vec_swap_remove i ?ds) (column_deadline recent_expires_at (vec_swap_remove i ?ats)) slots2
        (dx_swap_remove (column_deadline recent_expires_at ?ats) i (length ?ds - 1) (hn_expiry_index t))"
    by blast
  let ?u = "the (heap_recent_swap_remove i t)"
  have u: "heap_recent_swap_remove i t = Some (t\<lparr>hn_index := slots2,
      hn_expiry_index := dx_swap_remove (heap_recent_deadline t) i (length ?ds - 1) (hn_expiry_index t),
      hn_destinations := vec_swap_remove i (hn_destinations t),
      hn_requested_ats := vec_swap_remove i (hn_requested_ats t)\<rparr>)"
    using i s(1,2) by (simp add: heap_recent_swap_remove_def Let_def split: if_splits)
  have "heap_recent_ok ?u"
    using s(3) D unfolding u by (simp add: heap_recent_ok_def heap_recent_deadline_def Let_def)
  moreover have "heap_recent_rows ?u = vec_swap_remove i (heap_recent_rows t)"
    using i D unfolding u by (simp add: heap_recent_rows_def recent_rows_swap_remove)
  ultimately show ?thesis using u by simp
qed

lemma heap_recent_index_of_rows:
  assumes "heap_recent_ok t"
  shows "\<exists>found. heap_recent_index_of d t = Some found \<and> finds_row (\<lambda>row. rn_destination row = d) (heap_recent_rows t) found"
  using rows_indexed_lookup [OF heap_recent_indexed [OF assms], of d]
    finds_row_map [of "\<lambda>c. c = d" rn_destination "heap_recent_rows t"]
  by (simp add: heap_recent_index_of_def heap_recent_columns(2) [OF assms])

lemma heap_recent_first_due_rows:
  assumes ok: "heap_recent_ok t"
  shows "heap_recent_ok (snd (heap_recent_first_due now t)) \<and> heap_recent_rows (snd (heap_recent_first_due now t)) = heap_recent_rows t
    \<and> finds_row (\<lambda>row. falls_due recent_expires_at now (rn_requested_at row)) (heap_recent_rows t) (fst (heap_recent_first_due now t))"
proof -
  let ?q = "dx_first_due (column_deadline recent_expires_at (hn_requested_ats t)) (length (hn_requested_ats t)) now (hn_expiry_index t)"
  note q = column_first_due [OF heap_recent_dx [OF ok], of now]
  have "heap_recent_first_due now t = (fst ?q, t\<lparr>hn_expiry_index := snd ?q\<rparr>)"
    by (simp add: heap_recent_first_due_def heap_recent_deadline_def split_beta)
  then show ?thesis
    using q(1) heap_recent_with_index [OF ok q(2)]
      finds_row_map [of "falls_due recent_expires_at now" rn_requested_at "heap_recent_rows t" "fst ?q"]
    by (simp add: heap_recent_columns [OF ok])
qed

lemma heap_recent_prefers_rows:
  assumes ok: "heap_recent_ok t"
  shows "\<exists>linear t'. heap_recent_prefers_linear now t = Some (linear, t') \<and> heap_recent_ok t' \<and> heap_recent_rows t' = heap_recent_rows t"
proof -
  from column_prefers [OF heap_recent_dx [OF ok], of now] obtain linear dx where
    "dx_prefers_linear_cull (column_deadline recent_expires_at (hn_requested_ats t)) (length (hn_requested_ats t)) now (hn_expiry_index t) = Some (linear, dx)"
    "dx_ok (column_deadline recent_expires_at (hn_requested_ats t)) (length (hn_requested_ats t)) dx" by blast
  then show ?thesis using heap_recent_with_index [OF ok, of dx]
    by (simp add: heap_recent_prefers_linear_def heap_recent_deadline_def)
qed

lemma heap_recent_invalidate_rows:
  assumes ok: "heap_recent_ok t"
  shows "heap_recent_ok (heap_recent_invalidate t) \<and> heap_recent_rows (heap_recent_invalidate t) = heap_recent_rows t"
  using heap_recent_with_index [OF ok dx_invalidate_ok] by (simp add: heap_recent_invalidate_def)

lemma heap_recent_sel:
  "rn_capacity heap_recent = (\<lambda>_. USIZE_MAX)" "rn_swap_remove heap_recent = heap_recent_swap_remove"
  "rn_push heap_recent = heap_recent_push" "rn_index_of heap_recent = heap_recent_index_of"
  "rn_first_stale heap_recent = heap_recent_first_due"
  "rn_prefers_linear_stale_cull heap_recent = heap_recent_prefers_linear"
  "rn_invalidate_stale_index heap_recent = heap_recent_invalidate"
  by (simp_all add: heap_recent_def)

interpretation heap_recent_swap: swap_rows heap_recent_rows heap_recent_ok "\<lambda>_. USIZE_MAX" heap_recent_swap_remove
  by unfold_locales (simp add: heap_recent_swap_remove_rows heap_recent_columns(1))

interpretation heap_recent_push: pushed_rows heap_recent_rows heap_recent_ok "\<lambda>_. USIZE_MAX"
  heap_recent_swap_remove "recent_push_row heap_recent_push"
  by unfold_locales
    (use heap_recent_bound in \<open>fastforce simp: recent_push_row_def heap_recent_push_rows heap_recent_columns(1)\<close>)+

interpretation heap_recent_rt: recent_rows_table heap_recent heap_recent_rows heap_recent_ok
proof (intro recent_rows_table.intro, unfold heap_recent_sel, rule heap_recent_push.pushed_rows_axioms,
    unfold_locales, unfold heap_recent_sel, goal_cases)
  case (3 t d)
  then show ?case by (rule heap_recent_index_of_rows)
next
  case (4 t now)
  then show ?case using heap_recent_first_due_rows [of t now] by (simp add: falls_due_recent)
next
  case (5 t now)
  then show ?case using heap_recent_prefers_rows [of t now] by simp
next
  case (6 t)
  then show ?case using heap_recent_invalidate_rows [of t] by simp
qed (simp_all add: heap_recent_def heap_recent_columns)

section \<open>Properties of the recent requests\<close>

lemma recent_start_ok:
  "recent_ok heap_recent_rows heap_recent_ok heap_recent_default"
  "recent_ok fixed_recent_rows fixed_recent_ok (fixed_recent_default n)"
  by (simp_all add: recent_ok_def heap_recent_default_ok fixed_recent_default_ok)

text \<open>
  C20. A destination that was just asked for is throttled until \<open>PATH_REQUEST_MIN_INTERVAL_MS\<close> has passed, and no
  longer, in either table. Marking it never throttles another destination; in the growable table, and in the fixed-size
  one while it has room, it leaves the throttling of every other destination as it was.
\<close>

theorem recent_requests_throttle_window:
  assumes "recent_ok heap_recent_rows heap_recent_ok h" "length (heap_recent_rows h) < HEAP_LEMIRE_MAX_ROWS"
    and "recent_ok fixed_recent_rows fixed_recent_ok f" "length (fixed_recent_rows f) < HEAP_LEMIRE_MAX_ROWS"
    and "0 < fixed_recent_capacity f" and "now \<le> later"
  shows "(\<exists>h'. recent_mark_seen_at heap_recent d now h = Some h' \<and> recent_ok heap_recent_rows heap_recent_ok h'
        \<and> recent_is_throttled heap_recent d later h' = Some (unat later - unat now < 20000)
        \<and> (\<forall>d'. d' \<noteq> d \<longrightarrow> recent_is_throttled heap_recent d' later h' = recent_is_throttled heap_recent d' later h))
    \<and> (\<exists>f'. recent_mark_seen_at fixed_recent d now f = Some f' \<and> recent_ok fixed_recent_rows fixed_recent_ok f'
        \<and> recent_is_throttled fixed_recent d later f' = Some (unat later - unat now < 20000)
        \<and> (\<forall>d'. d' \<noteq> d \<longrightarrow> recent_is_throttled fixed_recent d' later f' = Some True \<longrightarrow> recent_is_throttled fixed_recent d' later f = Some True)
        \<and> (length (fixed_recent_rows f) < fixed_recent_capacity f
           \<longrightarrow> (\<forall>d'. d' \<noteq> d \<longrightarrow> recent_is_throttled fixed_recent d' later f' = recent_is_throttled fixed_recent d' later f)))"
proof -
  have window: "(\<not> aged_out now later) = (unat later - unat now < 20000)"
    by (auto simp: aged_out_def word_le_nat_alt unat_saturating_sub PATH_REQUEST_MIN_INTERVAL_MS_def)
  have "length (heap_recent_rows h) < USIZE_MAX" using assms(2) by (simp add: HEAP_LEMIRE_MAX_ROWS_def USIZE_MAX_def)
  then show ?thesis
    using heap_recent_rt.mark_throttles [OF assms(1,2) _ assms(6), of d] fixed_recent_rt.mark_throttles [OF assms(3,4) _ assms(6), of d] assms(5)
    unfolding heap_recent_sel fixed_recent_sel window by (auto simp: USIZE_MAX_def)
qed

theorem recent_requests_throttle_window_witness:
  "\<exists>h'. recent_mark_seen_at heap_recent (DestinationHash (replicate 16 7)) 1000 heap_recent_default = Some h'
     \<and> recent_is_throttled heap_recent (DestinationHash (replicate 16 7)) 20999 h' = Some True"
proof -
  have rows: "heap_recent_rows heap_recent_default = []" "fixed_recent_rows (fixed_recent_default 1) = []"
    by (simp_all add: heap_recent_default_ok fixed_recent_default_ok)
  have cap: "0 < fixed_recent_capacity (fixed_recent_default 1)"
    by (simp add: fixed_recent_capacity_def fixed_recent_default_def)
  from recent_requests_throttle_window [OF recent_start_ok(1) _ recent_start_ok(2) _ cap,
      where now = 1000 and later = 20999 and d = "DestinationHash (replicate 16 7)"]
  show ?thesis unfolding rows by (auto simp: HEAP_LEMIRE_MAX_ROWS_def)
qed

end
