(* ===== verification/Seen_Requests.thy ===== *)
theory Seen_Requests
  imports Wire
begin

text \<open>
  The path requests that have passed through the node
  (\<^verbatim>\<open>prns-core/src/routing/path_requests/seen/core.rs\<close>): the trait \<open>SeenPathRequestTable\<close>, the ring of
  a fixed size and the one that grows to its bound (\<^verbatim>\<open>seen/impls\<close>), and \<open>SeenPathRequests::observe\<close>. Both rings
  hold the most recent tags, oldest first from the cursor on; the interface \<open>tag_ring\<close> states this once. \<open>None\<close>
  stands for an index out of bounds.
\<close>

section \<open>The trait\<close>

type_synonym path_request_id_bytes = "u8 list"

datatype path_request_novelty = Fresh | Duplicate

record 't seen_table =
  sn_capacity :: "'t \<Rightarrow> nat"
  sn_len :: "'t \<Rightarrow> nat"
  sn_destinations :: "'t \<Rightarrow> destination_hash list"
  sn_ids :: "'t \<Rightarrow> path_request_id_bytes list"
  sn_remember :: "destination_hash \<Rightarrow> path_request_id_bytes \<Rightarrow> 't \<Rightarrow> 't option"

definition seen_observe ::
    "'t seen_table \<Rightarrow> destination_hash \<Rightarrow> path_request_id_bytes \<Rightarrow> 't \<Rightarrow> (path_request_novelty \<times> 't) option" where
  "seen_observe S destination rid t =
     (let seen = list_ex (\<lambda>(candidate, candidate_id). candidate = destination \<and> candidate_id = rid)
                   (zip (sn_destinations S t) (sn_ids S t))
      in if seen then Some (Duplicate, t)
         else map_option (Pair Fresh) (sn_remember S destination rid t))"

section \<open>The fixed-size ring\<close>

record fixed_seen_table =
  fs_max :: nat
  fs_len :: nat
  fs_write_cursor :: nat
  fs_destinations :: "destination_hash list"
  fs_ids :: "path_request_id_bytes list"

definition fixed_seen_default :: "nat \<Rightarrow> fixed_seen_table" where
  "fixed_seen_default max_seen =
     \<lparr>fs_max = max_seen, fs_len = 0, fs_write_cursor = 0,
      fs_destinations = replicate max_seen (DestinationHash (replicate 16 0)),
      fs_ids = replicate max_seen (replicate TRUNCATED_HASH_BYTE_LEN 0)\<rparr>"

definition fixed_seen_remember :: "destination_hash \<Rightarrow> path_request_id_bytes \<Rightarrow> fixed_seen_table \<Rightarrow> fixed_seen_table option" where
  "fixed_seen_remember destination rid t =
     (if fs_max t = 0 then Some t
      else let i = fs_write_cursor t
           in if i < length (fs_destinations t) \<and> i < length (fs_ids t)
              then Some (t\<lparr>fs_destinations := (fs_destinations t)[i := destination],
                          fs_ids := (fs_ids t)[i := rid],
                          fs_write_cursor := (i + 1) mod fs_max t,
                          fs_len := min (fs_len t + 1) (fs_max t)\<rparr>)
              else None)"

definition fixed_seen :: "fixed_seen_table seen_table" where
  "fixed_seen =
     \<lparr>sn_capacity = fs_max, sn_len = fs_len,
      sn_destinations = (\<lambda>t. take (fs_len t) (fs_destinations t)),
      sn_ids = (\<lambda>t. take (fs_len t) (fs_ids t)),
      sn_remember = fixed_seen_remember\<rparr>"

section \<open>The growable ring\<close>

definition RNS_MAX_PR_TAGS :: nat where
  "RNS_MAX_PR_TAGS = 32000"

record heap_seen_table =
  hs_write_cursor :: nat
  hs_destinations :: "destination_hash list"
  hs_ids :: "path_request_id_bytes list"

definition heap_seen_default :: heap_seen_table where
  "heap_seen_default = \<lparr>hs_write_cursor = 0, hs_destinations = [], hs_ids = []\<rparr>"

definition heap_seen_remember :: "destination_hash \<Rightarrow> path_request_id_bytes \<Rightarrow> heap_seen_table \<Rightarrow> heap_seen_table option" where
  "heap_seen_remember destination rid t =
     (if length (hs_destinations t) < RNS_MAX_PR_TAGS
      then Some (t\<lparr>hs_destinations := hs_destinations t @ [destination], hs_ids := hs_ids t @ [rid]\<rparr>)
      else let i = hs_write_cursor t
           in if i < length (hs_destinations t) \<and> i < length (hs_ids t)
              then Some (t\<lparr>hs_destinations := (hs_destinations t)[i := destination],
                          hs_ids := (hs_ids t)[i := rid],
                          hs_write_cursor := (i + 1) mod RNS_MAX_PR_TAGS\<rparr>)
              else None)"

definition heap_seen :: "heap_seen_table seen_table" where
  "heap_seen =
     \<lparr>sn_capacity = (\<lambda>_. RNS_MAX_PR_TAGS), sn_len = (\<lambda>t. length (hs_destinations t)),
      sn_destinations = hs_destinations, sn_ids = hs_ids, sn_remember = heap_seen_remember\<rparr>"

section \<open>The contract of a ring\<close>

type_synonym path_request_tag = "destination_hash \<times> path_request_id_bytes"

text \<open>The last \<open>n\<close> elements of a list.\<close>

definition last_n :: "nat \<Rightarrow> 'a list \<Rightarrow> 'a list" where
  "last_n n xs = drop (length xs - n) xs"

lemma last_n_all [simp]: "length xs \<le> n \<Longrightarrow> last_n n xs = xs"
  by (simp add: last_n_def)

lemma length_last_n [simp]: "length (last_n n xs) = min n (length xs)"
  by (simp add: last_n_def)

lemma last_n_0 [simp]: "last_n 0 xs = []"
  by (simp add: last_n_def)

lemma last_n_snoc: "last_n n (last_n n xs @ [x]) = last_n n (xs @ [x])"
proof (cases "n = 0")
  case False
  then show ?thesis by (cases "length xs < n") (auto simp: last_n_def Suc_diff_le)
qed simp

text \<open>Writing over the oldest element of a full ring drops it and appends the new one.\<close>

lemma ring_overwrite:
  assumes "i < length xs"
  shows "rotate (Suc i mod length xs) (xs[i := x]) = last_n (length xs) (rotate i xs @ [x])"
proof -
  have ring: "rotate k ys = drop k ys @ take k ys" if "k \<le> length ys" for k and ys :: "'a list"
    using that by (cases "k = length ys") (simp_all add: rotate_drop_take)
  have "rotate (Suc i mod length xs) (xs[i := x]) = rotate (Suc i) (xs[i := x])"
    using rotate_conv_mod [of "Suc i" "xs[i := x]"] by simp
  also have "\<dots> = drop (Suc i) xs @ take i xs @ [x]"
    using assms ring [of "Suc i" "xs[i := x]"] by (simp add: take_Suc_conv_app_nth)
  also have "\<dots> = tl (rotate i xs) @ [x]"
    using assms ring [of i xs] by (simp add: Cons_nth_drop_Suc [symmetric])
  also have "\<dots> = last_n (length xs) (rotate i xs @ [x])"
    using assms length_rotate [of i xs] by (cases "rotate i xs") (simp_all add: last_n_def del: length_rotate)
  finally show ?thesis .
qed

locale tag_ring =
  fixes S :: "'t seen_table" and log :: "'t \<Rightarrow> path_request_tag list" and valid :: "'t \<Rightarrow> bool"
  assumes contents: "valid t \<Longrightarrow> set (zip (sn_destinations S t) (sn_ids S t)) = set (log t)"
    and remember: "valid t \<Longrightarrow> \<exists>t'. sn_remember S d rid t = Some t' \<and> valid t' \<and> sn_capacity S t' = sn_capacity S t
      \<and> log t' = last_n (sn_capacity S t) (log t @ [(d, rid)])"

text \<open>A run of observations, and what is right about its answers: a tag is a duplicate exactly when it is among the last \<open>cap\<close> that were fresh.\<close>

fun seen_run :: "'t seen_table \<Rightarrow> path_request_tag list \<Rightarrow> 't \<Rightarrow> (path_request_novelty list \<times> 't) option" where
  "seen_run S [] t = Some ([], t)"
| "seen_run S (tag # tags) t =
     (case seen_observe S (fst tag) (snd tag) t of
        None \<Rightarrow> None
      | Some (answer, t) \<Rightarrow>
          (case seen_run S tags t of None \<Rightarrow> None | Some (answers, t) \<Rightarrow> Some (answer # answers, t)))"

fun answers_right :: "nat \<Rightarrow> path_request_tag list \<Rightarrow> path_request_tag list \<Rightarrow> path_request_novelty list \<Rightarrow> bool" where
  "answers_right cap fresh [] answers = (answers = [])"
| "answers_right cap fresh (tag # tags) answers =
     (case answers of
        [] \<Rightarrow> False
      | answer # answers \<Rightarrow>
          (answer = Duplicate) = (tag \<in> set (last_n cap fresh))
          \<and> answers_right cap (if answer = Fresh then fresh @ [tag] else fresh) tags answers)"

context tag_ring
begin

lemma observe_spec:
  assumes "valid t"
  shows "\<exists>t'. seen_observe S d rid t = Some (if (d, rid) \<in> set (log t) then Duplicate else Fresh, t') \<and> valid t'
    \<and> sn_capacity S t' = sn_capacity S t
    \<and> log t' = (if (d, rid) \<in> set (log t) then log t else last_n (sn_capacity S t) (log t @ [(d, rid)]))"
proof -
  have "list_ex (\<lambda>(candidate, candidate_id). candidate = d \<and> candidate_id = rid) (zip (sn_destinations S t) (sn_ids S t))
      \<longleftrightarrow> (d, rid) \<in> set (log t)"
    unfolding contents [OF assms, symmetric] by (auto simp: list_ex_iff)
  then show ?thesis using assms remember [OF assms, of d rid] by (auto simp: seen_observe_def)
qed

lemma run_spec:
  assumes "valid t" "log t = last_n (sn_capacity S t) fresh"
  shows "\<exists>answers t'. seen_run S tags t = Some (answers, t') \<and> answers_right (sn_capacity S t) fresh tags answers"
  using assms
proof (induction tags arbitrary: t fresh)
  case (Cons tag tags)
  let ?dup = "tag \<in> set (log t)"
  obtain t' where t': "seen_observe S (fst tag) (snd tag) t = Some (if ?dup then Duplicate else Fresh, t')" "valid t'"
    "sn_capacity S t' = sn_capacity S t" "log t' = (if ?dup then log t else last_n (sn_capacity S t) (log t @ [tag]))"
    using observe_spec [OF Cons.prems(1), of "fst tag" "snd tag"] by auto
  have "log t' = last_n (sn_capacity S t') (if ?dup then fresh else fresh @ [tag])"
    using t'(3,4) Cons.prems(2) by (simp add: last_n_snoc)
  from Cons.IH [OF t'(2) this] show ?case using t' Cons.prems(2) by auto
qed simp

end

section \<open>Both rings keep the contract\<close>

definition fixed_seen_ok :: "fixed_seen_table \<Rightarrow> bool" where
  "fixed_seen_ok t =
     (length (fs_destinations t) = fs_max t \<and> length (fs_ids t) = fs_max t \<and> fs_len t \<le> fs_max t
      \<and> fs_write_cursor t = (if fs_len t < fs_max t then fs_len t else fs_write_cursor t)
      \<and> (0 < fs_max t \<longrightarrow> fs_write_cursor t < fs_max t))"

definition fixed_seen_log :: "fixed_seen_table \<Rightarrow> path_request_tag list" where
  "fixed_seen_log t =
     rotate (if fs_len t < fs_max t then 0 else fs_write_cursor t) (take (fs_len t) (zip (fs_destinations t) (fs_ids t)))"

definition heap_seen_ok :: "heap_seen_table \<Rightarrow> bool" where
  "heap_seen_ok t =
     (length (hs_ids t) = length (hs_destinations t) \<and> length (hs_destinations t) \<le> RNS_MAX_PR_TAGS
      \<and> hs_write_cursor t < RNS_MAX_PR_TAGS
      \<and> (length (hs_destinations t) < RNS_MAX_PR_TAGS \<longrightarrow> hs_write_cursor t = 0))"

definition heap_seen_log :: "heap_seen_table \<Rightarrow> path_request_tag list" where
  "heap_seen_log t = rotate (hs_write_cursor t) (zip (hs_destinations t) (hs_ids t))"

lemma fixed_seen_remember_log:
  assumes ok: "fixed_seen_ok t"
  shows "\<exists>t'. fixed_seen_remember d rid t = Some t' \<and> fixed_seen_ok t' \<and> fs_max t' = fs_max t
    \<and> fixed_seen_log t' = last_n (fs_max t) (fixed_seen_log t @ [(d, rid)])"
proof (cases "fs_max t = 0")
  case True
  then show ?thesis using ok by (simp add: fixed_seen_remember_def fixed_seen_ok_def fixed_seen_log_def)
next
  case False
  let ?rows = "zip (fs_destinations t) (fs_ids t)" and ?i = "fs_write_cursor t"
  have n: "length ?rows = fs_max t" "?i < length ?rows" using ok False by (simp_all add: fixed_seen_ok_def)
  have step: "fixed_seen_remember d rid t = Some (t\<lparr>fs_destinations := (fs_destinations t)[?i := d], fs_ids := (fs_ids t)[?i := rid],
      fs_write_cursor := (?i + 1) mod fs_max t, fs_len := min (fs_len t + 1) (fs_max t)\<rparr>)" (is "_ = Some ?t")
    using ok False by (simp add: fixed_seen_remember_def fixed_seen_ok_def Let_def)
  have rows: "zip (fs_destinations ?t) (fs_ids ?t) = ?rows[?i := (d, rid)]" by (simp add: update_zip)
  have "fixed_seen_log ?t = last_n (fs_max t) (fixed_seen_log t @ [(d, rid)])"
  proof (cases "fs_len t < fs_max t")
    case True
    then have "?i = fs_len t" using ok by (simp add: fixed_seen_ok_def split: if_splits)
    then have "fixed_seen_log ?t = take (Suc (fs_len t)) (?rows[fs_len t := (d, rid)])"
      using True n rows by (cases "Suc (fs_len t) = fs_max t") (auto simp: fixed_seen_log_def)
    also have "\<dots> = take (fs_len t) ?rows @ [(d, rid)]" using True n by (simp add: take_Suc_conv_app_nth)
    finally show ?thesis using True n by (simp add: fixed_seen_log_def)
  next
    case full: False
    then have "fs_len t = fs_max t" using ok by (simp add: fixed_seen_ok_def)
    then show ?thesis using ring_overwrite [OF n(2), of "(d, rid)"] n rows by (simp add: fixed_seen_log_def)
  qed
  moreover have "fixed_seen_ok ?t" using ok False by (auto simp: fixed_seen_ok_def min_def mod_if)
  ultimately show ?thesis using step by simp
qed

lemma heap_seen_remember_log:
  assumes ok: "heap_seen_ok t"
  shows "\<exists>t'. heap_seen_remember d rid t = Some t' \<and> heap_seen_ok t'
    \<and> heap_seen_log t' = last_n RNS_MAX_PR_TAGS (heap_seen_log t @ [(d, rid)])"
proof (cases "length (hs_destinations t) < RNS_MAX_PR_TAGS")
  case True
  then show ?thesis using ok by (simp add: heap_seen_remember_def heap_seen_ok_def heap_seen_log_def)
next
  case False
  let ?rows = "zip (hs_destinations t) (hs_ids t)" and ?i = "hs_write_cursor t"
  have n: "length ?rows = RNS_MAX_PR_TAGS" "?i < length ?rows" using ok False by (simp_all add: heap_seen_ok_def)
  have "heap_seen_remember d rid t = Some (t\<lparr>hs_destinations := (hs_destinations t)[?i := d], hs_ids := (hs_ids t)[?i := rid],
      hs_write_cursor := (?i + 1) mod RNS_MAX_PR_TAGS\<rparr>)" (is "_ = Some ?t")
    using ok False by (simp add: heap_seen_remember_def heap_seen_ok_def Let_def)
  moreover have "heap_seen_ok ?t" using ok False by (auto simp: heap_seen_ok_def)
  moreover have "heap_seen_log ?t = last_n RNS_MAX_PR_TAGS (heap_seen_log t @ [(d, rid)])"
    using ring_overwrite [OF n(2), of "(d, rid)"] n(1) by (simp add: heap_seen_log_def update_zip)
  ultimately show ?thesis by simp
qed

interpretation fixed_ring: tag_ring fixed_seen fixed_seen_log fixed_seen_ok
proof (unfold_locales, goal_cases)
  case (1 t)
  then show ?case by (simp add: fixed_seen_def fixed_seen_log_def take_zip)
next
  case (2 t d rid)
  then show ?case using fixed_seen_remember_log [of t d rid] by (simp add: fixed_seen_def)
qed

interpretation heap_ring: tag_ring heap_seen heap_seen_log heap_seen_ok
proof (unfold_locales, goal_cases)
  case (1 t)
  then show ?case by (simp add: heap_seen_def heap_seen_log_def)
next
  case (2 t d rid)
  then show ?case using heap_seen_remember_log [of t d rid] by (simp add: heap_seen_def)
qed

section \<open>Properties of the seen requests\<close>

text \<open>
  C21. Whatever path requests arrive, in whatever order, each is answered: it is a duplicate exactly when it is
  among the last \<open>n\<close> that were fresh, with \<open>n\<close> the size of the fixed ring and \<open>RNS_MAX_PR_TAGS\<close> for the growable one.
\<close>

theorem seen_requests_remember_last:
  "(\<exists>answers t. seen_run fixed_seen tags (fixed_seen_default n) = Some (answers, t) \<and> answers_right n [] tags answers)
   \<and> (\<exists>answers t. seen_run heap_seen tags heap_seen_default = Some (answers, t) \<and> answers_right RNS_MAX_PR_TAGS [] tags answers)"
proof
  have "fixed_seen_ok (fixed_seen_default n)" "fixed_seen_log (fixed_seen_default n) = []"
    by (simp_all add: fixed_seen_ok_def fixed_seen_log_def fixed_seen_default_def)
  from fixed_ring.run_spec [OF this(1), of "[]" tags]
  show "\<exists>answers t. seen_run fixed_seen tags (fixed_seen_default n) = Some (answers, t) \<and> answers_right n [] tags answers"
    using \<open>fixed_seen_log _ = []\<close> by (simp add: fixed_seen_def fixed_seen_default_def)
  have "heap_seen_ok heap_seen_default" "heap_seen_log heap_seen_default = []"
    by (simp_all add: heap_seen_ok_def heap_seen_log_def heap_seen_default_def RNS_MAX_PR_TAGS_def)
  from heap_ring.run_spec [OF this(1), of "[]" tags]
  show "\<exists>answers t. seen_run heap_seen tags heap_seen_default = Some (answers, t) \<and> answers_right RNS_MAX_PR_TAGS [] tags answers"
    using \<open>heap_seen_log _ = []\<close> by (simp add: heap_seen_def)
qed

end
