(* ===== verification/Spec2Isabelle.thy ===== *)
theory Spec2Isabelle
  imports Wire Serial_Framing Kiss_Framing Dedup_Heap Routing_Profiles Route_Snapshot Reverse_Routes Pending_Requests
    Recursive_Requests Recent_Requests Seen_Requests
begin

text \<open>
  Prns is a Rust implementation of the Reticulum network stack. A node receives byte streams and datagrams
  from its interfaces, cuts them into packets, drops the packets it has seen, learns routes from announces,
  forwards what is not for itself, and saves what it has learned. This development models the part of
  \<^verbatim>\<open>prns-core\<close> that decides: the wire format, the stream framings, packet deduplication, announce
  acceptance, the routing table with its stores and storage layouts, its snapshots, and the tables of reverse
  routes and path requests with the deadline heap they expire by. All paths below are under
  \<^verbatim>\<open>src/prns-core/src/\<close>.

  \<^bold>\<open>How the parts interact.\<close> Bytes of a serial or KISS stream become frames (\<open>Serial_Framing\<close>, \<open>Kiss_Framing\<close>);
  a frame is a packet with a header (\<open>Wire\<close>); its hash, over the fields that a relay does not change, is
  looked up in a two-generation history (\<open>Dedup\<close>, \<open>Dedup_Heap\<close>). An announce is judged against the route
  its destination already has (\<open>Announce_Acceptance\<close>); an accepted one is entered into the routing table
  (\<open>Routing_Table\<close>), which keeps four stores in step: the route columns (\<open>Route_Table\<close>, \<open>Indexed_Routes\<close>), the
  announce records and announce id histories (\<open>Announce_Store\<close>) and the app data payloads
  (\<open>App_Data_Arena\<close>). Links refer to a route through an evidence handle; the ids of the handles come from
  \<open>Route_Evidence\<close>. The rows of the table are saved in sealed snapshots (\<open>Snapshot_Envelope\<close>,
  \<open>Route_Snapshot\<close>) and seeded into the table of the next start. A packet that is forwarded leaves a reverse
  route for its proof (\<open>Reverse_Routes\<close>). A destination without a route is asked for: the request waits for
  its answer (\<open>Pending_Requests\<close>), is not repeated too soon (\<open>Recent_Requests\<close>), is recognised when it comes
  round again (\<open>Seen_Requests\<close>), and on the way is kept for the neighbour that sent it (\<open>Recursive_Requests\<close>).

  \<^bold>\<open>Conventions.\<close> A machine integer is a word of its width, so that addition wraps where the code's does; a
  \<open>usize\<close> that only counts or indexes is a natural number. Slices, arrays and vectors are lists, a fixed
  array with a length field is a list and a number. \<open>&mut self\<close> is a state argument and a state result,
  \<open>Result\<close> is a sum with the error on the left, a callback that only records is the list of its calls. A
  trait is a record of its methods; what its implementations promise is a locale over such a record, and
  every implementation modelled is an interpretation of it. A loop that the types do not bound is a
  \<open>partial_function (option)\<close>, where \<open>None\<close> is a loop that never ends: the theorems about it state that it
  returns \<open>Some\<close>. No fuel is used anywhere.

  \<^bold>\<open>Theories.\<close>

  \<^item> \<open>Prelude\<close>, \<open>Table_Rows\<close>, \<open>Probing\<close>, \<open>Byte_Scanner\<close>: saturating arithmetic, slice operations, big-endian
    numbers; \<open>swap_remove\<close> on columns; the linear-probing invariant and its backward-shift deletion,
    independent of how a bucket is encoded; the relation between reading a slice and reading its bytes.

  \<^item> \<open>Wire\<close> (\<^verbatim>\<open>wire/\<close>): flags, contexts, addresses, \<open>header_parse\<close> and \<open>header_write\<close>. Round trips both ways, the
    exact condition for a parse error, well-formedness of what is parsed.

  \<^item> \<open>Special_Finder\<close>, \<open>Frame_Sink\<close>, \<open>Serial_Framing\<close>, \<open>Kiss_Framing\<close> (\<^verbatim>\<open>interfaces/framing/\<close>): the word-at-a-time
    search for a special byte equals the plain one; the encoders write exactly the escaped frame; the
    decoders do not depend on how a stream is cut, recover the encoded frames from any state and report
    oversized ones; what the serial decoder delivers of an oversized frame is stated exactly.

  \<^item> \<open>Lemire_Index\<close> (\<^verbatim>\<open>lemire_index/\<close>): the fixed and the growable side index. Lookups are exact, insertion,
    removal, repointing and rebuilding keep the invariant, every probing loop ends.

  \<^item> \<open>Dedup\<close>, \<open>Dedup_Heap\<close> (\<^verbatim>\<open>routing/dedup/\<close>): the packet hash and the three histories, each a refinement of a
    two-generation specification.

  \<^item> \<open>Route_Types\<close>, \<open>Route_Evidence\<close>, \<open>Announce_Acceptance\<close> (\<^verbatim>\<open>units.rs\<close>, \<^verbatim>\<open>routing/routes/\<close>, \<^verbatim>\<open>routing/announce/\<close>):
    instants, interfaces, route rows; the issuer never issues an id in use, and always issues one; when an
    announce replaces the route a node has.

  \<^item> \<open>App_Data_Arena\<close>, \<open>Announce_Store\<close>, \<open>Route_Table\<close>, \<open>Indexed_Routes\<close> (\<^verbatim>\<open>routing/announce/stored/\<close>,
    \<^verbatim>\<open>routing/routes/impls/\<close>): the stores of the routing table, fixed and growable, and the contracts they
    keep.

  \<^item> \<open>Routing_Table\<close> (\<^verbatim>\<open>routing/table/\<close>): every operation of the table, generic in its four stores as the source
    is. \<open>Routing_Table_Laws\<close> shows what each does to the list of rows, \<open>Routing_Table_Spec\<close> what it does to
    the finite map from destinations to routes, \<open>Routing_Table_Steps\<close> that every sequence of operations
    keeps the invariant and that an evidence handle follows its route.

  \<^item> \<open>Routing_Profiles\<close> (\<^verbatim>\<open>storage/impls/\<close>): the growable, the fixed and the ESP32-S3 layout as interpretations
    of the contract of the table, and the properties of the table.

  \<^item> \<open>Le_Bytes\<close>, \<open>Snapshot_Envelope\<close>, \<open>Route_Snapshot\<close> (\<^verbatim>\<open>persistence/\<close>): sealing and opening are inverse; the
    portable CRC-32 is a linear map, from which every damage to four neighbouring bytes is seen, outside
    the length field that decides where the checksum is looked for; the serial and the parallel writer of
    the rows agree, and the reader returns what they wrote.

  \<^item> \<open>Deadline_Heap\<close>, \<open>Deadline_Queries\<close> (\<^verbatim>\<open>routing/temporal_index/\<close>): the heap of rows by deadline, with its
    positions; every operation keeps it a heap, every query answers as a scan would, and the stackless walk
    that decides how to cull ends.

  \<^item> \<open>Row_Indexes\<close>: what the timed tables share: a column of destinations under a growable side index, a column
    of times under a deadline heap, the two loops that remove due rows and the removal of the least row.

  \<^item> \<open>Reverse_Routes\<close>, \<open>Pending_Requests\<close>, \<open>Recursive_Requests\<close>, \<open>Recent_Requests\<close> (\<^verbatim>\<open>routing/reverse_routes/\<close>,
    \<^verbatim>\<open>routing/path_requests/\<close>): each a trait with its fixed and its growable implementation (the latter as the
    \<^verbatim>\<open>std\<close> feature builds it, with the deadline heap), the operations over it, and the multiset specification
    both meet: a reverse route is used once, a path request is reported once, the first asker is answered, a
    destination is throttled for exactly the interval. \<open>Seen_Requests\<close>: both rings hold the last tags.

  \<^bold>\<open>Bounds.\<close> The fixed layouts need at least one remembered id per route and fewer than 256, fewer than
  65535 destinations, and index buckets for at least the load factor of two thirds that
  \<open>route_index_buckets\<close> computes; these are the asserts of the source. The packed arena cannot replace an
  empty payload (see \<open>packed_replace_empty_corrupts\<close>), so the invariant of the fixed layouts is stated for
  announces that carry app data. The growable tables with a side index hold fewer than \<open>HEAP_LEMIRE_MAX_ROWS\<close>
  rows when a row is added, since the index numbers them with 32 bits.

  \<^bold>\<open>Parameters.\<close> SHA-256, the identity hash and the checksum function are arguments of the definitions that
  use them; no property of a hash function is assumed. The number of worker threads is an argument of
  the snapshot writer.

  \<^bold>\<open>Not modelled.\<close> The ciphers, curves and signatures (third-party crates), and with them identities, links,
  resources, delivery proofs and the signed announce form; the engine, which composes all tables of the
  node; the path request packets with their rate limits and timeouts, interface policies,
  tunnels, blackholes and the announce schedule; the bucketed temporal index; the roaring-bitmap
  indexes of expiry times and interfaces and the cull that uses them (third-party bitmaps); the storage
  types that repeat the fixed arrays in boxed form; the other regions of a snapshot and the files and
  flash they are kept in; the interface drivers, runtimes, bindings, command line,
  firmware and applications of the other crates, which are I/O.
\<close>

section \<open>Properties that span components\<close>

text \<open>
  C3. Evidence. A handle taken for a route finds that route again after any calls on the table, wherever
  the row has moved, and finds nothing once the route is gone or has another path, even when the
  destination has a new route; what is observed through it refreshes that one route and nothing else. This
  holds as long as the issuer has not handed the same id out again.
\<close>

theorem evidence_reaches_only_its_route:
  assumes "routing_backends B C" "table_sound B C t" "route_evidence_handle_for B t d = Some h"
    and "table_steps_without B identity_hash (ct_replaceable C) (eh_id h) t t'"
    and "apply_route_evidence B h observed_at t' = (changed, h', u)"
  shows "fst (resolve_route_evidence B t' h) =
      (case routes_map B t' d of Some (v, row) \<Rightarrow> if v = eh_id h then index_of B t' d else None | None \<Rightarrow> None)
    \<and> routes_map B u =
      (case routes_map B t' d of
         Some (v, row) \<Rightarrow>
           if v = eh_id h
           then map_entry (\<lambda>e. e\<lparr>re_last_route_activity_at := max (re_last_route_activity_at e) observed_at,
                  re_responsiveness := Responsive\<rparr>) d (routes_map B t')
           else routes_map B t'
       | None \<Rightarrow> routes_map B t')"
proof -
  have s: "table_sound B C t'" "rows_sink (eh_id h) (table_view B t) (table_view B t')"
    using routing_backends.steps_without_sink [OF assms(1,4,2)] by simp_all
  have tr: "handle_tracks B h d t'"
    by (rule routing_backends.tracks_sink [OF assms(1) routing_backends.handle_for_tracks [OF assms(1-3)] s(2)])
  obtain found g where r: "resolve_route_evidence B t' h = (found, g)" by fastforce
  from routing_backends.resolve_tracked(1) [OF assms(1) s(1) tr r]
    routing_backends.apply_evidence_map [OF assms(1) s(1) tr assms(5)] r
  show ?thesis by simp
qed

theorem evidence_reaches_only_its_route_witness:
  "\<exists>t h u. upsert_route_with_retention_and_warmth growable_backends sample_arrival 1 Network [] no_warmth growable_table = Some (Inserted, t, [])
     \<and> route_evidence_handle_for growable_backends t (DestinationHash (replicate 16 7)) = Some h \<and> eh_id h = 1
     \<and> snd (snd (apply_route_evidence growable_backends h 5000 t)) = u
     \<and> fst (resolve_route_evidence growable_backends t h) = index_of growable_backends t (DestinationHash (replicate 16 7))
     \<and> map_option (re_last_route_activity_at \<circ> pr_entry \<circ> snd) (routes_map growable_backends u (DestinationHash (replicate 16 7))) = Some 5000"
proof -
  let ?d = "DestinationHash (replicate 16 7)"
  obtain t where t: "upsert_route_with_retention_and_warmth growable_backends sample_arrival 1 Network [] no_warmth growable_table
      = Some (Inserted, t, [])" and sound: "table_sound growable_backends growable_contracts t"
    and m: "routes_map growable_backends t = [?d \<mapsto> (1, arrival_view sample_arrival Network [sample_id])]"
    using growable_first_route by blast
  have ok: "table_ok growable_backends growable_contracts t" using sound by (simp add: table_sound_def)
  obtain i where i: "index_of growable_backends t ?d = Some i"
    using growable.routes_map_None [OF ok, of ?d] m by (cases "index_of growable_backends t ?d") auto
  have "fst (table_view growable_backends t ! i) = 1" using growable.routes_map_index [OF ok i] m
    by (metis fst_conv fun_upd_same option.inject)
  then obtain h where h: "route_evidence_handle_for growable_backends t ?d = Some h" "eh_id h = 1"
    using i growable.view_entry(4) [OF ok growable.index_of_Some(1) [OF ok i]] by (auto simp: route_evidence_handle_for_def)
  obtain changed h' u where u: "apply_route_evidence growable_backends h 5000 t = (changed, h', u)" by (metis prod_cases3)
  from evidence_reaches_only_its_route [OF growable.routing_backends_axioms sound h(1) table_steps_without.stay u]
  have "fst (resolve_route_evidence growable_backends t h) = index_of growable_backends t ?d"
    "map_option (re_last_route_activity_at \<circ> pr_entry \<circ> snd) (routes_map growable_backends u ?d) = Some 5000"
    by (simp_all add: m h(2) map_entry_def arrival_entry_def max_def)
  with t h u show ?thesis by (intro exI [of _ t] exI [of _ h] exI [of _ u]) simp
qed

text \<open>
  C8. Loops end. An announce that has just been learned and is heard again, over the same interface or over
  another one of no higher gravity, is refused, with whatever hops and however late it comes back.
\<close>

theorem learned_announce_is_refused_again:
  assumes "routing_backends B C" "table_sound B C t"
    and "upsert_route_with_retention_and_warmth B arrival v retention interfaces warmth t = Some (out, t', removed)"
    and "out = Inserted \<or> out = Updated"
    and "in_existing_route inp = existing_route_for B t' (an_destination (aa_announce arrival)) attached"
    and "in_announce_id inp = an_announce_id (aa_announce arrival)"
    and "\<not> gravity_preferred (in_incoming_interface_gravity inp)
           (map_option if_gravity (descriptor_for attached (aa_receiving_interface arrival)))"
  shows "\<exists>reason. determine_acceptance inp = Reject reason"
proof -
  have "table_ok B C t" "\<forall>r\<in>set (table_view B t). ct_replaceable C (pr_app_data (snd r))"
    using assms(2) by (simp_all add: table_sound_def)
  from routing_backends.upsert_answers(2) [OF assms(1) this assms(3,4), of attached] obtain ex where
    "existing_route_for B t' (an_destination (aa_announce arrival)) attached = Some ex"
    "an_announce_id (aa_announce arrival) \<in> set (ex_announce_id_history ex)" "ex_responsiveness ex = Unknown"
    "ex_interface_gravity ex = map_option if_gravity (descriptor_for attached (aa_receiving_interface arrival))"
    by blast
  with assms(5-7) replay_refused [of inp ex] show ?thesis by (cases "determine_acceptance inp") auto
qed

theorem learned_announce_is_refused_again_witness:
  "\<exists>t' reason. upsert_route_with_retention_and_warmth growable_backends sample_arrival 1 Network [] no_warmth growable_table = Some (Inserted, t', [])
     \<and> determine_acceptance \<lparr>in_packet_hops = 2, in_announce_id = sample_id, in_destination_is_self_or_upstream = False,
         in_existing_route = existing_route_for growable_backends t' (DestinationHash (replicate 16 7)) [],
         in_incoming_interface_gravity = Some 9, in_arrived_at = 1001\<rparr> = Reject reason"
proof -
  obtain t' where t': "upsert_route_with_retention_and_warmth growable_backends sample_arrival 1 Network [] no_warmth growable_table
      = Some (Inserted, t', [])"
    using growable_first_route by blast
  let ?inp = "\<lparr>in_packet_hops = 2, in_announce_id = sample_id, in_destination_is_self_or_upstream = False,
     in_existing_route = existing_route_for growable_backends t' (DestinationHash (replicate 16 7)) [],
     in_incoming_interface_gravity = Some 9, in_arrived_at = 1001\<rparr>"
  from learned_announce_is_refused_again [OF growable.routing_backends_axioms growable_table_sound t', of ?inp "[]"] t'
  show ?thesis
    by (simp add: sample_arrival_def descriptor_for_def gravity_preferred_def)
qed

end
